(* ===== verification/Prelude.thy ===== *)
theory Prelude
  imports Main "HOL-Library.Word" "HOL-Library.Monad_Syntax"
begin

text \<open>
  Shared types and lemmas of the development.

  \<^item> names for the machine types of the C++ sources (\<open>uint64_t\<close>, \<open>uint32_t\<close>, \<open>unsigned char\<close>);
  \<^item> bounds-checked array accesses: a read or write outside the used or allocated part of a
    C++ array is undefined behaviour, and is the value \<open>None\<close> here, so that every theorem
    which states that an operation returns \<open>Some\<close> result also states that it never leaves
    its arrays;
  \<^item> key-sorted association lists, the abstract view of every ordered index of the
    repository: insertion of an absent key, update, deletion, lookup, and how each of them
    acts on a list that is split at a search position.
\<close>

type_synonym u64 = "64 word"
type_synonym u32 = "32 word"
type_synonym u8 = "8 word"
type_synonym addr = nat

named_theorems arr_simps \<open>bounds-checked array accesses that succeed\<close>
named_theorems kv_simps \<open>key-sorted lists split at a search position\<close>

section \<open>Bounds-checked arrays\<close>

text \<open>\<open>xs[i]\<close> of a C++ array whose used part is the list \<open>xs\<close>.\<close>

definition rd :: "'a list \<Rightarrow> nat \<Rightarrow> 'a option" where
  "rd xs i = (if i < length xs then Some (xs ! i) else None)"

text \<open>\<open>xs[i] = x\<close> inside the used part.\<close>

definition wr :: "'a list \<Rightarrow> nat \<Rightarrow> 'a \<Rightarrow> 'a list option" where
  "wr xs i x = (if i < length xs then Some (xs[i := x]) else None)"

text \<open>
  \<open>std::copy_backward\<close> of the tail by one place and a store into the gap, for an array with
  room for \<open>cap\<close> elements.
\<close>

definition ins_at :: "nat \<Rightarrow> 'a list \<Rightarrow> nat \<Rightarrow> 'a \<Rightarrow> 'a list option" where
  "ins_at cap xs i x =
     (if length xs < cap \<and> i \<le> length xs then Some (take i xs @ x # drop i xs) else None)"

text \<open>\<open>std::copy\<close> of the tail one place to the left, over the element at \<open>i\<close>.\<close>

definition del_at :: "'a list \<Rightarrow> nat \<Rightarrow> 'a list option" where
  "del_at xs i = (if i < length xs then Some (take i xs @ drop (Suc i) xs) else None)"

text \<open>\<open>std::copy\<close> of a block behind the used part of an array with room for \<open>cap\<close> elements.\<close>

definition app_at :: "nat \<Rightarrow> 'a list \<Rightarrow> 'a list \<Rightarrow> 'a list option" where
  "app_at cap xs ys = (if length xs + length ys \<le> cap then Some (xs @ ys) else None)"

lemma rd_Some_iff [arr_simps]: "rd xs i = Some x \<longleftrightarrow> i < length xs \<and> xs ! i = x"
  by (auto simp: rd_def)

lemma rd_in_set: "rd xs i = Some x \<Longrightarrow> x \<in> set xs"
  by (auto simp: rd_def split: if_splits)

lemma rd_mid [simp]: "rd (as @ x # bs) (length as) = Some x"
  by (simp add: rd_def)

lemma rd_app1 [simp]: "i < length as \<Longrightarrow> rd (as @ bs) i = Some (as ! i)"
  by (simp add: rd_def nth_append)

lemma rd_last [simp]: "xs \<noteq> [] \<Longrightarrow> rd xs (length xs - Suc 0) = Some (last xs)"
  by (simp add: rd_def last_conv_nth)

lemma rd_map [simp]: "i < length xs \<Longrightarrow> rd (map f xs) i = Some (f (xs ! i))"
  by (simp add: rd_def)

lemma wr_mid [simp]: "wr (as @ x # bs) (length as) y = Some (as @ y # bs)"
  by (simp add: wr_def)

lemma ins_at_Some [arr_simps]:
  "length xs < cap \<Longrightarrow> i \<le> length xs \<Longrightarrow> ins_at cap xs i x = Some (take i xs @ x # drop i xs)"
  by (simp add: ins_at_def)

lemma ins_at_mid:
  "length as + length bs < cap \<Longrightarrow> ins_at cap (as @ bs) (length as) x = Some (as @ x # bs)"
  by (simp add: ins_at_def)

lemma del_at_mid [simp]: "del_at (as @ x # bs) (length as) = Some (as @ bs)"
  by (simp add: del_at_def)

lemma app_at_Some [arr_simps]: "length xs + length ys \<le> cap \<Longrightarrow> app_at cap xs ys = Some (xs @ ys)"
  by (simp add: app_at_def)

lemma last_take: "0 < m \<Longrightarrow> m \<le> length xs \<Longrightarrow> last (take m xs) = xs ! (m - 1)"
  by (subst last_conv_nth) auto

lemma length_takeWhile_less: "x \<in> set xs \<Longrightarrow> \<not> P x \<Longrightarrow> length (takeWhile P xs) < length xs"
  by (induction xs) auto

section \<open>Key-sorted association lists\<close>

abbreviation keys_of :: "('k \<times> 'v) list \<Rightarrow> 'k list" where
  "keys_of \<equiv> map fst"

abbreviation ksorted :: "('k::linorder \<times> 'v) list \<Rightarrow> bool" where
  "ksorted xs \<equiv> sorted_wrt (<) (keys_of xs)"

text \<open>Insertion of a pair unless its key is present (\<open>std::map::insert\<close>).\<close>

fun ins_kv :: "'k::linorder \<Rightarrow> 'v \<Rightarrow> ('k \<times> 'v) list \<Rightarrow> ('k \<times> 'v) list" where
  "ins_kv k v [] = [(k, v)]"
| "ins_kv k v ((a, b) # xs) =
     (if a < k then (a, b) # ins_kv k v xs else if k < a then (k, v) # (a, b) # xs else (a, b) # xs)"

text \<open>Insertion or overwriting (\<open>std::map::operator[]\<close> followed by an assignment).\<close>

fun upd_kv :: "'k::linorder \<Rightarrow> 'v \<Rightarrow> ('k \<times> 'v) list \<Rightarrow> ('k \<times> 'v) list" where
  "upd_kv k v [] = [(k, v)]"
| "upd_kv k v ((a, b) # xs) =
     (if a < k then (a, b) # upd_kv k v xs else if k < a then (k, v) # (a, b) # xs else (k, v) # xs)"

text \<open>Deletion of a key.\<close>

fun del_kv :: "'k::linorder \<Rightarrow> ('k \<times> 'v) list \<Rightarrow> ('k \<times> 'v) list" where
  "del_kv k [] = []"
| "del_kv k ((a, b) # xs) = (if a < k then (a, b) # del_kv k xs else if k < a then (a, b) # xs else xs)"

subsection \<open>Sets of keys and sortedness\<close>

lemma set_keys_ins_kv: "set (keys_of (ins_kv k v xs)) = insert k (set (keys_of xs))"
  by (induction k v xs rule: ins_kv.induct) auto

lemma set_keys_upd_kv: "set (keys_of (upd_kv k v xs)) = insert k (set (keys_of xs))"
  by (induction k v xs rule: upd_kv.induct) auto

lemma set_del_kv: "set (del_kv k xs) \<subseteq> set xs"
  by (induction k xs rule: del_kv.induct) auto

lemma ksorted_ins_kv: "ksorted xs \<Longrightarrow> ksorted (ins_kv k v xs)"
proof (induction k v xs rule: ins_kv.induct)
  case (2 k v a b xs)
  have "set (keys_of (ins_kv k v xs)) = insert k (set (keys_of xs))" by (rule set_keys_ins_kv)
  with 2 show ?case by (auto simp del: set_map)
qed simp

lemma ksorted_upd_kv: "ksorted xs \<Longrightarrow> ksorted (upd_kv k v xs)"
proof (induction k v xs rule: upd_kv.induct)
  case (2 k v a b xs)
  have "set (keys_of (upd_kv k v xs)) = insert k (set (keys_of xs))" by (rule set_keys_upd_kv)
  with 2 show ?case by (auto simp del: set_map)
qed simp

lemma ksorted_del_kv: "ksorted xs \<Longrightarrow> ksorted (del_kv k xs)"
proof (induction k xs rule: del_kv.induct)
  case (2 k a b xs)
  with set_del_kv [of k xs] show ?case by auto
qed simp

lemma ksorted_distinct: "ksorted xs \<Longrightarrow> distinct (keys_of xs)"
  using strict_sorted_iff by blast

subsection \<open>Lookup\<close>

lemma map_of_ins_kv:
  "ksorted xs \<Longrightarrow> map_of (ins_kv k v xs) = (if k \<in> set (keys_of xs) then map_of xs else (map_of xs)(k \<mapsto> v))"
proof (induction k v xs rule: ins_kv.induct)
  case (2 k v a b xs)
  then show ?case by (auto simp: fun_eq_iff)
qed simp

lemma map_of_upd_kv: "map_of (upd_kv k v xs) = (map_of xs)(k \<mapsto> v)"
  by (induction k v xs rule: upd_kv.induct) (auto simp: fun_eq_iff)

lemma map_of_eq_None_keys: "map_of xs k = None \<longleftrightarrow> k \<notin> set (keys_of xs)"
  by (simp add: map_of_eq_None_iff)

lemma map_of_del_kv: "ksorted xs \<Longrightarrow> map_of (del_kv k xs) = (map_of xs)(k := None)"
proof (induction k xs rule: del_kv.induct)
  case (2 k a b xs)
  have *: "map_of xs k = None" if "\<not> a < k"
    using 2(2) that unfolding map_of_eq_None_keys by (auto dest: order.strict_trans)
  show ?case
  proof (cases "a < k")
    case True
    with 2 show ?thesis by (auto simp: fun_eq_iff)
  next
    case False
    with * show ?thesis by (auto simp: fun_eq_iff)
  qed
qed simp

lemma length_ins_kv:
  "ksorted xs \<Longrightarrow> length (ins_kv k v xs) = (if k \<in> set (keys_of xs) then length xs else Suc (length xs))"
  by (induction k v xs rule: ins_kv.induct) auto

lemma length_del_kv:
  "ksorted xs \<Longrightarrow> length (del_kv k xs) = (if k \<in> set (keys_of xs) then length xs - 1 else length xs)"
proof (induction k xs rule: del_kv.induct)
  case (2 k a b xs)
  then show ?case by (cases xs) auto
qed simp

lemma del_kv_absent: "ksorted xs \<Longrightarrow> k \<notin> set (keys_of xs) \<Longrightarrow> del_kv k xs = xs"
  by (induction k xs rule: del_kv.induct) auto

lemma ins_kv_present: "ksorted xs \<Longrightarrow> k \<in> set (keys_of xs) \<Longrightarrow> ins_kv k v xs = xs"
  by (induction k v xs rule: ins_kv.induct) auto

lemma set_ins_kv_absent: "k \<notin> set (keys_of xs) \<Longrightarrow> set (ins_kv k v xs) = insert (k, v) (set xs)"
  by (induction k v xs rule: ins_kv.induct) auto

lemma set_del_kv_present:
  "ksorted xs \<Longrightarrow> (k, v) \<in> set xs \<Longrightarrow> set (del_kv k xs) = set xs - {(k, v)}"
  by (induction k xs rule: del_kv.induct) auto

lemma upd_kv_absent: "k \<notin> set (keys_of xs) \<Longrightarrow> upd_kv k v xs = ins_kv k v xs"
  by (induction k v xs rule: upd_kv.induct) auto

lemma upd_kv_keys: "ksorted xs \<Longrightarrow> k \<in> set (keys_of xs) \<Longrightarrow> keys_of (upd_kv k v xs) = keys_of xs"
  by (induction k v xs rule: upd_kv.induct) auto

lemma ksorted_set_unique: "ksorted xs \<Longrightarrow> ksorted ys \<Longrightarrow> set xs = set ys \<Longrightarrow> xs = ys"
proof (induction xs arbitrary: ys)
  case (Cons x xs)
  then obtain y zs where ys: "ys = y # zs" by (cases ys) auto
  have x: "\<forall>p \<in> set xs. fst x < fst p" and y: "\<forall>p \<in> set zs. fst y < fst p" using Cons.prems by (auto simp: ys)
  have "x = y" using Cons.prems(3) x y unfolding ys by (metis insertE less_asym list.set_intros(1) list.simps(15))
  moreover have "x \<notin> set xs" "y \<notin> set zs" using x y by auto
  ultimately have "set xs = set zs" using Cons.prems(3) by (simp add: ys insert_ident)
  with Cons \<open>x = y\<close> show ?case by (simp add: ys)
qed simp

lemma ksorted_map_unique: "ksorted xs \<Longrightarrow> ksorted ys \<Longrightarrow> map_of xs = map_of ys \<Longrightarrow> xs = ys"
  by (rule ksorted_set_unique) (simp_all add: ksorted_distinct map_of_inject_set)

lemma filter_ge_dropWhile: "ksorted xs \<Longrightarrow> filter (\<lambda>x. k \<le> fst x) xs = dropWhile (\<lambda>x. fst x < k) xs"
proof (induction xs)
  case (Cons x xs)
  show ?case
  proof (cases "fst x < k")
    case False
    then have "\<forall>y \<in> set xs. k \<le> fst y" using Cons.prems by (auto simp: not_less)
    with False show ?thesis by simp
  qed (use Cons in auto)
qed simp

subsection \<open>Splitting at a search position\<close>

lemma ins_kv_app_left [kv_simps]:
  "(\<forall>x \<in> set as. fst x < k) \<Longrightarrow> ins_kv k v (as @ bs) = as @ ins_kv k v bs"
  by (induction as) auto

lemma del_kv_app_left [kv_simps]:
  "(\<forall>x \<in> set as. fst x < k) \<Longrightarrow> del_kv k (as @ bs) = as @ del_kv k bs"
  by (induction as) auto

lemma ins_kv_app_right [kv_simps]:
  "xs \<noteq> [] \<Longrightarrow> k \<le> fst (last xs) \<Longrightarrow> ins_kv k v (xs @ ys) = ins_kv k v xs @ ys"
  by (induction k v xs rule: ins_kv.induct) (auto split: if_splits)

lemma del_kv_app_right [kv_simps]:
  "xs \<noteq> [] \<Longrightarrow> k \<le> fst (last xs) \<Longrightarrow> del_kv k (xs @ ys) = del_kv k xs @ ys"
  by (induction k xs rule: del_kv.induct) (auto split: if_splits)

lemma ins_kv_mid:
  assumes "\<forall>x \<in> set as. fst x < k" and "\<forall>x \<in> set bs. k < fst x"
  shows "ins_kv k v (as @ bs) = as @ (k, v) # bs"
  using assms ins_kv_app_left [of as k v bs] by (cases bs) auto

lemma del_kv_mid:
  assumes "\<forall>x \<in> set as. fst x < k"
  shows "del_kv k (as @ (k, v) # bs) = as @ bs"
  using assms by (simp add: kv_simps)

end
