(* ===== verification/Zipf.thy ===== *)
theory Zipf
  imports Prelude
begin

unbundle bit_operations_syntax

text \<open>
  The scrambled Zipfian generator (\<open>benchmark/zipf.h\<close>) and the two samplers of search keys
  (\<open>benchmark/utils.h\<close>). The floating-point part, which turns a random number into a rank, is
  a parameter: \<open>small\<close> and \<open>medium\<close> are the outcomes of the two comparisons and \<open>tail\<close> the
  converted power. The hash and the reduction to a position are 32-bit arithmetic, kept at
  their width. A division by zero or an access outside the array is \<open>None\<close>.
\<close>

section \<open>Definitions\<close>

definition fnv_prime :: u32 where "fnv_prime = 0x01000193"

definition fnv_seed :: u32 where "fnv_seed = 0x811C9DC5"

definition fnv1a_byte :: "u8 \<Rightarrow> u32 \<Rightarrow> u32" where
  "fnv1a_byte oneByte hash = (ucast oneByte XOR hash) * fnv_prime"

text \<open>The four bytes of an \<open>int\<close> in memory order on a little-endian machine.\<close>

definition bytes_of :: "u32 \<Rightarrow> u8 list" where
  "bytes_of w = map (\<lambda>i. ucast (drop_bit (8 * i) w)) [0, 1, 2, 3]"

definition fnv1a :: "u32 \<Rightarrow> u32 \<Rightarrow> u32" where
  "fnv1a fourBytes hash = fold fnv1a_byte (bytes_of fourBytes) hash"

definition zipf_rank :: "bool \<Rightarrow> bool \<Rightarrow> int \<Rightarrow> int" where
  "zipf_rank small medium tail = (if small then 0 else if medium then 1 else tail)"

text \<open>\<open>fnv1a(ret) % num_keys_\<close>: the \<open>int\<close> divisor is converted to \<open>uint32_t\<close>.\<close>

definition nextValue :: "int \<Rightarrow> bool \<Rightarrow> bool \<Rightarrow> int \<Rightarrow> int option" where
  "nextValue num_keys small medium tail =
     (let ret = zipf_rank small medium tail; n = (of_int num_keys :: u32) in
      if n = 0 then None else Some (sint (fnv1a (of_int ret) fnv_seed mod n)))"

text \<open>\<open>array[pos]\<close> with a signed position.\<close>

definition rd_int :: "'a list \<Rightarrow> int \<Rightarrow> 'a option" where
  "rd_int xs i = (if i < 0 then None else rd xs (nat i))"

text \<open>The positions drawn by \<open>std::uniform_int_distribution\<close> are given.\<close>

fun get_search_keys :: "'k list \<Rightarrow> int list \<Rightarrow> 'k list option" where
  "get_search_keys arr [] = Some []"
| "get_search_keys arr (pos # ps) =
     do { k \<leftarrow> rd_int arr pos; ks \<leftarrow> get_search_keys arr ps; Some (k # ks) }"

fun get_search_keys_zipf :: "'k list \<Rightarrow> int \<Rightarrow> (bool \<times> bool \<times> int) list \<Rightarrow> 'k list option" where
  "get_search_keys_zipf arr num_keys [] = Some []"
| "get_search_keys_zipf arr num_keys ((small, medium, tail) # ds) =
     do { pos \<leftarrow> nextValue num_keys small medium tail; k \<leftarrow> rd_int arr pos;
          ks \<leftarrow> get_search_keys_zipf arr num_keys ds; Some (k # ks) }"

section \<open>Bounds\<close>

lemma sint_small: "uint (w :: u32) < 2 ^ 31 \<Longrightarrow> sint w = uint w"
  by (simp add: sint_uint signed_take_bit_int_eq_self_iff order_trans [OF _ uint_ge_0])

lemma nextValue_bounds:
  assumes "0 < n" "n < 2 ^ 31"
  shows "\<exists>p. nextValue n small medium tail = Some p \<and> 0 \<le> p \<and> p < n"
proof -
  let ?n = "of_int n :: u32"
  have un: "uint ?n = n" using assms by (simp add: uint_word_of_int)
  then have nz: "?n \<noteq> 0" using assms(1) by auto
  define h where "h = fnv1a (of_int (zipf_rank small medium tail)) fnv_seed"
  have "uint (h mod ?n) = uint h mod n" by (simp add: uint_mod un)
  moreover from assms(1) have "0 \<le> uint h mod n" "uint h mod n < n" by simp_all
  ultimately have "sint (h mod ?n) = uint h mod n" using assms(2) by (simp add: sint_small)
  then show ?thesis using nz assms(1) by (simp add: nextValue_def Let_def h_def)
qed

lemma get_search_keys_ok:
  "\<forall>p \<in> set ps. 0 \<le> p \<and> p < int (length arr) \<Longrightarrow> get_search_keys arr ps = Some (map (\<lambda>p. arr ! nat p) ps)"
  by (induction ps) (auto simp: rd_int_def rd_def nat_less_iff)

lemma get_search_keys_zipf_ok:
  assumes "arr \<noteq> []" "length arr < 2 ^ 31"
  shows "\<exists>ks. get_search_keys_zipf arr (int (length arr)) ds = Some ks \<and> length ks = length ds \<and> set ks \<subseteq> set arr"
proof (induction ds)
  case (Cons d ds)
  obtain small medium tail where d: "d = (small, medium, tail)" by (cases d)
  from assms obtain p where p: "nextValue (int (length arr)) small medium tail = Some p" "0 \<le> p" "p < int (length arr)"
    using nextValue_bounds [of "int (length arr)" small medium tail] by auto
  then have r: "rd_int arr p = Some (arr ! nat p)" by (simp add: rd_int_def rd_def nat_less_iff)
  have "arr ! nat p \<in> set arr" using p by (simp add: nat_less_iff)
  with Cons.IH show ?case using p(1) r by (auto simp: d)
qed simp

section \<open>Main theorem\<close>

text \<open>
  C32: whatever the floating-point part computes, the Zipfian sampler hashes it to a position
  inside the array: for an array with fewer than \<open>2 ^ 31\<close> keys it never reads outside it and
  returns as many keys of the array as were asked for.
\<close>

theorem zipf_sampler_in_bounds:
  assumes "arr \<noteq> []" "length arr < 2 ^ 31"
  shows "\<exists>ks. get_search_keys_zipf arr (int (length arr)) ds = Some ks \<and> length ks = length ds \<and> set ks \<subseteq> set arr"
  by (rule get_search_keys_zipf_ok [OF assms])

theorem zipf_sampler_in_bounds_witness:
  "\<exists>ks. get_search_keys_zipf [2, 3, 5, 7::nat] 4 [(False, False, -1), (True, False, 0)] = Some ks \<and> length ks = 2"
  using zipf_sampler_in_bounds [of "[2, 3, 5, 7::nat]" "[(False, False, -1), (True, False, 0)]"] by auto

end
