(* ===== verification/Workload.thy ===== *)
theory Workload
  imports Zipf "HOL-Library.Multiset"
begin

text \<open>
  The data side of the benchmark (\<open>benchmark/benchmark.h\<close>, \<open>benchmark/utils.h\<close>): loading the key
  file, preparing the initial table, and generating the list of operations.

  A key file is given by its contents: the 64-bit words of a binary file, or the lines of a
  text file with a parser for a line. Random numbers, shuffles and the two products of a ratio
  with the table size (\<open>double\<close> arithmetic) are parameters; the ratios themselves are compared
  and added as values of an arbitrary linear order with an addition function.
\<close>

section \<open>Loading keys\<close>

text \<open>
  A read that goes past the end of the file leaves the rest of the array uninitialised; the
  whole result is \<open>None\<close> then.
\<close>

definition load_binary_data :: "int \<Rightarrow> u64 list option \<Rightarrow> u64 list option" where
  "load_binary_data len file =
     (case file of
        None \<Rightarrow> Some []
      | Some [] \<Rightarrow> None
      | Some (max_size # dat) \<Rightarrow>
          (let n = (if len < 0 \<or> len > uint max_size then unat max_size else nat len) in
           if n \<le> length dat then Some (take n dat) else None))"

fun text_loop :: "(string \<Rightarrow> u64) \<Rightarrow> int \<Rightarrow> int \<Rightarrow> string list \<Rightarrow> u64 list" where
  "text_loop parse len i [] = []"
| "text_loop parse len i (str # is) =
     (if i < len \<or> len < 0 then parse str # text_loop parse len (i + 1) is else [])"

definition load_text_data :: "(string \<Rightarrow> u64) \<Rightarrow> int \<Rightarrow> string list option \<Rightarrow> u64 list option" where
  "load_text_data parse len file =
     (case file of None \<Rightarrow> Some [] | Some ls \<Rightarrow> Some (text_loop parse len 0 ls))"

datatype 'a outcome = Done 'a | Exit | Ub

record tables =
  keys :: "u64 list"
  init_keys :: "u64 list"
  init_key_values :: "(u64 \<times> u64) list"

text \<open>
  \<open>loaded\<close> is what the loader returned for the file type, \<open>None\<close> for another file type or an
  uninitialised array; \<open>init_size\<close> is the conversion of \<open>init_table_ratio * table_size\<close>. The
  first ten keys are printed whatever the table size is.
\<close>

definition load_keys ::
  "bool \<Rightarrow> (u64 list \<Rightarrow> u64 list) \<Rightarrow> (nat \<Rightarrow> nat) \<Rightarrow> u64 list option option \<Rightarrow> tables outcome" where
  "load_keys data_shift shuffle init_size loaded =
     (case loaded of
        None \<Rightarrow> Exit
      | Some None \<Rightarrow> Ub
      | Some (Some ks) \<Rightarrow>
          if ks = [] then Exit
          else
            let ks' = (if data_shift then ks else shuffle (remdups_adj (sort ks)));
                init_table_size = init_size (length ks')
            in if length ks < 10 \<or> init_table_size > length ks' then Ub
               else let iks = sort (take init_table_size ks')
                    in Done \<lparr>keys = ks', init_keys = iks, init_key_values = map (\<lambda>k. (k, 123456789)) iks\<rparr>)"

section \<open>Generating operations\<close>

datatype Operation = READ | INSERT | DELETE | SCAN | UPDATE

record 'd ratios =
  read_ratio :: 'd
  insert_ratio :: 'd
  update_ratio :: 'd
  scan_ratio :: 'd

text \<open>
  The loop of \<open>generate_operations\<close>, over the random numbers \<open>prob\<close> of its rounds. A \<open>break\<close>
  sets \<open>operations_num\<close> to the number of operations so far, so it is always the length of the
  result.
\<close>

fun gen_loop ::
  "('d::linorder \<Rightarrow> 'd \<Rightarrow> 'd) \<Rightarrow> 'd ratios \<Rightarrow> nat \<Rightarrow> 'k list \<Rightarrow> 'k list \<Rightarrow> 'd list \<Rightarrow> nat \<Rightarrow> nat \<Rightarrow> nat \<Rightarrow>
   (Operation \<times> 'k) list option" where
  "gen_loop dadd r table_size sample_ptr ks [] sample_counter insert_counter delete_counter = Some []"
| "gen_loop dadd r table_size sample_ptr ks (prob # ps) sample_counter insert_counter delete_counter =
     (let t1 = read_ratio r; t2 = dadd t1 (insert_ratio r);
          t3 = dadd t2 (update_ratio r); t4 = dadd t3 (scan_ratio r)
      in
      if prob < t1 then
        do { k \<leftarrow> rd sample_ptr sample_counter;
             ops \<leftarrow> gen_loop dadd r table_size sample_ptr ks ps (sample_counter + 1) insert_counter delete_counter;
             Some ((READ, k) # ops) }
      else if prob < t2 then
        (if insert_counter \<ge> table_size then Some []
         else do { k \<leftarrow> rd ks insert_counter;
                   ops \<leftarrow> gen_loop dadd r table_size sample_ptr ks ps sample_counter (insert_counter + 1) delete_counter;
                   Some ((INSERT, k) # ops) })
      else if prob < t3 then
        do { k \<leftarrow> rd sample_ptr sample_counter;
             ops \<leftarrow> gen_loop dadd r table_size sample_ptr ks ps (sample_counter + 1) insert_counter delete_counter;
             Some ((UPDATE, k) # ops) }
      else if prob < t4 then
        do { k \<leftarrow> rd sample_ptr sample_counter;
             ops \<leftarrow> gen_loop dadd r table_size sample_ptr ks ps (sample_counter + 1) insert_counter delete_counter;
             Some ((SCAN, k) # ops) }
      else
        (if delete_counter \<ge> table_size then Some []
         else do { k \<leftarrow> rd ks delete_counter;
                   ops \<leftarrow> gen_loop dadd r table_size sample_ptr ks ps sample_counter insert_counter (delete_counter + 1);
                   Some ((DELETE, k) # ops) }))"

text \<open>
  \<open>shift_rest\<close> is the sort and shuffle of the keys behind the initial table when \<open>data_shift\<close>
  is set; \<open>del_start\<close> is the conversion of \<open>table_size * (1 - del_table_ratio)\<close>.
\<close>

definition generate_operations ::
  "('d::linorder \<Rightarrow> 'd \<Rightarrow> 'd) \<Rightarrow> 'd ratios \<Rightarrow> bool \<Rightarrow> ('k::linorder list \<Rightarrow> 'k list) \<Rightarrow> nat \<Rightarrow> nat \<Rightarrow> 'k list \<Rightarrow> 'k list \<Rightarrow>
   'd list \<Rightarrow> (Operation \<times> 'k) list option" where
  "generate_operations dadd r data_shift shuffle init_table_size del_start sample_ptr ks probs =
     (let table_size = length ks;
          ks' = (if data_shift \<and> table_size - init_table_size > 0
                 then take init_table_size ks @ shuffle (sort (drop init_table_size ks)) else ks)
      in gen_loop dadd r table_size sample_ptr ks' probs 0 init_table_size del_start)"

section \<open>Properties of the generated operations\<close>

definition keys_with :: "Operation set \<Rightarrow> (Operation \<times> 'k) list \<Rightarrow> 'k list" where
  "keys_with A ops = map snd (filter (\<lambda>p. fst p \<in> A) ops)"

lemma keys_with_simps [simp]:
  "keys_with A [] = []" "keys_with A ((x, k) # ops) = (if x \<in> A then k # keys_with A ops else keys_with A ops)"
  by (simp_all add: keys_with_def)

text \<open>
  The samples and the two counters run through their arrays without gaps and without leaving
  them.
\<close>

lemma gen_loop_ok:
  assumes "sc + length ps \<le> length smp" "ts = length ks"
  shows "\<exists>ops. gen_loop dadd r ts smp ks ps sc ic dc = Some ops \<and> length ops \<le> length ps \<and>
    set (keys_with {READ, UPDATE, SCAN} ops) \<subseteq> set smp \<and>
    keys_with {INSERT} ops = take (length (keys_with {INSERT} ops)) (drop ic ks) \<and>
    keys_with {DELETE} ops = take (length (keys_with {DELETE} ops)) (drop dc ks)"
  using assms(1)
proof (induction ps arbitrary: sc ic dc)
  case (Cons p ps)
  have s: "rd smp sc = Some (smp ! sc)" "smp ! sc \<in> set smp" using Cons.prems by (auto simp: rd_def)
  have d: "rd ks i = Some (ks ! i)" "drop i ks = ks ! i # drop (Suc i) ks" if "i < ts" for i
    using that assms(2) by (auto simp: rd_def Cons_nth_drop_Suc)
  note IH = Cons.IH [of "sc + 1" ic dc] Cons.IH [of sc "ic + 1" dc] Cons.IH [of sc ic "dc + 1"]
  let ?t1 = "read_ratio r" and ?t2 = "dadd (read_ratio r) (insert_ratio r)"
  let ?t3 = "dadd ?t2 (update_ratio r)"
  consider "p < ?t1" | "\<not> p < ?t1" "p < ?t2" "ic < ts" | "\<not> p < ?t1" "p < ?t2" "\<not> ic < ts"
    | "\<not> p < ?t1" "\<not> p < ?t2" "p < ?t3" | "\<not> p < ?t1" "\<not> p < ?t2" "\<not> p < ?t3" "p < dadd ?t3 (scan_ratio r)"
    | "\<not> p < ?t1" "\<not> p < ?t2" "\<not> p < ?t3" "\<not> p < dadd ?t3 (scan_ratio r)" "dc < ts"
    | "\<not> p < ?t1" "\<not> p < ?t2" "\<not> p < ?t3" "\<not> p < dadd ?t3 (scan_ratio r)" "\<not> dc < ts"
    by blast
  then show ?case
    by cases (use Cons.prems s d IH in \<open>auto simp: Let_def\<close>)
qed simp

definition shuffles :: "('a list \<Rightarrow> 'a list) \<Rightarrow> bool" where
  "shuffles f \<longleftrightarrow> (\<forall>xs. mset (f xs) = mset xs)"

lemma shufflesD: "shuffles f \<Longrightarrow> set (f xs) = set xs" "shuffles f \<Longrightarrow> length (f xs) = length xs"
  "shuffles f \<Longrightarrow> distinct (f xs) = distinct xs"
  unfolding shuffles_def by (metis mset_eq_setD, metis mset_eq_length, metis mset_eq_imp_distinct_iff)

lemma distinct_remdups_adj_sort: "distinct (remdups_adj (sort xs))"
proof -
  have "sorted ys \<Longrightarrow> distinct (remdups_adj ys)" for ys :: "'a list"
    by (induction ys rule: remdups_adj.induct) (auto simp: less_le)
  then show ?thesis by simp
qed

lemma load_keys_ok:
  assumes "shuffles shuffle" "\<forall>n. init_size n \<le> n" "10 \<le> length ks"
  shows "\<exists>t. load_keys False shuffle init_size (Some (Some ks)) = Done t \<and>
    distinct (keys t) \<and> set (keys t) = set ks \<and> ksorted (init_key_values t) \<and>
    keys_of (init_key_values t) = init_keys t \<and>
    set (init_keys t) = set (take (init_size (length (keys t))) (keys t))"
proof -
  define ks' where "ks' = shuffle (remdups_adj (sort ks))"
  have d: "distinct ks'" "set ks' = set ks"
    using shufflesD [OF assms(1)] distinct_remdups_adj_sort [of ks] by (auto simp: ks'_def)
  let ?i = "sort (take (init_size (length ks')) ks')"
  have "sorted_wrt (<) ?i" using d(1) by (simp add: strict_sorted_iff)
  moreover have "ks \<noteq> []" "\<not> length ks < 10" "\<not> init_size (length ks') > length ks'"
    using assms(2,3) by (auto simp: not_less)
  ultimately show ?thesis
    using d by (auto simp: load_keys_def Let_def ks'_def [symmetric] o_def)
qed

lemma load_keys_init:
  assumes "load_keys False shuffle init_size (Some (Some ks)) = Done t"
  shows "length (init_keys t) = min (length (keys t)) (init_size (length (keys t)))"
    "init_key_values t = map (\<lambda>k. (k, 123456789)) (init_keys t)"
  using assms by (auto simp: load_keys_def Let_def split: if_splits)

lemma generate_operations_ok:
  assumes "shuffles shuffle" "distinct ks" "n \<le> length ks" "length probs \<le> length smp" "set smp \<subseteq> set (take n ks)"
  shows "\<exists>ops. generate_operations dadd r data_shift shuffle n dstart smp ks probs = Some ops \<and>
    length ops \<le> length probs \<and>
    set (keys_with {READ, UPDATE, SCAN} ops) \<subseteq> set (take n ks) \<and>
    distinct (keys_with {INSERT} ops) \<and> set (keys_with {INSERT} ops) \<subseteq> set (drop n ks) \<and>
    distinct (keys_with {DELETE} ops) \<and> (\<not> data_shift \<longrightarrow> set (keys_with {DELETE} ops) \<subseteq> set (drop dstart ks))"
proof -
  define ks' where "ks' = (if data_shift \<and> length ks - n > 0 then take n ks @ shuffle (sort (drop n ks)) else ks)"
  have "distinct (take n ks @ drop n ks)" using assms(2) by simp
  then have dd: "set (take n ks) \<inter> set (drop n ks) = {}" by (auto simp del: append_take_drop_id)
  have ks': "length ks' = length ks" "distinct ks'" "set (drop n ks') = set (drop n ks)"
    using shufflesD [OF assms(1)] assms(2,3) dd by (auto simp: ks'_def)
  obtain ops where ops: "gen_loop dadd r (length ks) smp ks' probs 0 n dstart = Some ops" "length ops \<le> length probs"
    "set (keys_with {READ, UPDATE, SCAN} ops) \<subseteq> set smp"
    and ins: "keys_with {INSERT} ops = take (length (keys_with {INSERT} ops)) (drop n ks')"
    and del: "keys_with {DELETE} ops = take (length (keys_with {DELETE} ops)) (drop dstart ks')"
    using gen_loop_ok [of 0 probs smp "length ks" ks' dadd r n dstart] assms(4) ks'(1) by auto
  have "distinct (keys_with {INSERT} ops)" "set (keys_with {INSERT} ops) \<subseteq> set (drop n ks)"
    using ks' by (subst ins, simp, subst ins, metis set_take_subset)
  moreover have "distinct (keys_with {DELETE} ops)" using ks'(2) by (subst del) simp
  moreover have "\<not> data_shift \<longrightarrow> set (keys_with {DELETE} ops) \<subseteq> set (drop dstart ks)"
    by (subst del) (auto simp: ks'_def dest: in_set_takeD)
  moreover have "generate_operations dadd r data_shift shuffle n dstart smp ks probs = Some ops"
    using ops(1) by (simp only: generate_operations_def Let_def ks'_def)
  ultimately show ?thesis using ops(2,3) assms(5) by blast
qed

section \<open>Main theorems\<close>





end
