(* ===== verification/IndexApi.thy ===== *)
theory IndexApi
  imports Prelude "HOL-Library.Multiset"
begin

text \<open>
  The abstract class \<open>indexInterface\<close> (\<open>competitor/indexInterface.h\<close>) and the test driver
  \<open>ours/test.cpp\<close> that runs against it.

  An object of the class is a record of its virtual functions over a state type; a call that
  runs into undefined behaviour is \<open>None\<close>. The locale \<open>bounded_index\<close> states what a driver relies
  on: the state has a key-sorted list of pairs as its abstract value, a lookup reads it, an
  insertion of an absent key and the removal of a present key succeed and change it in the
  obvious way. What an index does on the other branches is left open, since the indexes of the
  repository differ there. An index may be limited in the number of updates and in the pairs that it
  can store; \<open>index_api\<close> is the contract of one without limits. \<open>bounded_scan\<close> and \<open>index_scan\<close> add the
  contract of range scans.

  \<open>parlay::random_shuffle\<close>, \<open>parlay::sort_inplace\<close> and the order in which \<open>parlay::parallel_for\<close>
  runs its iterations are parameters of the drivers.
\<close>

section \<open>The interface\<close>

record ('s, 'k, 'v) indexInterface =
  bulk_load_op :: "'s \<Rightarrow> ('k \<times> 'v) list \<Rightarrow> 's option"
  get_op :: "'s \<Rightarrow> 'k \<Rightarrow> 'v option option"
  put_op :: "'s \<Rightarrow> 'k \<Rightarrow> 'v \<Rightarrow> ('s \<times> bool) option"
  update_op :: "'s \<Rightarrow> 'k \<Rightarrow> 'v \<Rightarrow> ('s \<times> bool) option"
  remove_op :: "'s \<Rightarrow> 'k \<Rightarrow> ('s \<times> bool) option"
  scan_op :: "'s \<Rightarrow> 'k \<Rightarrow> nat \<Rightarrow> (nat \<times> ('k \<times> 'v) list) option"

section \<open>The test driver\<close>

datatype test_error = Undefined | AssertionFailed

text \<open>The three parallel loops of \<open>TestReadWrite\<close>, in the order in which the iterations run.\<close>

fun put_all :: "('s, 'k, 'v) indexInterface \<Rightarrow> 's \<Rightarrow> ('k \<times> 'v) list \<Rightarrow> test_error + 's" where
  "put_all I s [] = Inr s"
| "put_all I s ((k, v) # xs) =
     (case put_op I s k v of
        None \<Rightarrow> Inl Undefined
      | Some (s', ok) \<Rightarrow> if ok then put_all I s' xs else Inl AssertionFailed)"

fun get_all :: "('s, 'k, 'v) indexInterface \<Rightarrow> 's \<Rightarrow> ('k \<times> 'v) list \<Rightarrow> test_error + unit" where
  "get_all I s [] = Inr ()"
| "get_all I s ((k, v) # xs) =
     (case get_op I s k of
        None \<Rightarrow> Inl Undefined
      | Some r \<Rightarrow> if r = Some v then get_all I s xs else Inl AssertionFailed)"

fun remove_all :: "('s, 'k, 'v) indexInterface \<Rightarrow> 's \<Rightarrow> ('k \<times> 'v) list \<Rightarrow> test_error + 's" where
  "remove_all I s [] = Inr s"
| "remove_all I s ((k, v) # xs) =
     (case remove_op I s k of
        None \<Rightarrow> Inl Undefined
      | Some (s', ok) \<Rightarrow> if ok then remove_all I s' xs else Inl AssertionFailed)"

definition TestReadWrite ::
  "('s, 'k, 'v) indexInterface \<Rightarrow> (('k \<times> 'v) list \<Rightarrow> ('k \<times> 'v) list) \<Rightarrow> (('k \<times> 'v) list \<Rightarrow> ('k \<times> 'v) list) \<Rightarrow>
   (('k \<times> 'v) list \<Rightarrow> ('k \<times> 'v) list) \<Rightarrow> 's \<Rightarrow> ('k \<times> 'v) list \<Rightarrow> test_error + 's" where
  "TestReadWrite I random_shuffle sort_inplace parallel s0 entries0 =
     (let entries = random_shuffle entries0;
          n = length entries;
          e1 = sort_inplace (take (n div 2) entries);
          e2 = sort_inplace (drop (n div 2) entries)
      in case bulk_load_op I s0 e1 of
           None \<Rightarrow> Inl Undefined
         | Some s1 \<Rightarrow>
             (case put_all I s1 (parallel e2) of
                Inl e \<Rightarrow> Inl e
              | Inr s2 \<Rightarrow>
                  (case get_all I s2 (parallel entries) of
                     Inl e \<Rightarrow> Inl e
                   | Inr u \<Rightarrow> remove_all I s2 (parallel e2))))"

text \<open>
  The read test: \<open>rounds\<close> are the random permutations of the successive rounds; the result is
  \<open>good\<close>. The driver compares the payload with the position of the key, converted by \<open>pay\<close> from
  \<open>size_t\<close> to the payload type.
\<close>

fun read_round :: "('s, 'k, 'v) indexInterface \<Rightarrow> (nat \<Rightarrow> 'v) \<Rightarrow> 's \<Rightarrow> ('k \<times> 'v) list \<Rightarrow> nat list \<Rightarrow> bool list option" where
  "read_round I pay s entries [] = Some []"
| "read_round I pay s entries (i # ids) =
     do { e \<leftarrow> rd entries i; r \<leftarrow> get_op I s (fst e);
          rest \<leftarrow> read_round I pay s entries ids;
          Some ((r = Some (pay i)) # rest) }"

fun read_rounds :: "('s, 'k, 'v) indexInterface \<Rightarrow> (nat \<Rightarrow> 'v) \<Rightarrow> 's \<Rightarrow> ('k \<times> 'v) list \<Rightarrow> nat list list \<Rightarrow> bool option" where
  "read_rounds I pay s entries [] = Some True"
| "read_rounds I pay s entries (ids # rounds) =
     do { res \<leftarrow> read_round I pay s entries ids;
          good \<leftarrow> read_rounds I pay s entries rounds;
          Some ((\<not> list_ex Not res) \<and> good) }"

definition TestRead :: "('s, 'k, 'v) indexInterface \<Rightarrow> (nat \<Rightarrow> 'v) \<Rightarrow> 's \<Rightarrow> ('k \<times> 'v) list \<Rightarrow> nat list list \<Rightarrow> bool option" where
  "TestRead I pay s0 entries rounds = do { s \<leftarrow> bulk_load_op I s0 entries; read_rounds I pay s entries rounds }"

text \<open>What is relied on of the parameters.\<close>

definition permutes_list :: "('a list \<Rightarrow> 'a list) \<Rightarrow> bool" where
  "permutes_list f \<longleftrightarrow> (\<forall>xs. mset (f xs) = mset xs)"

definition sorts_keys :: "(('k::linorder \<times> 'v) list \<Rightarrow> ('k \<times> 'v) list) \<Rightarrow> bool" where
  "sorts_keys f \<longleftrightarrow> (\<forall>xs. mset (f xs) = mset xs \<and> sorted (keys_of (f xs)))"

lemma sorts_sort_key: "sorts_keys (sort_key fst)"
  by (simp add: sorts_keys_def)

section \<open>The contracts\<close>

text \<open>
  The general contract has a budget: \<open>inv n s\<close> says that \<open>s\<close> is well formed and that \<open>n\<close> more updates
  are within the limits of the index, \<open>room n\<close> that \<open>n\<close> pairs and updates are within the limits of a new
  one, and \<open>ok\<close> which pairs may be stored.
\<close>

locale bounded_index =
  fixes I :: "('s, 'k::linorder, 'v) indexInterface"
    and inv :: "nat \<Rightarrow> 's \<Rightarrow> bool"
    and fresh :: "'s \<Rightarrow> bool"
    and items :: "'s \<Rightarrow> ('k \<times> 'v) list"
    and ok :: "'k \<Rightarrow> 'v \<Rightarrow> bool"
    and room :: "nat \<Rightarrow> bool"
  assumes items_sorted: "inv n s \<Longrightarrow> ksorted (items s)"
    and bulk_load_law: "fresh s \<Longrightarrow> ksorted xs \<Longrightarrow> \<forall>(k, v) \<in> set xs. ok k v \<Longrightarrow> room (length xs + n) \<Longrightarrow>
      \<exists>s'. bulk_load_op I s xs = Some s' \<and> inv n s' \<and> items s' = xs"
    and get_law: "inv n s \<Longrightarrow> get_op I s k = Some (map_of (items s) k)"
    and put_law: "inv (Suc n) s \<Longrightarrow> k \<notin> set (keys_of (items s)) \<Longrightarrow> ok k v \<Longrightarrow>
      \<exists>s'. put_op I s k v = Some (s', True) \<and> inv n s' \<and> items s' = ins_kv k v (items s)"
    and remove_law: "inv (Suc n) s \<Longrightarrow> k \<in> set (keys_of (items s)) \<Longrightarrow>
      \<exists>s'. remove_op I s k = Some (s', True) \<and> inv n s' \<and> items s' = del_kv k (items s)"
    and update_law: "inv (Suc n) s \<Longrightarrow> k \<in> set (keys_of (items s)) \<Longrightarrow> ok k v \<Longrightarrow>
      \<exists>s' u. update_op I s k v = Some (s', u) \<and> inv n s' \<and> keys_of (items s') = keys_of (items s)"
    and scan_total: "inv n s \<Longrightarrow> \<exists>r. scan_op I s k m = Some r"
begin

text \<open>Each loop of the driver succeeds and changes the set of pairs as expected.\<close>

lemma put_all_ok:
  assumes "inv (length xs + n) s" "distinct (keys_of xs)" "set (keys_of xs) \<inter> set (keys_of (items s)) = {}"
    "\<forall>(k, v) \<in> set xs. ok k v"
  shows "\<exists>s'. put_all I s xs = Inr s' \<and> inv n s' \<and> set (items s') = set (items s) \<union> set xs"
  using assms
proof (induction xs arbitrary: s)
  case (Cons x xs)
  obtain k v where x: "x = (k, v)" by (cases x)
  have k: "k \<notin> set (keys_of (items s))" using Cons.prems(3) by (auto simp: x)
  have "inv (Suc (length xs + n)) s" "ok k v" using Cons.prems(1,4) by (simp_all add: x)
  from put_law [OF this(1) k this(2)] obtain s1 where
    s1: "put_op I s k v = Some (s1, True)" "inv (length xs + n) s1" "items s1 = ins_kv k v (items s)" by blast
  have "set (keys_of xs) \<inter> set (keys_of (items s1)) = {}"
    using Cons.prems(2,3) unfolding s1(3) set_keys_ins_kv by (auto simp: x)
  with Cons.IH [OF s1(2)] Cons.prems(2,4) obtain s' where
    "put_all I s1 xs = Inr s'" "inv n s'" "set (items s') = set (items s1) \<union> set xs" by auto
  then show ?case using s1 set_ins_kv_absent [OF k, of v] by (simp add: x)
qed simp

lemma get_all_ok:
  assumes "inv n s" "set xs \<subseteq> set (items s)" shows "get_all I s xs = Inr ()"
  using assms(2)
proof (induction xs)
  case (Cons x xs)
  obtain k v where x: "x = (k, v)" by (cases x)
  then have "map_of (items s) k = Some v"
    using Cons.prems ksorted_distinct [OF items_sorted [OF assms(1)]] by simp
  with Cons get_law [OF assms(1)] show ?case by (simp add: x)
qed simp

lemma remove_all_ok:
  assumes "inv (length xs + n) s" "distinct (keys_of xs)" "set xs \<subseteq> set (items s)"
  shows "\<exists>s'. remove_all I s xs = Inr s' \<and> inv n s' \<and> set (items s') = set (items s) - set xs"
  using assms
proof (induction xs arbitrary: s)
  case (Cons x xs)
  obtain k v where x: "x = (k, v)" by (cases x)
  have so: "ksorted (items s)" by (rule items_sorted [OF Cons.prems(1)])
  have k: "k \<in> set (keys_of (items s))" using Cons.prems(3) by (force simp: x)
  have "inv (Suc (length xs + n)) s" using Cons.prems(1) by simp
  from remove_law [OF this k] obtain s1 where
    s1: "remove_op I s k = Some (s1, True)" "inv (length xs + n) s1" "items s1 = del_kv k (items s)" by blast
  have d: "set (items s1) = set (items s) - {x}"
    using s1(3) set_del_kv_present [OF so, of k v] Cons.prems(3) by (simp add: x)
  moreover have "x \<notin> set xs" using Cons.prems(2) by (force simp: x)
  ultimately have "set xs \<subseteq> set (items s1)" using Cons.prems(3) by auto
  with Cons.IH [OF s1(2)] Cons.prems(2) obtain s' where
    "remove_all I s1 xs = Inr s'" "inv n s'" "set (items s') = set (items s1) - set xs" by auto
  then show ?case using s1 d by (auto simp: x)
qed simp

theorem TestReadWrite_ok:
  assumes "fresh s0" "distinct (keys_of entries)" "permutes_list shuffle" "sorts_keys srt" "permutes_list par"
    "\<forall>(k, v) \<in> set entries. ok k v" "room (length entries div 2 + 2 * (length entries - length entries div 2))"
  shows "\<exists>s. TestReadWrite I shuffle srt par s0 entries = Inr s \<and> inv 0 s \<and>
    items s = srt (take (length entries div 2) (shuffle entries))"
proof -
  define es where "es = shuffle entries"
  define n where "n = length es div 2"
  define e1 e2 where "e1 = srt (take n es)" and "e2 = srt (drop n es)"
  have ms: "mset es = mset entries" using assms(3) by (simp add: permutes_list_def es_def)
  then have len: "length es = length entries" by (rule mset_eq_length)
  have d: "distinct (keys_of es)" using ms assms(2) by (metis mset_map mset_eq_imp_distinct_iff)
  have e: "mset e1 = mset (take n es)" "mset e2 = mset (drop n es)" "sorted (keys_of e1)"
    using assms(4) by (auto simp: sorts_keys_def e1_def e2_def)
  have sets: "set e1 = set (take n es)" "set e2 = set (drop n es)" using e by (auto dest: mset_eq_setD)
  have "set es = set entries" using ms by (rule mset_eq_setD)
  then have oks: "\<forall>(k, v) \<in> set e1. ok k v" "\<forall>(k, v) \<in> set e2. ok k v"
    using assms(6) in_set_takeD [of _ n es] in_set_dropD [of _ n es] by (auto simp: sets)
  have "length e1 = length entries div 2" "length e2 = length entries - length entries div 2"
    using mset_eq_length [OF e(1)] mset_eq_length [OF e(2)] len by (simp_all add: n_def)
  then have rm: "room (length e1 + (length e2 + (length e2 + 0)))" using assms(7) by (simp add: mult_2)
  have "distinct (keys_of (take n es @ drop n es))" using d by simp
  then have dd: "distinct (keys_of (take n es))" "distinct (keys_of (drop n es))"
    "set (keys_of (take n es)) \<inter> set (keys_of (drop n es)) = {}" by (auto simp del: append_take_drop_id)
  have d1: "distinct (keys_of e1)" "distinct (keys_of e2)"
    using dd e by (metis mset_map mset_eq_imp_distinct_iff)+
  then have so: "ksorted e1" using e(3) by (simp add: strict_sorted_iff)
  from bulk_load_law [OF assms(1) so oks(1) rm] obtain s1 where
    s1: "bulk_load_op I s0 e1 = Some s1" "inv (length e2 + (length e2 + 0)) s1" "items s1 = e1" by blast
  have p: "mset (par xs) = mset xs" for xs using assms(5) by (simp add: permutes_list_def)
  then have ps: "set (par xs) = set xs" for xs by (rule mset_eq_setD)
  have pl: "length (par xs) = length xs" for xs using p by (rule mset_eq_length)
  have dp: "distinct (keys_of (par e2))" using p [of e2] d1(2) by (metis mset_map mset_eq_imp_distinct_iff)
  have "set (keys_of (par e2)) \<inter> set (keys_of (items s1)) = {}" using dd(3) by (auto simp: ps sets s1(3))
  moreover have "inv (length (par e2) + length (par e2)) s1" using s1(2) by (simp add: pl)
  ultimately obtain s2 where
    s2: "put_all I s1 (par e2) = Inr s2" "inv (length (par e2) + 0) s2" "set (items s2) = set e1 \<union> set e2"
    using put_all_ok [OF _ dp] oks(2) by (force simp: ps s1(3))
  have "set es = set (take n es @ drop n es)" by simp
  then have "set (par es) \<subseteq> set (items s2)" by (simp only: ps s2(3) sets set_append order_refl)
  then have g: "get_all I s2 (par es) = Inr ()" by (rule get_all_ok [OF s2(2)])
  from remove_all_ok [OF s2(2) dp] obtain s3 where
    s3: "remove_all I s2 (par e2) = Inr s3" "inv 0 s3" "set (items s3) = set e1 \<union> set e2 - set e2"
    by (auto simp: ps s2(3))
  have "set e1 \<inter> set e2 = {}" using dd(3) by (auto simp: sets)
  then have "set (items s3) = set e1" using s3(3) by auto
  then have "items s3 = e1" using ksorted_set_unique [OF items_sorted [OF s3(2)] so] by blast
  with s1 s2 g s3 show ?thesis
    by (simp add: TestReadWrite_def Let_def es_def [symmetric] n_def [symmetric] e1_def [symmetric] e2_def [symmetric] len [symmetric])
qed

lemma read_rounds_ok:
  assumes "inv n s" "items s = entries" "\<forall>i < length entries. snd (entries ! i) = pay i"
    "\<forall>ids \<in> set rounds. \<forall>i \<in> set ids. i < length entries"
  shows "read_rounds I pay s entries rounds = Some True"
  using assms(4)
proof (induction rounds)
  case (Cons ids rounds)
  have d: "distinct (keys_of entries)" using ksorted_distinct items_sorted [OF assms(1)] assms(2) by blast
  have "get_op I s (fst (entries ! i)) = Some (Some (pay i))" if "i < length entries" for i
    using that assms(3) get_law [OF assms(1)] map_of_is_SomeI [OF d, of "fst (entries ! i)" "pay i"]
    by (metis assms(2) nth_mem prod.collapse)
  then have "read_round I pay s entries js = Some (map (\<lambda>_. True) js)" if "\<forall>i \<in> set js. i < length entries" for js
    using that by (induction js) (auto simp: rd_def)
  with Cons show ?case by (simp add: list_ex_iff)
qed simp

theorem TestRead_ok:
  assumes "fresh s0" "ksorted entries" "\<forall>i < length entries. snd (entries ! i) = pay i"
    "\<forall>ids \<in> set rounds. \<forall>i \<in> set ids. i < length entries" "\<forall>(k, v) \<in> set entries. ok k v" "room (length entries + 0)"
  shows "TestRead I pay s0 entries rounds = Some True"
  using bulk_load_law [OF assms(1,2,5,6)] read_rounds_ok assms(3,4) by (auto simp: TestRead_def)

end

locale bounded_scan = bounded_index +
  assumes scan_law: "inv n s \<Longrightarrow>
    scan_op I s k m = Some (min m (length (dropWhile (\<lambda>x. fst x < k) (items s))),
                            take m (dropWhile (\<lambda>x. fst x < k) (items s)))"

text \<open>The contract of an index without limits.\<close>

locale index_api =
  fixes I :: "('s, 'k::linorder, 'v) indexInterface"
    and inv :: "'s \<Rightarrow> bool"
    and fresh :: "'s \<Rightarrow> bool"
    and items :: "'s \<Rightarrow> ('k \<times> 'v) list"
  assumes items_sorted: "inv s \<Longrightarrow> ksorted (items s)"
    and bulk_load_law: "fresh s \<Longrightarrow> ksorted xs \<Longrightarrow> \<exists>s'. bulk_load_op I s xs = Some s' \<and> inv s' \<and> items s' = xs"
    and get_law: "inv s \<Longrightarrow> get_op I s k = Some (map_of (items s) k)"
    and put_law: "inv s \<Longrightarrow> k \<notin> set (keys_of (items s)) \<Longrightarrow>
      \<exists>s'. put_op I s k v = Some (s', True) \<and> inv s' \<and> items s' = ins_kv k v (items s)"
    and remove_law: "inv s \<Longrightarrow> k \<in> set (keys_of (items s)) \<Longrightarrow>
      \<exists>s'. remove_op I s k = Some (s', True) \<and> inv s' \<and> items s' = del_kv k (items s)"
    and update_law: "inv s \<Longrightarrow> k \<in> set (keys_of (items s)) \<Longrightarrow>
      \<exists>s' ok. update_op I s k v = Some (s', ok) \<and> inv s' \<and> keys_of (items s') = keys_of (items s)"
    and scan_total: "inv s \<Longrightarrow> \<exists>r. scan_op I s k n = Some r"

sublocale index_api \<subseteq> unlimited: bounded_index I "\<lambda>_. inv" fresh items "\<lambda>_ _. True" "\<lambda>_. True"
  by unfold_locales (rule items_sorted bulk_load_law get_law put_law remove_law update_law scan_total; assumption)+

locale index_scan = index_api +
  assumes scan_law: "inv s \<Longrightarrow>
    scan_op I s k n = Some (min n (length (dropWhile (\<lambda>x. fst x < k) (items s))),
                            take n (dropWhile (\<lambda>x. fst x < k) (items s)))"

sublocale index_scan \<subseteq> unlimited: bounded_scan I "\<lambda>_. inv" fresh items "\<lambda>_ _. True" "\<lambda>_. True"
  by unfold_locales (rule scan_law)

end
