(* ===== verification/NaiveIndex.thy ===== *)
theory NaiveIndex
  imports IndexApi
begin

text \<open>
  The reference index of the test driver, \<open>ours/naive_index_interface.h\<close>: a \<open>std::map\<close> behind a
  pointer that \<open>bulk_load\<close> sets. The map is the list of its pairs in key order; before the first
  \<open>bulk_load\<close> the pointer is uninitialised and every other call is undefined (\<open>None\<close>).
\<close>

section \<open>Definitions\<close>

type_synonym ('k, 'v) naive = "('k \<times> 'v) list option"

text \<open>The range constructor of \<open>std::map\<close> keeps the first of several pairs with one key.\<close>

definition naive_bulk_load :: "('k::linorder, 'v) naive \<Rightarrow> ('k \<times> 'v) list \<Rightarrow> ('k, 'v) naive option" where
  "naive_bulk_load s key_value = Some (Some (fold (\<lambda>(k, v). ins_kv k v) key_value []))"

definition naive_get :: "('k::linorder, 'v) naive \<Rightarrow> 'k \<Rightarrow> 'v option option" where
  "naive_get s key = do { m \<leftarrow> s; Some (map_of m key) }"

definition naive_put :: "('k::linorder, 'v) naive \<Rightarrow> 'k \<Rightarrow> 'v \<Rightarrow> (('k, 'v) naive \<times> bool) option" where
  "naive_put s key v = do { m \<leftarrow> s; Some (Some (upd_kv key v m), True) }"

definition naive_update :: "('k::linorder, 'v) naive \<Rightarrow> 'k \<Rightarrow> 'v \<Rightarrow> (('k, 'v) naive \<times> bool) option" where
  "naive_update s key v = do { m \<leftarrow> s; Some (Some (upd_kv key v m), True) }"

definition naive_remove :: "('k::linorder, 'v) naive \<Rightarrow> 'k \<Rightarrow> (('k, 'v) naive \<times> bool) option" where
  "naive_remove s key =
     do { m \<leftarrow> s; Some (Some (if map_of m key \<noteq> None then del_kv key m else m), True) }"

fun naive_scan_loop :: "('k \<times> 'v) list \<Rightarrow> nat \<Rightarrow> nat \<Rightarrow> ('k \<times> 'v) list \<Rightarrow> nat \<times> ('k \<times> 'v) list" where
  "naive_scan_loop [] key_num cnt result = (cnt, result)"
| "naive_scan_loop (x # it) key_num cnt result =
     (if cnt < key_num then naive_scan_loop it key_num (cnt + 1) (result @ [x]) else (cnt, result))"

definition naive_scan :: "('k::linorder, 'v) naive \<Rightarrow> 'k \<Rightarrow> nat \<Rightarrow> (nat \<times> ('k \<times> 'v) list) option" where
  "naive_scan s key_low_bound key_num =
     do { m \<leftarrow> s; Some (naive_scan_loop (dropWhile (\<lambda>x. fst x < key_low_bound) m) key_num 0 []) }"

definition naive_index :: "(('k::linorder, 'v) naive, 'k, 'v) indexInterface" where
  "naive_index =
     \<lparr>bulk_load_op = naive_bulk_load, get_op = naive_get, put_op = naive_put, update_op = naive_update,
      remove_op = naive_remove, scan_op = naive_scan\<rparr>"

section \<open>The contract\<close>

definition naive_inv :: "('k::linorder, 'v) naive \<Rightarrow> bool" where
  "naive_inv s \<longleftrightarrow> (\<exists>m. s = Some m \<and> ksorted m)"

definition naive_items :: "('k, 'v) naive \<Rightarrow> ('k \<times> 'v) list" where
  "naive_items s = (case s of None \<Rightarrow> [] | Some m \<Rightarrow> m)"

lemma fold_ins_sorted:
  "ksorted (ys @ xs) \<Longrightarrow> fold (\<lambda>(k, v). ins_kv k v) xs ys = ys @ xs"
proof (induction xs arbitrary: ys)
  case (Cons x xs)
  obtain k v where x: "x = (k, v)" by (cases x)
  have "ins_kv k v ys = ys @ [x]"
    using ins_kv_mid [of ys k "[]" v] Cons.prems by (auto simp: x sorted_wrt_append)
  with Cons.IH [of "ys @ [x]"] Cons.prems show ?case by (simp add: x)
qed simp

lemma naive_scan_loop_eq:
  "naive_scan_loop xs n cnt acc = (max cnt (min n (cnt + length xs)), acc @ take (n - cnt) xs)"
  by (induction xs n cnt acc rule: naive_scan_loop.induct) (auto simp: take_Cons' max_def min_def)

lemmas naive_defs =
  naive_bulk_load_def naive_get_def naive_put_def naive_update_def naive_remove_def naive_scan_def naive_index_def
  naive_inv_def naive_items_def

interpretation naive: index_scan naive_index naive_inv "\<lambda>_. True" naive_items
proof unfold_locales
  fix xs :: "('k::linorder \<times> 'v) list" and s
  assume "ksorted xs"
  then show "\<exists>s'. bulk_load_op naive_index s xs = Some s' \<and> naive_inv s' \<and> naive_items s' = xs"
    using fold_ins_sorted [of "[]" xs] by (auto simp: naive_defs)
qed (auto simp: naive_defs upd_kv_absent upd_kv_keys ksorted_ins_kv ksorted_del_kv naive_scan_loop_eq map_of_eq_None_keys
     simp del: set_map)

section \<open>Main theorems\<close>

text \<open>
  The scan of the reference index returns the number of pairs it has written to \<open>result\<close>;
  these are the first \<open>key_num\<close> pairs, in key order, whose keys are not below the bound, and no
  more than \<open>key_num\<close> of them.
\<close>

theorem naive_scan_correct:
  assumes "naive_inv s"
  shows "\<exists>cnt result. naive_scan s k n = Some (cnt, result) \<and> cnt = length result \<and> cnt \<le> n \<and>
    result = take n (filter (\<lambda>x. k \<le> fst x) (naive_items s))"
  using assms naive.scan_law [OF assms, of k n] naive.items_sorted [OF assms]
  by (simp add: naive_index_def min.commute filter_ge_dropWhile)

theorem naive_scan_correct_witness:
  "naive_scan (Some [(1, 10), (4, 40), (6, 60), (9, 90)]) (3::nat) 2 = Some (2, [(4, 40), (6, 60::nat)])"
  using naive_scan_correct [of "Some [(1, 10), (4, 40), (6, 60), (9, 90::nat)]" "3::nat" 2]
  by (simp add: naive_inv_def naive_items_def numeral_eq_Suc)

text \<open>
  The read-write test passes on the reference index for any shuffle, any sort and any order
  of the parallel loops: no assertion fails, and the index is left with the bulk-loaded half.
\<close>

theorem naive_passes_TestReadWrite:
  assumes "distinct (keys_of entries)" "permutes_list shuffle" "sorts_keys srt" "permutes_list par"
  shows "TestReadWrite naive_index shuffle srt par s0 entries =
    Inr (Some (srt (take (length entries div 2) (shuffle entries))))"
  using naive.unlimited.TestReadWrite_ok [OF _ assms, of s0] by (auto simp: naive_inv_def naive_items_def)

theorem naive_passes_TestReadWrite_witness:
  "TestReadWrite naive_index rev (sort_key fst) (\<lambda>xs. xs) None [(3, 30), (1, 10), (2, 20), (5::nat, 50::nat)] =
    Inr (Some [(2, 20), (5, 50)])"
  using naive_passes_TestReadWrite [of "[(3, 30), (1, 10), (2, 20), (5::nat, 50::nat)]" rev "sort_key fst" "\<lambda>xs. xs" None]
  by (simp add: permutes_list_def sorts_sort_key insort_key.simps)

end
