(* ===== verification/BTreeNodes.thy ===== *)
theory BTreeNodes
  imports Prelude
begin

text \<open>
  The nodes and the tree object of the STX B+ tree (\<open>btree.h\<close>, class \<open>stx::btree\<close>), in the
  instance the benchmark builds: \<open>allow_duplicates\<close> and \<open>used_as_set\<close> are \<open>false\<close>, keys are
  compared with \<open>std::less\<close>, and \<open>selfverify\<close> and \<open>debug\<close> are off.

  A node owns its children, so nodes are values of a recursive datatype. The arrays
  \<open>slotkey\<close>, \<open>slotdata\<close> and \<open>childid\<close> are the lists of their used slots (\<open>slotuse\<close> is a
  length), with the capacity checks of \<open>Prelude\<close>. What is shared between nodes, the doubly
  linked list of leaves, is kept in the tree object as two stores, \<open>prevleaf\<close> and
  \<open>nextleaf\<close>, indexed by the address of a leaf; \<open>next_addr\<close> is the allocator.

  The theory ends with the abstraction functions (the leaves in order, the pairs in order),
  the structural invariant \<open>node_ok\<close>, and what the two slot searches find under it.
\<close>

section \<open>Traits and node sizes\<close>

record traits =
  leafslots :: nat
  innerslots :: nat

definition btree_default_map_traits :: "nat \<Rightarrow> nat \<Rightarrow> nat \<Rightarrow> traits" where
  "btree_default_map_traits sizeof_Key sizeof_Data sizeof_ptr =
     \<lparr>leafslots = max 8 (256 div (sizeof_Key + sizeof_Data)),
      innerslots = max 8 (256 div (sizeof_Key + sizeof_ptr))\<rparr>"

abbreviation leafslotmax :: "traits \<Rightarrow> nat" where
  "leafslotmax T \<equiv> leafslots T"

abbreviation innerslotmax :: "traits \<Rightarrow> nat" where
  "innerslotmax T \<equiv> innerslots T"

definition minleafslots :: "traits \<Rightarrow> nat" where
  "minleafslots T = leafslotmax T div 2"

definition mininnerslots :: "traits \<Rightarrow> nat" where
  "mininnerslots T = innerslotmax T div 2"

text \<open>
  What \<open>BTREE_MAX(8, 256 / ...)\<close> guarantees; with at most 256 slots the \<open>unsigned short\<close> fields
  and loop variables of the nodes never wrap around.
\<close>

definition traits_ok :: "traits \<Rightarrow> bool" where
  "traits_ok T \<longleftrightarrow> 8 \<le> leafslotmax T \<and> 8 \<le> innerslotmax T \<and> leafslotmax T \<le> 256 \<and> innerslotmax T \<le> 256"

lemma btree_default_map_traits_ok: "traits_ok (btree_default_map_traits k d p)"
  by (simp add: traits_ok_def btree_default_map_traits_def div_le_dividend)

section \<open>Nodes\<close>

datatype ('k, 'v) node =
    Leaf addr "('k \<times> 'v) list"
  | Inner nat "'k list" "('k, 'v) node list"

fun level :: "('k, 'v) node \<Rightarrow> nat" where
  "level (Leaf a kvs) = 0"
| "level (Inner l ks cs) = l"

fun slotuse :: "('k, 'v) node \<Rightarrow> nat" where
  "slotuse (Leaf a kvs) = length kvs"
| "slotuse (Inner l ks cs) = length ks"

definition isleafnode :: "('k, 'v) node \<Rightarrow> bool" where
  "isleafnode n \<longleftrightarrow> level n = 0"

fun slotmax :: "traits \<Rightarrow> ('k, 'v) node \<Rightarrow> nat" where
  "slotmax T (Leaf a kvs) = leafslotmax T"
| "slotmax T (Inner l ks cs) = innerslotmax T"

fun minslots :: "traits \<Rightarrow> ('k, 'v) node \<Rightarrow> nat" where
  "minslots T (Leaf a kvs) = minleafslots T"
| "minslots T (Inner l ks cs) = mininnerslots T"

definition isfull :: "traits \<Rightarrow> ('k, 'v) node \<Rightarrow> bool" where
  "isfull T n \<longleftrightarrow> slotuse n = slotmax T n"

definition isfew :: "traits \<Rightarrow> ('k, 'v) node \<Rightarrow> bool" where
  "isfew T n \<longleftrightarrow> slotuse n \<le> minslots T n"

definition isunderflow :: "traits \<Rightarrow> ('k, 'v) node \<Rightarrow> bool" where
  "isunderflow T n \<longleftrightarrow> slotuse n < minslots T n"

lemmas node_size_defs = isfull_def isfew_def isunderflow_def minleafslots_def mininnerslots_def

section \<open>The tree object\<close>

record tree_stats =
  itemcount :: nat
  leaves :: nat
  innernodes :: nat

definition zero_stats :: tree_stats where
  "zero_stats = \<lparr>itemcount = 0, leaves = 0, innernodes = 0\<rparr>"

definition nodes :: "tree_stats \<Rightarrow> nat" where
  "nodes s = innernodes s + leaves s"

record ('k, 'v) btree =
  m_root :: "('k, 'v) node option"
  m_headleaf :: "addr option"
  m_tailleaf :: "addr option"
  prevleaf :: "addr \<Rightarrow> addr option"
  nextleaf :: "addr \<Rightarrow> addr option"
  m_stats :: tree_stats
  next_addr :: addr

definition empty_btree :: "('k, 'v) btree" where
  "empty_btree =
     \<lparr>m_root = None, m_headleaf = None, m_tailleaf = None,
      prevleaf = (\<lambda>_. None), nextleaf = (\<lambda>_. None), m_stats = zero_stats, next_addr = 0\<rparr>"

text \<open>
  A new leaf has address \<open>next_addr\<close>, no neighbours and no slots; an inner node needs no
  address, since only its parent refers to it.
\<close>

definition allocate_leaf :: "('k, 'v) btree \<Rightarrow> ('k, 'v) btree \<times> addr" where
  "allocate_leaf b =
     (let a = next_addr b
      in (b\<lparr>prevleaf := (prevleaf b)(a := None), nextleaf := (nextleaf b)(a := None),
            m_stats := (m_stats b)\<lparr>leaves := Suc (leaves (m_stats b))\<rparr>,
            next_addr := Suc a\<rparr>, a))"

definition allocate_inner :: "('k, 'v) btree \<Rightarrow> ('k, 'v) btree" where
  "allocate_inner b = b\<lparr>m_stats := (m_stats b)\<lparr>innernodes := Suc (innernodes (m_stats b))\<rparr>\<rparr>"

fun free_node :: "('k, 'v) btree \<Rightarrow> ('k, 'v) node \<Rightarrow> ('k, 'v) btree" where
  "free_node b (Leaf a kvs) = b\<lparr>m_stats := (m_stats b)\<lparr>leaves := leaves (m_stats b) - 1\<rparr>\<rparr>"
| "free_node b (Inner l ks cs) =
     b\<lparr>m_stats := (m_stats b)\<lparr>innernodes := innernodes (m_stats b) - 1\<rparr>\<rparr>"

section \<open>Key comparisons and slot searches\<close>

definition key_less :: "'k::linorder \<Rightarrow> 'k \<Rightarrow> bool" where
  "key_less a b \<longleftrightarrow> a < b"

definition key_lessequal :: "'k::linorder \<Rightarrow> 'k \<Rightarrow> bool" where
  "key_lessequal a b \<longleftrightarrow> \<not> key_less b a"

definition key_greaterequal :: "'k::linorder \<Rightarrow> 'k \<Rightarrow> bool" where
  "key_greaterequal a b \<longleftrightarrow> \<not> key_less a b"

definition key_equal :: "'k::linorder \<Rightarrow> 'k \<Rightarrow> bool" where
  "key_equal a b \<longleftrightarrow> \<not> key_less a b \<and> \<not> key_less b a"

lemmas key_defs [simp] = key_less_def key_lessequal_def key_greaterequal_def

lemma key_equal_iff [simp]: "key_equal a b \<longleftrightarrow> a = b"
  by (auto simp: key_equal_def)

text \<open>The linear searches: the branch that is compiled, since the other starts with \<open>0 &&\<close>.\<close>

fun find_lower :: "'k::linorder list \<Rightarrow> 'k \<Rightarrow> nat" where
  "find_lower [] key = 0"
| "find_lower (x # xs) key = (if key_less x key then Suc (find_lower xs key) else 0)"

fun find_upper :: "'k::linorder list \<Rightarrow> 'k \<Rightarrow> nat" where
  "find_upper [] key = 0"
| "find_upper (x # xs) key = (if key_lessequal x key then Suc (find_upper xs key) else 0)"

text \<open>The binary searches of the branch that is switched off.\<close>

function find_lower_bin :: "'k::linorder list \<Rightarrow> 'k \<Rightarrow> nat \<Rightarrow> nat \<Rightarrow> nat option" where
  "find_lower_bin keys key lo hi =
     (if lo < hi then
        (let mid = (lo + hi) div 2 in
         do { x \<leftarrow> rd keys mid;
              if key_lessequal key x then find_lower_bin keys key lo mid
              else find_lower_bin keys key (mid + 1) hi })
      else Some lo)"
  by pat_completeness auto
termination
  by (relation "measure (\<lambda>(keys, key, lo, hi). hi - lo)") auto

function find_upper_bin :: "'k::linorder list \<Rightarrow> 'k \<Rightarrow> nat \<Rightarrow> nat \<Rightarrow> nat option" where
  "find_upper_bin keys key lo hi =
     (if lo < hi then
        (let mid = (lo + hi) div 2 in
         do { x \<leftarrow> rd keys mid;
              if key_less key x then find_upper_bin keys key lo mid
              else find_upper_bin keys key (mid + 1) hi })
      else Some lo)"
  by pat_completeness auto
termination
  by (relation "measure (\<lambda>(keys, key, lo, hi). hi - lo)") auto

declare find_lower_bin.simps [simp del] find_upper_bin.simps [simp del]

text \<open>A child that is read from its parent is a smaller node.\<close>

lemma size_rd [termination_simp]: "rd cs i = Some c \<Longrightarrow> size c < Suc (n + size_list size cs)"
  by (drule rd_in_set, drule size_list_estimation' [OF _ order_refl, of _ _ size]) simp

section \<open>Abstraction\<close>

text \<open>The leaves of a subtree from left to right, with their addresses.\<close>

fun leaf_list :: "('k, 'v) node \<Rightarrow> (addr \<times> ('k \<times> 'v) list) list" where
  "leaf_list (Leaf a kvs) = [(a, kvs)]"
| "leaf_list (Inner l ks cs) = concat (map leaf_list cs)"

text \<open>The pairs of a subtree in order.\<close>

fun contents :: "('k, 'v) node \<Rightarrow> ('k \<times> 'v) list" where
  "contents (Leaf a kvs) = kvs"
| "contents (Inner l ks cs) = concat (map contents cs)"

definition last_key :: "('k, 'v) node \<Rightarrow> 'k" where
  "last_key n = fst (last (contents n))"

fun count_inner :: "('k, 'v) node \<Rightarrow> nat" where
  "count_inner (Leaf a kvs) = 0"
| "count_inner (Inner l ks cs) = Suc (sum_list (map count_inner cs))"

section \<open>The structural invariant\<close>

definition min_at :: "traits \<Rightarrow> nat \<Rightarrow> nat" where
  "min_at T h = (if h = 0 then minleafslots T else mininnerslots T)"

text \<open>
  \<open>node_ok T lo h n\<close>: \<open>n\<close> is a node of level \<open>h\<close> with at least \<open>lo\<close> used slots; below it every
  node is at least half full; and each separator key of an inner node is exactly the last
  key below the child on its left.
\<close>

fun node_ok :: "traits \<Rightarrow> nat \<Rightarrow> nat \<Rightarrow> ('k, 'v) node \<Rightarrow> bool" where
  "node_ok T lo 0 (Leaf a kvs) \<longleftrightarrow> lo \<le> length kvs \<and> length kvs \<le> leafslotmax T"
| "node_ok T lo (Suc h) (Inner l ks cs) \<longleftrightarrow>
     l = Suc h \<and> ks = map last_key (butlast cs) \<and>
     lo < length cs \<and> length cs \<le> Suc (innerslotmax T) \<and>
     (\<forall>c \<in> set cs. node_ok T (min_at T h) h c)"
| "node_ok T lo _ _ \<longleftrightarrow> False"


abbreviation seps :: "('k, 'v) node list \<Rightarrow> 'k list" where
  "seps cs \<equiv> map last_key (butlast cs)"

abbreviation contents_list :: "('k, 'v) node list \<Rightarrow> ('k \<times> 'v) list" where
  "contents_list cs \<equiv> concat (map contents cs)"

abbreviation leaf_lists :: "('k, 'v) node list \<Rightarrow> (addr \<times> ('k \<times> 'v) list) list" where
  "leaf_lists cs \<equiv> concat (map leaf_list cs)"

section \<open>Lemmas on the abstraction functions\<close>

lemma concat_map_concat: "concat (map (\<lambda>c. concat (f c)) cs) = concat (concat (map f cs))"
  by (induction cs) auto

lemma contents_leaf_list: "contents n = concat (map snd (leaf_list n))"
proof (induction n)
  case (Inner l ks cs)
  then have "map contents cs = map (\<lambda>c. concat (map snd (leaf_list c))) cs"
    by (simp cong: map_cong)
  then have "contents_list cs = concat (map (\<lambda>c. concat (map snd (leaf_list c))) cs)"
    by (rule arg_cong)
  then show ?case by (simp add: map_concat o_def concat_map_concat)
qed simp

lemma min_at_pos [simp]: "traits_ok T \<Longrightarrow> 0 < min_at T h"
  by (auto simp: min_at_def traits_ok_def node_size_defs)

lemma node_ok_level: "node_ok T lo h n \<Longrightarrow> level n = h"
  by (induction T lo h n rule: node_ok.induct) auto

lemma node_ok_slotuse: "node_ok T lo h n \<Longrightarrow> lo \<le> slotuse n"
  by (induction T lo h n rule: node_ok.induct) auto

lemma node_ok_mono: "node_ok T lo h n \<Longrightarrow> lo' \<le> slotuse n \<Longrightarrow> node_ok T lo' h n"
  by (cases "(T, lo, h, n)" rule: node_ok.cases) auto

lemma node_ok_0: "node_ok T lo 0 n \<longleftrightarrow> (\<exists>a kvs. n = Leaf a kvs \<and> lo \<le> length kvs \<and> length kvs \<le> leafslotmax T)"
  by (cases n) auto

lemma node_ok_Suc:
  "node_ok T lo (Suc h) n \<longleftrightarrow>
     (\<exists>cs. n = Inner (Suc h) (seps cs) cs \<and> lo < length cs \<and> length cs \<le> Suc (innerslotmax T) \<and>
       (\<forall>c \<in> set cs. node_ok T (min_at T h) h c))"
  by (cases n) auto

lemma contents_nonempty:
  assumes "traits_ok T" shows "node_ok T lo h n \<Longrightarrow> 0 < lo \<or> 0 < h \<Longrightarrow> contents n \<noteq> []"
proof (induction h arbitrary: n lo)
  case 0
  then show ?case by (auto simp: node_ok_0)
next
  case (Suc h)
  then obtain cs where n: "n = Inner (Suc h) (seps cs) cs" "lo < length cs"
    and ok: "\<forall>c \<in> set cs. node_ok T (min_at T h) h c"
    by (auto simp: node_ok_Suc)
  have "contents (hd cs) \<noteq> []"
    by (rule Suc.IH [of "min_at T h"]) (use ok n(2) assms in \<open>auto intro!: hd_in_set\<close>)
  with n show ?case by (cases cs) auto
qed

lemma children_nonempty:
  "traits_ok T \<Longrightarrow> \<forall>c \<in> set cs. node_ok T (min_at T h) h c \<Longrightarrow> c \<in> set cs \<Longrightarrow> contents c \<noteq> []"
  by (meson contents_nonempty min_at_pos)

lemma last_key_Inner: "cs \<noteq> [] \<Longrightarrow> contents (last cs) \<noteq> [] \<Longrightarrow> last_key (Inner l ks cs) = last_key (last cs)"
  by (cases cs rule: rev_cases) (auto simp: last_key_def)

lemma last_key_in: "contents n \<noteq> [] \<Longrightarrow> last_key n \<in> set (keys_of (contents n))"
  by (auto simp: last_key_def)

lemma ksorted_last:
  assumes "ksorted xs" "x \<in> set xs" shows "fst x \<le> fst (last xs)"
proof (cases xs rule: rev_cases)
  case (snoc ys y)
  with assms show ?thesis by (auto simp: sorted_wrt_append)
qed (use assms in simp)

lemma ksorted_contents_child: "ksorted (contents_list (as @ c # bs)) \<Longrightarrow> ksorted (contents c)"
  by (simp add: sorted_wrt_append)

subsection \<open>Separators\<close>

lemma seps_append [simp]: "bs \<noteq> [] \<Longrightarrow> seps (as @ bs) = map last_key as @ seps bs"
  by (simp add: butlast_append)

lemma seps_Cons: "bs \<noteq> [] \<Longrightarrow> seps (b # bs) = last_key b # seps bs"
  by simp

lemma seps_take: "i < length cs \<Longrightarrow> seps (take (Suc i) cs) = take i (seps cs)"
  by (simp add: butlast_take take_map take_butlast)

lemma seps_drop: "seps (drop i cs) = drop i (seps cs)"
  by (simp add: butlast_drop drop_map)

lemma seps_nth: "i < length cs - 1 \<Longrightarrow> seps cs ! i = last_key (cs ! i)"
  by (simp add: nth_butlast)

subsection \<open>Slot searches\<close>

lemma find_lower_takeWhile: "find_lower ks key = length (takeWhile (\<lambda>x. x < key) ks)"
  by (induction ks key rule: find_lower.induct) auto

lemma find_upper_takeWhile: "find_upper ks key = length (takeWhile (\<lambda>x. x \<le> key) ks)"
  by (induction ks key rule: find_upper.induct) (auto simp: not_less)

lemma find_lower_le: "find_lower ks key \<le> length ks"
  by (simp add: find_lower_takeWhile length_takeWhile_le)

lemma find_upper_le: "find_upper ks key \<le> length ks"
  by (simp add: find_upper_takeWhile length_takeWhile_le)

lemma find_lower_less: "x \<in> set (take (find_lower ks key) ks) \<Longrightarrow> x < key"
  by (metis find_lower_takeWhile set_takeWhileD takeWhile_eq_take)

lemma find_upper_leq: "x \<in> set (take (find_upper ks key) ks) \<Longrightarrow> x \<le> key"
  by (metis find_upper_takeWhile set_takeWhileD takeWhile_eq_take)

lemma find_lower_ge: "find_lower ks key < length ks \<Longrightarrow> key \<le> ks ! find_lower ks key"
  using nth_length_takeWhile [of "\<lambda>x. x < key" ks] by (simp add: find_lower_takeWhile)

lemma find_upper_gt: "find_upper ks key < length ks \<Longrightarrow> key < ks ! find_upper ks key"
  using nth_length_takeWhile [of "\<lambda>x. x \<le> key" ks] by (simp add: find_upper_takeWhile)

text \<open>The slot search splits the pairs of a leaf at the key.\<close>

lemma find_lower_leaf:
  assumes "ksorted kvs" and s: "s = find_lower (keys_of kvs) key"
  shows "\<forall>x \<in> set (take s kvs). fst x < key" and "\<forall>x \<in> set (drop s kvs). key \<le> fst x"
proof -
  show "\<forall>x \<in> set (take s kvs). fst x < key"
    using find_lower_less [of _ "keys_of kvs" key] by (auto simp: s take_map)
  show "\<forall>x \<in> set (drop s kvs). key \<le> fst x"
  proof (cases "s < length kvs")
    case True
    then have split: "kvs = take s kvs @ kvs ! s # drop (Suc s) kvs"
      by (simp add: id_take_nth_drop)
    from True have "key \<le> fst (kvs ! s)"
      using find_lower_ge [of "keys_of kvs" key] by (simp add: s)
    moreover have "\<forall>x \<in> set (drop (Suc s) kvs). fst (kvs ! s) < fst x"
      using assms(1) by (subst (asm) split) (auto simp: sorted_wrt_append)
    ultimately show ?thesis using True by (auto simp flip: Cons_nth_drop_Suc)
  qed simp
qed

text \<open>The slot search of an inner node selects the one child that can hold the key.\<close>

lemma inner_slot_split:
  assumes T: "traits_ok T" and ok: "node_ok T lo (Suc h) (Inner l ks cs)"
    and sorted: "ksorted (contents_list cs)" and s: "s = find_lower ks key"
  obtains as c bs where "cs = as @ c # bs" "length as = s"
    "\<forall>x \<in> set (contents_list as). fst x < key" "bs \<noteq> [] \<Longrightarrow> key \<le> last_key c"
    "node_ok T (min_at T h) h c"
proof -
  from ok have ks: "ks = seps cs" and okc: "\<forall>c \<in> set cs. node_ok T (min_at T h) h c" by auto
  from ok have len: "length cs = Suc (length ks)" by (auto simp: ks)
  have s_lt: "s < length cs" using find_lower_le [of ks key] len by (simp add: s)
  define as c bs where "as = take s cs" and "c = cs ! s" and "bs = drop (Suc s) cs"
  have split: "cs = as @ c # bs" and l_as: "length as = s"
    using s_lt by (auto simp: as_def c_def bs_def id_take_nth_drop)
  have "fst x < key" if "a \<in> set as" "x \<in> set (contents a)" for a x
  proof -
    from that(1) obtain i where i: "i < s" "a = cs ! i"
      by (auto simp: in_set_conv_nth as_def)
    from i s_lt have "i < length cs - 1" by linarith
    with i have "last_key a = ks ! i" by (simp add: ks nth_butlast)
    also have "ks ! i \<in> set (take s ks)"
      using i s_lt len by (auto simp: in_set_conv_nth)
    hence "ks ! i < key" using find_lower_less [of _ ks key] s by blast
    finally have "last_key a < key" .
    moreover have "ksorted (contents a)"
      using sorted that(1) by (auto simp: split dest!: split_list simp: sorted_wrt_append)
    ultimately show ?thesis using ksorted_last that(2) by (fastforce simp: last_key_def)
  qed
  hence 1: "\<forall>x \<in> set (contents_list as). fst x < key" by auto
  have 2: "key \<le> last_key c" if "bs \<noteq> []"
  proof -
    from that s_lt have "s < length ks" using len by (auto simp: bs_def)
    then show ?thesis using find_lower_ge [of ks key] by (simp add: s c_def nth_butlast ks)
  qed
  from okc split have "node_ok T (min_at T h) h c" by auto
  from that [OF split l_as 1 2 this] show thesis .
qed

subsection \<open>Binary search\<close>

text \<open>On sorted keys every index below the result, and no other, is passed by the search.\<close>

lemma find_lower_sorted_iff:
  assumes "sorted ks" "i < length ks" shows "ks ! i < key \<longleftrightarrow> i < find_lower ks key"
  using assms
proof (induction ks arbitrary: i)
  case (Cons x xs)
  show ?case
  proof (cases i)
    case (Suc j)
    with Cons.prems have "j < length xs" "x \<le> xs ! j" by auto
    with Cons.IH [of j] Cons.prems(1) Suc show ?thesis by (auto dest!: bspec [of _ _ "xs ! j"])
  qed auto
qed simp

lemma find_upper_sorted_iff:
  assumes "sorted ks" "i < length ks" shows "ks ! i \<le> key \<longleftrightarrow> i < find_upper ks key"
  using assms
proof (induction ks arbitrary: i)
  case (Cons x xs)
  show ?case
  proof (cases i)
    case (Suc j)
    with Cons.prems have "j < length xs" "x \<le> xs ! j" by auto
    with Cons.IH [of j] Cons.prems(1) Suc show ?thesis by (auto dest!: bspec [of _ _ "xs ! j"])
  qed auto
qed simp

lemma find_lower_bin_between:
  assumes "sorted ks" "lo \<le> find_lower ks key" "find_lower ks key \<le> hi" "hi \<le> length ks"
  shows "find_lower_bin ks key lo hi = Some (find_lower ks key)"
  using assms
proof (induction ks key lo hi rule: find_lower_bin.induct)
  case (1 ks key lo hi)
  show ?case
  proof (cases "lo < hi")
    case True
    let ?m = "(lo + hi) div 2"
    have m: "?m < length ks" "lo \<le> ?m" "?m < hi" using True "1.prems"(4) by auto
    with find_lower_sorted_iff [OF "1.prems"(1) m(1), of key] "1.IH" [OF True refl, of "ks ! ?m"] "1.prems" True
    show ?thesis by (subst find_lower_bin.simps) (auto simp: rd_def Let_def not_less)
  next
    case False
    with 1(4,5) show ?thesis by (subst find_lower_bin.simps) simp
  qed
qed

lemma find_upper_bin_between:
  assumes "sorted ks" "lo \<le> find_upper ks key" "find_upper ks key \<le> hi" "hi \<le> length ks"
  shows "find_upper_bin ks key lo hi = Some (find_upper ks key)"
  using assms
proof (induction ks key lo hi rule: find_upper_bin.induct)
  case (1 ks key lo hi)
  show ?case
  proof (cases "lo < hi")
    case True
    let ?m = "(lo + hi) div 2"
    have m: "?m < length ks" "lo \<le> ?m" "?m < hi" using True "1.prems"(4) by auto
    with find_upper_sorted_iff [OF "1.prems"(1) m(1), of key] "1.IH" [OF True refl, of "ks ! ?m"] "1.prems" True
    show ?thesis by (subst find_upper_bin.simps) (auto simp: rd_def Let_def not_le)
  next
    case False
    with 1(4,5) show ?thesis by (subst find_upper_bin.simps) simp
  qed
qed

text \<open>
  On sorted keys the binary searches of the disabled branch stay inside the array and return
  the same slot as the linear searches that are compiled.
\<close>

theorem binary_search_is_linear_search:
  assumes "sorted ks"
  shows "find_lower_bin ks key 0 (length ks) = Some (find_lower ks key) \<and>
    find_upper_bin ks key 0 (length ks) = Some (find_upper ks key)"
  using find_lower_bin_between [OF assms, of 0 key "length ks"] find_upper_bin_between [OF assms, of 0 key "length ks"]
  by (simp add: find_lower_le find_upper_le)

theorem binary_search_is_linear_search_witness:
  "find_lower_bin [2, 4, 6, 8, 10] (6::nat) 0 5 = Some 2 \<and> find_upper_bin [2, 4, 6, 8, 10] (6::nat) 0 5 = Some 3"
  using binary_search_is_linear_search [of "[2, 4, 6, 8, 10]" "6::nat"] by (simp add: numeral_eq_Suc)

end
