(* ===== verification/BTreeInv.thy ===== *)
theory BTreeInv
  imports BTreeNodes
begin

text \<open>
  The invariant of the STX B+ tree object: a well-formed root, globally sorted keys, a doubly
  linked list that visits exactly the leaves of the tree in order, and statistics that count
  what is there. \<open>tree_contents\<close> is the abstract value of the object.
\<close>

section \<open>Doubly linked lists of leaves\<close>

text \<open>The leaves \<open>as\<close> are linked in this order, between the neighbours \<open>p\<close> and \<open>q\<close>.\<close>

fun dll :: "(addr \<Rightarrow> addr option) \<Rightarrow> (addr \<Rightarrow> addr option) \<Rightarrow> addr option \<Rightarrow> addr list \<Rightarrow> addr option \<Rightarrow> bool" where
  "dll nx pv p [] q = True"
| "dll nx pv p (a # as) q =
     (pv a = p \<and> nx a = (case as of [] \<Rightarrow> q | x # _ \<Rightarrow> Some x) \<and> dll nx pv (Some a) as q)"

lemma dll_append:
  "dll nx pv p (as @ bs) q \<longleftrightarrow>
     dll nx pv p as (if bs = [] then q else Some (hd bs)) \<and>
     dll nx pv (if as = [] then p else Some (last as)) bs q"
  by (induction as arbitrary: p) (auto split: list.splits simp: neq_Nil_conv)

lemma dll_cong:
  "(\<And>a. a \<in> set as \<Longrightarrow> nx' a = nx a \<and> pv' a = pv a) \<Longrightarrow> dll nx' pv' p as q = dll nx pv p as q"
  by (induction as arbitrary: p) auto

lemma dll_next_end:
  assumes "dll nx pv p as q" "distinct as" "as \<noteq> []"
  shows "dll (nx(last as := q')) pv p as q'"
proof -
  obtain r a where as: "as = r @ [a]" using assms(3) by (cases as rule: rev_cases) auto
  have "dll (nx(a := q')) pv p r (Some a) = dll nx pv p r (Some a)"
    using assms(2) by (intro dll_cong) (auto simp: as)
  with assms(1) show ?thesis by (simp add: as dll_append)
qed

lemma dll_prev_start:
  assumes "dll nx pv p as q" "distinct as" "as \<noteq> []"
  shows "dll nx (pv(hd as := p')) p' as q"
proof -
  obtain a r where as: "as = a # r" using assms(3) by (cases as) auto
  have "dll nx (pv(a := p')) (Some a) r q = dll nx pv (Some a) r q"
    using assms(2) by (intro dll_cong) (auto simp: as)
  with assms(1) show ?thesis by (simp add: as)
qed

lemma dll_nextD: "dll nx pv p (as @ a # bs) q \<Longrightarrow> nx a = (case bs of [] \<Rightarrow> q | x # _ \<Rightarrow> Some x)"
  by (simp add: dll_append)

lemma dll_prevD: "dll nx pv p (as @ a # bs) q \<Longrightarrow> pv a = (if as = [] then p else Some (last as))"
  by (simp add: dll_append)

section \<open>The leaf list of a tree object\<close>

definition chain :: "('k, 'v) btree \<Rightarrow> addr list \<Rightarrow> bool" where
  "chain b as \<longleftrightarrow>
     distinct as \<and> (\<forall>a \<in> set as. a < next_addr b) \<and>
     dll (nextleaf b) (prevleaf b) None as None \<and>
     m_headleaf b = (case as of [] \<Rightarrow> None | a # _ \<Rightarrow> Some a) \<and>
     m_tailleaf b = (if as = [] then None else Some (last as))"

lemma chain_cong:
  assumes "nextleaf b' = nextleaf b" "prevleaf b' = prevleaf b" "m_headleaf b' = m_headleaf b"
    "m_tailleaf b' = m_tailleaf b" "next_addr b' = next_addr b"
  shows "chain b' as \<longleftrightarrow> chain b as"
  using assms by (simp add: chain_def)

section \<open>The invariant\<close>

definition tree_contents :: "('k, 'v) btree \<Rightarrow> ('k \<times> 'v) list" where
  "tree_contents b = (case m_root b of None \<Rightarrow> [] | Some n \<Rightarrow> contents n)"

definition tree_leaves :: "('k, 'v) btree \<Rightarrow> (addr \<times> ('k \<times> 'v) list) list" where
  "tree_leaves b = (case m_root b of None \<Rightarrow> [] | Some n \<Rightarrow> leaf_list n)"

definition stats_ok :: "('k, 'v) btree \<Rightarrow> bool" where
  "stats_ok b \<longleftrightarrow>
     itemcount (m_stats b) = length (tree_contents b) \<and>
     leaves (m_stats b) = length (tree_leaves b) \<and>
     innernodes (m_stats b) = (case m_root b of None \<Rightarrow> 0 | Some n \<Rightarrow> count_inner n)"

definition root_ok :: "traits \<Rightarrow> ('k, 'v) btree \<Rightarrow> bool" where
  "root_ok T b \<longleftrightarrow> (case m_root b of None \<Rightarrow> True | Some n \<Rightarrow> node_ok T 1 (level n) n)"

definition btree_inv :: "traits \<Rightarrow> ('k::linorder, 'v) btree \<Rightarrow> bool" where
  "btree_inv T b \<longleftrightarrow>
     root_ok T b \<and> ksorted (tree_contents b) \<and> chain b (map fst (tree_leaves b)) \<and> stats_ok b"

lemmas btree_inv_defs = btree_inv_def root_ok_def stats_ok_def tree_contents_def tree_leaves_def

lemma tree_contents_leaves: "tree_contents b = concat (map snd (tree_leaves b))"
  by (simp add: tree_contents_def tree_leaves_def contents_leaf_list split: option.split)

lemma btree_inv_empty: "btree_inv T empty_btree"
  by (simp add: btree_inv_defs chain_def empty_btree_def zero_stats_def)

lemma tree_contents_empty [simp]: "tree_contents empty_btree = []"
  by (simp add: tree_contents_def empty_btree_def)

text \<open>Every leaf of a well-formed tree holds at least one pair.\<close>

lemma leaf_list_ok:
  assumes T: "traits_ok T"
  shows "node_ok T lo h n \<Longrightarrow> 0 < lo \<Longrightarrow> (a, kvs) \<in> set (leaf_list n) \<Longrightarrow> kvs \<noteq> [] \<and> length kvs \<le> leafslotmax T"
proof (induction h arbitrary: n lo)
  case 0
  then show ?case by (auto simp: node_ok_0)
next
  case (Suc h)
  then show ?case using min_at_pos [OF T, of h] by (fastforce simp: node_ok_Suc)
qed

lemma leaf_list_nonempty: "node_ok T lo h n \<Longrightarrow> leaf_list n \<noteq> []"
proof (induction h arbitrary: n lo)
  case (Suc h)
  then obtain cs where n: "n = Inner (Suc h) (seps cs) cs" "lo < length cs"
    "\<forall>c \<in> set cs. node_ok T (min_at T h) h c" by (auto simp: node_ok_Suc)
  then have "hd cs \<in> set cs" by (intro hd_in_set) auto
  with n Suc.IH have "leaf_list (hd cs) \<noteq> []" by blast
  with n \<open>hd cs \<in> set cs\<close> show ?case by auto
qed (auto simp: node_ok_0)

section \<open>A sample tree\<close>

text \<open>Two leaves below one inner node, with the smallest node sizes the traits allow.\<close>

definition sample_traits :: traits where
  "sample_traits = \<lparr>leafslots = 8, innerslots = 8\<rparr>"

definition sample_btree :: "(nat, nat) btree" where
  "sample_btree =
     \<lparr>m_root = Some (Inner 1 [4] [Leaf 0 [(1, 10), (2, 20), (3, 30), (4, 40)], Leaf 1 [(5, 50), (6, 60), (7, 70), (8, 80)]]),
      m_headleaf = Some 0, m_tailleaf = Some 1, prevleaf = (\<lambda>_. None)(1 := Some 0), nextleaf = (\<lambda>_. None)(0 := Some 1),
      m_stats = \<lparr>itemcount = 8, leaves = 2, innernodes = 1\<rparr>, next_addr = 2\<rparr>"

lemma sample_traits_ok: "traits_ok sample_traits"
  by (simp add: traits_ok_def sample_traits_def)

lemma sample_contents:
  "tree_contents sample_btree = [(1, 10), (2, 20), (3, 30), (4, 40), (5, 50), (6, 60), (7, 70), (8, 80)]"
  by (simp add: tree_contents_def sample_btree_def)

lemma sample_btree_inv: "btree_inv sample_traits sample_btree"
  by (simp add: btree_inv_defs sample_btree_def sample_traits_def chain_def min_at_def node_size_defs last_key_def)

lemmas sample = sample_traits_ok sample_btree_inv
end
