(* ===== verification/BTreeErase.thy ===== *)
theory BTreeErase
  imports BTreeInv
begin

text \<open>
  Deletion from the STX B+ tree by key: \<open>erase_one\<close>, \<open>erase\<close>, \<open>erase_one_descend\<close>, the two
  merges and the four shifts.

  The C++ recursion hands down pointers to the current node, its left and right neighbours,
  their parents and the parent slot, and changes all of them in place. Here the current
  node, the neighbours and the separator keys of the parent are passed by value and returned
  changed in a record \<open>eres\<close>, and the caller writes them back (\<open>write_back\<close>). Pointers are
  only compared for inner nodes (\<open>leftparent == parent\<close>, \<open>leaf == m_root\<close>); a node is
  identified by the path of child slots that leads to it from the root.

  As in \<open>BTreeInsert\<close>, \<open>None\<close> is an access outside an array, a null dereference or a
  negative shift count.
\<close>

section \<open>Definitions\<close>

text \<open>The three bits of \<open>result_flags_t\<close> and \<open>lastkey\<close>.\<close>

record 'k result_t =
  not_found :: bool
  update_lastkey :: bool
  fixmerge :: bool
  lastkey :: "'k option"

definition btree_ok :: "'k result_t" where
  "btree_ok = \<lparr>not_found = False, update_lastkey = False, fixmerge = False, lastkey = None\<rparr>"

definition btree_not_found :: "'k result_t" where
  "btree_not_found = \<lparr>not_found = True, update_lastkey = False, fixmerge = False, lastkey = None\<rparr>"

definition btree_update_lastkey :: "'k \<Rightarrow> 'k result_t" where
  "btree_update_lastkey k = \<lparr>not_found = False, update_lastkey = True, fixmerge = False, lastkey = Some k\<rparr>"

definition btree_fixmerge :: "'k result_t" where
  "btree_fixmerge = \<lparr>not_found = False, update_lastkey = False, fixmerge = True, lastkey = None\<rparr>"

definition res_or :: "'k result_t \<Rightarrow> 'k result_t \<Rightarrow> 'k result_t" where
  "res_or r s =
     \<lparr>not_found = (not_found r \<or> not_found s), update_lastkey = (update_lastkey r \<or> update_lastkey s),
      fixmerge = (fixmerge r \<or> fixmerge s),
      lastkey = (if update_lastkey s then lastkey s else lastkey r)\<rparr>"

text \<open>
  What a call of \<open>erase_one_descend\<close> leaves behind: the tree object, the returned flags, the
  current node, its neighbours, the separator keys of the parent, and the value assigned to
  \<open>m_root\<close>, if any.
\<close>

record ('k, 'v) eres =
  e_tree :: "('k, 'v) btree"
  e_res :: "'k result_t"
  e_curr :: "('k, 'v) node"
  e_left :: "('k, 'v) node option"
  e_right :: "('k, 'v) node option"
  e_pkeys :: "'k list"
  e_root :: "('k, 'v) node option option"

subsection \<open>Merging and shifting\<close>

fun merge_leaves ::
  "traits \<Rightarrow> ('k, 'v) btree \<Rightarrow> ('k, 'v) node \<Rightarrow> ('k, 'v) node \<Rightarrow>
   (('k, 'v) btree \<times> ('k, 'v) node \<times> ('k, 'v) node) option" where
  "merge_leaves T b (Leaf la lkvs) (Leaf ra rkvs) =
     do { kvs \<leftarrow> app_at (leafslotmax T) lkvs rkvs;
          let b1 = b\<lparr>nextleaf := (nextleaf b)(la := nextleaf b ra)\<rparr>;
          let b2 = (case nextleaf b1 la of
                      Some x \<Rightarrow> b1\<lparr>prevleaf := (prevleaf b1)(x := Some la)\<rparr>
                    | None \<Rightarrow> b1\<lparr>m_tailleaf := Some la\<rparr>);
          Some (b2, Leaf la kvs, Leaf ra []) }"
| "merge_leaves T b _ _ = None"

fun merge_inner ::
  "traits \<Rightarrow> ('k, 'v) node \<Rightarrow> ('k, 'v) node \<Rightarrow> 'k list \<Rightarrow> nat \<Rightarrow>
   (('k, 'v) node \<times> ('k, 'v) node) option" where
  "merge_inner T (Inner ll lks lcs) (Inner rl rks rcs) pkeys parentslot =
     do { k \<leftarrow> rd pkeys parentslot;
          ks \<leftarrow> app_at (innerslotmax T) lks (k # rks);
          cs \<leftarrow> app_at (innerslotmax T + 1) lcs rcs;
          Some (Inner ll ks cs, Inner rl [] []) }"
| "merge_inner T _ _ pkeys parentslot = None"

fun shift_left_leaf ::
  "traits \<Rightarrow> ('k, 'v) node \<Rightarrow> ('k, 'v) node \<Rightarrow> 'k list \<Rightarrow> nat \<Rightarrow>
   (('k, 'v) node \<times> ('k, 'v) node \<times> 'k list \<times> 'k result_t) option" where
  "shift_left_leaf T (Leaf la lkvs) (Leaf ra rkvs) pkeys parentslot =
     (if length rkvs < length lkvs then None else
      let shiftnum = (length rkvs - length lkvs) div 2 in
      do { lkvs' \<leftarrow> app_at (leafslotmax T) lkvs (take shiftnum rkvs);
           let rkvs' = drop shiftnum rkvs;
           k \<leftarrow> rd (keys_of lkvs') (length lkvs' - 1);
           if parentslot < length pkeys
           then Some (Leaf la lkvs', Leaf ra rkvs', pkeys[parentslot := k], btree_ok)
           else Some (Leaf la lkvs', Leaf ra rkvs', pkeys, btree_update_lastkey k) })"
| "shift_left_leaf T _ _ pkeys parentslot = None"

fun shift_left_inner ::
  "traits \<Rightarrow> ('k, 'v) node \<Rightarrow> ('k, 'v) node \<Rightarrow> 'k list \<Rightarrow> nat \<Rightarrow>
   (('k, 'v) node \<times> ('k, 'v) node \<times> 'k list) option" where
  "shift_left_inner T (Inner ll lks lcs) (Inner rl rks rcs) pkeys parentslot =
     (let shiftnum = (length rks - length lks) div 2 in
      if shiftnum = 0 then None else
      do { k \<leftarrow> rd pkeys parentslot;
           lks' \<leftarrow> app_at (innerslotmax T) lks (k # take (shiftnum - 1) rks);
           lcs' \<leftarrow> app_at (innerslotmax T + 1) lcs (take shiftnum rcs);
           k' \<leftarrow> rd rks (shiftnum - 1);
           pkeys' \<leftarrow> wr pkeys parentslot k';
           Some (Inner ll lks' lcs', Inner rl (drop shiftnum rks) (drop shiftnum rcs), pkeys') })"
| "shift_left_inner T _ _ pkeys parentslot = None"

fun shift_right_leaf ::
  "traits \<Rightarrow> ('k, 'v) node \<Rightarrow> ('k, 'v) node \<Rightarrow> 'k list \<Rightarrow> nat \<Rightarrow>
   (('k, 'v) node \<times> ('k, 'v) node \<times> 'k list) option" where
  "shift_right_leaf T (Leaf la lkvs) (Leaf ra rkvs) pkeys parentslot =
     (if length lkvs < length rkvs then None else
      let shiftnum = (length lkvs - length rkvs) div 2 in
      do { rkvs' \<leftarrow> app_at (leafslotmax T) (drop (length lkvs - shiftnum) lkvs) rkvs;
           let lkvs' = take (length lkvs - shiftnum) lkvs;
           k \<leftarrow> rd (keys_of lkvs') (length lkvs' - 1);
           pkeys' \<leftarrow> wr pkeys parentslot k;
           Some (Leaf la lkvs', Leaf ra rkvs', pkeys') })"
| "shift_right_leaf T _ _ pkeys parentslot = None"

fun shift_right_inner ::
  "traits \<Rightarrow> ('k, 'v) node \<Rightarrow> ('k, 'v) node \<Rightarrow> 'k list \<Rightarrow> nat \<Rightarrow>
   (('k, 'v) node \<times> ('k, 'v) node \<times> 'k list) option" where
  "shift_right_inner T (Inner ll lks lcs) (Inner rl rks rcs) pkeys parentslot =
     (let shiftnum = (length lks - length rks) div 2 in
      if shiftnum = 0 then None else
      do { k \<leftarrow> rd pkeys parentslot;
           rks' \<leftarrow> app_at (innerslotmax T) (drop (length lks - shiftnum + 1) lks) (k # rks);
           rcs' \<leftarrow> app_at (innerslotmax T + 1) (drop (length lks - shiftnum + 1) lcs) rcs;
           k' \<leftarrow> rd lks (length lks - shiftnum);
           pkeys' \<leftarrow> wr pkeys parentslot k';
           Some (Inner ll (take (length lks - shiftnum) lks) (take (length lks - shiftnum + 1) lcs),
                 Inner rl rks' rcs', pkeys') })"
| "shift_right_inner T _ _ pkeys parentslot = None"

subsection \<open>Underflow\<close>

text \<open>
  The cascade of cases that decides what to do about an underflow; the text is the same for
  leaves and for inner nodes.
\<close>

datatype underflow_action = DropRoot | MergeLeft | MergeRight | ShiftLeft | ShiftRight

definition underflow_action ::
  "traits \<Rightarrow> ('k, 'v) node option \<Rightarrow> ('k, 'v) node option \<Rightarrow> nat list option \<Rightarrow> nat list option \<Rightarrow>
   nat list option \<Rightarrow> underflow_action option" where
  "underflow_action T left right leftparent rightparent parent =
     (let lfew = (case left of None \<Rightarrow> True | Some n \<Rightarrow> isfew T n);
          rfew = (case right of None \<Rightarrow> True | Some n \<Rightarrow> isfew T n)
      in
      if left = None \<and> right = None then Some DropRoot
      else if lfew \<and> rfew then
        (if leftparent = parent then Some MergeLeft else Some MergeRight)
      else if (left \<noteq> None \<and> lfew) \<and> (right \<noteq> None \<and> \<not> rfew) then
        (if rightparent = parent then Some ShiftLeft else Some MergeLeft)
      else if (left \<noteq> None \<and> \<not> lfew) \<and> (right \<noteq> None \<and> rfew) then
        (if leftparent = parent then Some ShiftRight else Some MergeRight)
      else if leftparent = rightparent then
        do { l \<leftarrow> left; r \<leftarrow> right;
             if slotuse l \<le> slotuse r then Some ShiftLeft else Some ShiftRight }
      else (if leftparent = parent then Some ShiftRight else Some ShiftLeft))"

definition underflow_leaf ::
  "traits \<Rightarrow> ('k, 'v) eres \<Rightarrow> nat list option \<Rightarrow> nat list option \<Rightarrow> nat list option \<Rightarrow> nat \<Rightarrow>
   ('k, 'v) eres option" where
  "underflow_leaf T r leftparent rightparent parent parentslot =
     do { act \<leftarrow> underflow_action T (e_left r) (e_right r) leftparent rightparent parent;
          case act of
            DropRoot \<Rightarrow>
              Some (r\<lparr>e_tree := (free_node (e_tree r) (e_curr r))\<lparr>m_headleaf := None, m_tailleaf := None\<rparr>,
                      e_res := btree_ok, e_root := Some None\<rparr>)
          | MergeLeft \<Rightarrow>
              do { l \<leftarrow> e_left r;
                   (b, l', c') \<leftarrow> merge_leaves T (e_tree r) l (e_curr r);
                   Some (r\<lparr>e_tree := b, e_left := Some l', e_curr := c',
                           e_res := res_or (e_res r) btree_fixmerge\<rparr>) }
          | MergeRight \<Rightarrow>
              do { x \<leftarrow> e_right r;
                   (b, c', x') \<leftarrow> merge_leaves T (e_tree r) (e_curr r) x;
                   Some (r\<lparr>e_tree := b, e_curr := c', e_right := Some x',
                           e_res := res_or (e_res r) btree_fixmerge\<rparr>) }
          | ShiftLeft \<Rightarrow>
              do { x \<leftarrow> e_right r;
                   (c', x', pk, s) \<leftarrow> shift_left_leaf T (e_curr r) x (e_pkeys r) parentslot;
                   Some (r\<lparr>e_curr := c', e_right := Some x', e_pkeys := pk, e_res := res_or (e_res r) s\<rparr>) }
          | ShiftRight \<Rightarrow>
              do { l \<leftarrow> e_left r;
                   (l', c', pk) \<leftarrow> shift_right_leaf T l (e_curr r) (e_pkeys r) (parentslot - 1);
                   Some (r\<lparr>e_left := Some l', e_curr := c', e_pkeys := pk\<rparr>) } }"

definition underflow_inner ::
  "traits \<Rightarrow> ('k, 'v) eres \<Rightarrow> nat list option \<Rightarrow> nat list option \<Rightarrow> nat list option \<Rightarrow> nat \<Rightarrow>
   ('k, 'v) eres option" where
  "underflow_inner T r leftparent rightparent parent parentslot =
     do { act \<leftarrow> underflow_action T (e_left r) (e_right r) leftparent rightparent parent;
          case act of
            DropRoot \<Rightarrow>
              (case e_curr r of
                 Inner l ks cs \<Rightarrow>
                   do { c \<leftarrow> rd cs 0;
                        Some (r\<lparr>e_tree := free_node (e_tree r) (e_curr r), e_res := btree_ok,
                                e_root := Some (Some c)\<rparr>) }
               | Leaf a kvs \<Rightarrow> None)
          | MergeLeft \<Rightarrow>
              do { l \<leftarrow> e_left r;
                   (l', c') \<leftarrow> merge_inner T l (e_curr r) (e_pkeys r) (parentslot - 1);
                   Some (r\<lparr>e_left := Some l', e_curr := c', e_res := res_or (e_res r) btree_fixmerge\<rparr>) }
          | MergeRight \<Rightarrow>
              do { x \<leftarrow> e_right r;
                   (c', x') \<leftarrow> merge_inner T (e_curr r) x (e_pkeys r) parentslot;
                   Some (r\<lparr>e_curr := c', e_right := Some x', e_res := res_or (e_res r) btree_fixmerge\<rparr>) }
          | ShiftLeft \<Rightarrow>
              do { x \<leftarrow> e_right r;
                   (c', x', pk) \<leftarrow> shift_left_inner T (e_curr r) x (e_pkeys r) parentslot;
                   Some (r\<lparr>e_curr := c', e_right := Some x', e_pkeys := pk\<rparr>) }
          | ShiftRight \<Rightarrow>
              do { l \<leftarrow> e_left r;
                   (l', c', pk) \<leftarrow> shift_right_inner T l (e_curr r) (e_pkeys r) (parentslot - 1);
                   Some (r\<lparr>e_left := Some l', e_curr := c', e_pkeys := pk\<rparr>) } }"

subsection \<open>The descent\<close>

text \<open>
  Removal of the pair at \<open>slot\<close> from a leaf, with the update of the parent's separator or the
  request to update it further up. \<open>isroot\<close> is \<open>leaf == m_root\<close>.
\<close>

definition erase_from_leaf ::
  "traits \<Rightarrow> ('k, 'v) btree \<Rightarrow> bool \<Rightarrow> addr \<Rightarrow> ('k \<times> 'v) list \<Rightarrow> nat \<Rightarrow>
   ('k, 'v) node option \<Rightarrow> ('k, 'v) node option \<Rightarrow> nat list option \<Rightarrow> nat list option \<Rightarrow>
   nat list option \<Rightarrow> nat \<Rightarrow> 'k list \<Rightarrow> ('k, 'v) eres option" where
  "erase_from_leaf T b isroot a kvs slot left right leftparent rightparent parent parentslot pkeys =
     do { kvs' \<leftarrow> del_at kvs slot;
          (pkeys', myres) \<leftarrow>
            (if slot = length kvs' then
               (if parent \<noteq> None \<and> parentslot < length pkeys then
                  do { k \<leftarrow> rd (keys_of kvs') (length kvs' - 1);
                       Some (pkeys[parentslot := k], btree_ok) }
                else if length kvs' \<ge> 1 then
                  do { k \<leftarrow> rd (keys_of kvs') (length kvs' - 1);
                       Some (pkeys, res_or btree_ok (btree_update_lastkey k)) }
                else Some (pkeys, btree_ok))
             else Some (pkeys, btree_ok));
          let r = \<lparr>e_tree = b, e_res = myres, e_curr = Leaf a kvs', e_left = left, e_right = right,
                   e_pkeys = pkeys', e_root = None\<rparr>;
          if isunderflow T (Leaf a kvs') \<and> \<not> (isroot \<and> length kvs' \<ge> 1)
          then underflow_leaf T r leftparent rightparent parent parentslot
          else Some r }"

fun get_child :: "('k, 'v) node \<Rightarrow> nat \<Rightarrow> ('k, 'v) node option" where
  "get_child (Inner l ks cs) i = rd cs i"
| "get_child (Leaf a kvs) i = None"

fun set_child :: "('k, 'v) node \<Rightarrow> nat \<Rightarrow> ('k, 'v) node \<Rightarrow> ('k, 'v) node" where
  "set_child (Inner l ks cs) i c = Inner l ks (cs[i := c])"
| "set_child (Leaf a kvs) i c = Leaf a kvs"

text \<open>The neighbours of the child at \<open>slot\<close>.\<close>

definition my_left :: "('k, 'v) node list \<Rightarrow> nat \<Rightarrow> ('k, 'v) node option \<Rightarrow> ('k, 'v) node option option" where
  "my_left cs slot left =
     (if slot = 0 then
        (case left of None \<Rightarrow> Some None
         | Some l \<Rightarrow> if slotuse l = 0 then None else map_option Some (get_child l (slotuse l - 1)))
      else map_option Some (rd cs (slot - 1)))"

definition my_right :: "'k list \<Rightarrow> ('k, 'v) node list \<Rightarrow> nat \<Rightarrow> ('k, 'v) node option \<Rightarrow> ('k, 'v) node option option" where
  "my_right ks cs slot right =
     (if slot = length ks then
        (case right of None \<Rightarrow> Some None | Some r \<Rightarrow> map_option Some (get_child r 0))
      else map_option Some (rd cs (slot + 1)))"

text \<open>The in-place changes of a call for the child at \<open>slot\<close>, seen from the parent.\<close>

definition write_back :: "('k, 'v) node list \<Rightarrow> nat \<Rightarrow> nat \<Rightarrow> ('k, 'v) eres \<Rightarrow> ('k, 'v) node list" where
  "write_back cs m slot r =
     (let cs1 = cs[slot := e_curr r];
          cs2 = (case e_left r of Some l \<Rightarrow> (if slot = 0 then cs1 else cs1[slot - 1 := l]) | None \<Rightarrow> cs1)
      in (case e_right r of Some x \<Rightarrow> (if slot = m then cs2 else cs2[slot + 1 := x]) | None \<Rightarrow> cs2))"

definition write_left :: "('k, 'v) node option \<Rightarrow> nat \<Rightarrow> ('k, 'v) eres \<Rightarrow> ('k, 'v) node option" where
  "write_left left slot r =
     (case (left, e_left r) of
        (Some l, Some c) \<Rightarrow> Some (if slot = 0 then set_child l (slotuse l - 1) c else l)
      | _ \<Rightarrow> left)"

definition write_right :: "('k, 'v) node option \<Rightarrow> nat \<Rightarrow> nat \<Rightarrow> ('k, 'v) eres \<Rightarrow> ('k, 'v) node option" where
  "write_right right m slot r =
     (case (right, e_right r) of
        (Some x, Some c) \<Rightarrow> Some (if slot = m then set_child x 0 c else x)
      | _ \<Rightarrow> right)"

text \<open>Removal of the child that a merge below has emptied.\<close>

definition fix_merge ::
  "traits \<Rightarrow> ('k, 'v) btree \<Rightarrow> nat \<Rightarrow> 'k list \<Rightarrow> ('k, 'v) node list \<Rightarrow> nat \<Rightarrow>
   (('k, 'v) btree \<times> 'k list \<times> ('k, 'v) node list) option" where
  "fix_merge T b lvl ks cs slot0 =
     do { c0 \<leftarrow> rd cs slot0;
          let slot = (if slotuse c0 \<noteq> 0 then slot0 + 1 else slot0);
          dead \<leftarrow> rd cs slot;
          let b1 = free_node b dead;
          ks1 \<leftarrow> (if slot = 0 then None else del_at ks (slot - 1));
          cs1 \<leftarrow> del_at cs slot;
          if lvl = 1 then
            do { child \<leftarrow> rd cs1 (slot - 1);
                 kvs \<leftarrow> (case child of Leaf a kvs \<Rightarrow> Some kvs | Inner l ks' cs' \<Rightarrow> None);
                 k \<leftarrow> rd (keys_of kvs) (length kvs - 1);
                 if slot - 1 < innerslotmax T then Some (b1, ks1[slot - 1 := k], cs1) else None }
          else Some (b1, ks1, cs1) }"

text \<open>The part of the inner branch after the recursive call has returned.\<close>

definition erase_inner_after ::
  "traits \<Rightarrow> bool \<Rightarrow> nat \<Rightarrow> ('k, 'v) node list \<Rightarrow> nat \<Rightarrow> nat \<Rightarrow>
   ('k, 'v) node option \<Rightarrow> ('k, 'v) node option \<Rightarrow> nat list option \<Rightarrow> nat list option \<Rightarrow>
   nat list option \<Rightarrow> nat \<Rightarrow> 'k list \<Rightarrow> ('k, 'v) eres \<Rightarrow> ('k, 'v) eres option" where
  "erase_inner_after T isroot l cs m slot left right leftparent rightparent parent parentslot pkeys r =
     (let ks1 = e_pkeys r;
          cs1 = write_back cs m slot r;
          left1 = write_left left slot r;
          right1 = write_right right m slot r
      in
      if not_found (e_res r) then
        Some \<lparr>e_tree = e_tree r, e_res = e_res r, e_curr = Inner l ks1 cs1, e_left = left1,
              e_right = right1, e_pkeys = pkeys, e_root = e_root r\<rparr>
      else
        do { (pkeys1, myres) \<leftarrow>
               (if update_lastkey (e_res r) then
                  do { k \<leftarrow> lastkey (e_res r);
                       if parent \<noteq> None \<and> parentslot < length pkeys
                       then Some (pkeys[parentslot := k], btree_ok)
                       else Some (pkeys, res_or btree_ok (btree_update_lastkey k)) }
                else Some (pkeys, btree_ok));
             (b2, ks2, cs2) \<leftarrow>
               (if fixmerge (e_res r) then fix_merge T (e_tree r) l ks1 cs1 slot
                else Some (e_tree r, ks1, cs1));
             let r' = \<lparr>e_tree = b2, e_res = myres, e_curr = Inner l ks2 cs2, e_left = left1,
                       e_right = right1, e_pkeys = pkeys1, e_root = e_root r\<rparr>;
             if isunderflow T (Inner l ks2 cs2) \<and> \<not> (isroot \<and> length ks2 \<ge> 1)
             then underflow_inner T r' leftparent rightparent parent parentslot
             else Some r' })"

fun erase_one_descend ::
  "traits \<Rightarrow> ('k::linorder, 'v) btree \<Rightarrow> 'k \<Rightarrow> nat list \<Rightarrow> ('k, 'v) node \<Rightarrow>
   ('k, 'v) node option \<Rightarrow> ('k, 'v) node option \<Rightarrow> nat list option \<Rightarrow> nat list option \<Rightarrow>
   nat list option \<Rightarrow> nat \<Rightarrow> 'k list \<Rightarrow> ('k, 'v) eres option" where
  "erase_one_descend T b key path (Leaf a kvs) left right leftparent rightparent parent parentslot pkeys =
     (let slot = find_lower (keys_of kvs) key in
      if slot \<ge> length kvs \<or> \<not> key_equal key (keys_of kvs ! slot) then
        Some \<lparr>e_tree = b, e_res = btree_not_found, e_curr = Leaf a kvs, e_left = left,
              e_right = right, e_pkeys = pkeys, e_root = None\<rparr>
      else erase_from_leaf T b (path = []) a kvs slot left right leftparent rightparent parent parentslot pkeys)"
| "erase_one_descend T b key path (Inner l ks cs) left right leftparent rightparent parent parentslot pkeys =
     (let slot = find_lower ks key in
      do { myleft \<leftarrow> my_left cs slot left;
           let myleftparent = (if slot = 0 then leftparent else Some path);
           myright \<leftarrow> my_right ks cs slot right;
           let myrightparent = (if slot = length ks then rightparent else Some path);
           child \<leftarrow> rd cs slot;
           r \<leftarrow> erase_one_descend T b key (path @ [slot]) child myleft myright
                  myleftparent myrightparent (Some path) slot ks;
           erase_inner_after T (path = []) l cs (length ks) slot left right leftparent rightparent
             parent parentslot pkeys r })"

definition erase_one :: "traits \<Rightarrow> ('k::linorder, 'v) btree \<Rightarrow> 'k \<Rightarrow> (('k, 'v) btree \<times> bool) option" where
  "erase_one T b key =
     (case m_root b of
        None \<Rightarrow> Some (b, False)
      | Some root \<Rightarrow>
          do { r \<leftarrow> erase_one_descend T b key [] root None None None None None 0 [];
               let b1 = (e_tree r)\<lparr>m_root := (case e_root r of None \<Rightarrow> Some (e_curr r) | Some x \<Rightarrow> x)\<rparr>;
               let b2 = (if not_found (e_res r) then b1
                         else b1\<lparr>m_stats := (m_stats b1)\<lparr>itemcount := itemcount (m_stats b1) - 1\<rparr>\<rparr>);
               Some (b2, \<not> not_found (e_res r)) })"

text \<open>\<open>erase(key)\<close>: the loop is left after the first deletion, since duplicates are not allowed.\<close>

definition erase :: "traits \<Rightarrow> ('k::linorder, 'v) btree \<Rightarrow> 'k \<Rightarrow> (('k, 'v) btree \<times> nat) option" where
  "erase T b key = do { (b', found) \<leftarrow> erase_one T b key; Some (b', if found then 1 else 0) }"

end
