(* ===== verification/BTreeEraseOk.thy ===== *)
theory BTreeEraseOk
  imports BTreeErase
begin

text \<open>
  Correctness of the deletion from the STX B+ tree: every call of \<open>erase_one_descend\<close> removes
  the key from the subtree, repairs an underflow by a shift or a merge with a neighbour that
  has the same parent, and keeps the separators of the parent exact or asks the caller to
  update them; \<open>erase_one\<close> therefore keeps the invariant and deletes exactly the key.
\<close>

section \<open>Effects on the leaf list and the statistics\<close>

definition live_addrs :: "('k, 'v) node list \<Rightarrow> addr list" where
  "live_addrs cs = map fst (filter (\<lambda>p. snd p \<noteq> []) (leaf_lists cs))"

definition nleaves :: "('k, 'v) node list \<Rightarrow> nat" where
  "nleaves cs = length (leaf_lists cs)"

definition ninner :: "('k, 'v) node list \<Rightarrow> nat" where
  "ninner cs = sum_list (map count_inner cs)"

lemma footprint_append [simp]:
  "live_addrs (as @ bs) = live_addrs as @ live_addrs bs"
  "nleaves (as @ bs) = nleaves as + nleaves bs" "ninner (as @ bs) = ninner as + ninner bs"
  by (simp_all add: live_addrs_def nleaves_def ninner_def)

lemma footprint_Nil [simp]: "live_addrs [] = []" "nleaves [] = 0" "ninner [] = 0"
  by (simp_all add: live_addrs_def nleaves_def ninner_def)

lemma footprint_Cons:
  "NO_MATCH [] cs \<Longrightarrow> live_addrs (c # cs) = live_addrs [c] @ live_addrs cs"
  "NO_MATCH [] cs \<Longrightarrow> nleaves (c # cs) = nleaves [c] + nleaves cs"
  "NO_MATCH [] cs \<Longrightarrow> ninner (c # cs) = ninner [c] + ninner cs"
  by (simp_all add: live_addrs_def nleaves_def ninner_def)

lemma footprint_Inner [simp]:
  "live_addrs [Inner l ks cs] = live_addrs cs" "nleaves [Inner l ks cs] = nleaves cs"
  "ninner [Inner l ks cs] = Suc (ninner cs)"
  by (simp_all add: live_addrs_def nleaves_def ninner_def)

lemma footprint_Leaf [simp]:
  "live_addrs [Leaf a kvs] = (if kvs = [] then [] else [a])" "nleaves [Leaf a kvs] = 1"
  "ninner [Leaf a kvs] = 0"
  by (simp_all add: live_addrs_def nleaves_def ninner_def)

text \<open>
  The object changes from \<open>b\<close> to \<open>b'\<close> as the subtrees \<open>cs\<close> become \<open>cs'\<close>, whatever surrounds
  them: the leaf list is relinked and the node counts follow.
\<close>

definition st_rel :: "('k, 'v) btree \<Rightarrow> ('k, 'v) node list \<Rightarrow> ('k, 'v) btree \<Rightarrow> ('k, 'v) node list \<Rightarrow> bool" where
  "st_rel b cs b' cs' \<longleftrightarrow>
     itemcount (m_stats b') = itemcount (m_stats b) \<and>
     (\<forall>P S. chain b (P @ live_addrs cs @ S) \<longrightarrow> chain b' (P @ live_addrs cs' @ S)) \<and>
     (\<forall>k. leaves (m_stats b) = nleaves cs + k \<longrightarrow> leaves (m_stats b') = nleaves cs' + k) \<and>
     (\<forall>k. innernodes (m_stats b) = ninner cs + k \<longrightarrow> innernodes (m_stats b') = ninner cs' + k)"

lemma st_rel_same:
  "live_addrs cs' = live_addrs cs \<Longrightarrow> nleaves cs' = nleaves cs \<Longrightarrow> ninner cs' = ninner cs \<Longrightarrow> st_rel b cs b cs'"
  by (simp add: st_rel_def)

lemma st_rel_refl [simp]: "st_rel b cs b cs"
  by (rule st_rel_same) simp_all

lemma st_rel_trans [trans]: "st_rel b cs b' cs' \<Longrightarrow> st_rel b' cs' b'' cs'' \<Longrightarrow> st_rel b cs b'' cs''"
  by (simp add: st_rel_def)

lemma st_rel_frame:
  assumes "st_rel b cs b' cs'" shows "st_rel b (A @ cs @ B) b' (A @ cs' @ B)"
proof -
  have "chain b' (P @ live_addrs (A @ cs' @ B) @ S)" if "chain b (P @ live_addrs (A @ cs @ B) @ S)" for P S
    using assms that unfolding st_rel_def footprint_append by (metis append.assoc)
  moreover have "leaves (m_stats b') = nleaves (A @ cs' @ B) + k" if "leaves (m_stats b) = nleaves (A @ cs @ B) + k" for k
    using assms that unfolding st_rel_def footprint_append
    by (metis (no_types, lifting) add.assoc add.commute)
  moreover have "innernodes (m_stats b') = ninner (A @ cs' @ B) + k" if "innernodes (m_stats b) = ninner (A @ cs @ B) + k" for k
    using assms that unfolding st_rel_def footprint_append
    by (metis (no_types, lifting) add.assoc add.commute)
  ultimately show ?thesis using assms by (simp add: st_rel_def)
qed

lemma st_rel_wrap: "st_rel b cs b' cs' \<Longrightarrow> st_rel b [Inner l ks cs] b' [Inner l ks' cs']"
  unfolding st_rel_def footprint_Inner by (metis add_Suc add_Suc_right)

section \<open>Merging and shifting two neighbours\<close>

definition merged ::
  "traits \<Rightarrow> nat \<Rightarrow> ('k, 'v) btree \<Rightarrow> ('k, 'v) node \<Rightarrow> ('k, 'v) node \<Rightarrow> ('k, 'v) btree \<Rightarrow>
   ('k, 'v) node \<Rightarrow> ('k, 'v) node \<Rightarrow> bool" where
  "merged T h b l r b' m d \<longleftrightarrow>
     node_ok T (min_at T h) h m \<and> contents m = contents l @ contents r \<and>
     d = (case r of Leaf a kvs \<Rightarrow> Leaf a [] | Inner lv ks cs \<Rightarrow> Inner lv [] []) \<and>
     st_rel b [l, r] b' [m, d]"

definition shifted ::
  "traits \<Rightarrow> nat \<Rightarrow> ('k, 'v) node \<Rightarrow> ('k, 'v) node \<Rightarrow> ('k, 'v) node \<Rightarrow> ('k, 'v) node \<Rightarrow> bool" where
  "shifted T h l r l' r' \<longleftrightarrow>
     node_ok T (min_at T h) h l' \<and> node_ok T (min_at T h) h r' \<and>
     contents l' @ contents r' = contents l @ contents r \<and> (\<forall>b. st_rel b [l, r] b [l', r'])"

text \<open>Unlinking the right one of two adjacent leaves.\<close>

definition unlink :: "('k, 'v) btree \<Rightarrow> addr \<Rightarrow> addr \<Rightarrow> ('k, 'v) btree" where
  "unlink b la ra =
     (let b1 = b\<lparr>nextleaf := (nextleaf b)(la := nextleaf b ra)\<rparr>
      in case nextleaf b ra of
           Some x \<Rightarrow> b1\<lparr>prevleaf := (prevleaf b1)(x := Some la)\<rparr>
         | None \<Rightarrow> b1\<lparr>m_tailleaf := Some la\<rparr>)"

lemma chain_unlink:
  assumes "chain b (A @ la # ra # B)"
  shows "chain (unlink b la ra) (A @ la # B)"
proof -
  from assms have dist: "distinct (A @ la # ra # B)" and lt: "\<forall>x \<in> set (A @ la # ra # B). x < next_addr b"
    and d: "dll (nextleaf b) (prevleaf b) None (A @ la # ra # B) None" by (auto simp: chain_def)
  let ?nx = "nextleaf (unlink b la ra)" and ?pv = "prevleaf (unlink b la ra)"
  have nxr: "nextleaf b ra = (case B of [] \<Rightarrow> None | x # _ \<Rightarrow> Some x)"
    using dll_nextD [of _ _ _ "A @ [la]" ra B] d by simp
  have nx: "?nx = (nextleaf b)(la := nextleaf b ra)"
    by (auto simp: unlink_def Let_def split: option.splits)
  have pv: "?pv x = prevleaf b x" if "\<forall>y. nextleaf b ra = Some y \<longrightarrow> x \<noteq> y" for x
    using that by (auto simp: unlink_def Let_def split: option.splits)
  have "dll ?nx ?pv None A (Some la) = dll (nextleaf b) (prevleaf b) None A (Some la)"
    by (intro dll_cong) (use dist nxr in \<open>auto simp: nx intro!: pv split: list.splits\<close>)
  then have dA: "dll ?nx ?pv None A (Some la)" using d by (simp add: dll_append)
  have pvl: "?pv la = (if A = [] then None else Some (last A))"
    using dll_prevD [OF d] dist nxr by (subst pv) (auto split: list.splits)
  have dB: "dll ?nx ?pv (Some la) B None"
  proof (cases B)
    case (Cons x B')
    have px: "?pv x = Some la" using Cons nxr by (auto simp: unlink_def Let_def)
    have "dll ?nx ?pv (Some x) B' None = dll (nextleaf b) (prevleaf b) (Some x) B' None"
      by (intro dll_cong) (use dist nxr Cons in \<open>auto simp: nx intro!: pv\<close>)
    with d px show ?thesis using dist by (auto simp: Cons dll_append nx)
  qed simp
  have "dll ?nx ?pv None (A @ la # B) None"
    using dA dB pvl nxr dist by (auto simp: dll_append nx split: list.splits)
  moreover have "m_headleaf (unlink b la ra) = m_headleaf b" "next_addr (unlink b la ra) = next_addr b"
    "m_tailleaf (unlink b la ra) = (if B = [] then Some la else m_tailleaf b)"
    using nxr by (auto simp: unlink_def Let_def split: list.splits)
  moreover have "m_headleaf b = (case A @ la # B of [] \<Rightarrow> None | x # _ \<Rightarrow> Some x)"
    using assms by (cases A) (auto simp: chain_def)
  moreover have "(if B = [] then Some la else m_tailleaf b) = Some (last (A @ la # B))"
    using assms by (auto simp: chain_def)
  ultimately show ?thesis using dist lt unfolding chain_def by simp
qed

lemma unlink_stats [simp]: "m_stats (unlink b la ra) = m_stats b"
  by (simp add: unlink_def Let_def split: option.split)

lemma two_leaves:
  assumes "node_ok T 1 0 l" "node_ok T 1 0 r"
  obtains la lk ra rk where "l = Leaf la lk" "r = Leaf ra rk" "lk \<noteq> []" "rk \<noteq> []"
proof -
  from assms obtain la lk ra rk where "l = Leaf la lk" "r = Leaf ra rk" "1 \<le> length lk" "1 \<le> length rk"
    by (auto simp: node_ok_0)
  then show thesis using that [of la lk ra rk] by fastforce
qed

lemma merge_leaves_ok:
  assumes "node_ok T 1 0 l" "node_ok T 1 0 r" "min_at T 0 \<le> slotuse l + slotuse r"
    "slotuse l + slotuse r \<le> leafslotmax T"
  shows "\<exists>b' m d. merge_leaves T b l r = Some (b', m, d) \<and> merged T 0 b l r b' m d"
proof -
  from two_leaves [OF assms(1,2)] obtain la lk ra rk where
    n: "l = Leaf la lk" "r = Leaf ra rk" "lk \<noteq> []" "rk \<noteq> []" by blast
  have "merge_leaves T b l r = Some (unlink b la ra, Leaf la (lk @ rk), Leaf ra [])"
    using assms by (simp add: n app_at_def unlink_def Let_def split: option.split)
  moreover have "chain (unlink b la ra) (P @ la # S)" if "chain b (P @ la # ra # S)" for P S
    using that by (rule chain_unlink)
  ultimately show ?thesis using assms
    by (auto simp: merged_def n st_rel_def footprint_Cons)
qed

lemma shift_left_leaf_ok:
  assumes "node_ok T 1 0 l" "node_ok T 1 0 r" "slotuse l < min_at T 0" "min_at T 0 \<le> Suc (slotuse l)"
    "min_at T 0 < slotuse r" "s < length pk"
  shows "\<exists>l' r'. shift_left_leaf T l r pk s = Some (l', r', pk[s := last_key l'], btree_ok) \<and> shifted T 0 l r l' r'"
proof -
  from two_leaves [OF assms(1,2)] obtain la lk ra rk where
    n: "l = Leaf la lk" "r = Leaf ra rk" "lk \<noteq> []" "rk \<noteq> []" by blast
  define sh where "sh = (length rk - length lk) div 2"
  have sh: "0 < sh" "sh + sh \<le> length rk - length lk" "length rk - length lk \<le> Suc (sh + sh)"
    using assms by (auto simp: n sh_def)
  have "shift_left_leaf T l r pk s =
      Some (Leaf la (lk @ take sh rk), Leaf ra (drop sh rk), pk[s := last_key (Leaf la (lk @ take sh rk))], btree_ok)"
    using assms sh n(3,4) by (auto simp: n app_at_def sh_def [symmetric] Let_def rd_def last_key_def last_conv_nth nth_append)
  moreover have "shifted T 0 l r (Leaf la (lk @ take sh rk)) (Leaf ra (drop sh rk))"
    using assms sh n(3,4) by (auto simp: shifted_def n footprint_Cons intro!: st_rel_same)
  ultimately show ?thesis by blast
qed

lemma shift_right_leaf_ok:
  assumes "node_ok T 1 0 l" "node_ok T 1 0 r" "slotuse r < min_at T 0" "min_at T 0 \<le> Suc (slotuse r)"
    "min_at T 0 < slotuse l" "s < length pk"
  shows "\<exists>l' r'. shift_right_leaf T l r pk s = Some (l', r', pk[s := last_key l']) \<and> shifted T 0 l r l' r'"
proof -
  from two_leaves [OF assms(1,2)] obtain la lk ra rk where
    n: "l = Leaf la lk" "r = Leaf ra rk" "lk \<noteq> []" "rk \<noteq> []" by blast
  define sh where "sh = (length lk - length rk) div 2"
  define p where "p = length lk - sh"
  have sh: "0 < sh" "sh + sh \<le> length lk - length rk" "length lk - length rk \<le> Suc (sh + sh)"
    using assms by (auto simp: n sh_def)
  have p: "0 < p" "p < length lk" "p = length lk - sh" "length lk - Suc sh < p" using sh by (auto simp: p_def)
  have "shift_right_leaf T l r pk s =
      Some (Leaf la (take p lk), Leaf ra (drop p lk @ rk), pk[s := last_key (Leaf la (take p lk))])"
    using assms sh p(1,2,4) n(3,4)
    by (auto simp: n app_at_def sh_def [symmetric] p_def [symmetric] Let_def rd_def wr_def last_key_def last_take)
  moreover have "shifted T 0 l r (Leaf la (take p lk)) (Leaf ra (drop p lk @ rk))"
    using assms sh p n(3,4) by (auto simp: shifted_def n footprint_Cons intro!: st_rel_same)
  ultimately show ?thesis by blast
qed

lemma two_inners:
  assumes "node_ok T lo (Suc h) l" "node_ok T lo (Suc h) r"
  obtains lc rc where "l = Inner (Suc h) (seps lc) lc" "r = Inner (Suc h) (seps rc) rc"
    "lo < length lc" "lo < length rc" "length lc \<le> Suc (innerslotmax T)" "length rc \<le> Suc (innerslotmax T)"
    "\<forall>c \<in> set (lc @ rc). node_ok T (min_at T h) h c"
  using assms by (fastforce simp: node_ok_Suc)

lemma inner_last_key:
  assumes "traits_ok T" "\<forall>c \<in> set cs. node_ok T (min_at T h) h c" "cs \<noteq> []"
  shows "last_key (Inner l ks cs) = last_key (last cs)"
  using children_nonempty [OF assms(1,2), of "last cs"] assms(3) by (intro last_key_Inner) auto

text \<open>The separator between two neighbours joins the separators on both sides.\<close>

lemma seps_join:
  assumes "traits_ok T" "\<forall>c \<in> set lc. node_ok T (min_at T h) h c" "lc \<noteq> []" "rc \<noteq> []"
  shows "seps (lc @ rc) = seps lc @ last_key (Inner l ks lc) # seps rc"
  using assms(3,4) inner_last_key [OF assms(1,2,3)] by (cases lc rule: rev_cases) auto

lemma merge_inner_ok:
  assumes T: "traits_ok T" and ok: "node_ok T 1 (Suc h) l" "node_ok T 1 (Suc h) r"
    and sz: "mininnerslots T \<le> slotuse l + slotuse r" "slotuse l + slotuse r < innerslotmax T"
    and pk: "rd pk s = Some (last_key l)"
  shows "\<exists>m d. merge_inner T l r pk s = Some (m, d) \<and> merged T (Suc h) b l r b m d"
proof -
  from two_inners [OF ok] obtain lc rc where
    n: "l = Inner (Suc h) (seps lc) lc" "r = Inner (Suc h) (seps rc) rc" "1 < length lc" "1 < length rc"
    and okc: "\<forall>c \<in> set (lc @ rc). node_ok T (min_at T h) h c" by blast
  have ne: "lc \<noteq> []" "rc \<noteq> []" using n(3,4) by auto
  have k: "seps (lc @ rc) = seps lc @ last_key l # seps rc"
    unfolding n(1) by (rule seps_join [OF T _ ne]) (use okc in auto)
  have "merge_inner T l r pk s = Some (Inner (Suc h) (seps (lc @ rc)) (lc @ rc), Inner (Suc h) [] [])"
    using sz pk n(3,4) unfolding k by (simp add: n(1,2) app_at_def)
  moreover have "merged T (Suc h) b l r b (Inner (Suc h) (seps (lc @ rc)) (lc @ rc)) (Inner (Suc h) [] [])"
    using sz n(3,4) okc by (auto simp: merged_def n(1,2) min_at_def footprint_Cons intro!: st_rel_same)
  ultimately show ?thesis by blast
qed

lemma shift_left_inner_ok:
  assumes T: "traits_ok T" and ok: "node_ok T 1 (Suc h) l" "node_ok T 1 (Suc h) r"
    and sz: "slotuse l < mininnerslots T" "mininnerslots T \<le> Suc (slotuse l)" "mininnerslots T < slotuse r"
    and pk: "rd pk s = Some (last_key l)"
  shows "\<exists>l' r'. shift_left_inner T l r pk s = Some (l', r', pk[s := last_key l']) \<and> shifted T (Suc h) l r l' r'"
proof -
  from two_inners [OF ok] obtain lc rc where
    n: "l = Inner (Suc h) (seps lc) lc" "r = Inner (Suc h) (seps rc) rc" "1 < length lc" "1 < length rc"
      "length lc \<le> Suc (innerslotmax T)" "length rc \<le> Suc (innerslotmax T)"
    and okc: "\<forall>c \<in> set (lc @ rc). node_ok T (min_at T h) h c" by blast
  define sh where "sh = (length (seps rc) - length (seps lc)) div 2"
  have sh: "0 < sh" "sh + sh \<le> length rc - length lc" "length rc - length lc \<le> Suc (sh + sh)"
    "sh < length rc" "sh - 1 < length rc - 1" using sz n(3,4) by (auto simp: n(1,2) sh_def)
  have shd: "(length rc - length lc) div 2 = sh" using n(3,4) by (simp add: sh_def)
  let ?lc = "lc @ take sh rc" and ?rc = "drop sh rc"
  let ?l = "Inner (Suc h) (seps ?lc) ?lc" and ?r = "Inner (Suc h) (seps ?rc) ?rc"
  have ne: "lc \<noteq> []" "take sh rc \<noteq> []" using n(3,4) sh by auto
  have "seps (take sh rc) = take (sh - 1) (seps rc)" using seps_take [of "sh - 1" rc] sh by simp
  then have kl: "seps ?lc = seps lc @ last_key l # take (sh - 1) (seps rc)"
    unfolding n(1) using seps_join [OF T _ ne] okc by auto
  have kr: "seps ?rc = drop sh (seps rc)" by (rule seps_drop)
  have "last_key ?l = last_key (last ?lc)"
    by (rule inner_last_key [OF T]) (use okc ne in \<open>auto dest: in_set_takeD\<close>)
  then have lk: "last_key ?l = seps rc ! (sh - 1)"
    using sh ne by (simp add: last_take nth_butlast)
  have szl: "length lc + sh \<le> Suc (innerslotmax T)" "mininnerslots T < length lc + sh"
    "mininnerslots T < length rc - sh" using sz sh n by auto
  have s: "s < length pk" using pk by (auto simp: rd_def split: if_splits)
  have "shift_left_inner T l r pk s = Some (?l, ?r, pk[s := last_key ?l])"
    unfolding lk unfolding kl kr using pk s sh szl n(3,4) shd
    by (auto simp add: n(1,2) Let_def app_at_def rd_def wr_def)
  moreover have "shifted T (Suc h) l r ?l ?r"
    using szl sh n(5,6) okc
    by (auto simp: shifted_def n(1,2) min_at_def footprint_Cons intro!: st_rel_same dest: in_set_takeD in_set_dropD
        simp flip: footprint_append concat_append map_append)
  ultimately show ?thesis by blast
qed

lemma shift_right_inner_ok:
  assumes T: "traits_ok T" and ok: "node_ok T 1 (Suc h) l" "node_ok T 1 (Suc h) r"
    and sz: "slotuse r < mininnerslots T" "mininnerslots T \<le> Suc (slotuse r)" "mininnerslots T < slotuse l"
    and pk: "rd pk s = Some (last_key l)"
  shows "\<exists>l' r'. shift_right_inner T l r pk s = Some (l', r', pk[s := last_key l']) \<and> shifted T (Suc h) l r l' r'"
proof -
  from two_inners [OF ok] obtain lc rc where
    n: "l = Inner (Suc h) (seps lc) lc" "r = Inner (Suc h) (seps rc) rc" "1 < length lc" "1 < length rc"
      "length lc \<le> Suc (innerslotmax T)" "length rc \<le> Suc (innerslotmax T)"
    and okc: "\<forall>c \<in> set (lc @ rc). node_ok T (min_at T h) h c" by blast
  define sh where "sh = (length (seps lc) - length (seps rc)) div 2"
  define p where "p = length lc - sh"
  have sh: "0 < sh" "sh + sh \<le> length lc - length rc" "length lc - length rc \<le> Suc (sh + sh)"
    using sz n(3,4) by (auto simp: n(1,2) sh_def)
  have p: "0 < p" "p < length lc" "p - 1 < length lc - 1" "length lc - p = sh" "length lc - Suc sh = p - 1"
    "Suc (p - 1) = p" using sh n(4) by (auto simp: p_def)
  have shd: "(length lc - length rc) div 2 = sh" using n(3,4) by (simp add: sh_def)
  let ?lc = "take p lc" and ?rc = "drop p lc @ rc"
  let ?l = "Inner (Suc h) (seps ?lc) ?lc" and ?r = "Inner (Suc h) (seps ?rc) ?rc"
  have ne: "?lc \<noteq> []" "drop p lc \<noteq> []" "rc \<noteq> []" "lc \<noteq> []" using n(3,4) p by auto
  have kl: "seps ?lc = take (p - 1) (seps lc)" using seps_take [of "p - 1" lc] p by simp
  have okd: "\<forall>c \<in> set lc. node_ok T (min_at T h) h c" "\<forall>c \<in> set (drop p lc). node_ok T (min_at T h) h c"
    using okc by (auto dest: in_set_dropD)
  have "last_key (Inner 0 [] (drop p lc)) = last_key l"
    using inner_last_key [OF T okd(2) ne(2)] inner_last_key [OF T okd(1) ne(4)] p by (simp add: n(1))
  then have kr: "seps ?rc = drop p (seps lc) @ last_key l # seps rc"
    using seps_join [OF T okd(2) ne(2,3), of 0 "[]"] seps_drop [of p lc] by simp
  have "last_key ?l = last_key (last ?lc)"
    by (rule inner_last_key [OF T]) (use okc ne in \<open>auto dest: in_set_takeD\<close>)
  then have lk: "last_key ?l = seps lc ! (p - 1)"
    using p by (simp add: last_take nth_butlast)
  have szl: "length rc + sh \<le> Suc (innerslotmax T)" "mininnerslots T < length rc + sh" "mininnerslots T < p"
    "Suc (length lc + length rc - Suc (Suc p)) \<le> innerslotmax T"
    using sz sh n(3-6) unfolding p_def n(1,2) slotuse.simps length_map length_butlast by linarith+
  have s: "s < length pk" using pk by (auto simp: rd_def split: if_splits)
  have "shift_right_inner T l r pk s = Some (?l, ?r, pk[s := last_key ?l])"
    unfolding lk unfolding kl kr using pk s sh szl p n(3,4) shd
    by (auto simp add: n(1,2) Let_def app_at_def rd_def wr_def)
  moreover have "shifted T (Suc h) l r ?l ?r"
    using szl sh p n(5,6) okc
    by (auto simp: shifted_def n(1,2) min_at_def footprint_Cons intro!: st_rel_same dest: in_set_takeD in_set_dropD
        simp flip: append.assoc footprint_append concat_append map_append)
  ultimately show ?thesis by blast
qed

section \<open>The choice of the repair\<close>

text \<open>
  The repair only involves a neighbour below the same parent, and it is possible: a merge
  partner has few slots, a donor has slots to spare.
\<close>

fun action_fits :: "traits \<Rightarrow> ('k, 'v) node list \<Rightarrow> nat \<Rightarrow> underflow_action \<Rightarrow> bool" where
  "action_fits T cs i DropRoot = False"
| "action_fits T cs i MergeLeft = (0 < i \<and> isfew T (cs ! (i - 1)))"
| "action_fits T cs i MergeRight = (Suc i < length cs \<and> isfew T (cs ! Suc i))"
| "action_fits T cs i ShiftLeft = (Suc i < length cs \<and> \<not> isfew T (cs ! Suc i))"
| "action_fits T cs i ShiftRight = (0 < i \<and> \<not> isfew T (cs ! (i - 1)))"

text \<open>What the descent passes down for the child at \<open>i\<close> of the children \<open>cs\<close> of \<open>parent\<close>.\<close>

definition neighbours ::
  "('k, 'v) node list \<Rightarrow> nat \<Rightarrow> ('k, 'v) node option \<Rightarrow> ('k, 'v) node option \<Rightarrow>
   nat list option \<Rightarrow> nat list option \<Rightarrow> nat list option \<Rightarrow> bool" where
  "neighbours cs i left right lp rp par \<longleftrightarrow>
     i < length cs \<and> 2 \<le> length cs \<and>
     (lp = par \<longleftrightarrow> 0 < i) \<and> (rp = par \<longleftrightarrow> Suc i < length cs) \<and>
     (0 < i \<longrightarrow> left = Some (cs ! (i - 1))) \<and> (Suc i < length cs \<longrightarrow> right = Some (cs ! Suc i))"

lemma underflow_action_fits:
  assumes "neighbours cs i left right lp rp par"
  shows "\<exists>a. underflow_action T left right lp rp par = Some a \<and> action_fits T cs i a"
  using assms unfolding neighbours_def
  by (cases "0 < i"; cases "Suc i < length cs")
     (auto simp: underflow_action_def Let_def split: option.splits)

section \<open>Repairing an underflow\<close>

definition dead :: "nat \<Rightarrow> ('k, 'v) node \<Rightarrow> bool" where
  "dead h d \<longleftrightarrow> (if h = 0 then \<exists>a. d = Leaf a [] else d = Inner h [] [])"

text \<open>
  The children \<open>cs\<close> and the separators \<open>pk\<close> of the parent after a call for its child \<open>i\<close>.
  After a merge the right partner is an emptied node that the parent still has to remove,
  together with the separator in front of it.
\<close>

definition shape_ok :: "traits \<Rightarrow> nat \<Rightarrow> nat \<Rightarrow> ('k, 'v) node list \<Rightarrow> 'k list \<Rightarrow> bool \<Rightarrow> bool" where
  "shape_ok T h i cs pk fm \<longleftrightarrow>
     (if fm then
        \<exists>X m d Y z. cs = X @ m # d # Y \<and> (i = length X \<or> i = Suc (length X)) \<and>
          (\<forall>c \<in> set (X @ m # Y). node_ok T (min_at T h) h c) \<and> dead h d \<and>
          pk = map last_key X @ z # (if Y = [] then [] else last_key m # seps Y)
      else (\<forall>c \<in> set cs. node_ok T (min_at T h) h c) \<and> pk = seps cs)"

lemma shape_merge:
  assumes T: "traits_ok T" and m: "merged T h b l r b' m d" and r: "node_ok T 1 h r"
    and ok: "\<forall>c \<in> set (X @ Y). node_ok T (min_at T h) h c" and i: "i = length X \<or> i = Suc (length X)"
  shows "shape_ok T h i (X @ m # d # Y) (seps (X @ l # r # Y)) True"
    and "contents_list (X @ m # d # Y) = contents_list (X @ l # r # Y)"
    and "st_rel b (X @ l # r # Y) b' (X @ m # d # Y)"
proof -
  have "contents r \<noteq> []" using contents_nonempty [OF T r] by simp
  then have lk: "last_key m = last_key r" using m by (simp add: merged_def last_key_def)
  have dead: "dead h d" using m r by (cases h) (auto simp: merged_def dead_def node_ok_0 node_ok_Suc)
  show "shape_ok T h i (X @ m # d # Y) (seps (X @ l # r # Y)) True"
    unfolding shape_ok_def if_True
    by (intro exI [of _ X] exI [of _ m] exI [of _ d] exI [of _ Y] exI [of _ "last_key l"])
       (use lk dead ok i m in \<open>auto simp: merged_def\<close>)
  show "contents_list (X @ m # d # Y) = contents_list (X @ l # r # Y)"
    using m dead by (auto simp: merged_def dead_def split: if_splits)
  have "st_rel b [l, r] b' [m, d]" using m unfolding merged_def by blast
  from st_rel_frame [OF this, of X Y] show "st_rel b (X @ l # r # Y) b' (X @ m # d # Y)" by simp
qed

lemma shape_shift:
  assumes T: "traits_ok T" and sh: "shifted T h l r l' r'" and r: "node_ok T 1 h r"
    and ok: "\<forall>c \<in> set (X @ Y). node_ok T (min_at T h) h c"
  shows "shape_ok T h i (X @ l' # r' # Y) ((seps (X @ l # r # Y))[length X := last_key l']) False"
    and "contents_list (X @ l' # r' # Y) = contents_list (X @ l # r # Y)"
    and "st_rel b (X @ l # r # Y) b (X @ l' # r' # Y)"
proof -
  have ne: "contents r \<noteq> []" "contents r' \<noteq> []"
    using contents_nonempty [OF T r] contents_nonempty [OF T, of "min_at T h" h r'] sh T
    by (auto simp: shifted_def)
  moreover have c: "contents l' @ contents r' = contents l @ contents r" using sh by (simp add: shifted_def)
  ultimately have lk: "last_key r' = last_key r" unfolding last_key_def by (metis last_appendR)
  have "(seps (X @ l # r # Y))[length X := last_key l'] = seps (X @ l' # r' # Y)"
    using lk by (auto simp: list_update_append)
  then show "shape_ok T h i (X @ l' # r' # Y) ((seps (X @ l # r # Y))[length X := last_key l']) False"
    using ok sh by (auto simp: shape_ok_def shifted_def)
  show "contents_list (X @ l' # r' # Y) = contents_list (X @ l # r # Y)"
    using c by (simp flip: append_assoc)
  show "st_rel b (X @ l # r # Y) b (X @ l' # r' # Y)"
    using sh st_rel_frame [of b "[l, r]" b "[l', r']" X Y] by (simp add: shifted_def)
qed

subsection \<open>Writing back\<close>

lemma write_back_right:
  assumes "length X = i" "e_curr r = l'" "e_right r = Some r'"
    "0 < i \<Longrightarrow> e_left r = Some ((X @ l # x # Y) ! (i - 1))"
  shows "write_back (X @ l # x # Y) (length (X @ l # x # Y) - 1) i r = X @ l' # r' # Y"
proof (cases X rule: rev_cases)
  case (snoc X' y)
  with assms show ?thesis by (auto simp: write_back_def Let_def list_update_append nth_append split: option.splits)
qed (use assms in \<open>auto simp: write_back_def Let_def split: option.splits\<close>)

lemma write_back_left:
  assumes "Suc (length X) = i" "e_curr r = r'" "e_left r = Some l'"
    "Y \<noteq> [] \<Longrightarrow> e_right r = Some (hd Y)"
  shows "write_back (X @ l # x # Y) (length (X @ l # x # Y) - 1) i r = X @ l' # r' # Y"
  using assms by (cases Y) (auto simp: write_back_def Let_def list_update_append split: option.splits)

lemma list_update_other: "j \<noteq> i \<Longrightarrow> xs[i := c, j := xs ! j] = xs[i := c]"
  by (metis list_update_id list_update_swap)

lemma write_back_same:
  assumes "neighbours cs i (e_left r) (e_right r) lp rp par"
  shows "write_back cs (length cs - 1) i r = cs[i := e_curr r]"
  using assms
  by (cases "0 < i"; cases "Suc i < length cs")
     (auto simp: write_back_def Let_def neighbours_def list_update_other split: option.splits)

lemma write_back_update: "write_back (cs[i := c]) m i r = write_back cs m i r"
  by (simp add: write_back_def)

subsection \<open>The repair of a child\<close>

text \<open>\<open>r\<close> is \<open>r1\<close> after the repair of the child \<open>i\<close> of the children \<open>cs\<close>.\<close>

definition repaired :: "traits \<Rightarrow> nat \<Rightarrow> ('k, 'v) node list \<Rightarrow> nat \<Rightarrow> ('k, 'v) eres \<Rightarrow> ('k, 'v) eres \<Rightarrow> bool" where
  "repaired T h cs i r1 r \<longleftrightarrow>
     (let cs' = write_back cs (length cs - 1) i r in
      e_root r = e_root r1 \<and> not_found (e_res r) = not_found (e_res r1) \<and>
      update_lastkey (e_res r) = update_lastkey (e_res r1) \<and> lastkey (e_res r) = lastkey (e_res r1) \<and>
      (i = 0 \<longrightarrow> e_left r = e_left r1) \<and> (Suc i = length cs \<longrightarrow> e_right r = e_right r1) \<and>
      contents_list cs' = contents_list cs \<and> st_rel (e_tree r1) cs (e_tree r) cs' \<and>
      shape_ok T h i cs' (e_pkeys r) (fixmerge (e_res r)))"

text \<open>The situation in which the repair is called: the child \<open>i\<close> may lack one slot.\<close>

definition to_repair ::
  "traits \<Rightarrow> nat \<Rightarrow> ('k, 'v) node list \<Rightarrow> nat \<Rightarrow> ('k, 'v) eres \<Rightarrow> nat list option \<Rightarrow> nat list option \<Rightarrow>
   nat list option \<Rightarrow> bool" where
  "to_repair T h cs i r lp rp par \<longleftrightarrow>
     neighbours cs i (e_left r) (e_right r) lp rp par \<and>
     (\<forall>j < length cs. j \<noteq> i \<longrightarrow> node_ok T (min_at T h) h (cs ! j)) \<and>
     node_ok T (min_at T h - 1) h (cs ! i) \<and>
     e_curr r = cs ! i \<and> e_pkeys r = seps cs \<and> \<not> fixmerge (e_res r)"

lemma res_or_simps [simp]:
  "not_found (res_or r s) = (not_found r \<or> not_found s)"
  "update_lastkey (res_or r s) = (update_lastkey r \<or> update_lastkey s)"
  "fixmerge (res_or r s) = (fixmerge r \<or> fixmerge s)"
  "lastkey (res_or r s) = (if update_lastkey s then lastkey s else lastkey r)"
  by (simp_all add: res_or_def)

lemma res_consts [simp]:
  "\<not> not_found btree_ok" "\<not> update_lastkey btree_ok" "\<not> fixmerge btree_ok"
  "\<not> not_found btree_fixmerge" "\<not> update_lastkey btree_fixmerge" "fixmerge btree_fixmerge"
  "\<not> not_found (btree_update_lastkey k)" "update_lastkey (btree_update_lastkey k)"
  "\<not> fixmerge (btree_update_lastkey k)" "lastkey (btree_update_lastkey k) = Some k"
  "not_found btree_not_found"
  by (simp_all add: btree_ok_def btree_fixmerge_def btree_update_lastkey_def btree_not_found_def)

lemma minslots_at: "node_ok T lo h n \<Longrightarrow> minslots T n = min_at T h"
  by (cases h) (auto simp: node_ok_0 node_ok_Suc min_at_def)

lemma min_at_bounds:
  assumes "traits_ok T"
  shows "4 \<le> min_at T h" "min_at T 0 + min_at T 0 \<le> leafslotmax T"
    "mininnerslots T + mininnerslots T \<le> innerslotmax T" "min_at T (Suc h) = mininnerslots T"
  using assms by (auto simp: min_at_def traits_ok_def minleafslots_def mininnerslots_def)

text \<open>The partner of a repair on the left or on the right.\<close>

lemma to_repair_right:
  assumes T: "traits_ok T" and "to_repair T h cs i r lp rp par" and "Suc i < length cs"
  obtains X c x Y where "cs = X @ c # x # Y" "length X = i" "e_curr r = c" "e_right r = Some x"
    "cs ! Suc i = x" "0 < i \<Longrightarrow> e_left r = Some ((X @ c # x # Y) ! (i - 1))"
    "node_ok T 1 h c" "node_ok T 1 h x" "min_at T h \<le> slotuse x" "min_at T h \<le> Suc (slotuse c)"
    "\<forall>c \<in> set (X @ Y). node_ok T (min_at T h) h c" "i < length (seps cs)"
    "rd (seps cs) i = Some (last_key c)"
proof -
  define X c x Y where "X = take i cs" and "c = cs ! i" and "x = cs ! Suc i" and "Y = drop (Suc (Suc i)) cs"
  have split: "cs = X @ c # x # Y"
    using assms(3) by (simp add: X_def c_def x_def Y_def Cons_nth_drop_Suc)
  note d = assms(2) [unfolded to_repair_def neighbours_def]
  have ok: "node_ok T (min_at T h) h (cs ! j)" if "j < length cs" "j \<noteq> i" for j using d that by blast
  have okx: "node_ok T (min_at T h) h x" using ok [of "Suc i"] assms(3) by (simp add: x_def)
  have okc: "node_ok T (min_at T h - 1) h c" using d by (simp add: c_def)
  have okXY: "\<forall>c \<in> set (X @ Y). node_ok T (min_at T h) h c"
    using assms(3) ok by (auto simp: X_def Y_def in_set_conv_nth)
  note m = min_at_bounds(1) [OF T, of h] node_ok_slotuse [OF okx] node_ok_slotuse [OF okc]
  have 1: "node_ok T 1 h c" "node_ok T 1 h x" using m okx okc by (auto intro: node_ok_mono)
  show thesis
    by (rule that [of X c x Y]) (use d assms(3) m 1 okXY in \<open>auto simp: X_def c_def x_def Y_def nth_butlast
      Cons_nth_drop_Suc\<close>)
qed

lemma to_repair_left:
  assumes T: "traits_ok T" and "to_repair T h cs i r lp rp par" and "0 < i"
  obtains X x c Y where "cs = X @ x # c # Y" "Suc (length X) = i" "e_curr r = c" "e_left r = Some x"
    "cs ! (i - 1) = x" "Y \<noteq> [] \<Longrightarrow> e_right r = Some (hd Y)"
    "node_ok T 1 h x" "node_ok T 1 h c" "min_at T h \<le> slotuse x" "min_at T h \<le> Suc (slotuse c)"
    "\<forall>c \<in> set (X @ Y). node_ok T (min_at T h) h c" "i - 1 < length (seps cs)"
    "rd (seps cs) (i - 1) = Some (last_key x)"
proof -
  note d = assms(2) [unfolded to_repair_def neighbours_def]
  define X x c Y where "X = take (i - 1) cs" and "x = cs ! (i - 1)" and "c = cs ! i" and "Y = drop (Suc i) cs"
  have i: "i < length cs" using d by blast
  have "drop (i - 1) cs = x # c # Y"
    using assms(3) i Cons_nth_drop_Suc [of "i - 1" cs] Cons_nth_drop_Suc [of i cs] by (simp add: x_def c_def Y_def)
  then have split: "cs = X @ x # c # Y" by (metis X_def append_take_drop_id)
  have ok: "node_ok T (min_at T h) h (cs ! j)" if "j < length cs" "j \<noteq> i" for j using d that by blast
  have okx: "node_ok T (min_at T h) h x" using ok [of "i - 1"] i assms(3) by (simp add: x_def)
  have okc: "node_ok T (min_at T h - 1) h c" using d by (simp add: c_def)
  have okXY: "\<forall>c \<in> set (X @ Y). node_ok T (min_at T h) h c"
    using assms(3) i ok by (auto simp: X_def Y_def in_set_conv_nth)
  note m = min_at_bounds(1) [OF T, of h] node_ok_slotuse [OF okx] node_ok_slotuse [OF okc]
  have 1: "node_ok T 1 h c" "node_ok T 1 h x" using m okx okc by (auto intro: node_ok_mono)
  have r: "e_right r = Some (hd Y)" if "Y \<noteq> []" using d that by (auto simp: Y_def hd_drop_conv_nth)
  show thesis
    by (rule that [OF split _ _ _ _ r 1(2,1) _ _ okXY])
       (use d assms(3) i m in \<open>auto simp: X_def c_def x_def nth_butlast\<close>)
qed

text \<open>What the four repairs need to know of the two partners.\<close>

lemma partner_left:
  assumes T: "traits_ok T" and R: "to_repair T h cs i r lp rp par" and u: "isunderflow T (cs ! i)" and i: "0 < i"
  obtains x where "e_left r = Some x" "node_ok T 1 h x" "node_ok T 1 h (e_curr r)"
    "isfew T (cs ! (i - 1)) \<longleftrightarrow> slotuse x \<le> min_at T h" "min_at T h \<le> slotuse x"
    "min_at T h = Suc (slotuse (e_curr r))" "rd (e_pkeys r) (i - 1) = Some (last_key x)" "i - 1 < length (e_pkeys r)"
proof -
  have e: "e_curr r = cs ! i" "e_pkeys r = seps cs" "node_ok T (min_at T h - 1) h (cs ! i)"
    using R by (auto simp: to_repair_def)
  from T R i show thesis
    by (rule to_repair_left, intro that)
       (use u minslots_at [OF e(3)] e(1,2) in \<open>auto simp: isunderflow_def isfew_def minslots_at\<close>)
qed

lemma partner_right:
  assumes T: "traits_ok T" and R: "to_repair T h cs i r lp rp par" and u: "isunderflow T (cs ! i)" and i: "Suc i < length cs"
  obtains x where "e_right r = Some x" "node_ok T 1 h x" "node_ok T 1 h (e_curr r)"
    "isfew T (cs ! Suc i) \<longleftrightarrow> slotuse x \<le> min_at T h" "min_at T h \<le> slotuse x"
    "min_at T h = Suc (slotuse (e_curr r))" "rd (e_pkeys r) i = Some (last_key (e_curr r))" "i < length (e_pkeys r)"
proof -
  have e: "e_curr r = cs ! i" "e_pkeys r = seps cs" "node_ok T (min_at T h - 1) h (cs ! i)"
    using R by (auto simp: to_repair_def)
  from T R i show thesis
    by (rule to_repair_right, intro that)
       (use u minslots_at [OF e(3)] e(1,2) in \<open>auto simp: isunderflow_def isfew_def minslots_at\<close>)
qed

text \<open>Each repair of two partners is a repair of the child list.\<close>

lemma repaired_merge_left:
  assumes T: "traits_ok T" and R: "to_repair T h cs i r lp rp par" and i: "0 < i"
    and m: "merged T h (e_tree r) x (e_curr r) b' m d" and x: "e_left r = Some x"
    and r': "e_tree r' = b'" "e_left r' = Some m" "e_curr r' = d" "e_right r' = e_right r"
      "e_pkeys r' = e_pkeys r" "e_root r' = e_root r" "e_res r' = res_or (e_res r) btree_fixmerge"
  shows "repaired T h cs i r r'"
proof -
  have pk: "e_pkeys r = seps cs" using R by (simp add: to_repair_def)
  from T R i show ?thesis
  proof (rule to_repair_left)
    fix X x' c Y
    assume n: "cs = X @ x' # c # Y" "Suc (length X) = i" "e_curr r = c" "e_left r = Some x'"
      "Y \<noteq> [] \<Longrightarrow> e_right r = Some (hd Y)" and ok: "node_ok T 1 h c" "\<forall>c \<in> set (X @ Y). node_ok T (min_at T h) h c"
    have m': "merged T h (e_tree r) x' c b' m d" using m x n(3,4) by simp
    note sh = shape_merge [OF T m' ok, of i]
    have "write_back cs (length cs - 1) i r' = X @ m # d # Y"
      unfolding n(1) by (rule write_back_left) (use n r' in auto)
    then show ?thesis using sh n(1,2) pk r' by (auto simp: repaired_def)
  qed
qed

lemma repaired_merge_right:
  assumes T: "traits_ok T" and R: "to_repair T h cs i r lp rp par" and i: "Suc i < length cs"
    and m: "merged T h (e_tree r) (e_curr r) x b' m d" and x: "e_right r = Some x"
    and r': "e_tree r' = b'" "e_right r' = Some d" "e_curr r' = m" "e_left r' = e_left r"
      "e_pkeys r' = e_pkeys r" "e_root r' = e_root r" "e_res r' = res_or (e_res r) btree_fixmerge"
  shows "repaired T h cs i r r'"
proof -
  have pk: "e_pkeys r = seps cs" using R by (simp add: to_repair_def)
  from T R i show ?thesis
  proof (rule to_repair_right)
    fix X c x' Y
    assume n: "cs = X @ c # x' # Y" "length X = i" "e_curr r = c" "e_right r = Some x'"
      "0 < i \<Longrightarrow> e_left r = Some ((X @ c # x' # Y) ! (i - 1))"
      and ok: "node_ok T 1 h x'" "\<forall>c \<in> set (X @ Y). node_ok T (min_at T h) h c"
    have m': "merged T h (e_tree r) c x' b' m d" using m x n(3,4) by simp
    note sh = shape_merge [OF T m' ok, of i]
    have "write_back cs (length cs - 1) i r' = X @ m # d # Y"
      unfolding n(1) by (rule write_back_right) (use n r' in auto)
    then show ?thesis using sh n(1,2) pk r' by (auto simp: repaired_def)
  qed
qed

lemma repaired_shift_right:
  assumes T: "traits_ok T" and R: "to_repair T h cs i r lp rp par" and i: "0 < i"
    and s: "shifted T h x (e_curr r) x' c'" and x: "e_left r = Some x"
    and r': "e_tree r' = e_tree r" "e_left r' = Some x'" "e_curr r' = c'" "e_right r' = e_right r"
      "e_pkeys r' = (e_pkeys r)[i - 1 := last_key x']" "e_root r' = e_root r" "e_res r' = e_res r"
  shows "repaired T h cs i r r'"
proof -
  have pk: "e_pkeys r = seps cs" and fm: "\<not> fixmerge (e_res r)" using R by (auto simp: to_repair_def)
  from T R i show ?thesis
  proof (rule to_repair_left)
    fix X y c Y
    assume n: "cs = X @ y # c # Y" "Suc (length X) = i" "e_curr r = c" "e_left r = Some y"
      "Y \<noteq> [] \<Longrightarrow> e_right r = Some (hd Y)" and ok: "node_ok T 1 h c" "\<forall>c \<in> set (X @ Y). node_ok T (min_at T h) h c"
    have s': "shifted T h y c x' c'" using s x n(3,4) by simp
    note sh = shape_shift [OF T s' ok]
    have "write_back cs (length cs - 1) i r' = X @ x' # c' # Y"
      unfolding n(1) by (rule write_back_left) (use n r' in auto)
    then show ?thesis using sh n(1) n(2) [symmetric] pk fm r' by (auto simp: repaired_def)
  qed
qed

lemma repaired_shift_left:
  assumes T: "traits_ok T" and R: "to_repair T h cs i r lp rp par" and i: "Suc i < length cs"
    and s: "shifted T h (e_curr r) x c' x'" and x: "e_right r = Some x"
    and r': "e_tree r' = e_tree r" "e_right r' = Some x'" "e_curr r' = c'" "e_left r' = e_left r"
      "e_pkeys r' = (e_pkeys r)[i := last_key c']" "e_root r' = e_root r"
      "e_res r' = e_res r \<or> e_res r' = res_or (e_res r) btree_ok"
  shows "repaired T h cs i r r'"
proof -
  have pk: "e_pkeys r = seps cs" and fm: "\<not> fixmerge (e_res r)" using R by (auto simp: to_repair_def)
  from T R i show ?thesis
  proof (rule to_repair_right)
    fix X c y Y
    assume n: "cs = X @ c # y # Y" "length X = i" "e_curr r = c" "e_right r = Some y"
      "0 < i \<Longrightarrow> e_left r = Some ((X @ c # y # Y) ! (i - 1))"
      and ok: "node_ok T 1 h y" "\<forall>c \<in> set (X @ Y). node_ok T (min_at T h) h c"
    have s': "shifted T h c y c' x'" using s x n(3,4) by simp
    note sh = shape_shift [OF T s' ok]
    have "write_back cs (length cs - 1) i r' = X @ c' # x' # Y"
      unfolding n(1) by (rule write_back_right) (use n r' in auto)
    then show ?thesis using sh n(1) n(2) [symmetric] pk fm r' by (auto simp: repaired_def)
  qed
qed

lemma underflow_leaf_ok:
  assumes T: "traits_ok T" and R: "to_repair T 0 cs i r lp rp par" and u: "isunderflow T (cs ! i)"
  shows "\<exists>r'. underflow_leaf T r lp rp par i = Some r' \<and> repaired T 0 cs i r r'"
proof -
  have "neighbours cs i (e_left r) (e_right r) lp rp par" using R by (simp add: to_repair_def)
  from underflow_action_fits [OF this] obtain a where
    a: "underflow_action T (e_left r) (e_right r) lp rp par = Some a" "action_fits T cs i a" by blast
  note b = min_at_bounds [OF T]
  show ?thesis
  proof (cases a)
    case MergeLeft
    with a(2) have i: "0 < i" and few: "isfew T (cs ! (i - 1))" by auto
    from partner_left [OF T R u i] obtain x where p: "e_left r = Some x" "node_ok T 1 0 x" "node_ok T 1 0 (e_curr r)"
      "isfew T (cs ! (i - 1)) \<longleftrightarrow> slotuse x \<le> min_at T 0" "min_at T 0 \<le> slotuse x"
      "min_at T 0 = Suc (slotuse (e_curr r))" "rd (e_pkeys r) (i - 1) = Some (last_key x)" "i - 1 < length (e_pkeys r)" .
    obtain b' m d where s: "merge_leaves T (e_tree r) x (e_curr r) = Some (b', m, d)" "merged T 0 (e_tree r) x (e_curr r) b' m d"
      using merge_leaves_ok [OF p(2,3), of "e_tree r"] p b few by auto
    from a(1) s(1) MergeLeft p(1) repaired_merge_left [OF T R i s(2) p(1)] show ?thesis
      by (simp add: underflow_leaf_def)
  next
    case MergeRight
    with a(2) have i: "Suc i < length cs" and few: "isfew T (cs ! Suc i)" by auto
    from partner_right [OF T R u i] obtain x where p: "e_right r = Some x" "node_ok T 1 0 x" "node_ok T 1 0 (e_curr r)"
      "isfew T (cs ! Suc i) \<longleftrightarrow> slotuse x \<le> min_at T 0" "min_at T 0 \<le> slotuse x"
      "min_at T 0 = Suc (slotuse (e_curr r))" "rd (e_pkeys r) i = Some (last_key (e_curr r))" "i < length (e_pkeys r)" .
    obtain b' m d where s: "merge_leaves T (e_tree r) (e_curr r) x = Some (b', m, d)" "merged T 0 (e_tree r) (e_curr r) x b' m d"
      using merge_leaves_ok [OF p(3,2), of "e_tree r"] p b few by auto
    from a(1) s(1) MergeRight p(1) repaired_merge_right [OF T R i s(2) p(1)] show ?thesis
      by (simp add: underflow_leaf_def)
  next
    case ShiftLeft
    with a(2) have i: "Suc i < length cs" and few: "\<not> isfew T (cs ! Suc i)" by auto
    from partner_right [OF T R u i] obtain x where p: "e_right r = Some x" "node_ok T 1 0 x" "node_ok T 1 0 (e_curr r)"
      "isfew T (cs ! Suc i) \<longleftrightarrow> slotuse x \<le> min_at T 0" "min_at T 0 \<le> slotuse x"
      "min_at T 0 = Suc (slotuse (e_curr r))" "rd (e_pkeys r) i = Some (last_key (e_curr r))" "i < length (e_pkeys r)" .
    obtain c' x' where s: "shift_left_leaf T (e_curr r) x (e_pkeys r) i = Some (c', x', (e_pkeys r)[i := last_key c'], btree_ok)" "shifted T 0 (e_curr r) x c' x'"
      using shift_left_leaf_ok [OF p(3,2) _ _ _ p(8)] p b few by auto
    from a(1) s(1) ShiftLeft p(1) repaired_shift_left [OF T R i s(2) p(1)] show ?thesis
      by (simp add: underflow_leaf_def)
  next
    case ShiftRight
    with a(2) have i: "0 < i" and few: "\<not> isfew T (cs ! (i - 1))" by auto
    from partner_left [OF T R u i] obtain x where p: "e_left r = Some x" "node_ok T 1 0 x" "node_ok T 1 0 (e_curr r)"
      "isfew T (cs ! (i - 1)) \<longleftrightarrow> slotuse x \<le> min_at T 0" "min_at T 0 \<le> slotuse x"
      "min_at T 0 = Suc (slotuse (e_curr r))" "rd (e_pkeys r) (i - 1) = Some (last_key x)" "i - 1 < length (e_pkeys r)" .
    obtain x' c' where s: "shift_right_leaf T x (e_curr r) (e_pkeys r) (i - 1) = Some (x', c', (e_pkeys r)[i - 1 := last_key x'])" "shifted T 0 x (e_curr r) x' c'"
      using shift_right_leaf_ok [OF p(2,3) _ _ _ p(8)] p b few by auto
    from a(1) s(1) ShiftRight p(1) repaired_shift_right [OF T R i s(2) p(1)] show ?thesis
      by (simp add: underflow_leaf_def)
  qed (use a(2) in simp)
qed

lemma underflow_inner_ok:
  assumes T: "traits_ok T" and R: "to_repair T (Suc h) cs i r lp rp par" and u: "isunderflow T (cs ! i)"
  shows "\<exists>r'. underflow_inner T r lp rp par i = Some r' \<and> repaired T (Suc h) cs i r r'"
proof -
  have "neighbours cs i (e_left r) (e_right r) lp rp par" using R by (simp add: to_repair_def)
  from underflow_action_fits [OF this] obtain a where
    a: "underflow_action T (e_left r) (e_right r) lp rp par = Some a" "action_fits T cs i a" by blast
  note b = min_at_bounds [OF T]
  show ?thesis
  proof (cases a)
    case MergeLeft
    with a(2) have i: "0 < i" and few: "isfew T (cs ! (i - 1))" by auto
    from partner_left [OF T R u i] obtain x where p: "e_left r = Some x" "node_ok T 1 (Suc h) x" "node_ok T 1 (Suc h) (e_curr r)"
      "isfew T (cs ! (i - 1)) \<longleftrightarrow> slotuse x \<le> min_at T (Suc h)" "min_at T (Suc h) \<le> slotuse x"
      "min_at T (Suc h) = Suc (slotuse (e_curr r))" "rd (e_pkeys r) (i - 1) = Some (last_key x)" "i - 1 < length (e_pkeys r)" .
    obtain m d where s: "merge_inner T x (e_curr r) (e_pkeys r) (i - 1) = Some (m, d)" "merged T (Suc h) (e_tree r) x (e_curr r) (e_tree r) m d"
      using merge_inner_ok [OF T p(2,3) _ _ p(7), of "e_tree r"] p b few by auto
    from a(1) s(1) MergeLeft p(1) repaired_merge_left [OF T R i s(2) p(1)] show ?thesis
      by (simp add: underflow_inner_def)
  next
    case MergeRight
    with a(2) have i: "Suc i < length cs" and few: "isfew T (cs ! Suc i)" by auto
    from partner_right [OF T R u i] obtain x where p: "e_right r = Some x" "node_ok T 1 (Suc h) x" "node_ok T 1 (Suc h) (e_curr r)"
      "isfew T (cs ! Suc i) \<longleftrightarrow> slotuse x \<le> min_at T (Suc h)" "min_at T (Suc h) \<le> slotuse x"
      "min_at T (Suc h) = Suc (slotuse (e_curr r))" "rd (e_pkeys r) i = Some (last_key (e_curr r))" "i < length (e_pkeys r)" .
    obtain m d where s: "merge_inner T (e_curr r) x (e_pkeys r) i = Some (m, d)" "merged T (Suc h) (e_tree r) (e_curr r) x (e_tree r) m d"
      using merge_inner_ok [OF T p(3,2) _ _ p(7), of "e_tree r"] p b few by auto
    from a(1) s(1) MergeRight p(1) repaired_merge_right [OF T R i s(2) p(1)] show ?thesis
      by (simp add: underflow_inner_def)
  next
    case ShiftLeft
    with a(2) have i: "Suc i < length cs" and few: "\<not> isfew T (cs ! Suc i)" by auto
    from partner_right [OF T R u i] obtain x where p: "e_right r = Some x" "node_ok T 1 (Suc h) x" "node_ok T 1 (Suc h) (e_curr r)"
      "isfew T (cs ! Suc i) \<longleftrightarrow> slotuse x \<le> min_at T (Suc h)" "min_at T (Suc h) \<le> slotuse x"
      "min_at T (Suc h) = Suc (slotuse (e_curr r))" "rd (e_pkeys r) i = Some (last_key (e_curr r))" "i < length (e_pkeys r)" .
    obtain c' x' where s: "shift_left_inner T (e_curr r) x (e_pkeys r) i = Some (c', x', (e_pkeys r)[i := last_key c'])" "shifted T (Suc h) (e_curr r) x c' x'"
      using shift_left_inner_ok [OF T p(3,2) _ _ _ p(7)] p b few by auto
    from a(1) s(1) ShiftLeft p(1) repaired_shift_left [OF T R i s(2) p(1)] show ?thesis
      by (simp add: underflow_inner_def)
  next
    case ShiftRight
    with a(2) have i: "0 < i" and few: "\<not> isfew T (cs ! (i - 1))" by auto
    from partner_left [OF T R u i] obtain x where p: "e_left r = Some x" "node_ok T 1 (Suc h) x" "node_ok T 1 (Suc h) (e_curr r)"
      "isfew T (cs ! (i - 1)) \<longleftrightarrow> slotuse x \<le> min_at T (Suc h)" "min_at T (Suc h) \<le> slotuse x"
      "min_at T (Suc h) = Suc (slotuse (e_curr r))" "rd (e_pkeys r) (i - 1) = Some (last_key x)" "i - 1 < length (e_pkeys r)" .
    obtain x' c' where s: "shift_right_inner T x (e_curr r) (e_pkeys r) (i - 1) = Some (x', c', (e_pkeys r)[i - 1 := last_key x'])" "shifted T (Suc h) x (e_curr r) x' c'"
      using shift_right_inner_ok [OF T p(2,3) _ _ _ p(7)] p b few by auto
    from a(1) s(1) ShiftRight p(1) repaired_shift_right [OF T R i s(2) p(1)] show ?thesis
      by (simp add: underflow_inner_def)
  qed (use a(2) in simp)
qed

end
