(* ===== verification/BTreeEraseCorrect.thy ===== *)
theory BTreeEraseCorrect
  imports BTreeEraseOk
begin

text \<open>
  The descent of \<open>erase_one_descend\<close>: by induction on the level, a call for a child removes the
  key below that child and leaves its parent with exact separators, or with one emptied child
  that the parent removes. \<open>erase_one\<close> then keeps the invariant and deletes exactly the key.
\<close>

section \<open>Calls\<close>

text \<open>The arguments that the descent hands to a call for the child \<open>i\<close> of \<open>cs\<close>.\<close>

definition call_ok ::
  "traits \<Rightarrow> nat \<Rightarrow> ('k, 'v) node list \<Rightarrow> nat \<Rightarrow> ('k, 'v) node option \<Rightarrow> ('k, 'v) node option \<Rightarrow>
   nat list option \<Rightarrow> nat list option \<Rightarrow> nat list option \<Rightarrow> nat list \<Rightarrow> bool" where
  "call_ok T h cs i left right lp rp par path \<longleftrightarrow>
     neighbours cs i left right lp rp par \<and>
     (\<forall>c \<in> set cs. node_ok T (min_at T h) h c) \<and>
     (\<forall>c. left = Some c \<or> right = Some c \<longrightarrow> node_ok T (min_at T h) h c) \<and>
     path \<noteq> [] \<and> par \<noteq> None \<and>
     (\<forall>q. lp = Some q \<or> rp = Some q \<longrightarrow> length q < length path)"

text \<open>What such a call has done when it returns \<open>r\<close>.\<close>

definition erased ::
  "traits \<Rightarrow> nat \<Rightarrow> 'k::linorder \<Rightarrow> ('k, 'v) node list \<Rightarrow> nat \<Rightarrow> ('k, 'v) node option \<Rightarrow>
   ('k, 'v) node option \<Rightarrow> ('k, 'v) btree \<Rightarrow> ('k, 'v) eres \<Rightarrow> bool" where
  "erased T h key cs i left right b r \<longleftrightarrow>
     (let cs' = write_back cs (length cs - 1) i r; new = del_kv key (contents (cs ! i)) in
      e_root r = None \<and> (i = 0 \<longrightarrow> e_left r = left) \<and> (Suc i = length cs \<longrightarrow> e_right r = right) \<and>
      not_found (e_res r) = (key \<notin> set (keys_of (contents (cs ! i)))) \<and>
      (if not_found (e_res r) then e_tree r = b \<and> cs' = cs \<and> e_pkeys r = seps cs
       else
         contents_list cs' = concat ((map contents cs)[i := new]) \<and>
         st_rel b cs (e_tree r) cs' \<and> shape_ok T h i cs' (e_pkeys r) (fixmerge (e_res r)) \<and>
         (if update_lastkey (e_res r)
          then Suc i = length cs \<and> lastkey (e_res r) = Some (fst (last new))
          else Suc i = length cs \<longrightarrow> fst (last new) = last_key (cs ! i))))"

lemma repaired_refl:
  assumes "to_repair T h cs i r lp rp par" "\<not> isunderflow T (cs ! i)"
  shows "repaired T h cs i r r"
proof -
  have n: "neighbours cs i (e_left r) (e_right r) lp rp par" "i < length cs" "e_curr r = cs ! i"
    and ok: "node_ok T (min_at T h - 1) h (cs ! i)"
    and ok': "\<And>j. j < length cs \<Longrightarrow> j \<noteq> i \<Longrightarrow> node_ok T (min_at T h) h (cs ! j)"
    using assms(1) by (auto simp: to_repair_def neighbours_def)
  have "node_ok T (min_at T h) h (cs ! i)"
    using ok assms(2) minslots_at [OF ok] by (intro node_ok_mono [OF ok]) (simp add: isunderflow_def)
  with ok' have "\<forall>c \<in> set cs. node_ok T (min_at T h) h c" by (metis in_set_conv_nth)
  moreover have "write_back cs (length cs - 1) i r = cs" using write_back_same [OF n(1)] n(3) by simp
  ultimately show ?thesis using assms(1) by (simp add: repaired_def shape_ok_def to_repair_def)
qed

lemma seps_update: "i < length cs \<Longrightarrow> seps (cs[i := c]) = (seps cs)[i := last_key c]"
  by (auto simp: butlast_list_update map_update list_update_beyond)

lemma seps_update_id: "(seps cs)[i := last_key (cs ! i)] = seps cs"
  by (cases "i < length cs - 1") (simp_all add: nth_butlast list_update_beyond list_update_same_conv)

lemma slotuse_le_contents:
  assumes "traits_ok T" "node_ok T lo h n" shows "slotuse n \<le> length (contents n)"
proof (cases h)
  case 0
  with assms(2) show ?thesis by (auto simp: node_ok_0)
next
  case (Suc h')
  with assms(2) obtain cs where n: "n = Inner (Suc h') (seps cs) cs"
    and ok: "\<forall>c \<in> set cs. node_ok T (min_at T h') h' c" by (auto simp: node_ok_Suc)
  have "length cs \<le> length (contents_list cs)"
    using children_nonempty [OF assms(1) ok] by (induction cs) (auto simp: Suc_le_eq add_strict_increasing)
  with n show ?thesis by simp
qed

text \<open>
  A child has been changed to \<open>curr1\<close>, which may lack a slot, and the separator of the parent
  or the request to change it has been taken care of; the repair completes the call.
\<close>

lemma repaired_erased:
  assumes call: "call_ok T h cs i left right lp rp par path"
    and c: "contents curr1 = del_kv key (contents (cs ! i))" "key \<in> set (keys_of (contents (cs ! i)))"
    and st: "st_rel b [cs ! i] (e_tree r1) [curr1]"
    and r1: "e_left r1 = left" "e_right r1 = right" "e_root r1 = None" "\<not> not_found (e_res r1)"
    and lk: "if update_lastkey (e_res r1) then Suc i = length cs \<and> lastkey (e_res r1) = Some (last_key curr1)
             else Suc i = length cs \<longrightarrow> last_key curr1 = last_key (cs ! i)"
    and rep: "repaired T h (cs[i := curr1]) i r1 r"
  shows "erased T h key cs i left right b r"
proof -
  have i: "i < length cs" using call by (simp add: call_ok_def neighbours_def)
  then have "st_rel b cs (e_tree r1) (cs[i := curr1])"
    using st_rel_frame [OF st, of "take i cs" "drop (Suc i) cs"]
    by (simp add: upd_conv_take_nth_drop id_take_nth_drop [symmetric])
  with rep i c r1 lk show ?thesis
    by (auto simp: repaired_def erased_def Let_def write_back_update map_update last_key_def
        intro: st_rel_trans)
qed

lemma not_found_erased:
  assumes "neighbours cs i left right lp rp par" "key \<notin> set (keys_of (contents (cs ! i)))"
    "e_curr r = cs ! i" "e_left r = left" "e_right r = right" "e_tree r = b" "e_pkeys r = seps cs"
    "e_root r = None" "not_found (e_res r)"
  shows "erased T h key cs i left right b r"
  using assms write_back_same [of cs i r lp rp par] by (simp add: erased_def Let_def)

lemma to_repairI:
  assumes "call_ok T h cs i left right lp rp par path" "node_ok T (min_at T h - 1) h curr1"
    "e_curr r = curr1" "e_left r = left" "e_right r = right" "e_pkeys r = seps (cs[i := curr1])"
    "\<not> fixmerge (e_res r)"
  shows "to_repair T h (cs[i := curr1]) i r lp rp par"
proof -
  have "neighbours (cs[i := curr1]) i left right lp rp par"
    using assms(1) by (auto simp: call_ok_def neighbours_def)
  with assms show ?thesis by (auto simp: to_repair_def call_ok_def neighbours_def)
qed

text \<open>The slot search of a leaf finds the key when it is there.\<close>

lemma find_lower_hit:
  assumes "ksorted kvs" "s = find_lower (keys_of kvs) key" "s < length kvs" "key = fst (kvs ! s)"
  obtains as v bs where "kvs = as @ (key, v) # bs" "length as = s" "del_kv key kvs = as @ bs"
proof -
  have "kvs = take s kvs @ (key, snd (kvs ! s)) # drop (Suc s) kvs"
    using assms(3,4) by (simp add: id_take_nth_drop [symmetric])
  moreover have "del_kv key (take s kvs @ (key, snd (kvs ! s)) # drop (Suc s) kvs) = take s kvs @ drop (Suc s) kvs"
    using find_lower_leaf(1) [OF assms(1,2)] by (rule del_kv_mid)
  ultimately show thesis using that [of "take s kvs" "snd (kvs ! s)" "drop (Suc s) kvs"] assms(3) by simp
qed

lemma find_lower_miss:
  assumes "ksorted kvs" "s = find_lower (keys_of kvs) key" "\<not> (s < length kvs \<and> key = fst (kvs ! s))"
  shows "key \<notin> set (keys_of kvs)"
proof
  assume "key \<in> set (keys_of kvs)"
  then obtain j where j: "j < length kvs" "key = fst (kvs ! j)" by (auto simp: in_set_conv_nth)
  have "\<not> j < s" using j find_lower_leaf(1) [OF assms(1,2)] by (fastforce simp: in_set_conv_nth)
  with j assms(3) have s: "s < j" "s < length kvs" by (auto simp: not_less order_le_less)
  then have "fst (kvs ! s) < fst (kvs ! j)"
    using assms(1) j(1) by (simp add: sorted_wrt_iff_nth_less)
  moreover have "kvs ! s \<in> set (drop s kvs)" using s(2) by (metis Cons_nth_drop_Suc list.set_intros(1))
  then have "key \<le> fst (kvs ! s)" using find_lower_leaf(2) [OF assms(1,2)] by blast
  ultimately show False using j(2) by simp
qed

lemma erase_leaf_call:
  assumes T: "traits_ok T" and call: "call_ok T 0 cs i left right lp rp par path" and so: "ksorted (contents (cs ! i))"
  shows "\<exists>r. erase_one_descend T b key path (cs ! i) left right lp rp par i (seps cs) = Some r \<and>
    erased T 0 key cs i left right b r"
proof -
  from call have i: "i < length cs" and ok: "node_ok T (min_at T 0) 0 (cs ! i)" and path: "path \<noteq> []" "par \<noteq> None"
    and nb: "neighbours cs i left right lp rp par" by (auto simp: call_ok_def neighbours_def)
  then obtain a kvs where n: "cs ! i = Leaf a kvs" and len: "min_at T 0 \<le> length kvs" "length kvs \<le> leafslotmax T"
    by (auto simp: node_ok_0)
  define slot where "slot = find_lower (keys_of kvs) key"
  show ?thesis
  proof (cases "slot < length kvs \<and> key = fst (kvs ! slot)")
    case False
    then have "key \<notin> set (keys_of kvs)" using find_lower_miss [of kvs slot key] so by (simp add: n slot_def)
    with False nb n show ?thesis
      by (auto simp: slot_def [symmetric] Let_def intro!: not_found_erased)
  next
    case True
    have so': "ksorted kvs" using so by (simp add: n)
    from find_lower_hit [OF so' slot_def True [THEN conjunct1] True [THEN conjunct2]] obtain as v bs where
      kvs: "kvs = as @ (key, v) # bs" "length as = slot" and del: "del_kv key kvs = as @ bs" .
    define curr1 where "curr1 = Leaf a (as @ bs)"
    define upd where "upd = (bs = [] \<and> \<not> i < length (seps cs))"
    define r1 where "r1 = \<lparr>e_tree = b, e_res = (if upd then res_or btree_ok (btree_update_lastkey (last_key curr1)) else btree_ok),
      e_curr = curr1, e_left = left, e_right = right, e_pkeys = seps (cs[i := curr1]), e_root = None\<rparr>"
    have ne: "as @ bs \<noteq> []" "4 \<le> min_at T 0" using len min_at_bounds(1) [OF T, of 0] by (auto simp: kvs(1))
    have upd_eq: "seps (cs[i := curr1]) = (if bs = [] then (seps cs)[i := last_key curr1] else seps cs)"
      using i kvs(1) seps_update_id [of cs i] by (auto simp: seps_update curr1_def last_key_def n)
    have rl: "rd (keys_of (as @ bs)) (length (as @ bs) - 1) = Some (last_key curr1)"
      using ne(1) by (simp add: rd_def last_key_def curr1_def last_conv_nth flip: map_append)
    have da: "del_at kvs slot = Some (as @ bs)" using kvs del_at_mid [of as "(key, v)" bs] by simp
    have hit: "(slot \<ge> length kvs \<or> \<not> key_equal key (keys_of kvs ! slot)) = False" using True by auto
    have sl: "slot = length (as @ bs) \<longleftrightarrow> bs = []" using kvs(2) by auto
    have "erase_from_leaf T b False a kvs slot left right lp rp par i (seps cs) =
      (if isunderflow T curr1 then underflow_leaf T r1 lp rp par i else Some r1)"
      using path(2) ne(1) rl unfolding erase_from_leaf_def da bind.bind_lunit sl r1_def upd_eq upd_def
      by (auto simp: curr1_def Let_def Suc_le_eq list_update_beyond)
    then have "erase_one_descend T b key path (cs ! i) left right lp rp par i (seps cs) =
      (if isunderflow T curr1 then underflow_leaf T r1 lp rp par i else Some r1)"
      by (simp only: n erase_one_descend.simps Let_def slot_def [symmetric] hit if_False path(1))
    moreover have R: "to_repair T 0 (cs[i := curr1]) i r1 lp rp par"
      by (rule to_repairI [OF call]) (use len kvs(1) in \<open>auto simp: r1_def curr1_def\<close>)
    then have "\<exists>r. (if isunderflow T curr1 then underflow_leaf T r1 lp rp par i else Some r1) = Some r \<and>
        repaired T 0 (cs[i := curr1]) i r1 r"
      using underflow_leaf_ok [OF T R] repaired_refl [OF R] i by auto
    moreover have "erased T 0 key cs i left right b r" if "repaired T 0 (cs[i := curr1]) i r1 r" for r
      by (rule repaired_erased [OF call _ _ _ _ _ _ _ _ that, of key])
         (use i ne kvs del in \<open>auto simp: n r1_def curr1_def upd_def last_key_def intro!: st_rel_same\<close>)
    ultimately show ?thesis by auto
  qed
qed

text \<open>Every admissible call at level \<open>h\<close> returns and has done its work.\<close>

definition descend_ok :: "traits \<Rightarrow> nat \<Rightarrow> ('k::linorder, 'v) btree \<Rightarrow> 'k \<Rightarrow> bool" where
  "descend_ok T h b key \<longleftrightarrow>
     (\<forall>cs i left right lp rp par path.
        call_ok T h cs i left right lp rp par path \<longrightarrow> ksorted (contents (cs ! i)) \<longrightarrow>
        (\<exists>r. erase_one_descend T b key path (cs ! i) left right lp rp par i (seps cs) = Some r \<and>
           erased T h key cs i left right b r))"

section \<open>Inner nodes\<close>

lemma free_dead:
  assumes "dead h d" shows "st_rel b [m, d] (free_node b d) [m]"
proof (cases h)
  case 0
  with assms obtain a where "d = Leaf a []" by (auto simp: dead_def)
  moreover have "chain (free_node b (Leaf a [])) as = chain b as" for as by (rule chain_cong) simp_all
  ultimately show ?thesis by (auto simp: st_rel_def footprint_Cons)
next
  case (Suc h')
  with assms have "d = Inner h [] []" by (auto simp: dead_def)
  moreover have "chain (free_node b (Inner h [] [])) as = chain b as" for as by (rule chain_cong) simp_all
  ultimately show ?thesis by (auto simp: st_rel_def footprint_Cons)
qed

text \<open>The parent removes the emptied child, if there is one.\<close>

lemma fix_merge_ok:
  assumes T: "traits_ok T" and sh: "shape_ok T h i cs pk fm" and len: "length cs \<le> Suc (innerslotmax T)"
  obtains b2 cs2 where
    "(if fm then fix_merge T b (Suc h) pk cs i else Some (b, pk, cs)) = Some (b2, seps cs2, cs2)"
    "\<forall>c \<in> set cs2. node_ok T (min_at T h) h c" "length cs \<le> Suc (length cs2)" "length cs2 \<le> length cs"
    "contents_list cs2 = contents_list cs" "st_rel b cs b2 cs2"
proof (cases fm)
  case True
  with sh obtain X m d Y z where n: "cs = X @ m # d # Y" "i = length X \<or> i = Suc (length X)"
    "\<forall>c \<in> set (X @ m # Y). node_ok T (min_at T h) h c" "dead h d"
    "pk = map last_key X @ z # (if Y = [] then [] else last_key m # seps Y)" by (auto simp: shape_ok_def)
  have okm: "node_ok T (min_at T h) h m" using n(3) by simp
  have um: "slotuse m \<noteq> 0" using node_ok_slotuse [OF okm] min_at_pos [OF T, of h] by simp
  have ud: "slotuse d = 0" "contents d = []" using n(4) by (auto simp: dead_def split: if_splits)
  have sep: "seps (X @ m # Y) = map last_key X @ (if Y = [] then [] else last_key m # seps Y)" by simp
  obtain c0 where c0: "rd cs i = Some c0" "(if slotuse c0 \<noteq> 0 then i + 1 else i) = Suc (length X)"
    using n(2) um ud(1) by (auto simp: n(1) rd_def nth_append)
  have del: "rd cs (Suc (length X)) = Some d" "del_at cs (Suc (length X)) = Some (X @ m # Y)"
    "del_at pk (length X) = Some (seps (X @ m # Y))" "rd (X @ m # Y) (length X) = Some m"
    unfolding sep using rd_mid [of "X @ [m]" d Y] del_at_mid [of "X @ [m]" d Y]
      del_at_mid [of "map last_key X" z] by (simp_all add: n(1,5))
  have lk: "\<exists>a kvs. m = Leaf a kvs \<and> rd (keys_of kvs) (length kvs - 1) = Some (last_key m)" if "h = 0"
    using okm um that by (auto simp: node_ok_0 last_key_def last_conv_nth)
  have id: "(seps (X @ m # Y))[length X := last_key m] = seps (X @ m # Y)"
    using seps_update_id [of "X @ m # Y" "length X"] by simp
  have "fix_merge T b (Suc h) pk cs i = Some (free_node b d, seps (X @ m # Y), X @ m # Y)"
    using c0 del lk id len by (auto simp: fix_merge_def Let_def n(1) simp del: seps_append)
  moreover have "st_rel b cs (free_node b d) (X @ m # Y)"
    using st_rel_frame [OF free_dead [OF n(4), of b m], of X Y] by (simp add: n(1))
  ultimately show thesis using that [of "free_node b d" "X @ m # Y"] True n ud(2) by simp
next
  case False
  with sh that [of b cs] show thesis by (simp add: shape_ok_def)
qed

text \<open>What the return of the recursive call means for the node.\<close>

lemma after_child:
  assumes T: "traits_ok T" and ok: "node_ok T 1 (Suc h) (Inner (Suc h) (seps cs) cs)"
    and so: "ksorted (contents_list cs)" and s: "s = find_lower (seps cs) key"
    and e: "erased T h key cs s left right b r" and nf: "\<not> not_found (e_res r)"
  obtains b2 cs2 where
    "(if fixmerge (e_res r) then fix_merge T (e_tree r) (Suc h) (e_pkeys r) (write_back cs (length cs - 1) s r) s
      else Some (e_tree r, e_pkeys r, write_back cs (length cs - 1) s r)) = Some (b2, seps cs2, cs2)"
    "\<forall>c \<in> set cs2. node_ok T (min_at T h) h c" "length cs \<le> Suc (length cs2)" "length cs2 \<le> length cs"
    "contents_list cs2 = del_kv key (contents_list cs)" "st_rel b cs b2 cs2"
    "update_lastkey (e_res r) \<Longrightarrow> lastkey (e_res r) = Some (fst (last (contents_list cs2)))"
    "\<not> update_lastkey (e_res r) \<Longrightarrow> fst (last (contents_list cs2)) = fst (last (contents_list cs))"
proof -
  let ?cs' = "write_back cs (length cs - 1) s r"
  from inner_slot_split [OF T ok so s] obtain as c bs where cs: "cs = as @ c # bs" "length as = s"
    and as: "\<forall>x \<in> set (contents_list as). fst x < key" and bs: "bs \<noteq> [] \<Longrightarrow> key \<le> last_key c"
    and okc: "node_ok T (min_at T h) h c" by blast
  have len: "length ?cs' = length cs" by (simp add: write_back_def Let_def split: option.split)
  have c: "cs ! s = c" using cs by auto
  note e' = e [unfolded erased_def Let_def, simplified nf simp_thms if_False c]
  have new: "contents_list ?cs' = contents_list as @ del_kv key (contents c) @ contents_list bs"
    using e' cs by (simp add: list_update_append)
  have okcs: "\<forall>c \<in> set cs. node_ok T (min_at T h) h c" using ok by simp
  have ne: "contents c \<noteq> []" "del_kv key (contents c) \<noteq> []" "bs \<noteq> [] \<Longrightarrow> contents_list bs \<noteq> []"
  proof -
    have "ksorted (contents c)" using so unfolding cs by (rule ksorted_contents_child)
    then have "length (contents c) \<le> Suc (length (del_kv key (contents c)))" by (auto simp: length_del_kv)
    moreover have "4 \<le> length (contents c)"
      using min_at_bounds(1) [OF T, of h] node_ok_slotuse [OF okc] slotuse_le_contents [OF T okc] by simp
    ultimately show "contents c \<noteq> []" "del_kv key (contents c) \<noteq> []" by auto
    show "contents_list bs \<noteq> []" if "bs \<noteq> []"
      using children_nonempty [OF T okcs, of "hd bs"] that by (cases bs) (auto simp: cs)
  qed
  have del: "del_kv key (contents_list cs) = contents_list ?cs'"
    unfolding new unfolding cs(1) using as bs ne(1) by (cases "bs = []") (auto simp: last_key_def kv_simps)
  have l: "length ?cs' \<le> Suc (innerslotmax T)" unfolding len using ok by simp
  from e' have sh: "shape_ok T h s ?cs' (e_pkeys r) (fixmerge (e_res r))" and st: "st_rel b cs (e_tree r) ?cs'" by auto
  from fix_merge_ok [OF T sh l, of "e_tree r"] obtain b2 cs2 where
    f: "(if fixmerge (e_res r) then fix_merge T (e_tree r) (Suc h) (e_pkeys r) ?cs' s
      else Some (e_tree r, e_pkeys r, ?cs')) = Some (b2, seps cs2, cs2)"
    "\<forall>c \<in> set cs2. node_ok T (min_at T h) h c" "length ?cs' \<le> Suc (length cs2)" "length cs2 \<le> length ?cs'"
    "contents_list cs2 = contents_list ?cs'" "st_rel (e_tree r) ?cs' b2 cs2" .
  from e' have u: "if update_lastkey (e_res r)
    then Suc s = length cs \<and> lastkey (e_res r) = Some (fst (last (del_kv key (contents c))))
    else Suc s = length cs \<longrightarrow> fst (last (del_kv key (contents c))) = last_key c" by simp
  have "lastkey (e_res r) = Some (fst (last (contents_list cs2)))" if "update_lastkey (e_res r)"
    unfolding f(5) new using u that ne cs by auto
  moreover have "fst (last (contents_list cs2)) = fst (last (contents_list cs))" if "\<not> update_lastkey (e_res r)"
    unfolding f(5) new unfolding cs(1) using u that ne cs by (cases "bs = []") (auto simp: last_key_def)
  ultimately show thesis
    using that [OF f(1,2)] f(3-6) del st st_rel_trans [OF st f(6)] len by simp
qed

lemma edge_children:
  assumes "traits_ok T" "node_ok T (min_at T (Suc h)) (Suc h) l"
  shows "\<exists>c c'. slotuse l \<noteq> 0 \<and> get_child l 0 = Some c \<and> get_child l (slotuse l - 1) = Some c' \<and>
    node_ok T (min_at T h) h c \<and> node_ok T (min_at T h) h c' \<and> set_child l 0 c = l \<and> set_child l (slotuse l - 1) c' = l"
proof -
  from assms obtain cs where n: "l = Inner (Suc h) (seps cs) cs" "\<forall>c \<in> set cs. node_ok T (min_at T h) h c"
    "5 \<le> length cs" using min_at_bounds(1) [OF assms(1), of "Suc h"] by (auto simp: node_ok_Suc)
  then have "length cs - 1 - 1 < length cs" "0 < length cs" by auto
  with n show ?thesis by (auto simp: rd_def)
qed

text \<open>The neighbours of a child that the descent computes.\<close>

lemma neighbours_child:
  assumes T: "traits_ok T" and ok: "\<forall>c \<in> set cs. node_ok T (min_at T h) h c" and s: "s < length cs" "2 \<le> length cs"
    and lr: "\<forall>c. left = Some c \<or> right = Some c \<longrightarrow> node_ok T (min_at T (Suc h)) (Suc h) c"
    and q: "\<forall>q. lp = Some q \<or> rp = Some q \<longrightarrow> length q < length path"
  obtains ml mr where "my_left cs s left = Some ml" "my_right (seps cs) cs s right = Some mr"
    "call_ok T h cs s ml mr (if s = 0 then lp else Some path) (if s = length (seps cs) then rp else Some path)
       (Some path) (path @ [s])"
    "\<forall>r. (s = 0 \<longrightarrow> e_left r = ml) \<longrightarrow> write_left left s r = left"
    "\<forall>r. (Suc s = length cs \<longrightarrow> e_right r = mr) \<longrightarrow> write_right right (length (seps cs)) s r = right"
proof -
  define ml where "ml = (if s = 0 then (case left of None \<Rightarrow> None | Some l \<Rightarrow> get_child l (slotuse l - 1)) else Some (cs ! (s - 1)))"
  define mr where "mr = (if Suc s = length cs then (case right of None \<Rightarrow> None | Some x \<Rightarrow> get_child x 0) else Some (cs ! Suc s))"
  have L: "left = None \<or> (\<exists>l c. left = Some l \<and> slotuse l \<noteq> 0 \<and> get_child l (slotuse l - 1) = Some c \<and>
      node_ok T (min_at T h) h c \<and> set_child l (slotuse l - 1) c = l)"
    and R: "right = None \<or> (\<exists>l c. right = Some l \<and> get_child l 0 = Some c \<and>
      node_ok T (min_at T h) h c \<and> set_child l 0 c = l)"
    using lr edge_children [OF T] by (metis option.exhaust)+
  have "my_left cs s left = Some ml" using s L by (auto simp: my_left_def ml_def rd_def split: option.split)
  moreover have "my_right (seps cs) cs s right = Some mr"
    using s R by (auto simp: my_right_def mr_def rd_def split: option.split)
  moreover have "node_ok T (min_at T h) h c" if "ml = Some c" for c
    using that ok s L by (auto simp: ml_def split: option.splits if_splits)
  moreover have "node_ok T (min_at T h) h c" if "mr = Some c" for c
    using that ok s R by (auto simp: mr_def split: option.splits if_splits)
  moreover have "neighbours cs s ml mr (if s = 0 then lp else Some path) (if s = length (seps cs) then rp else Some path) (Some path)"
    using s q by (auto simp: neighbours_def ml_def mr_def)
  moreover have "write_left left s r = left" if "s = 0 \<Longrightarrow> e_left r = ml" for r
    using that L by (auto simp: write_left_def ml_def split: option.splits)
  moreover have "write_right right (length (seps cs)) s r = right" if "Suc s = length cs \<Longrightarrow> e_right r = mr" for r
    using that R s by (auto simp: write_right_def mr_def split: option.splits)
  ultimately show thesis using that [of ml mr] ok q by (auto simp: call_ok_def less_SucI)
qed

text \<open>The selected child holds the key if the node does.\<close>

lemma slot_keys:
  assumes T: "traits_ok T" and ok: "node_ok T 1 (Suc h) (Inner (Suc h) (seps cs) cs)"
    and so: "ksorted (contents_list cs)" and s: "s = find_lower (seps cs) key"
  shows "s < length cs" "key \<in> set (keys_of (contents (cs ! s))) \<longleftrightarrow> key \<in> set (keys_of (contents_list cs))"
    "ksorted (contents (cs ! s))"
proof -
  from inner_slot_split [OF T ok so s] obtain as c bs where cs: "cs = as @ c # bs" "length as = s"
    and as: "\<forall>x \<in> set (contents_list as). fst x < key" and bs: "bs \<noteq> [] \<Longrightarrow> key \<le> last_key c"
    and okc: "node_ok T (min_at T h) h c" by blast
  have c: "contents c \<noteq> []" using contents_nonempty [OF T okc] T by simp
  show "s < length cs" using cs by auto
  have csc: "cs ! s = c" using cs by auto
  show "ksorted (contents (cs ! s))" unfolding csc using so unfolding cs(1) by (rule ksorted_contents_child)
  have "key < fst x" if x: "x \<in> set (contents_list bs)" for x
  proof -
    have "last_key c < fst x"
      using so last_key_in [OF c] x unfolding cs(1) by (auto simp: sorted_wrt_append)
    moreover have "bs \<noteq> []" using x by auto
    ultimately show ?thesis using bs by simp
  qed
  with as show "key \<in> set (keys_of (contents (cs ! s))) \<longleftrightarrow> key \<in> set (keys_of (contents_list cs))"
    unfolding csc unfolding cs(1) by (fastforce simp: image_iff)
qed

text \<open>The recursive call below an inner node, given the induction hypothesis.\<close>

lemma erase_inner_down:
  assumes T: "traits_ok T" and ok: "node_ok T 1 (Suc h) (Inner (Suc h) (seps cs) cs)"
    and so: "ksorted (contents_list cs)" and s: "s = find_lower (seps cs) key"
    and lr: "\<forall>c. left = Some c \<or> right = Some c \<longrightarrow> node_ok T (min_at T (Suc h)) (Suc h) c"
    and q: "\<forall>q. lp = Some q \<or> rp = Some q \<longrightarrow> length q < length path"
    and IH: "descend_ok T h b key"
  obtains ml mr r where
    "erase_one_descend T b key path (Inner (Suc h) (seps cs) cs) left right lp rp par i pk =
       erase_inner_after T (path = []) (Suc h) cs (length cs - 1) s left right lp rp par i pk r"
    "erased T h key cs s ml mr b r" "write_left left s r = left" "write_right right (length cs - 1) s r = right"
    "e_root r = None" "not_found (e_res r) \<longleftrightarrow> key \<notin> set (keys_of (contents_list cs))"
proof -
  note sk = slot_keys [OF T ok so s]
  have okc: "\<forall>c \<in> set cs. node_ok T (min_at T h) h c" and l2: "2 \<le> length cs" using ok by auto
  from neighbours_child [OF T okc sk(1) l2 lr q] obtain ml mr where
    my: "my_left cs s left = Some ml" "my_right (seps cs) cs s right = Some mr"
    and call: "call_ok T h cs s ml mr (if s = 0 then lp else Some path) (if s = length (seps cs) then rp else Some path)
       (Some path) (path @ [s])"
    and w: "\<forall>r. (s = 0 \<longrightarrow> e_left r = ml) \<longrightarrow> write_left left s r = left"
    "\<forall>r. (Suc s = length cs \<longrightarrow> e_right r = mr) \<longrightarrow> write_right right (length (seps cs)) s r = right" .
  from IH call sk(3) obtain r where
    r: "erase_one_descend T b key (path @ [s]) (cs ! s) ml mr (if s = 0 then lp else Some path)
      (if s = length (seps cs) then rp else Some path) (Some path) s (seps cs) = Some r"
    and e: "erased T h key cs s ml mr b r" unfolding descend_ok_def by blast
  have "erase_one_descend T b key path (Inner (Suc h) (seps cs) cs) left right lp rp par i pk =
       erase_inner_after T (path = []) (Suc h) cs (length cs - 1) s left right lp rp par i pk r"
    using my r sk(1) by (simp add: s [symmetric] Let_def rd_def)
  moreover have "s = 0 \<longrightarrow> e_left r = ml" "Suc s = length cs \<longrightarrow> e_right r = mr" "e_root r = None"
    "not_found (e_res r) \<longleftrightarrow> key \<notin> set (keys_of (contents_list cs))"
    using e sk(2) by (auto simp: erased_def Let_def)
  ultimately show thesis using that [OF _ e] w by simp
qed

lemma erase_inner_call:
  assumes T: "traits_ok T" and call: "call_ok T (Suc h) cs i left right lp rp par path"
    and so: "ksorted (contents (cs ! i))"
    and IH: "descend_ok T h b key"
  shows "\<exists>r. erase_one_descend T b key path (cs ! i) left right lp rp par i (seps cs) = Some r \<and>
    erased T (Suc h) key cs i left right b r"
proof -
  from call have i: "i < length cs" and okn: "node_ok T (min_at T (Suc h)) (Suc h) (cs ! i)"
    and path: "path \<noteq> []" "par \<noteq> None" and nb: "neighbours cs i left right lp rp par"
    and lr: "\<forall>c. left = Some c \<or> right = Some c \<longrightarrow> node_ok T (min_at T (Suc h)) (Suc h) c"
    and q: "\<forall>q. lp = Some q \<or> rp = Some q \<longrightarrow> length q < length path"
    by (auto simp: call_ok_def neighbours_def)
  note m = min_at_bounds(1) [OF T, of "Suc h"]
  from okn obtain ccs where n: "cs ! i = Inner (Suc h) (seps ccs) ccs" and len: "min_at T (Suc h) < length ccs"
    "length ccs \<le> Suc (innerslotmax T)" and okc: "\<forall>c \<in> set ccs. node_ok T (min_at T h) h c"
    by (auto simp: node_ok_Suc)
  have ok1: "node_ok T 1 (Suc h) (Inner (Suc h) (seps ccs) ccs)" using len okc m by simp
  have so': "ksorted (contents_list ccs)" using so by (simp add: n)
  define s where "s = find_lower (seps ccs) key"
  from erase_inner_down [OF T ok1 so' s_def lr q IH, of par i "seps cs"] obtain ml mr rc where
    base: "erase_one_descend T b key path (Inner (Suc h) (seps ccs) ccs) left right lp rp par i (seps cs) =
      erase_inner_after T (path = []) (Suc h) ccs (length ccs - 1) s left right lp rp par i (seps cs) rc"
    and e: "erased T h key ccs s ml mr b rc" and w: "write_left left s rc = left" "write_right right (length ccs - 1) s rc = right"
    and root: "e_root rc = None" and nf: "not_found (e_res rc) \<longleftrightarrow> key \<notin> set (keys_of (contents_list ccs))"
    .
  show ?thesis
  proof (cases "not_found (e_res rc)")
    case True
    with e nf w root show ?thesis unfolding n base erase_inner_after_def Let_def
      by (auto simp: erased_def [where h = h] Let_def n intro!: not_found_erased [OF nb])
  next
    case False
    from after_child [OF T ok1 so' s_def e False] obtain b2 cs2 where
      f: "(if fixmerge (e_res rc) then fix_merge T (e_tree rc) (Suc h) (e_pkeys rc) (write_back ccs (length ccs - 1) s rc) s
        else Some (e_tree rc, e_pkeys rc, write_back ccs (length ccs - 1) s rc)) = Some (b2, seps cs2, cs2)"
      and cs2: "\<forall>c \<in> set cs2. node_ok T (min_at T h) h c" "length ccs \<le> Suc (length cs2)" "length cs2 \<le> length ccs"
      "contents_list cs2 = del_kv key (contents_list ccs)" and st: "st_rel b ccs b2 cs2"
      and lk: "update_lastkey (e_res rc) \<Longrightarrow> lastkey (e_res rc) = Some (fst (last (contents_list cs2)))"
      "\<not> update_lastkey (e_res rc) \<Longrightarrow> fst (last (contents_list cs2)) = fst (last (contents_list ccs))" by blast
    define curr1 where "curr1 = Inner (Suc h) (seps cs2) cs2"
    define upd where "upd = (update_lastkey (e_res rc) \<and> \<not> i < length (seps cs))"
    define r1 where "r1 = \<lparr>e_tree = b2, e_res = (if upd then res_or btree_ok (btree_update_lastkey (last_key curr1)) else btree_ok),
      e_curr = curr1, e_left = left, e_right = right, e_pkeys = seps (cs[i := curr1]), e_root = None\<rparr>"
    have lk': "last_key curr1 = fst (last (contents_list cs2))" "last_key (cs ! i) = fst (last (contents_list ccs))"
      by (simp_all add: curr1_def n last_key_def)
    have upd_eq: "seps (cs[i := curr1]) = (if update_lastkey (e_res rc) then (seps cs)[i := last_key curr1] else seps cs)"
      using i lk seps_update_id [of cs i] by (simp add: seps_update lk')
    have "erase_inner_after T False (Suc h) ccs (length ccs - 1) s left right lp rp par i (seps cs) rc =
      (if isunderflow T curr1 then underflow_inner T r1 lp rp par i else Some r1)"
      using False path(2) lk(1) root w f unfolding erase_inner_after_def Let_def r1_def upd_eq upd_def
      by (auto simp: curr1_def lk' [unfolded curr1_def] list_update_beyond)
    moreover have R: "to_repair T (Suc h) (cs[i := curr1]) i r1 lp rp par"
      by (rule to_repairI [OF call]) (use len cs2 m in \<open>auto simp: r1_def curr1_def\<close>)
    then have "\<exists>r. (if isunderflow T curr1 then underflow_inner T r1 lp rp par i else Some r1) = Some r \<and>
        repaired T (Suc h) (cs[i := curr1]) i r1 r"
      using underflow_inner_ok [OF T R] repaired_refl [OF R] i by auto
    moreover have "erased T (Suc h) key cs i left right b r" if "repaired T (Suc h) (cs[i := curr1]) i r1 r" for r
      by (rule repaired_erased [OF call _ _ _ _ _ _ _ _ that, of key])
         (use i nf False st cs2(4) lk in \<open>auto simp: n r1_def curr1_def upd_def lk' [unfolded curr1_def n] intro!: st_rel_wrap\<close>)
    ultimately show ?thesis unfolding n base using path(1) by auto
  qed
qed

theorem descend_all:
  assumes T: "traits_ok T" shows "descend_ok T h b key"
proof (induction h)
  case 0
  then show ?case unfolding descend_ok_def using erase_leaf_call [OF T] by blast
next
  case (Suc h)
  then show ?case unfolding descend_ok_def [of T "Suc h"] using erase_inner_call [OF T] by blast
qed

section \<open>The root\<close>

lemma live_addrs_ok:
  assumes "traits_ok T" "node_ok T lo h n" "0 < lo"
  shows "live_addrs [n] = map fst (leaf_list n)"
proof -
  have "filter (\<lambda>p. snd p \<noteq> []) (leaf_list n) = leaf_list n"
    using leaf_list_ok [OF assms] by (auto intro!: filter_True)
  then show ?thesis by (simp add: live_addrs_def)
qed

text \<open>The result of a deletion, as one predicate on the objects before and after.\<close>

definition erase_ok :: "traits \<Rightarrow> ('k::linorder, 'v) btree \<Rightarrow> 'k \<Rightarrow> ('k, 'v) btree \<Rightarrow> bool \<Rightarrow> bool" where
  "erase_ok T b k b' found \<longleftrightarrow>
     btree_inv T b' \<and> tree_contents b' = del_kv k (tree_contents b) \<and>
     found = (k \<in> set (keys_of (tree_contents b)))"

definition drop_item :: "('k, 'v) btree \<Rightarrow> ('k, 'v) btree" where
  "drop_item b = b\<lparr>m_stats := (m_stats b)\<lparr>itemcount := itemcount (m_stats b) - 1\<rparr>\<rparr>"

lemma erase_ok_root:
  assumes T: "traits_ok T" and inv: "btree_inv T b" and root: "m_root b = Some n"
    and n': "node_ok T 1 h n'" "contents n' = del_kv k (contents n)" "st_rel b [n] b1 [n']"
    and k: "k \<in> set (keys_of (contents n))"
  shows "erase_ok T b k (drop_item (b1\<lparr>m_root := Some n'\<rparr>)) True"
proof -
  let ?b = "drop_item (b1\<lparr>m_root := Some n'\<rparr>)"
  from inv root have ok: "node_ok T 1 (level n) n" and so: "ksorted (contents n)"
    and ch: "chain b (map fst (leaf_list n))" and st: "itemcount (m_stats b) = length (contents n)"
      "leaves (m_stats b) = length (leaf_list n)" "innernodes (m_stats b) = count_inner n"
    by (auto simp: btree_inv_defs)
  have fn: "live_addrs [n] = map fst (leaf_list n)" "live_addrs [n'] = map fst (leaf_list n')"
    using live_addrs_ok [OF T ok] live_addrs_ok [OF T n'(1)] by simp_all
  have fc: "nleaves [m] = length (leaf_list m)" "ninner [m] = count_inner m" for m :: "('a, 'b) node"
    by (simp_all add: nleaves_def ninner_def)
  have cong: "chain ?b as = chain b1 as" for as by (rule chain_cong) (simp_all add: drop_item_def)
  have "chain b1 ([] @ live_addrs [n'] @ [])" using n'(3) ch unfolding st_rel_def fn(1) by (metis append_Nil append_Nil2)
  moreover have "leaves (m_stats b1) = length (leaf_list n')" "innernodes (m_stats b1) = count_inner n'"
    "itemcount (m_stats b1) = length (contents n)"
    using n'(3) st unfolding st_rel_def fc by (metis add_0_right)+
  ultimately show ?thesis
    using n' k root ksorted_del_kv [OF so, of k] length_del_kv [OF so, of k] node_ok_level [OF n'(1)]
    unfolding erase_ok_def btree_inv_def cong
    by (simp add: drop_item_def btree_inv_defs fn(2))
qed

lemma erase_one_absent:
  assumes "btree_inv T b" "k \<notin> set (keys_of (tree_contents b))"
  shows "erase_ok T b k b False"
  using assms del_kv_absent [of "tree_contents b" k] by (simp add: erase_ok_def btree_inv_def)

lemma m_root_id: "m_root b = x \<Longrightarrow> b\<lparr>m_root := x\<rparr> = b"
  by (cases b) simp

text \<open>How \<open>erase_one\<close> finishes after the descent.\<close>

lemma erase_one_found:
  assumes "m_root b = Some n" "erase_one_descend T b k [] n None None None None None 0 [] = Some r"
    "\<not> not_found (e_res r)"
  shows "erase_one T b k =
    Some (drop_item ((e_tree r)\<lparr>m_root := (case e_root r of None \<Rightarrow> Some (e_curr r) | Some x \<Rightarrow> x)\<rparr>), True)"
  using assms by (simp add: erase_one_def drop_item_def Let_def)

lemma erase_one_not_found:
  assumes "m_root b = Some n" "erase_one_descend T b k [] n None None None None None 0 [] = Some r"
    "not_found (e_res r)" "e_tree r = b" "e_root r = None" "e_curr r = n"
  shows "erase_one T b k = Some (b, False)"
  using assms m_root_id [OF assms(1)] by (simp add: erase_one_def Let_def)

lemma erase_one_leaf_root:
  assumes T: "traits_ok T" and inv: "btree_inv T b" and root: "m_root b = Some (Leaf a kvs)"
  shows "\<exists>b' f. erase_one T b k = Some (b', f) \<and> erase_ok T b k b' f"
proof -
  from inv root have ok: "node_ok T 1 0 (Leaf a kvs)" and so: "ksorted kvs"
    and ch: "chain b [a]" and st: "itemcount (m_stats b) = length kvs" "leaves (m_stats b) = 1" "innernodes (m_stats b) = 0"
    by (auto simp: btree_inv_defs)
  have tc: "tree_contents b = kvs" using root by (simp add: tree_contents_def)
  define s where "s = find_lower (keys_of kvs) k"
  show ?thesis
  proof (cases "s < length kvs \<and> k = fst (kvs ! s)")
    case False
    then have "k \<notin> set (keys_of kvs)" using find_lower_miss [OF so s_def] by simp
    moreover have "erase_one T b k = Some (b, False)"
      by (rule erase_one_not_found [OF root]) (use False in \<open>auto simp: s_def [symmetric] Let_def\<close>)
    ultimately show ?thesis using erase_one_absent [OF inv, of k] by (auto simp: tc)
  next
    case True
    from find_lower_hit [OF so s_def True [THEN conjunct1] True [THEN conjunct2]] obtain as v bs where
      kvs: "kvs = as @ (k, v) # bs" "length as = s" and del: "del_kv k kvs = as @ bs" .
    have hit: "(s \<ge> length kvs \<or> \<not> key_equal k (keys_of kvs ! s)) = False" using True by auto
    have da: "del_at kvs s = Some (as @ bs)" using kvs del_at_mid [of as "(k, v)" bs] by simp
    have min: "4 \<le> minleafslots T" using min_at_bounds(1) [OF T, of 0] by (simp add: min_at_def)
    have base: "erase_one_descend T b k [] (Leaf a kvs) None None None None None 0 [] =
        erase_from_leaf T b True a kvs s None None None None None 0 []"
      by (simp only: erase_one_descend.simps Let_def s_def [symmetric] hit if_False simp_thms(6))
    show ?thesis
    proof (cases "as @ bs = []")
      case True
      then have "erase_from_leaf T b True a kvs s None None None None None 0 [] =
        Some \<lparr>e_tree = (free_node b (Leaf a []))\<lparr>m_headleaf := None, m_tailleaf := None\<rparr>, e_res = btree_ok,
          e_curr = Leaf a [], e_left = None, e_right = None, e_pkeys = [], e_root = Some None\<rparr>"
        using kvs(2) min unfolding erase_from_leaf_def da
        by (simp add: isunderflow_def underflow_leaf_def underflow_action_def)
      note r = erase_one_found [OF root base [unfolded this]]
      have "erase_ok T b k (drop_item ((free_node b (Leaf a []))\<lparr>m_headleaf := None, m_tailleaf := None, m_root := None\<rparr>)) True"
        using root True kvs(1) st by (simp add: erase_ok_def btree_inv_defs chain_def drop_item_def)
      with r show ?thesis by auto
    next
      case False
      have "\<exists>r. erase_from_leaf T b True a kvs s None None None None None 0 [] = Some r \<and> e_tree r = b \<and>
        e_curr r = Leaf a (as @ bs) \<and> e_root r = None \<and> \<not> not_found (e_res r)"
        using False kvs(2) unfolding erase_from_leaf_def da by (auto simp: rd_def Suc_le_eq)
      then obtain r where r: "erase_from_leaf T b True a kvs s None None None None None 0 [] = Some r"
        "e_tree r = b" "e_curr r = Leaf a (as @ bs)" "e_root r = None" "\<not> not_found (e_res r)" by blast
      have "erase_ok T b k (drop_item (b\<lparr>m_root := Some (Leaf a (as @ bs))\<rparr>)) True"
        by (rule erase_ok_root [OF T inv root, of 0])
           (use False ok kvs del in \<open>auto simp: Suc_le_eq intro!: st_rel_same\<close>)
      with erase_one_found [OF root trans [OF base r(1)] r(5)] r(2-4) show ?thesis by auto
    qed
  qed
qed

lemma erase_one_inner_root:
  assumes T: "traits_ok T" and inv: "btree_inv T b" and root: "m_root b = Some (Inner l ks cs)"
  shows "\<exists>b' f. erase_one T b k = Some (b', f) \<and> erase_ok T b k b' f"
proof -
  from inv root obtain h where ok: "node_ok T 1 (Suc h) (Inner (Suc h) (seps cs) cs)" and so: "ksorted (contents_list cs)"
    and l: "l = Suc h" "ks = seps cs" by (cases l) (auto simp: btree_inv_defs)
  note root = root [unfolded l]
  have tc: "tree_contents b = contents_list cs" using root by (simp add: tree_contents_def)
  define s where "s = find_lower (seps cs) k"
  have none: "\<forall>c. None = Some c \<or> None = Some c \<longrightarrow> node_ok T (min_at T (Suc h)) (Suc h) c"
    "\<forall>q. None = Some q \<or> None = Some q \<longrightarrow> length q < length []" by simp_all
  from erase_inner_down [OF T ok so s_def none descend_all [OF T, of h b], of None 0 "[]"] obtain ml mr r where
    base': "erase_one_descend T b k [] (Inner (Suc h) (seps cs) cs) None None None None None 0 [] =
       erase_inner_after T (([]::nat list) = []) (Suc h) cs (length cs - 1) s None None None None None 0 [] r"
    and e: "erased T h k cs s ml mr b r"
    and w: "write_left None s r = None" "write_right None (length cs - 1) s r = None" and er: "e_root r = None"
    and nf: "not_found (e_res r) \<longleftrightarrow> k \<notin> set (keys_of (contents_list cs))" .
  note base = base' [unfolded simp_thms(6)]
  show ?thesis
  proof (cases "not_found (e_res r)")
    case True
    with e have "e_tree r = b" "write_back cs (length cs - 1) s r = cs" "e_pkeys r = seps cs"
      by (auto simp: erased_def Let_def)
    with True er w have "erase_one T b k = Some (b, False)"
      by (intro erase_one_not_found [OF root base [unfolded erase_inner_after_def Let_def if_P [OF True]]]) auto
    then show ?thesis using erase_one_absent [OF inv, of k] nf True by (auto simp: tc)
  next
    case False
    from after_child [OF T ok so s_def e False] obtain b2 cs2 where
      f: "(if fixmerge (e_res r) then fix_merge T (e_tree r) (Suc h) (e_pkeys r) (write_back cs (length cs - 1) s r) s
        else Some (e_tree r, e_pkeys r, write_back cs (length cs - 1) s r)) = Some (b2, seps cs2, cs2)"
      and cs2: "\<forall>c \<in> set cs2. node_ok T (min_at T h) h c" "length cs \<le> Suc (length cs2)" "length cs2 \<le> length cs"
      "contents_list cs2 = del_kv k (contents_list cs)" and st: "st_rel b cs b2 cs2"
      and lk: "update_lastkey (e_res r) \<Longrightarrow> lastkey (e_res r) = Some (fst (last (contents_list cs2)))"
        "\<not> update_lastkey (e_res r) \<Longrightarrow> fst (last (contents_list cs2)) = fst (last (contents_list cs))" by blast
    define res where "res = (if update_lastkey (e_res r)
      then res_or btree_ok (btree_update_lastkey (fst (last (contents_list cs2)))) else btree_ok)"
    define r' where "r' = \<lparr>e_tree = b2, e_res = res, e_curr = Inner (Suc h) (seps cs2) cs2, e_left = None,
      e_right = None, e_pkeys = [], e_root = None\<rparr>"
    have after: "erase_inner_after T True (Suc h) cs (length cs - 1) s None None None None None 0 [] r =
      (if isunderflow T (Inner (Suc h) (seps cs2) cs2) \<and> \<not> 1 \<le> length (seps cs2)
       then underflow_inner T r' None None None 0 else Some r')"
      using False lk(1) er w f unfolding erase_inner_after_def Let_def r'_def res_def by auto
    have res: "\<not> not_found res" by (simp add: res_def)
    have k: "k \<in> set (keys_of (contents (Inner (Suc h) (seps cs) cs)))" using nf False by simp
    have l2: "1 \<le> length cs2" using ok cs2(2) by simp
    show ?thesis
    proof (cases "2 \<le> length cs2")
      case True
      have "erase_ok T b k (drop_item (b2\<lparr>m_root := Some (Inner (Suc h) (seps cs2) cs2)\<rparr>)) True"
        by (rule erase_ok_root [OF T inv root _ _ _ k, of "Suc h"])
           (use True cs2 ok st in \<open>auto intro!: st_rel_wrap\<close>)
      moreover have "erase_one_descend T b k [] (Inner (Suc h) (seps cs) cs) None None None None None 0 [] = Some r'"
        unfolding base after using True by auto
      note erase_one_found [OF root this]
      ultimately show ?thesis using res by (auto simp: r'_def)
    next
      case False
      with l2 have "length cs2 = Suc 0" by simp
      then obtain c where c: "cs2 = [c]" by (auto simp: length_Suc_conv)
      let ?n = "Inner (Suc h) (seps cs2) cs2"
      have ch: "chain (free_node b2 ?n) as = chain b2 as" for as by (rule chain_cong) simp_all
      have "st_rel b [Inner (Suc h) (seps cs) cs] (free_node b2 ?n) [c]"
        using st unfolding st_rel_def ch by (auto simp: c)
      moreover have okc: "node_ok T 1 h c"
        using cs2(1) c min_at_pos [OF T, of h] node_ok_slotuse [of T "min_at T h" h c] by (auto intro: node_ok_mono)
      ultimately have "erase_ok T b k (drop_item ((free_node b2 ?n)\<lparr>m_root := Some c\<rparr>)) True"
        by (intro erase_ok_root [OF T inv root _ _ _ k, of h]) (use cs2 c in auto)
      moreover have "isunderflow T ?n" using min_at_bounds(1) [OF T, of "Suc h"] min_at_bounds(4) [OF T, of h] c by (simp add: isunderflow_def)
      then have "erase_one_descend T b k [] (Inner (Suc h) (seps cs) cs) None None None None None 0 [] =
        Some \<lparr>e_tree = free_node b2 ?n, e_res = btree_ok, e_curr = ?n, e_left = None, e_right = None,
          e_pkeys = [], e_root = Some (Some c)\<rparr>"
        unfolding base after by (simp add: c r'_def underflow_inner_def underflow_action_def rd_def)
      note erase_one_found [OF root this]
      ultimately show ?thesis by auto
    qed
  qed
qed

theorem erase_one_ok:
  assumes "traits_ok T" "btree_inv T b"
  shows "\<exists>b' f. erase_one T b k = Some (b', f) \<and> erase_ok T b k b' f"
proof (cases "m_root b")
  case None
  then show ?thesis using erase_one_absent [OF assms(2), of k] by (auto simp: erase_one_def tree_contents_def)
next
  case (Some n)
  then show ?thesis
    using erase_one_leaf_root [OF assms, of _ _ k] erase_one_inner_root [OF assms, of _ _ _ k] by (cases n) auto
qed

section \<open>Main theorem\<close>

text \<open>
  C2: deleting a key from a well-formed tree, with every merge and shift that it triggers,
  never leaves an array, keeps the invariant, removes exactly the pair of the key, and reports
  whether there was one; \<open>erase\<close> counts it.
\<close>

theorem erase_correct:
  assumes "traits_ok T" "btree_inv T b"
  shows "\<exists>b'. erase_one T b k = Some (b', k \<in> set (keys_of (tree_contents b))) \<and>
    erase T b k = Some (b', if k \<in> set (keys_of (tree_contents b)) then 1 else 0) \<and>
    btree_inv T b' \<and> tree_contents b' = del_kv k (tree_contents b)"
  using erase_one_ok [OF assms, of k] by (auto simp: erase_ok_def erase_def simp del: set_map)

theorem erase_correct_witness:
  "\<exists>b'. erase_one sample_traits sample_btree 3 = Some (b', True) \<and> btree_inv sample_traits b' \<and>
    tree_contents b' = [(1, 10), (2, 20), (4, 40), (5, 50), (6, 60), (7, 70), (8, 80)]"
  using erase_correct [OF sample, of 3] by (auto simp: sample_contents)

end
