(* ===== verification/BTreeInsert.thy ===== *)
theory BTreeInsert
  imports BTreeInv
begin

text \<open>
  Insertion into the STX B+ tree: \<open>insert_start\<close>, \<open>insert_descend\<close> and the two node splits.
  The recursion of \<open>insert_descend\<close> returns the changed subtree, the split sibling with its
  separator key (\<open>*splitkey\<close>, \<open>*splitnode\<close>) and the pair that the C++ function returns.
  \<open>None\<close> stands for an access outside an array; the theorems show that it does not occur.
\<close>

section \<open>Definitions\<close>

type_synonym iter = "addr \<times> nat"

definition split_leaf_node ::
  "('k, 'v) btree \<Rightarrow> addr \<Rightarrow> ('k \<times> 'v) list \<Rightarrow>
   (('k, 'v) btree \<times> ('k \<times> 'v) list \<times> 'k \<times> addr \<times> ('k \<times> 'v) list) option" where
  "split_leaf_node b a kvs =
     (let mid = length kvs div 2;
          (b1, na) = allocate_leaf b;
          nx = nextleaf b1 a;
          b2 = b1\<lparr>nextleaf := (nextleaf b1)(na := nx)\<rparr>;
          b3 = (case nx of
                  None \<Rightarrow> b2\<lparr>m_tailleaf := Some na\<rparr>
                | Some x \<Rightarrow> b2\<lparr>prevleaf := (prevleaf b2)(x := Some na)\<rparr>);
          newleaf = drop mid kvs;
          leaf = take mid kvs;
          b4 = b3\<lparr>nextleaf := (nextleaf b3)(a := Some na), prevleaf := (prevleaf b3)(na := Some a)\<rparr>
      in do { newkey \<leftarrow> rd (keys_of leaf) (length leaf - 1);
              Some (b4, leaf, newkey, na, newleaf) })"

text \<open>The branch of \<open>insert_descend\<close> for a leaf.\<close>

definition insert_leaf ::
  "traits \<Rightarrow> ('k::linorder, 'v) btree \<Rightarrow> addr \<Rightarrow> ('k \<times> 'v) list \<Rightarrow> 'k \<Rightarrow> 'v \<Rightarrow>
   (('k, 'v) btree \<times> ('k \<times> 'v) list \<times> ('k \<times> addr \<times> ('k \<times> 'v) list) option \<times> iter \<times> bool) option" where
  "insert_leaf T b a kvs key value =
     (let slot = find_lower (keys_of kvs) key in
      if slot < length kvs \<and> key_equal key (keys_of kvs ! slot)
      then Some (b, kvs, None, (a, slot), False)
      else if isfull T (Leaf a kvs) then
        do { (b1, leaf, newkey, na, newleaf) \<leftarrow> split_leaf_node b a kvs;
             if slot \<ge> length leaf then
               do { newleaf' \<leftarrow> ins_at (leafslotmax T) newleaf (slot - length leaf) (key, value);
                    Some (b1, leaf, Some (newkey, na, newleaf'), (na, slot - length leaf), True) }
             else
               do { leaf' \<leftarrow> ins_at (leafslotmax T) leaf slot (key, value);
                    Some (b1, leaf',
                          Some (if slot = length leaf' - 1 then key else newkey, na, newleaf),
                          (a, slot), True) } }
      else
        do { leaf' \<leftarrow> ins_at (leafslotmax T) kvs slot (key, value);
             Some (b, leaf', None, (a, slot), True) })"

definition split_inner_node ::
  "('k, 'v) btree \<Rightarrow> 'k list \<Rightarrow> ('k, 'v) node list \<Rightarrow> nat \<Rightarrow>
   (('k, 'v) btree \<times> ('k list \<times> ('k, 'v) node list) \<times> 'k \<times> ('k list \<times> ('k, 'v) node list)) option" where
  "split_inner_node b ks cs addslot =
     (let mid0 = length ks div 2;
          mid = (if addslot \<le> mid0 \<and> mid0 > length ks - (mid0 + 1) then mid0 - 1 else mid0)
      in do { newkey \<leftarrow> rd ks mid;
              Some (allocate_inner b, (take mid ks, take (mid + 1) cs), newkey,
                    (drop (mid + 1) ks, drop (mid + 1) cs)) })"

text \<open>Shift the slots behind \<open>slot\<close> and put the new child with its key.\<close>

definition put_child ::
  "traits \<Rightarrow> 'k list \<Rightarrow> ('k, 'v) node list \<Rightarrow> nat \<Rightarrow> 'k \<Rightarrow> ('k, 'v) node \<Rightarrow>
   ('k list \<times> ('k, 'v) node list) option" where
  "put_child T ks cs slot newkey newchild =
     do { ks' \<leftarrow> ins_at (innerslotmax T) ks slot newkey;
          cs' \<leftarrow> ins_at (innerslotmax T + 1) cs (slot + 1) newchild;
          Some (ks', cs') }"

text \<open>The block of \<open>insert_descend\<close> that handles a split child.\<close>

definition insert_newchild ::
  "traits \<Rightarrow> ('k, 'v) btree \<Rightarrow> nat \<Rightarrow> 'k list \<Rightarrow> ('k, 'v) node list \<Rightarrow> nat \<Rightarrow> 'k \<Rightarrow> ('k, 'v) node \<Rightarrow>
   (('k, 'v) btree \<times> ('k, 'v) node \<times> ('k \<times> ('k, 'v) node) option) option" where
  "insert_newchild T b l ks cs slot newkey newchild =
     (if isfull T (Inner l ks cs) then
        do { (b1, (lks, lcs), splitkey, (rks, rcs)) \<leftarrow> split_inner_node b ks cs slot;
             if slot = length lks + 1 \<and> length lks < length rks then
               do { c0 \<leftarrow> rd rcs 0;
                    lks' \<leftarrow> app_at (innerslotmax T) lks [splitkey];
                    lcs' \<leftarrow> app_at (innerslotmax T + 1) lcs [c0];
                    rcs' \<leftarrow> wr rcs 0 newchild;
                    Some (b1, Inner l lks' lcs', Some (newkey, Inner l rks rcs')) }
             else if slot \<ge> length lks + 1 then
               do { (rks', rcs') \<leftarrow> put_child T rks rcs (slot - (length lks + 1)) newkey newchild;
                    Some (b1, Inner l lks lcs, Some (splitkey, Inner l rks' rcs')) }
             else
               do { (lks', lcs') \<leftarrow> put_child T lks lcs slot newkey newchild;
                    Some (b1, Inner l lks' lcs', Some (splitkey, Inner l rks rcs)) } }
      else
        do { (ks', cs') \<leftarrow> put_child T ks cs slot newkey newchild;
             Some (b, Inner l ks' cs', None) })"

fun insert_descend ::
  "traits \<Rightarrow> ('k::linorder, 'v) btree \<Rightarrow> ('k, 'v) node \<Rightarrow> 'k \<Rightarrow> 'v \<Rightarrow>
   (('k, 'v) btree \<times> ('k, 'v) node \<times> ('k \<times> ('k, 'v) node) option \<times> iter \<times> bool) option" where
  "insert_descend T b (Inner l ks cs) key value =
     (let slot = find_lower ks key in
      do { child \<leftarrow> rd cs slot;
           (b1, child', newchild, r) \<leftarrow> insert_descend T b child key value;
           let cs1 = cs[slot := child'];
           case newchild of
             None \<Rightarrow> Some (b1, Inner l ks cs1, None, r)
           | Some (newkey, nc) \<Rightarrow>
               do { (b2, n', split) \<leftarrow> insert_newchild T b1 l ks cs1 slot newkey nc;
                    Some (b2, n', split, r) } })"
| "insert_descend T b (Leaf a kvs) key value =
     do { (b1, kvs', split, r) \<leftarrow> insert_leaf T b a kvs key value;
          Some (b1, Leaf a kvs', map_option (\<lambda>(k, na, nkvs). (k, Leaf na nkvs)) split, r) }"

definition insert_start ::
  "traits \<Rightarrow> ('k::linorder, 'v) btree \<Rightarrow> 'k \<Rightarrow> 'v \<Rightarrow> (('k, 'v) btree \<times> iter \<times> bool) option" where
  "insert_start T b key value =
     (let (b0, root) = (case m_root b of
                          None \<Rightarrow> let (b', a) = allocate_leaf b
                                  in (b'\<lparr>m_headleaf := Some a, m_tailleaf := Some a\<rparr>, Leaf a [])
                        | Some n \<Rightarrow> (b, n))
      in do { (b1, root', newchild, (it, inserted)) \<leftarrow> insert_descend T b0 root key value;
              let b2 = (case newchild of
                          None \<Rightarrow> b1\<lparr>m_root := Some root'\<rparr>
                        | Some (newkey, nc) \<Rightarrow>
                            (allocate_inner b1)\<lparr>m_root := Some (Inner (level root' + 1) [newkey] [root', nc])\<rparr>);
              let b3 = (if inserted
                        then b2\<lparr>m_stats := (m_stats b2)\<lparr>itemcount := Suc (itemcount (m_stats b2))\<rparr>\<rparr>
                        else b2);
              Some (b3, it, inserted) })"


section \<open>Leaves\<close>

text \<open>The parts of the tree object that an insertion below the root may change.\<close>

definition upd_links :: "('k, 'v) btree \<Rightarrow> addr \<Rightarrow> ('k, 'v) btree" where
  "upd_links b a =
     (let na = next_addr b
      in b\<lparr>nextleaf := (nextleaf b)(na := nextleaf b a, a := Some na),
           prevleaf := (case nextleaf b a of None \<Rightarrow> (prevleaf b)(na := Some a)
                        | Some x \<Rightarrow> (prevleaf b)(na := None, x := Some na, na := Some a)),
           m_tailleaf := (case nextleaf b a of None \<Rightarrow> Some na | Some _ \<Rightarrow> m_tailleaf b),
           m_stats := (m_stats b)\<lparr>leaves := Suc (leaves (m_stats b))\<rparr>,
           next_addr := Suc na\<rparr>)"

lemma split_leaf_node_Some:
  assumes "2 \<le> length kvs" "a < next_addr b"
  shows "split_leaf_node b a kvs =
    Some (upd_links b a, take (length kvs div 2) kvs, fst (kvs ! (length kvs div 2 - 1)),
          next_addr b, drop (length kvs div 2) kvs)"
  using assms
  by (auto simp: split_leaf_node_def allocate_leaf_def upd_links_def Let_def rd_def fun_upd_twist
      split: option.splits)

text \<open>
  A leaf insertion puts the pair at its sorted place and, when the leaf was full, cuts the
  result in two halves that both keep the minimum; the new separator is the last key of the
  left half.
\<close>

lemma insert_leaf_present:
  assumes "ksorted kvs" "key \<in> set (keys_of kvs)"
  shows "insert_leaf T b a kvs key value =
    Some (b, kvs, None, (a, find_lower (keys_of kvs) key), False)"
    and "find_lower (keys_of kvs) key < length kvs"
    and "keys_of kvs ! find_lower (keys_of kvs) key = key"
proof -
  let ?s = "find_lower (keys_of kvs) key"
  note sp = find_lower_leaf [OF assms(1) refl, of key]
  from assms(2) obtain x where x: "x \<in> set kvs" "fst x = key" by auto
  have "kvs = take ?s kvs @ drop ?s kvs" by simp
  with x sp(1) have xd: "x \<in> set (drop ?s kvs)"
    by (metis Un_iff order_less_irrefl set_append)
  hence lt: "?s < length kvs" by (metis drop_all empty_iff empty_set leI)
  with xd have "kvs ! ?s = x \<or> x \<in> set (drop (Suc ?s) kvs)"
    by (auto simp flip: Cons_nth_drop_Suc)
  moreover have "\<forall>y \<in> set (drop (Suc ?s) kvs). fst (kvs ! ?s) < fst y"
    using assms(1) lt by (subst (asm) id_take_nth_drop [OF lt]) (auto simp: sorted_wrt_append)
  moreover have "key \<le> fst (kvs ! ?s)" using sp(2) lt by (auto simp flip: Cons_nth_drop_Suc)
  ultimately have "fst (kvs ! ?s) = key" by (metis leD x(2))
  with lt show "insert_leaf T b a kvs key value = Some (b, kvs, None, (a, ?s), False)"
    and "?s < length kvs" and "keys_of kvs ! ?s = key"
    by (auto simp: insert_leaf_def)
qed

lemma find_lower_ins:
  assumes "ksorted kvs" "key \<notin> set (keys_of kvs)" "s = find_lower (keys_of kvs) key"
  shows "take s kvs @ (key, value) # drop s kvs = ins_kv key value kvs"
proof -
  note sp = find_lower_leaf [OF assms(1,3)]
  have "\<forall>x \<in> set (drop s kvs). key < fst x"
    using sp(2) assms(2) by (metis image_eqI in_set_dropD list.set_map order_le_less)
  with sp(1) have "ins_kv key value (take s kvs @ drop s kvs) = take s kvs @ (key, value) # drop s kvs"
    by (rule ins_kv_mid)
  then show ?thesis by simp
qed

lemma insert_leaf_absent:
  assumes T: "traits_ok T" and so: "ksorted kvs" and nin: "key \<notin> set (keys_of kvs)"
    and len: "length kvs \<le> leafslotmax T" and fresh: "a < next_addr b"
  shows "insert_leaf T b a kvs key value =
      (if length kvs < leafslotmax T
       then Some (b, ins_kv key value kvs, None, (a, find_lower (keys_of kvs) key), True)
       else let p = (if find_lower (keys_of kvs) key < length kvs div 2
                     then Suc (length kvs div 2) else length kvs div 2);
                l = take p (ins_kv key value kvs)
            in Some (upd_links b a, l,
                 Some (fst (last l), next_addr b, drop p (ins_kv key value kvs)),
                 (if find_lower (keys_of kvs) key < length kvs div 2
                  then (a, find_lower (keys_of kvs) key)
                  else (next_addr b, find_lower (keys_of kvs) key - p)), True))"
proof -
  define s where "s = find_lower (keys_of kvs) key"
  have s_le: "s \<le> length kvs" using find_lower_le [of "keys_of kvs" key] by (simp add: s_def)
  note ins = find_lower_ins [OF so nin s_def, of "value"]
  have ne: "\<not> (s < length kvs \<and> key_equal key (keys_of kvs ! s))"
    using nin by (metis key_equal_iff length_map nth_mem)
  show ?thesis
  proof (cases "length kvs < leafslotmax T")
    case True
    with s_le ne show ?thesis
      by (auto simp: insert_leaf_def s_def [symmetric] Let_def isfull_def arr_simps ins)
  next
    case False
    define m where "m = length kvs div 2"
    from T len False have m: "2 \<le> length kvs" "1 < m" "m < length kvs" "length kvs = leafslotmax T"
      by (auto simp: traits_ok_def m_def)
    then have md: "leafslotmax T div 2 = m" by (simp add: m_def)
    note sl = split_leaf_node_Some [OF m(1) fresh, folded m_def]
    have lastm: "last (take m kvs) = kvs ! (m - 1)"
      using m by (simp add: last_take)
    show ?thesis
    proof (cases "s < m")
      case True
      have l: "take (Suc m) (ins_kv key value kvs) = take s kvs @ (key, value) # drop s (take m kvs)"
        using True s_le by (simp add: ins [symmetric] take_Cons' drop_take min_def Suc_diff_le)
      have d: "drop (Suc m) (ins_kv key value kvs) = drop m kvs"
        using True s_le by (simp add: ins [symmetric] drop_Cons' Suc_diff_le)
      have "last (take s kvs @ (key, value) # drop s (take m kvs)) = last (take m kvs)"
        using True m by (simp add: last_drop)
      then show ?thesis using False True m ne
        by (auto simp: insert_leaf_def s_def [symmetric] md Let_def isfull_def sl
            arr_simps l d lastm min_def)
    next
      case False
      have l: "take m (ins_kv key value kvs) = take m kvs"
        using False s_le by (simp add: ins [symmetric] min_def)
      have d: "drop m (ins_kv key value kvs) =
          take (s - m) (drop m kvs) @ (key, value) # drop (s - m) (drop m kvs)"
        using False s_le by (simp add: ins [symmetric] take_drop)
      show ?thesis using \<open>\<not> length kvs < leafslotmax T\<close> False m ne s_le
        by (auto simp: insert_leaf_def s_def [symmetric] md Let_def isfull_def sl
            arr_simps l d lastm min_def)
    qed
  qed
qed


section \<open>Inner nodes\<close>

text \<open>A list with one more element, cut at a position before or behind the new element.\<close>

lemma cut_before:
  assumes "p \<le> i" "i \<le> length xs"
  shows "take p (take i xs @ x # drop i xs) = take p xs"
    and "drop p (take i xs @ x # drop i xs) = take (i - p) (drop p xs) @ x # drop (i - p) (drop p xs)"
  using assms by (auto simp: min_def take_drop)

lemma cut_behind:
  assumes "i \<le> p" "p \<le> length xs"
  shows "take (Suc p) (take i xs @ x # drop i xs) = take i (take p xs) @ x # drop i (take p xs)"
    and "drop (Suc p) (take i xs @ x # drop i xs) = drop p xs"
  using assms by (auto simp: min_def take_Cons' drop_Cons' drop_take Suc_diff_le)

lemma cut_nth:
  assumes "i \<le> length xs"
  shows "(take i xs @ x # drop i xs) ! i = x"
    and "p < i \<Longrightarrow> (take i xs @ x # drop i xs) ! p = xs ! p"
    and "i \<le> p \<Longrightarrow> p < length xs \<Longrightarrow> (take i xs @ x # drop i xs) ! Suc p = xs ! p"
  using assms by (auto simp: nth_append nth_Cons' Suc_diff_le)

text \<open>
  A split child is put behind \<open>slot\<close>; when the inner node was full, the result is cut at some
  position that leaves both halves at least half full.
\<close>

lemma insert_newchild_room:
  assumes "length ks < innerslotmax T" "length cs = Suc (length ks)" "slot \<le> length ks"
  shows "insert_newchild T b l ks cs slot nk nc =
    Some (b, Inner l (take slot ks @ nk # drop slot ks)
                     (take (Suc slot) cs @ nc # drop (Suc slot) cs), None)"
  using assms by (simp add: insert_newchild_def put_child_def isfull_def arr_simps)

lemma insert_newchild_full:
  fixes nk :: 'k and nc :: "('k, 'v) node"
  assumes T: "traits_ok T" and len: "length ks = innerslotmax T" "length cs = Suc (length ks)"
    and s: "slot \<le> length ks"
  defines "ks2 \<equiv> take slot ks @ nk # drop slot ks"
    and "cs2 \<equiv> take (Suc slot) cs @ nc # drop (Suc slot) cs"
  obtains p where "mininnerslots T \<le> p" "p + mininnerslots T \<le> length ks"
    "insert_newchild T b l ks cs slot nk nc =
      Some (allocate_inner b, Inner l (take p ks2) (take (Suc p) cs2),
            Some (ks2 ! p, Inner l (drop (Suc p) ks2) (drop (Suc p) cs2)))"
proof -
  define m0 where "m0 = length ks div 2"
  define m where "m = (if slot \<le> m0 \<and> m0 > length ks - (m0 + 1) then m0 - 1 else m0)"
  have big: "8 \<le> length ks" using T len by (simp add: traits_ok_def)
  have m0: "m0 + m0 \<le> length ks" "length ks \<le> Suc (m0 + m0)" "mininnerslots T = m0" "4 \<le> m0"
    using big len by (auto simp: m0_def mininnerslots_def)
  have m_lt: "m < length ks" using big m0 by (auto simp: m_def)
  have sp: "split_inner_node b ks cs slot =
      Some (allocate_inner b, (take m ks, take (Suc m) cs), ks ! m, (drop (Suc m) ks, drop (Suc m) cs))"
    using m_lt unfolding split_inner_node_def Let_def m0_def [symmetric] m_def [symmetric]
    by (simp add: rd_def)
  have full: "isfull T (Inner l ks cs)" using len by (simp add: isfull_def)
  consider (eq) "slot = Suc m" "m < length ks - Suc m"
    | (right) "Suc m \<le> slot" "\<not> (slot = Suc m \<and> m < length ks - Suc m)"
    | (left) "slot \<le> m" by linarith
  then show thesis
  proof cases
    case eq
    have le: "Suc slot \<le> length cs" "slot < length ks" using eq len m_lt by auto
    have c1: "take (Suc m) ks = take m ks @ [ks ! m]" "take (Suc (Suc m)) cs = take (Suc m) cs @ [cs ! Suc m]"
      using eq len m_lt by (auto simp: take_Suc_conv_app_nth)
    have c2: "drop (Suc m) cs = cs ! Suc m # drop (Suc (Suc m)) cs"
      using len m_lt by (simp add: Cons_nth_drop_Suc)
    have k: "take slot ks2 = take (Suc m) ks" "drop (Suc slot) ks2 = drop (Suc m) ks" "ks2 ! slot = nk"
      using cut_before [of slot slot ks nk] cut_behind [of slot slot ks nk] cut_nth(1) [of slot ks nk] le eq
      by (auto simp: ks2_def)
    have c: "take (Suc slot) cs2 = take (Suc (Suc m)) cs" "drop (Suc slot) cs2 = nc # drop (Suc (Suc m)) cs"
      using le eq by (auto simp: cs2_def min_def)
    have "insert_newchild T b l ks cs slot nk nc =
      Some (allocate_inner b, Inner l (take slot ks2) (take (Suc slot) cs2),
            Some (ks2 ! slot, Inner l (drop (Suc slot) ks2) (drop (Suc slot) cs2)))"
      using full sp eq len m_lt unfolding k c c1
      by (simp add: insert_newchild_def c2 rd_def wr_def app_at_def min_def)
    moreover have "mininnerslots T \<le> slot" "slot + mininnerslots T \<le> length ks"
      using eq m0 by (auto simp: m_def split: if_splits)
    ultimately show thesis using that by blast
  next
    case right
    have k: "take m ks2 = take m ks" "ks2 ! m = ks ! m"
      "drop (Suc m) ks2 = take (slot - Suc m) (drop (Suc m) ks) @ nk # drop (slot - Suc m) (drop (Suc m) ks)"
      using cut_before [of m slot ks nk] cut_before(2) [of "Suc m" slot ks nk] cut_nth(2) [of slot ks m nk] right(1) s
      by (auto simp: ks2_def)
    have e: "slot - m = Suc (slot - Suc m)" using right(1) by linarith
    have c: "take (Suc m) cs2 = take (Suc m) cs"
      "drop (Suc m) cs2 = take (Suc (slot - Suc m)) (drop (Suc m) cs) @ nc # drop (Suc (slot - Suc m)) (drop (Suc m) cs)"
      using cut_before [of "Suc m" "Suc slot" cs nc] right(1) s len by (auto simp: cs2_def e)
    have "insert_newchild T b l ks cs slot nk nc =
      Some (allocate_inner b, Inner l (take m ks2) (take (Suc m) cs2),
            Some (ks2 ! m, Inner l (drop (Suc m) ks2) (drop (Suc m) cs2)))"
      using full sp right len m_lt s unfolding k c
      by (auto simp: insert_newchild_def put_child_def ins_at_def min_def)
    moreover have "mininnerslots T \<le> m" "m + mininnerslots T \<le> length ks"
      using right m0 s by (auto simp: m_def split: if_splits)
    ultimately show thesis using that by blast
  next
    case left
    have k: "take (Suc m) ks2 = take slot (take m ks) @ nk # drop slot (take m ks)"
      "drop (Suc (Suc m)) ks2 = drop (Suc m) ks" "ks2 ! Suc m = ks ! m"
      using cut_behind(1) [of slot m ks nk] cut_behind(2) [of slot "Suc m" ks nk] cut_nth(3) [of slot ks m nk] left m_lt
      by (auto simp: ks2_def)
    have c: "take (Suc (Suc m)) cs2 = take (Suc slot) (take (Suc m) cs) @ nc # drop (Suc slot) (take (Suc m) cs)"
      "drop (Suc (Suc m)) cs2 = drop (Suc m) cs"
      using cut_behind [of "Suc slot" "Suc m" cs nc] left m_lt len by (auto simp: cs2_def)
    have "insert_newchild T b l ks cs slot nk nc =
      Some (allocate_inner b, Inner l (take (Suc m) ks2) (take (Suc (Suc m)) cs2),
            Some (ks2 ! Suc m, Inner l (drop (Suc (Suc m)) ks2) (drop (Suc (Suc m)) cs2)))"
      using full sp left len m_lt s unfolding k c
      by (auto simp: insert_newchild_def put_child_def ins_at_def min_def)
    moreover have "mininnerslots T \<le> Suc m" "Suc m + mininnerslots T \<le> length ks"
      using left m0 s big by (auto simp: m_def split: if_splits)
    ultimately show thesis using that by blast
  qed
qed


section \<open>The recursion\<close>

definition opt_node :: "('a \<Rightarrow> 'b list) \<Rightarrow> ('k \<times> 'a) option \<Rightarrow> 'b list" where
  "opt_node f sp = (case sp of None \<Rightarrow> [] | Some (_, m) \<Rightarrow> f m)"

lemma opt_node_simps [simp]: "opt_node f None = []" "opt_node f (Some (k, m)) = f m"
  by (simp_all add: opt_node_def)

definition opt_count :: "('k \<times> ('k, 'v) node) option \<Rightarrow> nat" where
  "opt_count sp = (case sp of None \<Rightarrow> 0 | Some (_, m) \<Rightarrow> count_inner m)"

lemma opt_count_simps [simp]: "opt_count None = 0" "opt_count (Some (k, m)) = count_inner m"
  by (simp_all add: opt_count_def)

definition add_inner :: "nat \<Rightarrow> ('k, 'v) btree \<Rightarrow> ('k, 'v) btree" where
  "add_inner d b = b\<lparr>m_stats := (m_stats b)\<lparr>innernodes := innernodes (m_stats b) + d\<rparr>\<rparr>"

lemma add_inner_simps [simp]:
  "add_inner 0 b = b" "allocate_inner (add_inner d b) = add_inner (Suc d) b"
  "nextleaf (add_inner d b) = nextleaf b" "prevleaf (add_inner d b) = prevleaf b"
  "m_headleaf (add_inner d b) = m_headleaf b" "m_tailleaf (add_inner d b) = m_tailleaf b"
  "next_addr (add_inner d b) = next_addr b" "itemcount (m_stats (add_inner d b)) = itemcount (m_stats b)"
  "leaves (m_stats (add_inner d b)) = leaves (m_stats b)"
  "innernodes (m_stats (add_inner d b)) = innernodes (m_stats b) + d"
  "m_root (add_inner d b) = m_root b"
  by (simp_all add: add_inner_def allocate_inner_def)

text \<open>
  What one call of \<open>insert_descend\<close> does: it reaches the one leaf that may hold the key, lets
  \<open>insert_leaf\<close> change it, and leaves every other leaf alone. Only the count of inner nodes
  changes beyond that.
\<close>

definition leaf_ins ::
  "('k::linorder, 'v) btree \<Rightarrow> addr \<Rightarrow> ('k \<times> 'v) list \<Rightarrow> 'k \<Rightarrow> 'v \<Rightarrow> ('k, 'v) btree \<Rightarrow>
   ('k \<times> 'v) list \<Rightarrow> ('k \<times> addr \<times> ('k \<times> 'v) list) option \<Rightarrow> iter \<Rightarrow> bool \<Rightarrow> bool" where
  "leaf_ins b a kvs k v b0 kvs' lsp it ins \<longleftrightarrow>
     kvs' @ opt_node snd lsp = ins_kv k v kvs \<and> ins = (k \<notin> set (keys_of kvs)) \<and>
     (case lsp of None \<Rightarrow> b0 = b | Some (_, na, _) \<Rightarrow> b0 = upd_links b a \<and> na = next_addr b) \<and>
     (\<exists>l. (fst it, l) \<in> set ((a, kvs') # opt_node (\<lambda>p. [p]) lsp) \<and> snd it < length l \<and> fst (l ! snd it) = k)"

definition ins_leaves ::
  "('k::linorder, 'v) btree \<Rightarrow> ('k, 'v) node \<Rightarrow> 'k \<Rightarrow> 'v \<Rightarrow> ('k, 'v) btree \<Rightarrow>
   ('k, 'v) node \<Rightarrow> ('k \<times> ('k, 'v) node) option \<Rightarrow> iter \<Rightarrow> bool \<Rightarrow> bool" where
  "ins_leaves b n k v b' n' sp it ins \<longleftrightarrow>
     (\<exists>A a kvs B kvs' lsp b0 d.
        leaf_list n = A @ (a, kvs) # B \<and>
        (\<forall>x \<in> set (concat (map snd A)). fst x < k) \<and>
        (B \<noteq> [] \<longrightarrow> kvs \<noteq> [] \<and> k \<le> fst (last kvs)) \<and>
        leaf_ins b a kvs k v b0 kvs' lsp it ins \<and>
        leaf_list n' @ opt_node leaf_list sp = A @ (a, kvs') # opt_node (\<lambda>p. [p]) lsp @ B \<and>
        b' = add_inner d b0 \<and>
        count_inner n' + opt_count sp = count_inner n + d)"

definition ins_shape ::
  "traits \<Rightarrow> nat \<Rightarrow> nat \<Rightarrow> ('k, 'v) node \<Rightarrow> ('k \<times> ('k, 'v) node) option \<Rightarrow> bool" where
  "ins_shape T lo h n' sp \<longleftrightarrow>
     (case sp of None \<Rightarrow> node_ok T lo h n'
      | Some (sk, m) \<Rightarrow> sk = last_key n' \<and> node_ok T (min_at T h) h n' \<and> node_ok T (min_at T h) h m)"

lemma ins_leaves_contents:
  assumes "ins_leaves b n k v b' n' sp it ins"
  shows "contents n' @ opt_node contents sp = ins_kv k v (contents n)"
proof -
  from assms obtain A a kvs B kvs' lsp b0 where
    li: "leaf_ins b a kvs k v b0 kvs' lsp it ins" and
    l: "leaf_list n = A @ (a, kvs) # B" and A: "\<forall>x \<in> set (concat (map snd A)). fst x < k"
    and B: "B \<noteq> [] \<longrightarrow> kvs \<noteq> [] \<and> k \<le> fst (last kvs)"
    and r: "leaf_list n' @ opt_node leaf_list sp = A @ (a, kvs') # opt_node (\<lambda>p. [p]) lsp @ B"
    unfolding ins_leaves_def by blast
  have i: "kvs' @ opt_node snd lsp = ins_kv k v kvs" using li by (simp add: leaf_ins_def)
  have "contents n' @ opt_node contents sp = concat (map snd (leaf_list n' @ opt_node leaf_list sp))"
    by (auto simp: contents_leaf_list opt_node_def split: option.splits)
  also have "\<dots> = concat (map snd A) @ (kvs' @ opt_node snd lsp) @ concat (map snd B)"
    unfolding r by (auto simp: opt_node_def split: option.splits)
  also have "\<dots> = concat (map snd A) @ ins_kv k v (kvs @ concat (map snd B))"
    using B by (cases "B = []") (auto simp: i kv_simps)
  also have "\<dots> = ins_kv k v (contents n)"
    using A by (simp add: contents_leaf_list l ins_kv_app_left)
  finally show ?thesis .
qed

lemma ins_kv_nonempty [simp]: "ins_kv k v xs \<noteq> []"
  by (cases "(k, v, xs)" rule: ins_kv.cases) auto

lemma last_ins_kv: "xs \<noteq> [] \<Longrightarrow> k \<le> fst (last xs) \<Longrightarrow> fst (last (ins_kv k v xs)) = fst (last xs)"
  by (induction k v xs rule: ins_kv.induct) (auto split: if_splits)

text \<open>The separators of the parent after its child \<open>c\<close> has become \<open>c'\<close> and possibly a sibling.\<close>

lemma seps_replace:
  assumes "bs \<noteq> [] \<Longrightarrow> last_key c' = last_key c"
  shows "seps (as @ c' # bs) = seps (as @ c # bs)"
  using assms by (cases "bs = []") simp_all

lemma seps_split:
  assumes "bs \<noteq> [] \<Longrightarrow> last_key m = last_key c" and "length as = s"
  shows "seps (as @ c' # m # bs) = take s (seps (as @ c # bs)) @ last_key c' # drop s (seps (as @ c # bs))"
  using assms by (cases "bs = []") simp_all

lemma insert_leaf_shape:
  assumes T: "traits_ok T" and so: "ksorted kvs"
    and len: "lo \<le> length kvs" "length kvs \<le> leafslotmax T" and fr: "a < next_addr b"
  shows "\<exists>b0 kvs' lsp it ins. insert_leaf T b a kvs k v = Some (b0, kvs', lsp, it, ins) \<and>
    leaf_ins b a kvs k v b0 kvs' lsp it ins \<and>
    ins_shape T lo 0 (Leaf a kvs') (map_option (\<lambda>(k, na, nkvs). (k, Leaf na nkvs)) lsp)"
proof (cases "k \<in> set (keys_of kvs)")
  case True
  note r = insert_leaf_present [OF so True]
  have "leaf_ins b a kvs k v b kvs None (a, find_lower (keys_of kvs) k) False"
    using r(2,3) True by (auto simp: leaf_ins_def ins_kv_present [OF so True])
  with r(1) [of T b a v] len show ?thesis by (fastforce simp: ins_shape_def)
next
  case False
  define s where "s = find_lower (keys_of kvs) k"
  have s: "s \<le> length kvs" using find_lower_le [of "keys_of kvs" k] by (simp add: s_def)
  note r = insert_leaf_absent [OF T so False len(2) fr, of v, folded s_def]
  have l: "length (ins_kv k v kvs) = Suc (length kvs)" using length_ins_kv [OF so, of k v] False by simp
  have at: "ins_kv k v kvs ! s = (k, v)"
    using s by (simp add: find_lower_ins [OF so False s_def, symmetric] nth_append)
  show ?thesis
  proof (cases "length kvs < leafslotmax T")
    case True
    have "leaf_ins b a kvs k v b (ins_kv k v kvs) None (a, s) True"
      using False at l s by (auto simp: leaf_ins_def)
    with r True l len show ?thesis by (fastforce simp: ins_shape_def)
  next
    case full: False
    define p where "p = (if s < length kvs div 2 then Suc (length kvs div 2) else length kvs div 2)"
    let ?l = "take p (ins_kv k v kvs)" and ?r = "drop p (ins_kv k v kvs)"
    let ?it = "if s < length kvs div 2 then (a, s) else (next_addr b, s - p)"
    have len': "length kvs = leafslotmax T" using full len by simp
    have p: "minleafslots T \<le> p" "p + minleafslots T \<le> Suc (length kvs)" "p \<le> length kvs" "0 < p"
      using T s by (auto simp: p_def minleafslots_def len' [symmetric] traits_ok_def)
    have "leaf_ins b a kvs k v (upd_links b a) ?l (Some (fst (last ?l), next_addr b, ?r)) ?it True"
      using False at l s by (auto simp: leaf_ins_def p_def)
    moreover have "ins_shape T lo 0 (Leaf a ?l) (Some (fst (last ?l), Leaf (next_addr b) ?r))"
      using p l len' by (auto simp: ins_shape_def min_at_def last_key_def)
    moreover have "insert_leaf T b a kvs k v =
        Some (upd_links b a, ?l, Some (fst (last ?l), next_addr b, ?r), ?it, True)"
      using r full by (simp add: p_def [symmetric] Let_def)
    ultimately show ?thesis by fastforce
  qed
qed

lemma insert_descend_leaf:
  assumes T: "traits_ok T" and ok: "node_ok T lo 0 n" and so: "ksorted (contents n)"
    and fresh: "\<forall>x \<in> set (leaf_list n). fst x < next_addr b"
  shows "\<exists>b' n' sp it ins. insert_descend T b n k v = Some (b', n', sp, it, ins) \<and>
    ins_leaves b n k v b' n' sp it ins \<and> ins_shape T lo 0 n' sp"
proof -
  from ok obtain a kvs where n: "n = Leaf a kvs" "lo \<le> length kvs" "length kvs \<le> leafslotmax T"
    by (auto simp: node_ok_0)
  have sok: "ksorted kvs" and fr: "a < next_addr b" using so fresh by (auto simp: n)
  obtain b0 kvs' lsp it ins where r: "insert_leaf T b a kvs k v = Some (b0, kvs', lsp, it, ins)"
    "leaf_ins b a kvs k v b0 kvs' lsp it ins"
    "ins_shape T lo 0 (Leaf a kvs') (map_option (\<lambda>(k, na, nkvs). (k, Leaf na nkvs)) lsp)"
    using insert_leaf_shape [OF T sok n(2,3) fr] by blast
  let ?sp = "map_option (\<lambda>(k, na, nkvs). (k, Leaf na nkvs)) lsp"
  have "ins_leaves b n k v b0 (Leaf a kvs') ?sp it ins"
    unfolding ins_leaves_def
    by (rule exI [of _ "[]"], rule exI [of _ a], rule exI [of _ kvs], rule exI [of _ "[]"],
        rule exI [of _ kvs'], rule exI [of _ lsp], rule exI [of _ b0], rule exI [of _ 0])
       (use r in \<open>auto simp: n opt_node_def opt_count_def split: option.splits\<close>)
  with r show ?thesis by (auto simp: n)
qed


lemma ins_leaves_lift:
  assumes child: "ins_leaves b c k v b1 c' sp it ins"
    and as: "\<forall>x \<in> set (contents_list as). fst x < k"
    and bs: "bs \<noteq> [] \<Longrightarrow> contents c \<noteq> [] \<and> k \<le> last_key c"
    and leaves: "leaf_list n' @ opt_node leaf_list sp' =
      leaf_lists as @ (leaf_list c' @ opt_node leaf_list sp) @ leaf_lists bs"
    and cnt: "count_inner n' + opt_count sp' + count_inner c =
      count_inner (Inner l ks (as @ c # bs)) + count_inner c' + opt_count sp + e"
    and b': "b' = add_inner e b1"
  shows "ins_leaves b (Inner l ks (as @ c # bs)) k v b' n' sp' it ins"
proof -
  from child obtain A a kvs B kvs' lsp b0 d where
    l: "leaf_list c = A @ (a, kvs) # B" and A: "\<forall>x \<in> set (concat (map snd A)). fst x < k"
    and B: "B \<noteq> [] \<longrightarrow> kvs \<noteq> [] \<and> k \<le> fst (last kvs)"
    and ins: "leaf_ins b a kvs k v b0 kvs' lsp it ins"
    and r: "leaf_list c' @ opt_node leaf_list sp = A @ (a, kvs') # opt_node (\<lambda>p. [p]) lsp @ B"
    and b1: "b1 = add_inner d b0" and d: "count_inner c' + opt_count sp = count_inner c + d"
    unfolding ins_leaves_def by blast
  let ?A = "leaf_lists as @ A" and ?B = "B @ leaf_lists bs"
  have cA: "\<forall>x \<in> set (concat (map snd ?A)). fst x < k"
    using A as by (fastforce simp: contents_leaf_list)
  have cB: "kvs \<noteq> [] \<and> k \<le> fst (last kvs)" if "?B \<noteq> []"
  proof (cases "B = []")
    case True
    with that have "bs \<noteq> []" by auto
    with bs have c: "contents c \<noteq> []" "k \<le> fst (last (contents c))" by (auto simp: last_key_def)
    have ck: "contents c = concat (map snd A) @ kvs" by (simp add: contents_leaf_list l True)
    have "kvs \<noteq> []"
    proof
      assume "kvs = []"
      with c ck have "last (contents c) \<in> set (concat (map snd A))" by (metis append_Nil2 last_in_set)
      with A c(2) show False by (meson leD)
    qed
    with c ck show ?thesis by simp
  qed (use B in simp)
  have eq: "b' = add_inner (d + e) b0" by (simp add: b' b1 add_inner_def)
  show ?thesis
    unfolding ins_leaves_def
    by (rule exI [of _ ?A], rule exI [of _ a], rule exI [of _ kvs], rule exI [of _ ?B],
        rule exI [of _ kvs'], rule exI [of _ lsp], rule exI [of _ b0], rule exI [of _ "d + e"])
       (use ins r leaves cA cB eq d cnt in \<open>auto simp: l\<close>)
qed

text \<open>How the parent takes up the result of the call for its child.\<close>

lemma insert_descend_step:
  assumes T: "traits_ok T" and lo: "lo < length (as @ c # bs)" "length (as @ c # bs) \<le> Suc (innerslotmax T)"
    and ok: "\<forall>x \<in> set (as @ c # bs). node_ok T (min_at T h) h x"
    and slot: "find_lower (seps (as @ c # bs)) k = length as"
    and as: "\<forall>x \<in> set (contents_list as). fst x < k"
    and bs: "bs \<noteq> [] \<Longrightarrow> k \<le> last_key c"
    and call: "insert_descend T b c k v = Some (b1, c', sp, it, ins)"
    and lv: "ins_leaves b c k v b1 c' sp it ins" and sh: "ins_shape T (min_at T h) h c' sp"
  defines "n \<equiv> Inner (Suc h) (seps (as @ c # bs)) (as @ c # bs)"
  shows "\<exists>b' n' sp'. insert_descend T b n k v = Some (b', n', sp', it, ins) \<and>
    ins_leaves b n k v b' n' sp' it ins \<and> ins_shape T lo (Suc h) n' sp'"
proof -
  have cne: "contents c \<noteq> []" using children_nonempty [OF T ok] by simp
  have last: "fst (last (contents c' @ opt_node contents sp)) = last_key c" if "bs \<noteq> []"
    using last_ins_kv [OF cne, of k v] bs [OF that] ins_leaves_contents [OF lv] by (simp add: last_key_def)
  show ?thesis
  proof (cases sp)
    case None
    let ?n' = "Inner (Suc h) (seps (as @ c # bs)) (as @ c' # bs)"
    have c': "node_ok T (min_at T h) h c'" using sh None by (simp add: ins_shape_def)
    have se: "seps (as @ c' # bs) = seps (as @ c # bs)"
      by (rule seps_replace) (use last None in \<open>simp add: last_key_def\<close>)
    have "ins_leaves b n k v b1 ?n' None it ins" unfolding n_def
      by (rule ins_leaves_lift [OF lv as, where e = 0]) (use bs cne None in auto)
    moreover have "ins_shape T lo (Suc h) ?n' None"
      using c' lo ok by (auto simp: ins_shape_def se [symmetric])
    moreover have "insert_descend T b n k v = Some (b1, ?n', None, it, ins)"
      using call None slot by (simp add: n_def)
    ultimately show ?thesis by blast
  next
    case (Some p)
    then obtain nk m where sp: "sp = Some (nk, m)" by (cases p) auto
    from sh sp have nk: "nk = last_key c'" and okn: "node_ok T (min_at T h) h c'" "node_ok T (min_at T h) h m"
      by (auto simp: ins_shape_def)
    define ks cs where "ks = seps (as @ c # bs)" and "cs = as @ c' # bs"
    define ks2 cs2 where "ks2 = take (length as) ks @ nk # drop (length as) ks"
      and "cs2 = take (Suc (length as)) cs @ m # drop (Suc (length as)) cs"
    have mne: "contents m \<noteq> []" using contents_nonempty [OF T okn(2)] T by simp
    have cs2: "cs2 = as @ c' # m # bs" by (simp add: cs2_def cs_def)
    have lm: "last_key m = last_key c" if "bs \<noteq> []"
      using last [OF that] sp mne by (simp add: last_key_def)
    have ks2: "ks2 = seps cs2"
      unfolding ks2_def ks_def cs2 nk by (rule seps_split [OF _ refl, symmetric]) (rule lm)
    have len: "length cs = Suc (length ks)" "length as \<le> length ks" "length ks2 = Suc (length ks)" "length cs2 = Suc (length cs)"
      by (auto simp: ks_def cs_def ks2_def cs2)
    have ok2: "\<forall>x \<in> set cs2. node_ok T (min_at T h) h x" using ok okn by (auto simp: cs2)
    have base: "insert_descend T b n k v =
        (insert_newchild T b1 (Suc h) ks cs (length as) nk m \<bind> (\<lambda>(b2, n', split). Some (b2, n', split, it, ins)))"
      using call sp slot by (simp add: n_def ks_def cs_def)
    have ll: "leaf_lists cs2 = leaf_lists as @ (leaf_list c' @ opt_node leaf_list sp) @ leaf_lists bs"
      by (simp add: cs2 sp)
    show ?thesis
    proof (cases "length ks < innerslotmax T")
      case True
      let ?n' = "Inner (Suc h) ks2 cs2"
      have "insert_descend T b n k v = Some (b1, ?n', None, it, ins)"
        using insert_newchild_room [OF True len(1,2), of b1 "Suc h" nk m]
        by (simp add: base ks2_def [symmetric] cs2_def [symmetric])
      moreover have "ins_leaves b n k v b1 ?n' None it ins" unfolding n_def
        by (rule ins_leaves_lift [OF lv as, where e = 0]) (use bs cne ll in \<open>auto simp: cs2 sp\<close>)
      moreover have "ins_shape T lo (Suc h) ?n' None"
        using True lo ok2 len by (auto simp: ins_shape_def ks2 ks_def cs2)
      ultimately show ?thesis by blast
    next
      case False
      then have full: "length ks = innerslotmax T" using lo len(1) by (simp add: cs_def)
      from insert_newchild_full [OF T full len(1,2), of b1 "Suc h" nk m]
      obtain p where p: "mininnerslots T \<le> p" "p + mininnerslots T \<le> length ks" and
        r: "insert_newchild T b1 (Suc h) ks cs (length as) nk m =
          Some (allocate_inner b1, Inner (Suc h) (take p ks2) (take (Suc p) cs2),
                Some (ks2 ! p, Inner (Suc h) (drop (Suc p) ks2) (drop (Suc p) cs2)))"
        by (auto simp: ks2_def cs2_def)
      let ?l = "Inner (Suc h) (take p ks2) (take (Suc p) cs2)"
      let ?r = "Inner (Suc h) (drop (Suc p) ks2) (drop (Suc p) cs2)"
      have pl: "p < length cs2" "Suc p < length cs2" using p len T by (auto simp: mininnerslots_def traits_ok_def full)
      have "leaf_lists (take (Suc p) cs2) @ leaf_lists (drop (Suc p) cs2) = leaf_lists cs2"
        by (simp flip: concat_append map_append)
      then have lv': "ins_leaves b n k v (allocate_inner b1) ?l (Some (ks2 ! p, ?r)) it ins" unfolding n_def
        using arg_cong [OF append_take_drop_id [of "Suc p" cs2], of "\<lambda>xs. sum_list (map count_inner xs)"]
        by (intro ins_leaves_lift [OF lv as, where e = 1])
           (use bs cne ll in \<open>auto simp: cs2 sp add_inner_def allocate_inner_def simp del: append_take_drop_id\<close>)
      have lk: "last_key ?l = ks2 ! p"
      proof -
        have "last (take (Suc p) cs2) = cs2 ! p" using pl by (simp add: last_take)
        moreover have "contents (cs2 ! p) \<noteq> []" using children_nonempty [OF T ok2] pl by simp
        ultimately have "last_key ?l = last_key (cs2 ! p)" using pl by (subst last_key_Inner) auto
        also have "\<dots> = ks2 ! p" using pl by (simp add: ks2 nth_butlast)
        finally show ?thesis .
      qed
      have seps: "take p ks2 = seps (take (Suc p) cs2)" "drop (Suc p) ks2 = seps (drop (Suc p) cs2)"
        using pl by (simp_all only: ks2 seps_take seps_drop)
      have sz: "mininnerslots T < length (take (Suc p) cs2)" "length (take (Suc p) cs2) \<le> Suc (innerslotmax T)"
        "mininnerslots T < length (drop (Suc p) cs2)" "length (drop (Suc p) cs2) \<le> Suc (innerslotmax T)"
        using p pl len full by simp_all
      have "node_ok T (min_at T (Suc h)) (Suc h) ?l" "node_ok T (min_at T (Suc h)) (Suc h) ?r"
        unfolding node_ok.simps seps using sz ok2
        by (auto simp: min_at_def dest: in_set_takeD in_set_dropD simp del: length_take length_drop)
      then have sh': "ins_shape T lo (Suc h) ?l (Some (ks2 ! p, ?r))"
        unfolding ins_shape_def using lk by (simp only: option.case prod.case simp_thms)
      have "insert_descend T b n k v = Some (allocate_inner b1, ?l, Some (ks2 ! p, ?r), it, ins)"
        by (simp add: base r)
      with lv' sh' show ?thesis by blast
    qed
  qed
qed

theorem insert_descend_correct:
  assumes T: "traits_ok T"
  shows "node_ok T lo h n \<Longrightarrow> ksorted (contents n) \<Longrightarrow> \<forall>x \<in> set (leaf_list n). fst x < next_addr b \<Longrightarrow>
    \<exists>b' n' sp it ins. insert_descend T b n k v = Some (b', n', sp, it, ins) \<and>
      ins_leaves b n k v b' n' sp it ins \<and> ins_shape T lo h n' sp"
proof (induction h arbitrary: n lo)
  case 0
  then show ?case by (rule insert_descend_leaf [OF T])
next
  case (Suc h)
  then obtain cs where n: "n = Inner (Suc h) (seps cs) cs" "lo < length cs" "length cs \<le> Suc (innerslotmax T)"
    "\<forall>c \<in> set cs. node_ok T (min_at T h) h c" by (auto simp: node_ok_Suc)
  have so: "ksorted (contents_list cs)" using Suc.prems(2) by (simp add: n)
  from inner_slot_split [OF T Suc.prems(1) [unfolded n] so refl, of k]
  obtain as c bs where cs: "cs = as @ c # bs" and s: "length as = find_lower (seps cs) k"
    and as: "\<forall>x \<in> set (contents_list as). fst x < k" and bs: "bs \<noteq> [] \<Longrightarrow> k \<le> last_key c"
    and okc: "node_ok T (min_at T h) h c" by blast
  have "ksorted (contents c)" using so unfolding cs by (rule ksorted_contents_child)
  from Suc.IH [OF okc this] Suc.prems(3) obtain b1 c' sp it ins where
    r: "insert_descend T b c k v = Some (b1, c', sp, it, ins)"
    "ins_leaves b c k v b1 c' sp it ins" "ins_shape T (min_at T h) h c' sp" by (auto simp: n cs)
  note n' = n [unfolded cs]
  from insert_descend_step [OF T n'(2,3,4) s [unfolded cs, symmetric] as bs r]
  show ?case unfolding n'(1) by blast
qed


section \<open>The tree object\<close>

text \<open>Splitting a leaf links the new leaf behind the old one.\<close>

lemma chain_upd_links:
  assumes "chain b (A @ a # B)"
  shows "chain (upd_links b a) (A @ a # next_addr b # B)"
proof -
  define na where "na = next_addr b"
  from assms have dist: "distinct (A @ a # B)" and lt: "\<forall>x \<in> set (A @ a # B). x < na"
    and d: "dll (nextleaf b) (prevleaf b) None (A @ a # B) None" by (auto simp: chain_def na_def)
  from lt have na: "na \<notin> set (A @ a # B)" by auto
  let ?nx = "nextleaf (upd_links b a)" and ?pv = "prevleaf (upd_links b a)"
  have nxa: "nextleaf b a = (case B of [] \<Rightarrow> None | x # _ \<Rightarrow> Some x)" using dll_nextD [OF d] .
  have nx: "?nx = (nextleaf b)(na := nextleaf b a, a := Some na)"
    by (simp add: upd_links_def na_def Let_def)
  have pv: "?pv x = prevleaf b x" if "x \<noteq> na" "\<forall>y. nextleaf b a = Some y \<longrightarrow> x \<noteq> y" for x
    using that by (auto simp: upd_links_def na_def Let_def split: option.splits)
  have pvna: "?pv na = Some a" by (auto simp: upd_links_def na_def Let_def split: option.splits)
  have dA: "dll ?nx ?pv None A (Some a)"
  proof -
    have "dll ?nx ?pv None A (Some a) = dll (nextleaf b) (prevleaf b) None A (Some a)"
      by (intro dll_cong) (use dist na nxa in \<open>auto simp: nx intro!: pv split: list.splits\<close>)
    with d show ?thesis by (simp add: dll_append)
  qed
  have pva: "?pv a = (if A = [] then None else Some (last A))"
    using dll_prevD [OF d] dist na nxa by (subst pv) (auto split: list.splits)
  have dB: "dll ?nx ?pv (Some na) B None"
  proof (cases B)
    case (Cons x B')
    have px: "?pv x = Some na" using Cons nxa na by (auto simp: upd_links_def na_def Let_def)
    have "dll ?nx ?pv (Some x) B' None = dll (nextleaf b) (prevleaf b) (Some x) B' None"
      by (intro dll_cong) (use dist na nxa Cons in \<open>auto simp: nx intro!: pv\<close>)
    with d px show ?thesis using dist na by (auto simp: Cons dll_append nx)
  qed simp
  have "dll ?nx ?pv None (A @ a # na # B) None"
    using dA dB pva pvna nxa na by (auto simp: dll_append nx split: list.splits)
  moreover have "m_headleaf (upd_links b a) = m_headleaf b" "next_addr (upd_links b a) = Suc na"
    "m_tailleaf (upd_links b a) = (if B = [] then Some na else m_tailleaf b)"
    using nxa by (auto simp: upd_links_def na_def Let_def split: list.splits)
  moreover have "distinct (A @ a # na # B)" "\<forall>x \<in> set (A @ a # na # B). x < Suc na"
    using dist na lt by (auto intro: less_SucI)
  moreover have "m_headleaf b = (case A @ a # na # B of [] \<Rightarrow> None | x # _ \<Rightarrow> Some x)"
    using assms by (cases A) (auto simp: chain_def)
  moreover have "(if B = [] then Some na else m_tailleaf b) = Some (last (A @ a # na # B))"
    using assms by (auto simp: chain_def)
  ultimately show ?thesis unfolding chain_def na_def [symmetric] by simp
qed

lemma ins_leaves_chain:
  assumes "ins_leaves b n k v b' n' sp it ins" "chain b (map fst (leaf_list n))"
  shows "chain b' (map fst (leaf_list n' @ opt_node leaf_list sp))"
    and "leaves (m_stats b') + length (leaf_list n) = leaves (m_stats b) + length (leaf_list n' @ opt_node leaf_list sp)"
    and "innernodes (m_stats b') + count_inner n = innernodes (m_stats b) + count_inner n' + opt_count sp"
    and "itemcount (m_stats b') = itemcount (m_stats b)"
proof -
  from assms(1) obtain A a kvs B kvs' lsp b0 d where
    l: "leaf_list n = A @ (a, kvs) # B" and li: "leaf_ins b a kvs k v b0 kvs' lsp it ins"
    and r: "leaf_list n' @ opt_node leaf_list sp = A @ (a, kvs') # opt_node (\<lambda>p. [p]) lsp @ B"
    and b': "b' = add_inner d b0" and d: "count_inner n' + opt_count sp = count_inner n + d"
    unfolding ins_leaves_def by blast
  have c: "chain b (map fst A @ a # map fst B)" using assms(2) by (simp add: l)
  have cong: "chain b' as = chain b0 as" for as by (rule chain_cong) (simp_all add: b')
  show "chain b' (map fst (leaf_list n' @ opt_node leaf_list sp))"
    using li c chain_upd_links [OF c] unfolding cong r leaf_ins_def by (auto split: option.splits)
  show "leaves (m_stats b') + length (leaf_list n) = leaves (m_stats b) + length (leaf_list n' @ opt_node leaf_list sp)"
    using li unfolding r leaf_ins_def by (auto simp: b' l upd_links_def Let_def split: option.splits)
  show "innernodes (m_stats b') + count_inner n = innernodes (m_stats b) + count_inner n' + opt_count sp"
    using li d unfolding leaf_ins_def by (auto simp: b' upd_links_def Let_def split: option.splits)
  show "itemcount (m_stats b') = itemcount (m_stats b)"
    using li unfolding leaf_ins_def by (auto simp: b' upd_links_def Let_def split: option.splits)
qed

text \<open>The inserted flag and the returned iterator.\<close>

lemma ins_leaves_flag:
  assumes "ins_leaves b n k v b' n' sp it ins" "ksorted (contents n)"
  shows "ins \<longleftrightarrow> k \<notin> set (keys_of (contents n))"
    and "\<exists>l. (fst it, l) \<in> set (leaf_list n' @ opt_node leaf_list sp) \<and> snd it < length l \<and> fst (l ! snd it) = k"
proof -
  from assms(1) obtain A a kvs B kvs' lsp b0 where
    l: "leaf_list n = A @ (a, kvs) # B" and li: "leaf_ins b a kvs k v b0 kvs' lsp it ins"
    and A: "\<forall>x \<in> set (concat (map snd A)). fst x < k" and B: "B \<noteq> [] \<longrightarrow> kvs \<noteq> [] \<and> k \<le> fst (last kvs)"
    and r: "leaf_list n' @ opt_node leaf_list sp = A @ (a, kvs') # opt_node (\<lambda>p. [p]) lsp @ B"
    unfolding ins_leaves_def by blast
  have c: "contents n = concat (map snd A) @ kvs @ concat (map snd B)" by (simp add: contents_leaf_list l)
  have "k < fst x" if x: "x \<in> set (concat (map snd B))" for x
  proof -
    from x B have "kvs \<noteq> []" "k \<le> fst (last kvs)" by auto
    moreover from this(1) assms(2) x have "fst (last kvs) < fst x"
      unfolding c by (auto simp: sorted_wrt_append)
    ultimately show ?thesis by simp
  qed
  with A have "k \<in> set (keys_of (contents n)) \<longleftrightarrow> k \<in> set (keys_of kvs)"
    unfolding c by (fastforce simp: image_iff)
  with li show "ins \<longleftrightarrow> k \<notin> set (keys_of (contents n))" by (simp add: leaf_ins_def)
  from li show "\<exists>l. (fst it, l) \<in> set (leaf_list n' @ opt_node leaf_list sp) \<and> snd it < length l \<and> fst (l ! snd it) = k"
    unfolding r leaf_ins_def by auto
qed

text \<open>The result of an insertion, as one predicate on the objects before and after.\<close>

definition insert_ok ::
  "traits \<Rightarrow> ('k::linorder, 'v) btree \<Rightarrow> 'k \<Rightarrow> 'v \<Rightarrow> ('k, 'v) btree \<Rightarrow> iter \<Rightarrow> bool \<Rightarrow> bool" where
  "insert_ok T b k v b' it ins \<longleftrightarrow>
     btree_inv T b' \<and> tree_contents b' = ins_kv k v (tree_contents b) \<and>
     ins = (k \<notin> set (keys_of (tree_contents b))) \<and>
     (\<exists>l. (fst it, l) \<in> set (tree_leaves b') \<and> snd it < length l \<and> fst (l ! snd it) = k)"

lemma insert_ok_root:
  assumes "node_ok T 1 (level R) R" "contents R = ins_kv k v (tree_contents b)"
    "chain b2 (map fst (leaf_list R))" "m_root b2 = Some R"
    "itemcount (m_stats b2) = length (tree_contents b)" "leaves (m_stats b2) = length (leaf_list R)"
    "innernodes (m_stats b2) = count_inner R"
    "ins = (k \<notin> set (keys_of (tree_contents b)))" "ksorted (tree_contents b)"
    "\<exists>l. (fst it, l) \<in> set (leaf_list R) \<and> snd it < length l \<and> fst (l ! snd it) = k"
  shows "insert_ok T b k v
    (if ins then b2\<lparr>m_stats := (m_stats b2)\<lparr>itemcount := Suc (itemcount (m_stats b2))\<rparr>\<rparr> else b2) it ins"
proof -
  have "chain (b2\<lparr>m_stats := x\<rparr>) as = chain b2 as" for x as by (rule chain_cong) simp_all
  moreover have "btree_inv T b2 \<longleftrightarrow> root_ok T b2 \<and> ksorted (contents R) \<and> chain b2 (map fst (leaf_list R)) \<and> stats_ok b2"
    using assms(4) by (simp add: btree_inv_defs)
  ultimately show ?thesis
    using assms ksorted_ins_kv [OF assms(9), of k v] length_ins_kv [OF assms(9), of k v]
    by (auto simp: insert_ok_def btree_inv_defs)
qed

lemma insert_start_empty:
  assumes T: "traits_ok T" and inv: "btree_inv T b" and root: "m_root b = None"
  shows "\<exists>b' it ins. insert_start T b k v = Some (b', it, ins) \<and> insert_ok T b k v b' it ins"
proof -
  have "8 \<le> leafslotmax T" using T by (simp add: traits_ok_def)
  with inv root show ?thesis
    by (auto simp: insert_start_def allocate_leaf_def insert_leaf_def isfull_def ins_at_def Let_def
        insert_ok_def btree_inv_defs chain_def)
qed

lemma insert_start_nonempty:
  assumes T: "traits_ok T" and inv: "btree_inv T b" and root: "m_root b = Some n"
  shows "\<exists>b' it ins. insert_start T b k v = Some (b', it, ins) \<and> insert_ok T b k v b' it ins"
proof -
  define h where "h = level n"
  from inv root have ok: "node_ok T 1 h n" and so: "ksorted (contents n)"
    and ch: "chain b (map fst (leaf_list n))"
    and st: "itemcount (m_stats b) = length (contents n)" "leaves (m_stats b) = length (leaf_list n)"
      "innernodes (m_stats b) = count_inner n"
    by (auto simp: btree_inv_defs h_def)
  from ch have "\<forall>x \<in> set (leaf_list n). fst x < next_addr b" by (auto simp: chain_def)
  from insert_descend_correct [OF T ok so this]
  obtain b1 n' sp it ins where r: "insert_descend T b n k v = Some (b1, n', sp, it, ins)"
    and lv: "ins_leaves b n k v b1 n' sp it ins" and sh: "ins_shape T 1 h n' sp" by blast
  note c = ins_leaves_contents [OF lv] and fl = ins_leaves_flag [OF lv so] and ch' = ins_leaves_chain [OF lv ch]
  have tc: "tree_contents b = contents n" using root by (simp add: tree_contents_def)
  show ?thesis
  proof (cases sp)
    case None
    let ?b2 = "b1\<lparr>m_root := Some n'\<rparr>"
    have ok': "node_ok T 1 h n'" using sh None by (simp add: ins_shape_def)
    have "chain ?b2 as = chain b1 as" for as by (rule chain_cong) simp_all
    then have "insert_ok T b k v
      (if ins then ?b2\<lparr>m_stats := (m_stats ?b2)\<lparr>itemcount := Suc (itemcount (m_stats ?b2))\<rparr>\<rparr> else ?b2) it ins"
      by (intro insert_ok_root [of T n'])
         (use ok' node_ok_level [OF ok'] None c fl ch' st so in \<open>simp_all add: tc\<close>)
    moreover have "insert_start T b k v = Some
      (if ins then ?b2\<lparr>m_stats := (m_stats ?b2)\<lparr>itemcount := Suc (itemcount (m_stats ?b2))\<rparr>\<rparr> else ?b2, it, ins)"
      using r None root by (simp add: insert_start_def Let_def)
    ultimately show ?thesis by blast
  next
    case (Some p)
    then obtain sk m where sp: "sp = Some (sk, m)" by (cases p) auto
    let ?R = "Inner (level n' + 1) [sk] [n', m]"
    let ?b2 = "(allocate_inner b1)\<lparr>m_root := Some ?R\<rparr>"
    from sh sp have ok': "node_ok T (min_at T h) h n'" "node_ok T (min_at T h) h m" "sk = last_key n'"
      by (auto simp: ins_shape_def)
    have "chain ?b2 as = chain b1 as" for as by (rule chain_cong) (simp_all add: allocate_inner_def)
    then have "insert_ok T b k v
      (if ins then ?b2\<lparr>m_stats := (m_stats ?b2)\<lparr>itemcount := Suc (itemcount (m_stats ?b2))\<rparr>\<rparr> else ?b2) it ins"
      by (intro insert_ok_root [of T ?R])
         (use T ok' node_ok_level [OF ok'(1)] sp c fl ch' st so
           in \<open>simp_all add: tc allocate_inner_def traits_ok_def\<close>)
    moreover have "insert_start T b k v = Some
      (if ins then ?b2\<lparr>m_stats := (m_stats ?b2)\<lparr>itemcount := Suc (itemcount (m_stats ?b2))\<rparr>\<rparr> else ?b2, it, ins)"
      using r sp root by (simp add: insert_start_def Let_def)
    ultimately show ?thesis by blast
  qed
qed

lemma insert_start_ok:
  assumes "traits_ok T" "btree_inv T b"
  shows "\<exists>b' it ins. insert_start T b k v = Some (b', it, ins) \<and> insert_ok T b k v b' it ins"
  using insert_start_empty [OF assms] insert_start_nonempty [OF assms] by (cases "m_root b") auto

section \<open>Main theorem\<close>

text \<open>
  C1: inserting into a well-formed tree never leaves its arrays, keeps the invariant (sizes,
  sortedness, leaf list, counters), adds the pair unless the key is present, reports whether it
  did, and returns an iterator to the slot that holds the key.
\<close>

theorem insert_correct:
  assumes "traits_ok T" "btree_inv T b"
  shows "\<exists>b' a s kvs. insert_start T b k v = Some (b', (a, s), k \<notin> set (keys_of (tree_contents b))) \<and>
    btree_inv T b' \<and> tree_contents b' = ins_kv k v (tree_contents b) \<and>
    (a, kvs) \<in> set (tree_leaves b') \<and> s < length kvs \<and> fst (kvs ! s) = k"
  using insert_start_ok [OF assms, of k v] unfolding insert_ok_def by fastforce

theorem insert_correct_witness:
  "\<exists>b' a s. insert_start sample_traits sample_btree 9 90 = Some (b', (a, s), True) \<and>
    btree_inv sample_traits b' \<and> tree_contents b' = tree_contents sample_btree @ [(9, 90)]"
  using insert_correct [OF sample, of 9 90] by (auto simp: sample_contents)

end
