(* ===== verification/Cursor.thy ===== *)
theory Cursor
  imports Prelude
begin

text \<open>
  Iterator loops. The C++ sources walk over an index with \<open>for (it = first; it != last; ++it)\<close>,
  directly or through \<open>std::equal\<close> and \<open>std::lexicographical_compare\<close>. The loops are written
  once, over the dereference and increment operations of an iterator type, with an explicit
  fuel since a walk over an ill-formed object need not end; a \<open>None\<close> is a loop that did not
  end or an invalid dereference.

  The locale \<open>cursor\<close> is the interface between the loops and an iterator type: the iterator
  at a position reads the item there, is incremented to the next position, and two positions
  are equal when their iterators are. What the loops compute is proved inside it.
\<close>

section \<open>The loops\<close>

fun walk :: "('i \<Rightarrow> 'x option) \<Rightarrow> ('i \<Rightarrow> 'i option) \<Rightarrow> 'i \<Rightarrow> nat \<Rightarrow> 'i \<Rightarrow> 'x list option" where
  "walk deref incr fin 0 it = (if it = fin then Some [] else None)"
| "walk deref incr fin (Suc n) it =
     (if it = fin then Some []
      else do { x \<leftarrow> deref it; it' \<leftarrow> incr it; xs \<leftarrow> walk deref incr fin n it'; Some (x # xs) })"

text \<open>\<open>std::equal(first1, last1, first2)\<close>.\<close>

fun std_equal ::
  "('i \<Rightarrow> 'x option) \<Rightarrow> ('i \<Rightarrow> 'i option) \<Rightarrow> ('j \<Rightarrow> 'x option) \<Rightarrow> ('j \<Rightarrow> 'j option) \<Rightarrow> 'i \<Rightarrow>
   nat \<Rightarrow> 'i \<Rightarrow> 'j \<Rightarrow> bool option" where
  "std_equal d1 i1 d2 i2 fin1 0 it1 it2 = (if it1 = fin1 then Some True else None)"
| "std_equal d1 i1 d2 i2 fin1 (Suc n) it1 it2 =
     (if it1 = fin1 then Some True
      else do { x \<leftarrow> d1 it1; y \<leftarrow> d2 it2;
                if x \<noteq> y then Some False
                else do { it1' \<leftarrow> i1 it1; it2' \<leftarrow> i2 it2; std_equal d1 i1 d2 i2 fin1 n it1' it2' } })"

text \<open>\<open>std::lexicographical_compare(first1, last1, first2, last2)\<close> with the element order \<open>lt\<close>.\<close>

fun std_lexicographical_compare ::
  "('x \<Rightarrow> 'x \<Rightarrow> bool) \<Rightarrow> ('i \<Rightarrow> 'x option) \<Rightarrow> ('i \<Rightarrow> 'i option) \<Rightarrow> ('j \<Rightarrow> 'x option) \<Rightarrow> ('j \<Rightarrow> 'j option) \<Rightarrow>
   'i \<Rightarrow> 'j \<Rightarrow> nat \<Rightarrow> 'i \<Rightarrow> 'j \<Rightarrow> bool option" where
  "std_lexicographical_compare lt d1 i1 d2 i2 fin1 fin2 0 it1 it2 =
     (if it1 = fin1 \<or> it2 = fin2 then Some (it1 = fin1 \<and> it2 \<noteq> fin2) else None)"
| "std_lexicographical_compare lt d1 i1 d2 i2 fin1 fin2 (Suc n) it1 it2 =
     (if it1 = fin1 \<or> it2 = fin2 then Some (it1 = fin1 \<and> it2 \<noteq> fin2)
      else do { x \<leftarrow> d1 it1; y \<leftarrow> d2 it2;
                if lt x y then Some True
                else if lt y x then Some False
                else do { it1' \<leftarrow> i1 it1; it2' \<leftarrow> i2 it2;
                          std_lexicographical_compare lt d1 i1 d2 i2 fin1 fin2 n it1' it2' } })"

text \<open>What the comparison decides, on lists.\<close>

fun lex_less :: "('x \<Rightarrow> 'x \<Rightarrow> bool) \<Rightarrow> 'x list \<Rightarrow> 'x list \<Rightarrow> bool" where
  "lex_less lt xs [] = False"
| "lex_less lt [] (y # ys) = True"
| "lex_less lt (x # xs) (y # ys) = (lt x y \<or> (\<not> lt y x \<and> lex_less lt xs ys))"

section \<open>The interface\<close>

locale cursor =
  fixes inv :: "'s \<Rightarrow> bool"
    and items :: "'s \<Rightarrow> 'x list"
    and at :: "'s \<Rightarrow> 'i \<Rightarrow> nat \<Rightarrow> bool"
    and beg :: "'s \<Rightarrow> 'i option"
    and fin :: "'s \<Rightarrow> 'i option"
    and deref :: "'s \<Rightarrow> 'i \<Rightarrow> 'x option"
    and incr :: "'s \<Rightarrow> 'i \<Rightarrow> 'i option"
  assumes beg_at: "inv s \<Longrightarrow> \<exists>it. beg s = Some it \<and> at s it 0"
    and fin_at: "inv s \<Longrightarrow> \<exists>it. fin s = Some it \<and> at s it (length (items s))"
    and at_le: "inv s \<Longrightarrow> at s it p \<Longrightarrow> p \<le> length (items s)"
    and at_eq: "inv s \<Longrightarrow> at s it p \<Longrightarrow> at s jt q \<Longrightarrow> it = jt \<longleftrightarrow> p = q"
    and deref_at: "inv s \<Longrightarrow> at s it p \<Longrightarrow> p < length (items s) \<Longrightarrow> deref s it = Some (items s ! p)"
    and incr_at: "inv s \<Longrightarrow> at s it p \<Longrightarrow> p < length (items s) \<Longrightarrow> \<exists>jt. incr s it = Some jt \<and> at s jt (Suc p)"
begin

text \<open>Walking from a position to the end reads the rest of the items.\<close>

lemma walk_from:
  assumes "inv s" "at s it p" "fin s = Some e" "length (items s) - p \<le> n"
  shows "walk (deref s) (incr s) e n it = Some (drop p (items s))"
  using assms(2,4)
proof (induction n arbitrary: it p)
  case 0
  then have p: "p = length (items s)" using at_le [OF assms(1)] by fastforce
  with 0 have "it = e" using at_eq [OF assms(1) 0(1)] fin_at [OF assms(1)] assms(3) by auto
  then show ?case by (simp add: p)
next
  case (Suc n)
  obtain e' where e: "at s e (length (items s))" using fin_at [OF assms(1)] assms(3) by auto
  show ?case
  proof (cases "p = length (items s)")
    case True
    then show ?thesis using at_eq [OF assms(1) Suc.prems(1) e] by simp
  next
    case False
    with at_le [OF assms(1) Suc.prems(1)] have p: "p < length (items s)" by simp
    with at_eq [OF assms(1) Suc.prems(1) e] have "it \<noteq> e" by simp
    moreover obtain jt where "incr s it = Some jt" "at s jt (Suc p)"
      using incr_at [OF assms(1) Suc.prems(1) p] by blast
    moreover have "walk (deref s) (incr s) e n jt = Some (drop (Suc p) (items s))"
      by (rule Suc.IH) (use calculation Suc.prems(2) in auto)
    ultimately show ?thesis using deref_at [OF assms(1) Suc.prems(1) p] p
      by (simp add: Cons_nth_drop_Suc)
  qed
qed

lemma walk_all:
  assumes "inv s" "length (items s) \<le> n"
  shows "do { b \<leftarrow> beg s; e \<leftarrow> fin s; walk (deref s) (incr s) e n b } = Some (items s)"
  using beg_at [OF assms(1)] fin_at [OF assms(1)] walk_from [OF assms(1)] assms(2) by fastforce

end

text \<open>Two cursors side by side, as in the comparison of two objects.\<close>

locale two_cursors = c1: cursor inv1 items1 at1 beg1 fin1 deref1 incr1 +
    c2: cursor inv2 items2 at2 beg2 fin2 deref2 incr2
  for inv1 :: "'s \<Rightarrow> bool" and items1 :: "'s \<Rightarrow> 'x list" and at1 :: "'s \<Rightarrow> 'i \<Rightarrow> nat \<Rightarrow> bool"
    and beg1 fin1 :: "'s \<Rightarrow> 'i option" and deref1 :: "'s \<Rightarrow> 'i \<Rightarrow> 'x option" and incr1 :: "'s \<Rightarrow> 'i \<Rightarrow> 'i option"
    and inv2 :: "'t \<Rightarrow> bool" and items2 :: "'t \<Rightarrow> 'x list" and at2 :: "'t \<Rightarrow> 'j \<Rightarrow> nat \<Rightarrow> bool"
    and beg2 fin2 :: "'t \<Rightarrow> 'j option" and deref2 :: "'t \<Rightarrow> 'j \<Rightarrow> 'x option" and incr2 :: "'t \<Rightarrow> 'j \<Rightarrow> 'j option"
begin

lemma equal_from:
  assumes "inv1 s" "inv2 t" "at1 s it p" "at2 t jt q" "fin1 s = Some e"
    "length (items1 s) - p \<le> n" "length (items1 s) - p \<le> length (items2 t) - q"
  shows "std_equal (deref1 s) (incr1 s) (deref2 t) (incr2 t) e n it jt =
    Some (drop p (items1 s) = take (length (items1 s) - p) (drop q (items2 t)))"
  using assms(3,4,6,7)
proof (induction n arbitrary: it jt p q)
  case 0
  then have p: "p = length (items1 s)" using c1.at_le [OF assms(1)] by fastforce
  with 0 have "it = e" using c1.at_eq [OF assms(1) 0(1)] c1.fin_at [OF assms(1)] assms(5) by auto
  then show ?case by (simp add: p)
next
  case (Suc n)
  have e: "at1 s e (length (items1 s))" using c1.fin_at [OF assms(1)] assms(5) by auto
  show ?case
  proof (cases "p = length (items1 s)")
    case True
    then show ?thesis using c1.at_eq [OF assms(1) Suc.prems(1) e] by simp
  next
    case False
    with c1.at_le [OF assms(1) Suc.prems(1)] Suc.prems(4)
    have p: "p < length (items1 s)" and q: "q < length (items2 t)" by simp_all
    with c1.at_eq [OF assms(1) Suc.prems(1) e] have "it \<noteq> e" by simp
    moreover obtain it' where "incr1 s it = Some it'" "at1 s it' (Suc p)"
      using c1.incr_at [OF assms(1) Suc.prems(1) p] by blast
    moreover obtain jt' where "incr2 t jt = Some jt'" "at2 t jt' (Suc q)"
      using c2.incr_at [OF assms(2) Suc.prems(2) q] by blast
    moreover have "std_equal (deref1 s) (incr1 s) (deref2 t) (incr2 t) e n it' jt' =
      Some (drop (Suc p) (items1 s) = take (length (items1 s) - Suc p) (drop (Suc q) (items2 t)))"
      by (rule Suc.IH) (use calculation Suc.prems(3,4) in auto)
    moreover have "drop p (items1 s) = items1 s ! p # drop (Suc p) (items1 s)"
      "take (length (items1 s) - p) (drop q (items2 t)) =
        items2 t ! q # take (length (items1 s) - Suc p) (drop (Suc q) (items2 t))"
      using p q by (simp_all add: Cons_nth_drop_Suc [symmetric] Suc_diff_Suc [symmetric] del: Suc_diff_Suc)
    ultimately show ?thesis
      using c1.deref_at [OF assms(1) Suc.prems(1) p] c2.deref_at [OF assms(2) Suc.prems(2) q] by auto
  qed
qed

lemma lex_from:
  assumes "inv1 s" "inv2 t" "at1 s it p" "at2 t jt q" "fin1 s = Some e" "fin2 t = Some e'"
    "length (items1 s) - p \<le> n"
  shows "std_lexicographical_compare lt (deref1 s) (incr1 s) (deref2 t) (incr2 t) e e' n it jt =
    Some (lex_less lt (drop p (items1 s)) (drop q (items2 t)))"
  using assms(3,4,7)
proof (induction n arbitrary: it jt p q)
  case 0
  have e: "at1 s e (length (items1 s))" "at2 t e' (length (items2 t))"
    using c1.fin_at [OF assms(1)] c2.fin_at [OF assms(2)] assms(5,6) by auto
  from 0 have p: "p = length (items1 s)" using c1.at_le [OF assms(1)] by fastforce
  with 0 have "it = e" using c1.at_eq [OF assms(1) 0(1) e(1)] by simp
  moreover have "jt = e' \<longleftrightarrow> drop q (items2 t) = []"
    using c2.at_eq [OF assms(2) 0(2) e(2)] c2.at_le [OF assms(2) 0(2)] by auto
  ultimately show ?case using p by (cases "drop q (items2 t)") auto
next
  case (Suc n)
  have e: "at1 s e (length (items1 s))" "at2 t e' (length (items2 t))"
    using c1.fin_at [OF assms(1)] c2.fin_at [OF assms(2)] assms(5,6) by auto
  note le = c1.at_le [OF assms(1) Suc.prems(1)] c2.at_le [OF assms(2) Suc.prems(2)]
  note eq = c1.at_eq [OF assms(1) Suc.prems(1) e(1)] c2.at_eq [OF assms(2) Suc.prems(2) e(2)]
  show ?case
  proof (cases "p = length (items1 s) \<or> q = length (items2 t)")
    case True
    then show ?thesis using eq le by (cases "drop q (items2 t)") auto
  next
    case False
    with le have p: "p < length (items1 s)" and q: "q < length (items2 t)" by simp_all
    obtain it' where "incr1 s it = Some it'" "at1 s it' (Suc p)"
      using c1.incr_at [OF assms(1) Suc.prems(1) p] by blast
    moreover obtain jt' where "incr2 t jt = Some jt'" "at2 t jt' (Suc q)"
      using c2.incr_at [OF assms(2) Suc.prems(2) q] by blast
    moreover have "std_lexicographical_compare lt (deref1 s) (incr1 s) (deref2 t) (incr2 t) e e' n it' jt' =
      Some (lex_less lt (drop (Suc p) (items1 s)) (drop (Suc q) (items2 t)))"
      by (rule Suc.IH) (use calculation Suc.prems(3) in auto)
    ultimately show ?thesis using eq p q
      c1.deref_at [OF assms(1) Suc.prems(1) p] c2.deref_at [OF assms(2) Suc.prems(2) q]
      by (auto simp: Cons_nth_drop_Suc [symmetric])
  qed
qed

end

end
