(* ===== verification/BTreeIter.thy ===== *)
theory BTreeIter
  imports BTreeInv Cursor
begin

text \<open>
  Iterators of the STX B+ tree and the read-only queries.

  An iterator is a pointer to a leaf (null for an empty tree) and a slot; dereferencing the
  pointer looks the leaf up in the tree. \<open>iterator\<close> and \<open>const_iterator\<close> have the same code, as
  have \<open>reverse_iterator\<close> and \<open>const_reverse_iterator\<close>; each pair is modelled once. The
  position of an iterator in the sorted contents is its abstract value (\<open>it_at\<close>), and both
  directions are interpretations of the locale \<open>cursor\<close>.
\<close>

section \<open>Definitions\<close>

type_synonym iterator = "addr option \<times> nat"

definition leaf_at :: "('k, 'v) btree \<Rightarrow> addr \<Rightarrow> ('k \<times> 'v) list option" where
  "leaf_at b a = map_of (tree_leaves b) a"

subsection \<open>Forward iterators\<close>

definition it_key :: "('k, 'v) btree \<Rightarrow> iterator \<Rightarrow> 'k option" where
  "it_key b it = do { a \<leftarrow> fst it; kvs \<leftarrow> leaf_at b a; rd (keys_of kvs) (snd it) }"

definition it_data :: "('k, 'v) btree \<Rightarrow> iterator \<Rightarrow> 'v option" where
  "it_data b it = do { a \<leftarrow> fst it; kvs \<leftarrow> leaf_at b a; rd (map snd kvs) (snd it) }"

definition it_deref :: "('k, 'v) btree \<Rightarrow> iterator \<Rightarrow> ('k \<times> 'v) option" where
  "it_deref b it = do { k \<leftarrow> it_key b it; d \<leftarrow> it_data b it; Some (k, d) }"

definition it_incr :: "('k, 'v) btree \<Rightarrow> iterator \<Rightarrow> iterator option" where
  "it_incr b it =
     do { a \<leftarrow> fst it; kvs \<leftarrow> leaf_at b a;
          if snd it + 1 < length kvs then Some (Some a, snd it + 1)
          else case nextleaf b a of
                 Some x \<Rightarrow> Some (Some x, 0)
               | None \<Rightarrow> Some (Some a, length kvs) }"

definition it_incr_post :: "('k, 'v) btree \<Rightarrow> iterator \<Rightarrow> (iterator \<times> iterator) option" where
  "it_incr_post b it = do { it' \<leftarrow> it_incr b it; Some (it, it') }"

definition it_decr :: "('k, 'v) btree \<Rightarrow> iterator \<Rightarrow> iterator option" where
  "it_decr b it =
     do { a \<leftarrow> fst it;
          if snd it > 0 then Some (Some a, snd it - 1)
          else case prevleaf b a of
                 Some x \<Rightarrow> do { kvs \<leftarrow> leaf_at b x; if kvs = [] then None else Some (Some x, length kvs - 1) }
               | None \<Rightarrow> Some (Some a, 0) }"

definition it_decr_post :: "('k, 'v) btree \<Rightarrow> iterator \<Rightarrow> (iterator \<times> iterator) option" where
  "it_decr_post b it = do { it' \<leftarrow> it_decr b it; Some (it, it') }"

definition it_eq :: "iterator \<Rightarrow> iterator \<Rightarrow> bool" where
  "it_eq it x \<longleftrightarrow> fst x = fst it \<and> snd x = snd it"

definition it_neq :: "iterator \<Rightarrow> iterator \<Rightarrow> bool" where
  "it_neq it x \<longleftrightarrow> fst x \<noteq> fst it \<or> snd x \<noteq> snd it"

subsection \<open>Reverse iterators\<close>

definition rit_key :: "('k, 'v) btree \<Rightarrow> iterator \<Rightarrow> 'k option" where
  "rit_key b it =
     do { a \<leftarrow> fst it; kvs \<leftarrow> leaf_at b a; if snd it = 0 then None else rd (keys_of kvs) (snd it - 1) }"

definition rit_data :: "('k, 'v) btree \<Rightarrow> iterator \<Rightarrow> 'v option" where
  "rit_data b it =
     do { a \<leftarrow> fst it; kvs \<leftarrow> leaf_at b a; if snd it = 0 then None else rd (map snd kvs) (snd it - 1) }"

definition rit_deref :: "('k, 'v) btree \<Rightarrow> iterator \<Rightarrow> ('k \<times> 'v) option" where
  "rit_deref b it = do { k \<leftarrow> rit_key b it; d \<leftarrow> rit_data b it; Some (k, d) }"

definition rit_incr :: "('k, 'v) btree \<Rightarrow> iterator \<Rightarrow> iterator option" where
  "rit_incr b it =
     do { a \<leftarrow> fst it;
          if snd it > 1 then Some (Some a, snd it - 1)
          else case prevleaf b a of
                 Some x \<Rightarrow> do { kvs \<leftarrow> leaf_at b x; Some (Some x, length kvs) }
               | None \<Rightarrow> Some (Some a, 0) }"

definition rit_decr :: "('k, 'v) btree \<Rightarrow> iterator \<Rightarrow> iterator option" where
  "rit_decr b it =
     do { a \<leftarrow> fst it; kvs \<leftarrow> leaf_at b a;
          if snd it < length kvs then Some (Some a, snd it + 1)
          else case nextleaf b a of
                 Some x \<Rightarrow> Some (Some x, 1)
               | None \<Rightarrow> Some (Some a, length kvs) }"

subsection \<open>Begin and end\<close>

definition begin_it :: "('k, 'v) btree \<Rightarrow> iterator option" where
  "begin_it b = Some (m_headleaf b, 0)"

definition end_it :: "('k, 'v) btree \<Rightarrow> iterator option" where
  "end_it b =
     (case m_tailleaf b of None \<Rightarrow> Some (None, 0)
      | Some a \<Rightarrow> do { kvs \<leftarrow> leaf_at b a; Some (Some a, length kvs) })"

definition rbegin_it :: "('k, 'v) btree \<Rightarrow> iterator option" where
  "rbegin_it b = end_it b"

definition rend_it :: "('k, 'v) btree \<Rightarrow> iterator option" where
  "rend_it b = begin_it b"

definition size_of :: "('k, 'v) btree \<Rightarrow> nat" where
  "size_of b = itemcount (m_stats b)"

definition is_empty :: "('k, 'v) btree \<Rightarrow> bool" where
  "is_empty b \<longleftrightarrow> size_of b = 0"

subsection \<open>Queries\<close>

text \<open>The descent of the queries; \<open>f\<close> is \<open>find_lower\<close> or \<open>find_upper\<close>.\<close>

fun descend :: "('k list \<Rightarrow> 'k \<Rightarrow> nat) \<Rightarrow> ('k, 'v) node \<Rightarrow> 'k \<Rightarrow> (addr \<times> ('k \<times> 'v) list) option" where
  "descend f (Leaf a kvs) key = Some (a, kvs)"
| "descend f (Inner l ks cs) key = do { c \<leftarrow> rd cs (f ks key); descend f c key }"

definition exists_key :: "('k::linorder, 'v) btree \<Rightarrow> 'k \<Rightarrow> bool option" where
  "exists_key b key =
     (case m_root b of None \<Rightarrow> Some False
      | Some n \<Rightarrow> do { (a, kvs) \<leftarrow> descend find_lower n key;
                       let slot = find_lower (keys_of kvs) key;
                       Some (slot < length kvs \<and> key_equal key (keys_of kvs ! slot)) })"

definition find_it :: "('k::linorder, 'v) btree \<Rightarrow> 'k \<Rightarrow> iterator option" where
  "find_it b key =
     (case m_root b of None \<Rightarrow> end_it b
      | Some n \<Rightarrow> do { (a, kvs) \<leftarrow> descend find_lower n key;
                       let slot = find_lower (keys_of kvs) key;
                       if slot < length kvs \<and> key_equal key (keys_of kvs ! slot)
                       then Some (Some a, slot) else end_it b })"

text \<open>
  \<open>count\<close> with its loop over equal keys; the fuel is the number of pairs, since every round
  passes one.
\<close>

fun count_from :: "('k::linorder, 'v) btree \<Rightarrow> 'k \<Rightarrow> nat \<Rightarrow> addr option \<Rightarrow> nat \<Rightarrow> nat \<Rightarrow> nat option" where
  "count_from b key fuel None slot num = Some num"
| "count_from b key fuel (Some a) slot num =
     do { kvs \<leftarrow> leaf_at b a;
          if slot < length kvs \<and> key_equal key (keys_of kvs ! slot) then
            (case fuel of 0 \<Rightarrow> None
             | Suc fuel' \<Rightarrow>
                 if slot + 1 \<ge> length kvs then count_from b key fuel' (nextleaf b a) 0 (num + 1)
                 else count_from b key fuel' (Some a) (slot + 1) (num + 1))
          else Some num }"

definition count_key :: "('k::linorder, 'v) btree \<Rightarrow> 'k \<Rightarrow> nat option" where
  "count_key b key =
     (case m_root b of None \<Rightarrow> Some 0
      | Some n \<Rightarrow> do { (a, kvs) \<leftarrow> descend find_lower n key;
                       count_from b key (length (tree_contents b)) (Some a) (find_lower (keys_of kvs) key) 0 })"

definition lower_bound :: "('k::linorder, 'v) btree \<Rightarrow> 'k \<Rightarrow> iterator option" where
  "lower_bound b key =
     (case m_root b of None \<Rightarrow> end_it b
      | Some n \<Rightarrow> do { (a, kvs) \<leftarrow> descend find_lower n key; Some (Some a, find_lower (keys_of kvs) key) })"

definition upper_bound :: "('k::linorder, 'v) btree \<Rightarrow> 'k \<Rightarrow> iterator option" where
  "upper_bound b key =
     (case m_root b of None \<Rightarrow> end_it b
      | Some n \<Rightarrow> do { (a, kvs) \<leftarrow> descend find_upper n key; Some (Some a, find_upper (keys_of kvs) key) })"

definition equal_range :: "('k::linorder, 'v) btree \<Rightarrow> 'k \<Rightarrow> (iterator \<times> iterator) option" where
  "equal_range b key = do { l \<leftarrow> lower_bound b key; u \<leftarrow> upper_bound b key; Some (l, u) }"

subsection \<open>Comparison of two trees\<close>

definition pair_less :: "('k::linorder \<times> 'v::linorder) \<Rightarrow> 'k \<times> 'v \<Rightarrow> bool" where
  "pair_less x y \<longleftrightarrow> fst x < fst y \<or> (\<not> fst y < fst x \<and> snd x < snd y)"

definition btree_eq :: "('k, 'v) btree \<Rightarrow> ('k, 'v) btree \<Rightarrow> bool option" where
  "btree_eq b c =
     (if size_of b = size_of c then
        do { x \<leftarrow> begin_it b; e \<leftarrow> end_it b; y \<leftarrow> begin_it c;
             std_equal (it_deref b) (it_incr b) (it_deref c) (it_incr c) e (size_of b) x y }
      else Some False)"

definition btree_less :: "('k::linorder, 'v::linorder) btree \<Rightarrow> ('k, 'v) btree \<Rightarrow> bool option" where
  "btree_less b c =
     do { x \<leftarrow> begin_it b; e \<leftarrow> end_it b; y \<leftarrow> begin_it c; e' \<leftarrow> end_it c;
          std_lexicographical_compare pair_less (it_deref b) (it_incr b) (it_deref c) (it_incr c) e e'
            (size_of b) x y }"

section \<open>Positions\<close>

text \<open>The iterator \<open>it\<close> points to position \<open>p\<close> of the sorted contents; the end is the last position.\<close>

definition it_at :: "('k, 'v) btree \<Rightarrow> iterator \<Rightarrow> nat \<Rightarrow> bool" where
  "it_at b it p \<longleftrightarrow>
     (if tree_leaves b = [] then it = (None, 0) \<and> p = 0
      else \<exists>A a kvs B s. tree_leaves b = A @ (a, kvs) # B \<and> it = (Some a, s) \<and>
        p = length (concat (map snd A)) + s \<and> (s < length kvs \<or> B = [] \<and> s = length kvs))"

text \<open>What the invariant provides here.\<close>

definition leaves_ok :: "('k, 'v) btree \<Rightarrow> bool" where
  "leaves_ok b \<longleftrightarrow> chain b (map fst (tree_leaves b)) \<and> (\<forall>p \<in> set (tree_leaves b). snd p \<noteq> [])"

lemma btree_inv_leaves_ok:
  assumes "traits_ok T" "btree_inv T b" shows "leaves_ok b"
proof -
  have "kvs \<noteq> []" if "m_root b = Some n" "(a, kvs) \<in> set (leaf_list n)" for n a kvs
    using that assms leaf_list_ok [OF assms(1), of 1 "level n" n] by (simp add: btree_inv_defs)
  with assms(2) show ?thesis
    by (fastforce simp: leaves_ok_def btree_inv_def tree_leaves_def split: option.splits)
qed

lemma leaf_at_mid:
  assumes "leaves_ok b" "tree_leaves b = A @ (a, kvs) # B" shows "leaf_at b a = Some kvs"
  using assms unfolding leaf_at_def leaves_ok_def chain_def by (metis in_set_conv_decomp map_of_is_SomeI)

lemma links_mid:
  assumes "leaves_ok b" "tree_leaves b = A @ (a, kvs) # B"
  shows "nextleaf b a = (case B of [] \<Rightarrow> None | x # _ \<Rightarrow> Some (fst x))"
    and "prevleaf b a = (if A = [] then None else Some (fst (last A)))"
proof -
  have d: "dll (nextleaf b) (prevleaf b) None (map fst A @ a # map fst B) None"
    using assms by (simp add: leaves_ok_def chain_def)
  show "nextleaf b a = (case B of [] \<Rightarrow> None | x # _ \<Rightarrow> Some (fst x))"
    using dll_nextD [OF d] by (cases B) auto
  show "prevleaf b a = (if A = [] then None else Some (fst (last A)))"
    using dll_prevD [OF d] by (auto simp: last_map)
qed

lemma it_at_Some:
  "tree_leaves b = A @ (a, kvs) # B \<Longrightarrow> s < length kvs \<or> B = [] \<and> s = length kvs \<Longrightarrow>
   it_at b (Some a, s) (length (concat (map snd A)) + s)"
  unfolding it_at_def by auto

lemma it_atE:
  assumes "it_at b it p" "tree_leaves b \<noteq> []"
  obtains A a kvs B s where "tree_leaves b = A @ (a, kvs) # B" "it = (Some a, s)"
    "p = length (concat (map snd A)) + s" "s < length kvs \<or> B = [] \<and> s = length kvs"
  using assms unfolding it_at_def by auto

lemma it_at_le: "it_at b it p \<Longrightarrow> p \<le> length (tree_contents b)"
  unfolding it_at_def tree_contents_leaves by (auto split: if_splits)

lemma begin_it_at:
  assumes "leaves_ok b" shows "\<exists>it. begin_it b = Some it \<and> it_at b it 0"
proof (cases "tree_leaves b")
  case Nil
  then show ?thesis using assms by (simp add: begin_it_def it_at_def leaves_ok_def chain_def)
next
  case (Cons x xs)
  then have "it_at b (Some (fst x), 0) 0"
    using assms it_at_Some [of b "[]" "fst x" "snd x" xs 0] by (simp add: leaves_ok_def)
  then show ?thesis using assms Cons by (simp add: begin_it_def leaves_ok_def chain_def)
qed

lemma end_it_at:
  assumes "leaves_ok b" shows "\<exists>it. end_it b = Some it \<and> it_at b it (length (tree_contents b))"
proof (cases "tree_leaves b" rule: rev_cases)
  case Nil
  then show ?thesis using assms by (simp add: end_it_def it_at_def leaves_ok_def chain_def tree_contents_leaves)
next
  case (snoc A x)
  obtain a kvs where x: "x = (a, kvs)" by (cases x)
  have "it_at b (Some a, length kvs) (length (concat (map snd A)) + length kvs)"
    using snoc by (intro it_at_Some [of b A a kvs "[]"]) (auto simp: x)
  moreover have "m_tailleaf b = Some a" using assms snoc by (simp add: x leaves_ok_def chain_def)
  ultimately show ?thesis using leaf_at_mid [OF assms, of A a kvs "[]"] snoc
    by (simp add: end_it_def x tree_contents_leaves)
qed

lemma it_at_eq:
  assumes ok: "leaves_ok b" and "it_at b it p" "it_at b jt q"
  shows "it = jt \<longleftrightarrow> p = q"
proof (cases "tree_leaves b = []")
  case True
  with assms(2,3) show ?thesis by (simp add: it_at_def)
next
  case False
  from it_atE [OF assms(2) False] obtain A a kvs B s where
    1: "tree_leaves b = A @ (a, kvs) # B" "it = (Some a, s)" "p = length (concat (map snd A)) + s"
       "s < length kvs \<or> B = [] \<and> s = length kvs" .
  from it_atE [OF assms(3) False] obtain A' a' kvs' B' s' where
    2: "tree_leaves b = A' @ (a', kvs') # B'" "jt = (Some a', s')" "q = length (concat (map snd A')) + s'"
       "s' < length kvs' \<or> B' = [] \<and> s' = length kvs'" .
  have eq: "A @ (a, kvs) # B = A' @ (a', kvs') # B'" using 1(1) 2(1) by simp
  have dist: "distinct (map fst (A @ (a, kvs) # B))" using ok 1(1) by (simp add: leaves_ok_def chain_def)
  from eq consider "A = A'" "a = a'" "kvs = kvs'" | C where "A' = A @ (a, kvs) # C" | C where "A = A' @ (a', kvs') # C"
    by (auto simp: append_eq_append_conv2 Cons_eq_append_conv append_eq_Cons_conv)
  then show ?thesis
  proof cases
    case 1
    then show ?thesis using \<open>p = _\<close> \<open>it = _\<close> 2(2,3) by auto
  next
    case C: 2
    then have "a \<noteq> a'" "B \<noteq> []" using dist eq by auto
    then have "p < q" using 1 2(3) by (simp add: C)
    with \<open>a \<noteq> a'\<close> 1(2) 2(2) show ?thesis by simp
  next
    case C: 3
    then have "a \<noteq> a'" "B' \<noteq> []" using dist eq by auto
    then have "q < p" using 2 1(3) by (simp add: C)
    with \<open>a \<noteq> a'\<close> 1(2) 2(2) show ?thesis by simp
  qed
qed

lemma nth_concat_mid:
  "s < length kvs \<Longrightarrow> (concat (map snd A) @ kvs @ ys) ! (length (concat (map snd A)) + s) = kvs ! s"
  by (simp add: nth_append)

lemma it_at_inside:
  assumes "leaves_ok b" "it_at b it p" "p < length (tree_contents b)"
  obtains A a kvs B s where "tree_leaves b = A @ (a, kvs) # B" "it = (Some a, s)" "s < length kvs"
    "p = length (concat (map snd A)) + s" "tree_contents b ! p = kvs ! s" "leaf_at b a = Some kvs"
proof -
  from assms(3) have "tree_leaves b \<noteq> []" by (auto simp: tree_contents_leaves)
  from it_atE [OF assms(2) this] obtain A a kvs B s where
    1: "tree_leaves b = A @ (a, kvs) # B" "it = (Some a, s)" "p = length (concat (map snd A)) + s"
       "s < length kvs \<or> B = [] \<and> s = length kvs" .
  with assms(3) have "s < length kvs" by (auto simp: tree_contents_leaves)
  moreover have "tree_contents b ! p = kvs ! s" using 1 calculation nth_concat_mid by (simp add: tree_contents_leaves)
  ultimately show thesis using that 1 leaf_at_mid [OF assms(1) 1(1)] by blast
qed

lemma it_at_deref:
  assumes "leaves_ok b" "it_at b it p" "p < length (tree_contents b)"
  shows "it_deref b it = Some (tree_contents b ! p)"
  by (rule it_at_inside [OF assms]) (simp add: it_deref_def it_key_def it_data_def rd_def)

lemma it_at_incr:
  assumes "leaves_ok b" "it_at b it p" "p < length (tree_contents b)"
  shows "\<exists>jt. it_incr b it = Some jt \<and> it_at b jt (Suc p)"
proof (rule it_at_inside [OF assms])
  fix A a kvs B s
  assume 1: "tree_leaves b = A @ (a, kvs) # B" "it = (Some a, s)" "s < length kvs"
    "p = length (concat (map snd A)) + s" "leaf_at b a = Some kvs"
  show ?thesis
  proof (cases "Suc s < length kvs")
    case True
    then show ?thesis using 1 it_at_Some [OF 1(1), of "Suc s"] by (simp add: it_incr_def)
  next
    case False
    with 1(3) have len: "length kvs = Suc s" by simp
    show ?thesis
    proof (cases B)
      case Nil
      then show ?thesis using 1 len it_at_Some [OF 1(1), of "Suc s"] links_mid(1) [OF assms(1) 1(1)]
        by (simp add: it_incr_def)
    next
      case (Cons x B')
      then have l: "tree_leaves b = (A @ [(a, kvs)]) @ (fst x, snd x) # B'" using 1(1) by simp
      have "snd x \<noteq> []" using assms(1) 1(1) Cons by (simp add: leaves_ok_def)
      then show ?thesis using 1 len Cons it_at_Some [OF l, of 0] links_mid(1) [OF assms(1) 1(1)]
        by (simp add: it_incr_def)
    qed
  qed
qed

lemma it_at_decr:
  assumes "leaves_ok b" "it_at b it (Suc p)"
  shows "\<exists>jt. it_decr b it = Some jt \<and> it_at b jt p"
proof -
  have "tree_leaves b \<noteq> []" using assms(2) by (auto simp: it_at_def split: if_splits)
  from it_atE [OF assms(2) this] obtain A a kvs B s where
    1: "tree_leaves b = A @ (a, kvs) # B" "it = (Some a, s)" "Suc p = length (concat (map snd A)) + s"
       "s < length kvs \<or> B = [] \<and> s = length kvs" .
  show ?thesis
  proof (cases s)
    case (Suc s')
    then show ?thesis using 1 it_at_Some [OF 1(1), of s'] by (auto simp: it_decr_def)
  next
    case 0
    with 1(3) obtain A' y where A: "A = A' @ [y]" by (cases A rule: rev_cases) auto
    then have l: "tree_leaves b = A' @ (fst y, snd y) # (a, kvs) # B" using 1(1) by simp
    have y: "snd y \<noteq> []" using assms(1) 1(1) A by (simp add: leaves_ok_def)
    moreover have "p = length (concat (map snd A')) + (length (snd y) - 1)"
      using 1(3) 0 y by (cases "snd y") (auto simp: A)
    ultimately show ?thesis
      using 1 0 A it_at_Some [OF l, of "length (snd y) - 1"] links_mid(2) [OF assms(1) 1(1)] leaf_at_mid [OF assms(1) l]
      by (simp add: it_decr_def)
  qed
qed

text \<open>The forward iterators are a cursor over the sorted contents.\<close>

interpretation fwd: cursor leaves_ok tree_contents it_at begin_it end_it it_deref it_incr
  by unfold_locales
     (use begin_it_at end_it_at it_at_le it_at_deref it_at_incr it_at_eq in blast)+

interpretation two: two_cursors
  leaves_ok tree_contents it_at begin_it end_it it_deref it_incr
  leaves_ok tree_contents it_at begin_it end_it it_deref it_incr
  by unfold_locales

section \<open>Reverse iterators\<close>

definition rit_at :: "('k, 'v) btree \<Rightarrow> iterator \<Rightarrow> nat \<Rightarrow> bool" where
  "rit_at b it r \<longleftrightarrow>
     (if tree_leaves b = [] then it = (None, 0) \<and> r = 0
      else \<exists>A a kvs B s. tree_leaves b = A @ (a, kvs) # B \<and> it = (Some a, s) \<and> s \<le> length kvs \<and>
        r + s = length kvs + length (concat (map snd B)) \<and> (0 < s \<or> A = []))"

lemma rit_at_Some:
  "tree_leaves b = A @ (a, kvs) # B \<Longrightarrow> s \<le> length kvs \<Longrightarrow> 0 < s \<or> A = [] \<Longrightarrow>
   r + s = length kvs + length (concat (map snd B)) \<Longrightarrow> rit_at b (Some a, s) r"
  unfolding rit_at_def by auto

lemma rit_atE:
  assumes "rit_at b it r" "tree_leaves b \<noteq> []"
  obtains A a kvs B s where "tree_leaves b = A @ (a, kvs) # B" "it = (Some a, s)" "s \<le> length kvs"
    "r + s = length kvs + length (concat (map snd B))" "0 < s \<or> A = []"
  using assms unfolding rit_at_def by (simp only: if_False) blast

lemma rit_at_le: "rit_at b it r \<Longrightarrow> r \<le> length (rev (tree_contents b))"
  unfolding rit_at_def tree_contents_leaves by (auto split: if_splits)

lemma rbegin_it_at:
  assumes "leaves_ok b" shows "\<exists>it. rbegin_it b = Some it \<and> rit_at b it 0"
proof (cases "tree_leaves b" rule: rev_cases)
  case Nil
  then show ?thesis using assms by (simp add: rbegin_it_def end_it_def rit_at_def leaves_ok_def chain_def)
next
  case (snoc A x)
  have l: "tree_leaves b = A @ (fst x, snd x) # []" using snoc by simp
  have "snd x \<noteq> []" "m_tailleaf b = Some (fst x)" using assms snoc by (simp_all add: leaves_ok_def chain_def)
  then show ?thesis using leaf_at_mid [OF assms l] rit_at_Some [OF l, of "length (snd x)" 0]
    by (simp add: rbegin_it_def end_it_def)
qed

lemma rend_it_at:
  assumes "leaves_ok b" shows "\<exists>it. rend_it b = Some it \<and> rit_at b it (length (rev (tree_contents b)))"
proof (cases "tree_leaves b")
  case Nil
  then show ?thesis using assms by (simp add: rend_it_def begin_it_def rit_at_def leaves_ok_def chain_def tree_contents_leaves)
next
  case (Cons x xs)
  then have l: "tree_leaves b = [] @ (fst x, snd x) # xs" by simp
  then show ?thesis using assms rit_at_Some [OF l, of 0 "length (rev (tree_contents b))"]
    by (simp add: rend_it_def begin_it_def leaves_ok_def chain_def tree_contents_leaves)
qed

lemma rit_at_eq:
  assumes ok: "leaves_ok b" and "rit_at b it p" "rit_at b jt q"
  shows "it = jt \<longleftrightarrow> p = q"
proof (cases "tree_leaves b = []")
  case True
  with assms(2,3) show ?thesis by (simp add: rit_at_def)
next
  case False
  from rit_atE [OF assms(2) False] obtain A a kvs B s where
    1: "tree_leaves b = A @ (a, kvs) # B" "it = (Some a, s)" "s \<le> length kvs"
       "p + s = length kvs + length (concat (map snd B))" "0 < s \<or> A = []" .
  from rit_atE [OF assms(3) False] obtain A' a' kvs' B' s' where
    2: "tree_leaves b = A' @ (a', kvs') # B'" "jt = (Some a', s')" "s' \<le> length kvs'"
       "q + s' = length kvs' + length (concat (map snd B'))" "0 < s' \<or> A' = []" .
  have eq: "A @ (a, kvs) # B = A' @ (a', kvs') # B'" using 1(1) 2(1) by simp
  have dist: "distinct (map fst (A @ (a, kvs) # B))" using ok 1(1) by (simp add: leaves_ok_def chain_def)
  from eq consider "A = A'" "a = a'" "kvs = kvs'" "B = B'"
    | C where "A' = A @ (a, kvs) # C" "B = C @ (a', kvs') # B'" | C where "A = A' @ (a', kvs') # C" "B' = C @ (a, kvs) # B"
    by (auto simp: append_eq_append_conv2 Cons_eq_append_conv append_eq_Cons_conv)
  then show ?thesis
  proof cases
    case 1
    then show ?thesis using \<open>p + s = _\<close> \<open>it = _\<close> \<open>s \<le> _\<close> 2(2,3,4) by auto
  next
    case C: 2
    then have "a \<noteq> a'" "0 < s'" using dist 2(5) by auto
    then have "q < p" using 1(3,4) 2(3,4) by (simp add: C)
    with \<open>a \<noteq> a'\<close> 1(2) 2(2) show ?thesis by simp
  next
    case C: 3
    then have "a \<noteq> a'" "0 < s" using dist eq 1(5) by auto
    then have "p < q" using 2(3,4) 1(3,4) by (simp add: C)
    with \<open>a \<noteq> a'\<close> 1(2) 2(2) show ?thesis by simp
  qed
qed

lemma rit_at_inside:
  assumes "leaves_ok b" "rit_at b it r" "r < length (rev (tree_contents b))"
  obtains A a kvs B s where "tree_leaves b = A @ (a, kvs) # B" "it = (Some a, Suc s)" "s < length kvs"
    "r + Suc s = length kvs + length (concat (map snd B))" "rev (tree_contents b) ! r = kvs ! s" "leaf_at b a = Some kvs"
proof -
  from assms(3) have "tree_leaves b \<noteq> []" by (auto simp: tree_contents_leaves)
  from rit_atE [OF assms(2) this] obtain A a kvs B s where
    1: "tree_leaves b = A @ (a, kvs) # B" "it = (Some a, s)" "s \<le> length kvs"
       "r + s = length kvs + length (concat (map snd B))" "0 < s \<or> A = []" .
  with assms(3) obtain s' where s: "s = Suc s'" by (cases s) (auto simp: tree_contents_leaves)
  have "length (tree_contents b) - Suc r = length (concat (map snd A)) + s'"
    using 1 s by (simp add: tree_contents_leaves)
  then have "rev (tree_contents b) ! r = kvs ! s'"
    using assms(3) 1(3) s nth_concat_mid [of s' kvs A "concat (map snd B)"]
    by (simp add: rev_nth) (simp add: 1(1) tree_contents_leaves)
  then show thesis using that [OF 1(1)] 1 s leaf_at_mid [OF assms(1) 1(1)] by simp
qed

lemma rit_at_deref:
  assumes "leaves_ok b" "rit_at b it r" "r < length (rev (tree_contents b))"
  shows "rit_deref b it = Some (rev (tree_contents b) ! r)"
  by (rule rit_at_inside [OF assms]) (simp add: rit_deref_def rit_key_def rit_data_def rd_def)

lemma rit_at_incr:
  assumes "leaves_ok b" "rit_at b it r" "r < length (rev (tree_contents b))"
  shows "\<exists>jt. rit_incr b it = Some jt \<and> rit_at b jt (Suc r)"
proof (rule rit_at_inside [OF assms])
  fix A a kvs B s
  assume 1: "tree_leaves b = A @ (a, kvs) # B" "it = (Some a, Suc s)" "s < length kvs"
    "r + Suc s = length kvs + length (concat (map snd B))" "leaf_at b a = Some kvs"
  show ?thesis
  proof (cases "0 < s \<or> A = []")
    case True
    then show ?thesis using 1 rit_at_Some [OF 1(1), of s "Suc r"] links_mid(2) [OF assms(1) 1(1)]
      by (auto simp: rit_incr_def Suc_diff_Suc)
  next
    case False
    then obtain A' y where A: "A = A' @ [y]" by (cases A rule: rev_cases) auto
    then have l: "tree_leaves b = A' @ (fst y, snd y) # (a, kvs) # B" using 1(1) by simp
    have "snd y \<noteq> []" using assms(1) 1(1) A by (simp add: leaves_ok_def)
    then show ?thesis
      using 1 False A rit_at_Some [OF l, of "length (snd y)" "Suc r"] links_mid(2) [OF assms(1) 1(1)] leaf_at_mid [OF assms(1) l]
      by (simp add: rit_incr_def)
  qed
qed

interpretation bwd: cursor leaves_ok "\<lambda>b. rev (tree_contents b)" rit_at rbegin_it rend_it rit_deref rit_incr
  by unfold_locales
     (use rbegin_it_at rend_it_at rit_at_le rit_at_deref rit_at_incr rit_at_eq in blast)+

section \<open>The descent of the queries\<close>

text \<open>Both slot searches stop at the first key without a downward closed property.\<close>

lemma slot_split:
  assumes T: "traits_ok T" and ok: "node_ok T lo (Suc h) (Inner l ks cs)"
    and sorted: "ksorted (contents_list cs)" and s: "s = length (takeWhile P ks)"
    and mono: "\<forall>x y. x \<le> y \<longrightarrow> P y \<longrightarrow> P x"
  obtains as c bs where "cs = as @ c # bs" "length as = s"
    "\<forall>x \<in> set (contents_list as). P (fst x)" "bs \<noteq> [] \<Longrightarrow> \<not> P (last_key c)"
    "node_ok T (min_at T h) h c"
proof -
  from ok have ks: "ks = seps cs" and okc: "\<forall>c \<in> set cs. node_ok T (min_at T h) h c" by auto
  from ok have len: "length cs = Suc (length ks)" by (auto simp: ks)
  have s_lt: "s < length cs" using length_takeWhile_le [of P ks] len by (simp add: s)
  define as c bs where "as = take s cs" and "c = cs ! s" and "bs = drop (Suc s) cs"
  have split: "cs = as @ c # bs" and l_as: "length as = s"
    using s_lt by (auto simp: as_def c_def bs_def id_take_nth_drop)
  have "P (fst x)" if "a \<in> set as" "x \<in> set (contents a)" for a x
  proof -
    from that(1) obtain i where i: "i < s" "a = cs ! i" by (auto simp: in_set_conv_nth as_def)
    from i s_lt have il: "i < length ks" "i < length cs - 1" using len by auto
    from i il have "last_key a = ks ! i" by (simp add: ks nth_butlast)
    moreover have "P (ks ! i)"
      using i(1) il(1) unfolding s by (metis nth_mem set_takeWhileD takeWhile_nth)
    moreover have "ksorted (contents a)"
      using sorted that(1) by (auto simp: split dest!: split_list simp: sorted_wrt_append)
    ultimately show ?thesis using ksorted_last [OF _ that(2)] mono by (metis last_key_def)
  qed
  moreover have "\<not> P (last_key c)" if "bs \<noteq> []"
  proof -
    from that s_lt have "s < length ks" using len by (auto simp: bs_def)
    then show ?thesis using nth_length_takeWhile [of P ks] by (simp add: s c_def nth_butlast ks)
  qed
  moreover have "node_ok T (min_at T h) h c" using okc split by auto
  ultimately show thesis using that [OF split l_as] by auto
qed

definition slot_search :: "('k::linorder list \<Rightarrow> 'k \<Rightarrow> nat) \<Rightarrow> ('k \<Rightarrow> 'k \<Rightarrow> bool) \<Rightarrow> bool" where
  "slot_search f P \<longleftrightarrow> (\<forall>ks key. f ks key = length (takeWhile (P key) ks)) \<and> (\<forall>key x y. x \<le> y \<longrightarrow> P key y \<longrightarrow> P key x)"

lemma slot_search_lower: "slot_search find_lower (\<lambda>key x. x < key)"
  by (auto simp: slot_search_def find_lower_takeWhile)

lemma slot_search_upper: "slot_search find_upper (\<lambda>key x. x \<le> key)"
  by (auto simp: slot_search_def find_upper_takeWhile)

lemma descend_ok_leaf:
  assumes T: "traits_ok T" and f: "slot_search f P"
  shows "node_ok T lo h n \<Longrightarrow> ksorted (contents n) \<Longrightarrow>
    \<exists>A a kvs B. descend f n key = Some (a, kvs) \<and> leaf_list n = A @ (a, kvs) # B \<and>
      (\<forall>x \<in> set (concat (map snd A)). P key (fst x)) \<and> (B \<noteq> [] \<longrightarrow> kvs \<noteq> [] \<and> \<not> P key (fst (last kvs)))"
proof (induction h arbitrary: n lo)
  case 0
  then show ?case by (auto simp: node_ok_0 intro!: exI [of _ "[]"])
next
  case (Suc h)
  then obtain cs where n: "n = Inner (Suc h) (seps cs) cs" by (auto simp: node_ok_Suc)
  have so: "ksorted (contents_list cs)" using Suc.prems(2) by (simp add: n)
  have "f (seps cs) key = length (takeWhile (P key) (seps cs))" "\<forall>x y. x \<le> y \<longrightarrow> P key y \<longrightarrow> P key x"
    using f by (auto simp: slot_search_def)
  from slot_split [OF T Suc.prems(1) [unfolded n] so this] obtain as c bs where
    cs: "cs = as @ c # bs" "length as = f (seps cs) key"
    and as: "\<forall>x \<in> set (contents_list as). P key (fst x)" and bs: "bs \<noteq> [] \<Longrightarrow> \<not> P key (last_key c)"
    and ok: "node_ok T (min_at T h) h c" by blast
  have "ksorted (contents c)" using so unfolding cs by (rule ksorted_contents_child)
  from Suc.IH [OF ok this] obtain A a kvs B where
    IH: "descend f c key = Some (a, kvs)" "leaf_list c = A @ (a, kvs) # B"
    "\<forall>x \<in> set (concat (map snd A)). P key (fst x)" "B \<noteq> [] \<longrightarrow> kvs \<noteq> [] \<and> \<not> P key (fst (last kvs))" by blast
  have "rd cs (f (seps cs) key) = Some c" using cs(2) rd_mid [of as c bs] by (simp add: cs(1))
  then have "descend f n key = Some (a, kvs)" using IH(1) by (simp add: n)
  moreover have "leaf_list n = (leaf_lists as @ A) @ (a, kvs) # (B @ leaf_lists bs)" by (simp add: n cs IH(2))
  moreover have "concat (map snd (leaf_lists as)) = contents_list as"
    by (induction as) (simp_all add: contents_leaf_list)
  moreover have "kvs \<noteq> [] \<and> \<not> P key (fst (last kvs))" if "B = []" "bs \<noteq> []"
  proof -
    have "contents c = concat (map snd A) @ kvs" using IH(2) that(1) by (simp add: contents_leaf_list)
    moreover have "kvs \<noteq> []" using leaf_list_ok [OF T ok, of a kvs] T IH(2) by simp
    ultimately show ?thesis using bs [OF that(2)] by (simp add: last_key_def)
  qed
  moreover have "B \<noteq> [] \<or> bs \<noteq> []" if "B @ leaf_lists bs \<noteq> []" using that by auto
  ultimately show ?case using as IH(3,4)
    by (intro exI [of _ "leaf_lists as @ A"] exI [of _ a] exI [of _ kvs] exI [of _ "B @ leaf_lists bs"]) auto
qed

text \<open>The descent ends at the position where the property stops to hold in the whole tree.\<close>

lemma descend_position:
  assumes T: "traits_ok T" and inv: "btree_inv T b" and root: "m_root b = Some n" and f: "slot_search f P"
  obtains A a kvs B where "descend f n key = Some (a, kvs)" "tree_leaves b = A @ (a, kvs) # B"
    "f (keys_of kvs) key \<le> length kvs"
    "it_at b (Some a, f (keys_of kvs) key) (length (takeWhile (\<lambda>x. P key (fst x)) (tree_contents b)))"
    "f (keys_of kvs) key < length kvs \<longleftrightarrow>
      length (takeWhile (\<lambda>x. P key (fst x)) (tree_contents b)) < length (tree_contents b)"
    "f (keys_of kvs) key < length kvs \<longrightarrow>
      tree_contents b ! length (takeWhile (\<lambda>x. P key (fst x)) (tree_contents b)) = kvs ! f (keys_of kvs) key"
proof -
  have "node_ok T 1 (level n) n" "ksorted (contents n)" using inv root by (auto simp: btree_inv_defs)
  from descend_ok_leaf [OF T f this] obtain A a kvs B where
    d: "descend f n key = Some (a, kvs)" "leaf_list n = A @ (a, kvs) # B"
    and A: "\<forall>x \<in> set (concat (map snd A)). P key (fst x)"
    and B: "B \<noteq> [] \<longrightarrow> kvs \<noteq> [] \<and> \<not> P key (fst (last kvs))" by blast
  let ?P = "\<lambda>x. P key (fst x)"
  have l: "tree_leaves b = A @ (a, kvs) # B" using root d(2) by (simp add: tree_leaves_def)
  have fk: "f (keys_of kvs) key = length (takeWhile ?P kvs)"
    using f by (simp add: slot_search_def takeWhile_map o_def)
  have st: "B \<noteq> [] \<Longrightarrow> length (takeWhile ?P kvs) < length kvs"
    using B by (metis last_in_set length_takeWhile_less)
  have tw: "takeWhile ?P (tree_contents b) = concat (map snd A) @ takeWhile ?P kvs"
  proof -
    have "takeWhile ?P (concat (map snd A) @ ys) = concat (map snd A) @ takeWhile ?P ys" for ys
      by (rule takeWhile_append2) (use A in blast)
    moreover have "takeWhile ?P (kvs @ concat (map snd B)) = takeWhile ?P kvs"
      using B by (cases "B = []") (auto intro: takeWhile_append1 [of "last kvs"])
    ultimately show ?thesis by (simp add: tree_contents_leaves l)
  qed
  have "it_at b (Some a, f (keys_of kvs) key) (length (concat (map snd A)) + f (keys_of kvs) key)"
    by (rule it_at_Some [OF l]) (use st fk length_takeWhile_le [of ?P kvs] in \<open>cases "B = []"; auto\<close>)
  moreover have "f (keys_of kvs) key < length kvs \<longleftrightarrow> length (takeWhile ?P (tree_contents b)) < length (tree_contents b)"
    using st fk unfolding tw by (cases "B = []") (auto simp: tree_contents_leaves l)
  moreover have "tree_contents b ! length (takeWhile ?P (tree_contents b)) = kvs ! f (keys_of kvs) key"
    if "f (keys_of kvs) key < length kvs"
    using that fk nth_concat_mid [of "length (takeWhile ?P kvs)" kvs A] unfolding tw by (simp add: tree_contents_leaves l)
  ultimately show thesis using that [OF d(1) l] fk length_takeWhile_le [of ?P kvs] by (simp add: tw)
qed

section \<open>The queries\<close>

text \<open>The number of keys below a key, and of keys not above it.\<close>

definition rank_lower :: "('k::linorder, 'v) btree \<Rightarrow> 'k \<Rightarrow> nat" where
  "rank_lower b key = length (takeWhile (\<lambda>x. fst x < key) (tree_contents b))"

definition rank_upper :: "('k::linorder, 'v) btree \<Rightarrow> 'k \<Rightarrow> nat" where
  "rank_upper b key = length (takeWhile (\<lambda>x. fst x \<le> key) (tree_contents b))"

lemma takeWhile_ksorted_mem:
  assumes "ksorted xs" and r_def: "r = length (takeWhile (\<lambda>x. fst x < key) xs)"
  shows "key \<in> set (keys_of xs) \<longleftrightarrow> r < length xs \<and> fst (xs ! r) = key"
proof
  assume "key \<in> set (keys_of xs)"
  then obtain v where v: "(key, v) \<in> set xs" by auto
  then have r: "r < length xs" unfolding r_def by (rule length_takeWhile_less) simp
  have "\<not> fst (xs ! r) < key" using nth_length_takeWhile [of "\<lambda>x. fst x < key" xs] r by (simp add: r_def)
  moreover have "(key, v) \<in> set (drop r xs)"
  proof -
    have "(key, v) \<notin> set (take r xs)"
      unfolding r_def by (metis fst_conv less_irrefl set_takeWhileD takeWhile_eq_take)
    with v show ?thesis by (metis Un_iff append_take_drop_id set_append)
  qed
  then have "xs ! r = (key, v) \<or> fst (xs ! r) < key"
  proof -
    have "drop r xs = xs ! r # drop (Suc r) xs" using r by (simp add: Cons_nth_drop_Suc)
    moreover have "ksorted (drop r xs)" using assms(1) by (metis drop_map sorted_wrt_drop)
    ultimately show ?thesis using \<open>(key, v) \<in> set (drop r xs)\<close> by auto
  qed
  ultimately show "r < length xs \<and> fst (xs ! r) = key" using r by auto
next
  assume "r < length xs \<and> fst (xs ! r) = key"
  then show "key \<in> set (keys_of xs)" by (metis length_map nth_map nth_mem)
qed

lemma lower_bound_at:
  assumes T: "traits_ok T" and inv: "btree_inv T b"
  shows "\<exists>it. lower_bound b key = Some it \<and> it_at b it (rank_lower b key)"
proof (cases "m_root b")
  case None
  then show ?thesis using end_it_at [OF btree_inv_leaves_ok [OF assms]]
    by (simp add: lower_bound_def rank_lower_def tree_contents_def)
next
  case (Some n)
  from descend_position [OF T inv Some slot_search_lower, of key] show ?thesis
    using Some by (fastforce simp: lower_bound_def rank_lower_def)
qed

lemma upper_bound_at:
  assumes T: "traits_ok T" and inv: "btree_inv T b"
  shows "\<exists>it. upper_bound b key = Some it \<and> it_at b it (rank_upper b key)"
proof (cases "m_root b")
  case None
  then show ?thesis using end_it_at [OF btree_inv_leaves_ok [OF assms]]
    by (simp add: upper_bound_def rank_upper_def tree_contents_def)
next
  case (Some n)
  from descend_position [OF T inv Some slot_search_upper, of key] show ?thesis
    using Some by (fastforce simp: upper_bound_def rank_upper_def)
qed

text \<open>The test at the end of \<open>find\<close>, \<open>exists\<close> and \<open>count\<close>.\<close>

lemma descend_hit:
  assumes T: "traits_ok T" and inv: "btree_inv T b" and root: "m_root b = Some n"
  obtains A a kvs B where "descend find_lower n key = Some (a, kvs)" "tree_leaves b = A @ (a, kvs) # B"
    "it_at b (Some a, find_lower (keys_of kvs) key) (rank_lower b key)"
    "find_lower (keys_of kvs) key < length kvs \<and> key = keys_of kvs ! find_lower (keys_of kvs) key \<longleftrightarrow>
      key \<in> set (keys_of (tree_contents b))"
    "find_lower (keys_of kvs) key < length kvs \<longleftrightarrow> rank_lower b key < length (tree_contents b)"
proof -
  have so: "ksorted (tree_contents b)" using inv by (simp add: btree_inv_def)
  from descend_position [OF T inv root slot_search_lower, of key, folded rank_lower_def] obtain A a kvs B where
    d: "descend find_lower n key = Some (a, kvs)" "tree_leaves b = A @ (a, kvs) # B"
      "find_lower (keys_of kvs) key \<le> length kvs"
      "it_at b (Some a, find_lower (keys_of kvs) key) (rank_lower b key)"
      "find_lower (keys_of kvs) key < length kvs \<longleftrightarrow> rank_lower b key < length (tree_contents b)"
      "find_lower (keys_of kvs) key < length kvs \<longrightarrow> tree_contents b ! rank_lower b key = kvs ! find_lower (keys_of kvs) key"
    .
  moreover have "find_lower (keys_of kvs) key < length kvs \<and> key = keys_of kvs ! find_lower (keys_of kvs) key \<longleftrightarrow>
      key \<in> set (keys_of (tree_contents b))"
    using d(5,6) takeWhile_ksorted_mem [OF so refl, of key] unfolding rank_lower_def by auto
  ultimately show thesis using that by blast
qed

lemma find_it_at:
  assumes T: "traits_ok T" and inv: "btree_inv T b"
  shows "\<exists>it. find_it b key = Some it \<and>
    it_at b it (if key \<in> set (keys_of (tree_contents b)) then rank_lower b key else length (tree_contents b))"
proof (cases "m_root b")
  case None
  then show ?thesis using end_it_at [OF btree_inv_leaves_ok [OF assms]]
    by (simp add: find_it_def tree_contents_def)
next
  case (Some n)
  from descend_hit [OF T inv Some, of key] obtain A a kvs B where
    d: "descend find_lower n key = Some (a, kvs)" "it_at b (Some a, find_lower (keys_of kvs) key) (rank_lower b key)"
    "find_lower (keys_of kvs) key < length kvs \<and> key = keys_of kvs ! find_lower (keys_of kvs) key \<longleftrightarrow>
      key \<in> set (keys_of (tree_contents b))" by blast
  show ?thesis
  proof (cases "key \<in> set (keys_of (tree_contents b))")
    case True
    with d Some show ?thesis by (simp add: find_it_def)
  next
    case False
    with d Some end_it_at [OF btree_inv_leaves_ok [OF assms]] show ?thesis
      by (auto simp: find_it_def Let_def simp del: set_map)
  qed
qed

lemma exists_key_ok:
  assumes T: "traits_ok T" and inv: "btree_inv T b"
  shows "exists_key b key = Some (key \<in> set (keys_of (tree_contents b)))"
proof (cases "m_root b")
  case None
  then show ?thesis by (simp add: exists_key_def tree_contents_def)
next
  case (Some n)
  from descend_hit [OF T inv Some, of key] show ?thesis
    using Some by (fastforce simp: exists_key_def simp del: set_map)
qed

text \<open>After one equal key the counting loop stops, since the next key is larger.\<close>

lemma count_from_miss:
  assumes "leaf_at b a = Some kvs" "s < length kvs \<Longrightarrow> key \<noteq> fst (kvs ! s)"
  shows "count_from b key n (Some a) s num = Some num"
  using assms by (cases n) auto

lemma count_from_hit:
  assumes ok: "leaves_ok b" and so: "ksorted (tree_contents b)" and l: "tree_leaves b = A @ (a, kvs) # B"
    and s: "s < length kvs" "key = fst (kvs ! s)"
  shows "count_from b key (Suc n) (Some a) s num = Some (num + 1)"
proof (cases "Suc s < length kvs")
  case True
  have "ksorted kvs" using so by (simp add: tree_contents_leaves l sorted_wrt_append)
  then have "fst (kvs ! s) < fst (kvs ! Suc s)" using True by (simp add: sorted_wrt_iff_nth_less)
  then show ?thesis using True s leaf_at_mid [OF ok l] count_from_miss [of b a kvs "Suc s" key] by auto
next
  case False
  show ?thesis
  proof (cases B)
    case Nil
    then show ?thesis using False s leaf_at_mid [OF ok l] links_mid(1) [OF ok l] by simp
  next
    case (Cons x B')
    then have l': "tree_leaves b = (A @ [(a, kvs)]) @ (fst x, snd x) # B'" using l by simp
    have "fst (kvs ! s) < fst (snd x ! 0)" if "0 < length (snd x)"
      using so that nth_mem [OF s(1)] nth_mem [OF that] by (auto simp: tree_contents_leaves l Cons sorted_wrt_append)
    then have "count_from b key n (Some (fst x)) 0 (num + 1) = Some (num + 1)"
      by (intro count_from_miss [OF leaf_at_mid [OF ok l']]) (auto simp: s(2))
    then show ?thesis using False s Cons leaf_at_mid [OF ok l] links_mid(1) [OF ok l]
      by (subst count_from.simps(2)) (simp del: count_from.simps)
  qed
qed

lemma count_key_ok:
  assumes T: "traits_ok T" and inv: "btree_inv T b"
  shows "count_key b key = Some (if key \<in> set (keys_of (tree_contents b)) then 1 else 0)"
proof (cases "m_root b")
  case None
  then show ?thesis by (simp add: count_key_def tree_contents_def)
next
  case (Some n)
  note ok = btree_inv_leaves_ok [OF assms]
  have so: "ksorted (tree_contents b)" using inv by (simp add: btree_inv_def)
  from descend_hit [OF T inv Some, of key] obtain A a kvs B where
    d: "descend find_lower n key = Some (a, kvs)" "tree_leaves b = A @ (a, kvs) # B"
    "it_at b (Some a, find_lower (keys_of kvs) key) (rank_lower b key)"
    "find_lower (keys_of kvs) key < length kvs \<and> key = keys_of kvs ! find_lower (keys_of kvs) key \<longleftrightarrow>
      key \<in> set (keys_of (tree_contents b))"
    "find_lower (keys_of kvs) key < length kvs \<longleftrightarrow> rank_lower b key < length (tree_contents b)" .
  show ?thesis
  proof (cases "key \<in> set (keys_of (tree_contents b))")
    case True
    then obtain m where m: "length (tree_contents b) = Suc m" by (cases "tree_contents b") auto
    show ?thesis using True d Some count_from_hit [OF ok so d(2), of "find_lower (keys_of kvs) key" key m 0]
      by (simp add: count_key_def m)
  next
    case False
    then show ?thesis using d Some count_from_miss [OF leaf_at_mid [OF ok d(2)], of "find_lower (keys_of kvs) key" key]
      by (auto simp: count_key_def simp del: set_map)
  qed
qed

section \<open>Whole-tree loops\<close>

lemma size_of_ok: "btree_inv T b \<Longrightarrow> size_of b = length (tree_contents b)"
  by (simp add: size_of_def btree_inv_def stats_ok_def)

lemma btree_eq_ok:
  assumes "traits_ok T" "btree_inv T b" "btree_inv T c"
  shows "btree_eq b c = Some (tree_contents b = tree_contents c)"
proof -
  note ok = btree_inv_leaves_ok [OF assms(1,2)] btree_inv_leaves_ok [OF assms(1,3)]
  obtain x e y where "begin_it b = Some x" "it_at b x 0" "end_it b = Some e" "begin_it c = Some y" "it_at c y 0"
    using begin_it_at [OF ok(1)] end_it_at [OF ok(1)] begin_it_at [OF ok(2)] by blast
  then show ?thesis using two.equal_from [OF ok, of x 0 y 0 e "length (tree_contents b)"]
    by (auto simp: btree_eq_def size_of_ok [OF assms(2)] size_of_ok [OF assms(3)])
qed

lemma btree_less_ok:
  assumes "traits_ok T" "btree_inv T b" "btree_inv T c"
  shows "btree_less b c = Some (lex_less pair_less (tree_contents b) (tree_contents c))"
proof -
  note ok = btree_inv_leaves_ok [OF assms(1,2)] btree_inv_leaves_ok [OF assms(1,3)]
  obtain x e y e' where "begin_it b = Some x" "it_at b x 0" "end_it b = Some e" "begin_it c = Some y" "it_at c y 0"
    "end_it c = Some e'"
    using begin_it_at [OF ok(1)] end_it_at [OF ok(1)] begin_it_at [OF ok(2)] end_it_at [OF ok(2)] by blast
  then show ?thesis using two.lex_from [OF ok, of x 0 y 0 e e' "length (tree_contents b)" pair_less]
    by (auto simp: btree_less_def size_of_ok [OF assms(2)])
qed

section \<open>Main theorems\<close>

lemma map_of_rank:
  assumes "ksorted xs" "r = length (takeWhile (\<lambda>x. fst x < k) xs)"
  shows "map_of xs k = (if k \<in> set (keys_of xs) then Some (snd (xs ! r)) else None)"
proof (cases "k \<in> set (keys_of xs)")
  case True
  then have r: "r < length xs" "fst (xs ! r) = k" using takeWhile_ksorted_mem [OF assms] by auto
  then have "(k, snd (xs ! r)) \<in> set xs" by (metis nth_mem prod.collapse)
  with True show ?thesis using map_of_is_SomeI [OF ksorted_distinct [OF assms(1)]] by simp
qed (simp add: map_of_eq_None_iff)

lemma it_at_read:
  assumes "leaves_ok b" "it_at b it p" "p < length (tree_contents b)"
  shows "it_key b it = Some (fst (tree_contents b ! p)) \<and> it_data b it = Some (snd (tree_contents b ! p))"
  by (rule it_at_inside [OF assms]) (simp add: it_key_def it_data_def rd_def)

lemma it_eq_iff: "it_eq it e \<longleftrightarrow> it = e"
  by (auto simp: it_eq_def prod_eq_iff)

lemma it_neq_iff: "it_neq it e \<longleftrightarrow> it \<noteq> e"
  by (auto simp: it_neq_def prod_eq_iff)

lemma find_it_read:
  assumes "traits_ok T" "btree_inv T b"
  shows "\<exists>it e. find_it b k = Some it \<and> end_it b = Some e \<and>
    (case map_of (tree_contents b) k of
       None \<Rightarrow> it = e
     | Some v \<Rightarrow> it \<noteq> e \<and> it_key b it = Some k \<and> it_data b it = Some v)"
proof -
  note ok = btree_inv_leaves_ok [OF assms]
  have so: "ksorted (tree_contents b)" using assms(2) by (simp add: btree_inv_def)
  obtain it e where it: "find_it b k = Some it" "end_it b = Some e"
      "it_at b it (if k \<in> set (keys_of (tree_contents b)) then rank_lower b k else length (tree_contents b))"
      "it_at b e (length (tree_contents b))"
    using find_it_at [OF assms, of k] end_it_at [OF ok] by blast
  note mo = map_of_rank [OF so rank_lower_def, of k]
  show ?thesis
  proof (cases "k \<in> set (keys_of (tree_contents b))")
    case True
    then have r: "rank_lower b k < length (tree_contents b)" "fst (tree_contents b ! rank_lower b k) = k"
      using takeWhile_ksorted_mem [OF so rank_lower_def] by auto
    have "it \<noteq> e" using it_at_eq [OF ok it(3,4)] True r by simp
    with True it r mo it_at_read [OF ok it(3)] show ?thesis by (simp del: set_map)
  next
    case False
    have "it = e" using it_at_eq [OF ok it(3,4)] False by simp
    with it(1,2) mo False show ?thesis by (simp del: set_map)
  qed
qed

lemma sample_it_at: "it_at sample_btree (Some 0, 3) 3"
  using it_at_Some [of sample_btree "[]" 0 "[(1, 10), (2, 20), (3, 30), (4, 40)]" "[(1, [(5, 50), (6, 60), (7, 70), (8, 80)])]" 3]
  by (simp add: tree_leaves_def sample_btree_def)

lemma sample_size: "size_of sample_btree = 8"
  by (simp add: size_of_def sample_btree_def)

text \<open>
  C6: \<open>exists\<close>, \<open>count\<close> and \<open>find\<close> agree with a lookup in the sorted contents: \<open>find\<close> returns
  an iterator that reads the pair of the key, or the end iterator when there is none.
\<close>

theorem lookup_correct:
  assumes "traits_ok T" "btree_inv T b"
  shows "exists_key b k = Some (k \<in> set (keys_of (tree_contents b))) \<and>
    count_key b k = Some (if k \<in> set (keys_of (tree_contents b)) then 1 else 0) \<and>
    (\<exists>it e. find_it b k = Some it \<and> end_it b = Some e \<and>
      (case map_of (tree_contents b) k of
         None \<Rightarrow> it_eq it e
       | Some v \<Rightarrow> it_neq it e \<and> it_key b it = Some k \<and> it_data b it = Some v))"
  unfolding it_eq_iff it_neq_iff
  using exists_key_ok [OF assms, of k] count_key_ok [OF assms, of k] find_it_read [OF assms, of k] by blast

theorem lookup_correct_witness:
  "\<exists>it e. find_it sample_btree 6 = Some it \<and> end_it sample_btree = Some e \<and> it_neq it e \<and>
    it_data sample_btree it = Some 60"
  using lookup_correct [OF sample, of 6] by (auto simp: sample_contents)

lemma walk_from_rank:
  assumes "leaves_ok b" "it_at b it (length (takeWhile P (tree_contents b)))" "end_it b = Some e"
    "length (tree_contents b) \<le> n"
  shows "walk (it_deref b) (it_incr b) e n it = Some (dropWhile P (tree_contents b))"
  using fwd.walk_from [OF assms(1,2,3), of n] assms(4) by (simp add: dropWhile_eq_drop)

text \<open>
  C16: walking from \<open>lower_bound\<close> (\<open>upper_bound\<close>) to the end reads exactly the pairs whose
  keys are not less than (greater than) the given key, in order.
\<close>

theorem bounds_correct:
  assumes "traits_ok T" "btree_inv T b" "size_of b \<le> n"
  shows "\<exists>l u e. equal_range b k = Some (l, u) \<and> end_it b = Some e \<and>
    walk (it_deref b) (it_incr b) e n l = Some (dropWhile (\<lambda>x. fst x < k) (tree_contents b)) \<and>
    walk (it_deref b) (it_incr b) e n u = Some (dropWhile (\<lambda>x. fst x \<le> k) (tree_contents b))"
proof -
  note ok = btree_inv_leaves_ok [OF assms(1,2)]
  have n: "length (tree_contents b) \<le> n" using assms(2,3) by (simp add: size_of_ok)
  obtain l u e where "lower_bound b k = Some l" "upper_bound b k = Some u" "end_it b = Some e"
      "it_at b l (rank_lower b k)" "it_at b u (rank_upper b k)"
    using lower_bound_at [OF assms(1,2), of k] upper_bound_at [OF assms(1,2), of k] end_it_at [OF ok] by blast
  then show ?thesis using walk_from_rank [OF ok _ _ n]
    by (simp add: equal_range_def rank_lower_def rank_upper_def)
qed

theorem bounds_correct_witness:
  "\<exists>l u e. equal_range sample_btree 6 = Some (l, u) \<and> end_it sample_btree = Some e \<and>
    walk (it_deref sample_btree) (it_incr sample_btree) e 8 l = Some [(6, 60), (7, 70), (8, 80)]"
  using bounds_correct [OF sample, of 8 6] by (auto simp: sample_contents sample_size)

text \<open>
  C21: a loop from \<open>begin\<close> to \<open>end\<close> reads every pair once in ascending order, and a loop from
  \<open>rbegin\<close> to \<open>rend\<close> reads them in descending order; both end after at most \<open>size()\<close> steps.
\<close>

theorem iteration_correct:
  assumes "traits_ok T" "btree_inv T b" "size_of b \<le> n"
  shows "do { it \<leftarrow> begin_it b; e \<leftarrow> end_it b; walk (it_deref b) (it_incr b) e n it } = Some (tree_contents b) \<and>
    do { it \<leftarrow> rbegin_it b; e \<leftarrow> rend_it b; walk (rit_deref b) (rit_incr b) e n it } = Some (rev (tree_contents b))"
  using assms fwd.walk_all [OF btree_inv_leaves_ok [OF assms(1,2)], of n]
    bwd.walk_all [OF btree_inv_leaves_ok [OF assms(1,2)], of n] by (simp add: size_of_ok)

theorem iteration_correct_witness:
  "do { it \<leftarrow> rbegin_it sample_btree; e \<leftarrow> rend_it sample_btree;
        walk (rit_deref sample_btree) (rit_incr sample_btree) e 8 it } =
    Some [(8, 80), (7, 70), (6, 60), (5, 50), (4, 40), (3, 30), (2, 20), (1, 10)]"
  using iteration_correct [OF sample, of 8] by (simp add: sample_contents sample_size)

text \<open>
  Decrementing an iterator that has just been incremented, possibly into the next leaf,
  returns to where it was.
\<close>

theorem decrement_undoes_increment:
  assumes "traits_ok T" "btree_inv T b" "it_at b it p" "p < size_of b"
  shows "\<exists>jt. it_incr b it = Some jt \<and> it_decr b jt = Some it"
proof -
  note ok = btree_inv_leaves_ok [OF assms(1,2)]
  have p: "p < length (tree_contents b)" using assms(2,4) by (simp add: size_of_ok)
  obtain jt where jt: "it_incr b it = Some jt" "it_at b jt (Suc p)" using it_at_incr [OF ok assms(3) p] by blast
  then obtain kt where kt: "it_decr b jt = Some kt" "it_at b kt p" using it_at_decr [OF ok jt(2)] by auto
  then show ?thesis using jt it_at_eq [OF ok kt(2) assms(3)] by simp
qed

theorem decrement_undoes_increment_witness:
  "\<exists>jt. it_incr sample_btree (Some 0, 3) = Some jt \<and> it_decr sample_btree jt = Some (Some 0, 3)"
  by (rule decrement_undoes_increment [OF sample sample_it_at]) (simp add: sample_size)

text \<open>
  C22: \<open>operator==\<close> decides equality of the contents, and \<open>operator<\<close> their lexicographic
  order, for trees of any shape.
\<close>

theorem comparison_correct:
  assumes "traits_ok T" "btree_inv T b" "btree_inv T c"
  shows "btree_eq b c = Some (tree_contents b = tree_contents c) \<and>
    btree_less b c = Some (lex_less pair_less (tree_contents b) (tree_contents c))"
  using btree_eq_ok [OF assms] btree_less_ok [OF assms] by simp

theorem comparison_correct_witness:
  "btree_eq sample_btree empty_btree = Some False \<and> btree_less empty_btree sample_btree = Some True"
  using comparison_correct [OF sample btree_inv_empty] comparison_correct [OF sample(1) btree_inv_empty sample(2)]
  by (simp add: sample_contents)

end
