(* ===== verification/BTreeEraseIter.thy ===== *)
theory BTreeEraseIter
  imports BTreeEraseCorrect BTreeInsert BTreeIter
begin

text \<open>
  Deletion of the pair an iterator points to: \<open>erase(iterator)\<close> and \<open>erase_iter_descend\<close>. The
  iterator knows only its leaf, so the descent searches all subtrees that can hold its key.
  The treatment of the leaf and of an inner node after the recursive call is the code of
  \<open>erase_one_descend\<close> again and is shared with it (\<open>erase_from_leaf\<close>, \<open>erase_inner_after\<close>).

  A call that returns \<open>btree_not_found\<close> has changed nothing, so the search goes on with the
  arguments it had. \<open>iter.key()\<close> is read from the leaf when the descent reaches an inner node;
  it is \<open>None\<close> for an iterator that points behind the used slots.
\<close>

section \<open>Definitions\<close>

lemma size_drop_le [termination_simp]: "size_list size (drop n cs) \<le> size_list size cs"
  by (induction cs arbitrary: n) (auto simp: drop_Cons' le_SucI trans_le_add2)

definition iter_not_found ::
  "('k, 'v) btree \<Rightarrow> ('k, 'v) node \<Rightarrow> ('k, 'v) node option \<Rightarrow> ('k, 'v) node option \<Rightarrow> 'k list \<Rightarrow> ('k, 'v) eres" where
  "iter_not_found b cur left right pkeys =
     \<lparr>e_tree = b, e_res = btree_not_found, e_curr = cur, e_left = left, e_right = right, e_pkeys = pkeys, e_root = None\<rparr>"

definition erase_iter_leaf ::
  "traits \<Rightarrow> ('k, 'v) btree \<Rightarrow> iterator \<Rightarrow> bool \<Rightarrow> addr \<Rightarrow> ('k \<times> 'v) list \<Rightarrow>
   ('k, 'v) node option \<Rightarrow> ('k, 'v) node option \<Rightarrow> nat list option \<Rightarrow> nat list option \<Rightarrow>
   nat list option \<Rightarrow> nat \<Rightarrow> 'k list \<Rightarrow> ('k, 'v) eres option" where
  "erase_iter_leaf T b it isroot a kvs left right leftparent rightparent parent parentslot pkeys =
     (if Some a \<noteq> fst it then Some (iter_not_found b (Leaf a kvs) left right pkeys)
      else if snd it \<ge> length kvs then Some (iter_not_found b (Leaf a kvs) left right pkeys)
      else erase_from_leaf T b isroot a kvs (snd it) left right leftparent rightparent parent parentslot pkeys)"

fun erase_iter_descend ::
    "traits \<Rightarrow> ('k::linorder, 'v) btree \<Rightarrow> iterator \<Rightarrow> 'k option \<Rightarrow> nat list \<Rightarrow> ('k, 'v) node \<Rightarrow>
     ('k, 'v) node option \<Rightarrow> ('k, 'v) node option \<Rightarrow> nat list option \<Rightarrow> nat list option \<Rightarrow>
     nat list option \<Rightarrow> nat \<Rightarrow> 'k list \<Rightarrow> ('k, 'v) eres option"
  and erase_iter_slots ::
    "traits \<Rightarrow> ('k::linorder, 'v) btree \<Rightarrow> iterator \<Rightarrow> 'k option \<Rightarrow> nat list \<Rightarrow> 'k list \<Rightarrow> ('k, 'v) node list \<Rightarrow>
     ('k, 'v) node list \<Rightarrow> nat \<Rightarrow> ('k, 'v) node option \<Rightarrow> ('k, 'v) node option \<Rightarrow> nat list option \<Rightarrow> nat list option \<Rightarrow>
     (nat \<times> ('k, 'v) eres) option option" where
  "erase_iter_descend T b it ikey path (Leaf a kvs) left right leftparent rightparent parent parentslot pkeys =
     erase_iter_leaf T b it (path = []) a kvs left right leftparent rightparent parent parentslot pkeys"
| "erase_iter_descend T b it ikey path (Inner l ks cs) left right leftparent rightparent parent parentslot pkeys =
     do { key \<leftarrow> ikey;
          let slot = find_lower ks key;
          found \<leftarrow> erase_iter_slots T b it ikey path ks cs (drop slot cs) slot left right leftparent rightparent;
          case found of
            None \<Rightarrow> Some (iter_not_found b (Inner l ks cs) left right pkeys)
          | Some (slot', r) \<Rightarrow>
              erase_inner_after T (path = []) l cs (length ks) slot' left right leftparent rightparent
                parent parentslot pkeys r }"
| "erase_iter_slots T b it ikey path ks cs [] slot left right leftparent rightparent =
     (if slot > length ks then Some None else None)"
| "erase_iter_slots T b it ikey path ks cs (child # rest) slot left right leftparent rightparent =
     do { key \<leftarrow> ikey;
          myleft \<leftarrow> my_left cs slot left;
          let myleftparent = (if slot = 0 then leftparent else Some path);
          myright \<leftarrow> my_right ks cs slot right;
          let myrightparent = (if slot = length ks then rightparent else Some path);
          r \<leftarrow> erase_iter_descend T b it ikey (path @ [slot]) child myleft myright
                 myleftparent myrightparent (Some path) slot ks;
          if \<not> not_found (e_res r) then Some (Some (slot, r))
          else if slot < length ks \<and> key_less (ks ! slot) key then Some None
          else erase_iter_slots T b it ikey path ks cs rest (slot + 1) left right leftparent rightparent }"

definition erase_iter :: "traits \<Rightarrow> ('k::linorder, 'v) btree \<Rightarrow> iterator \<Rightarrow> ('k, 'v) btree option" where
  "erase_iter T b it =
     (case m_root b of
        None \<Rightarrow> Some b
      | Some root \<Rightarrow>
          do { r \<leftarrow> erase_iter_descend T b it (it_key b it) [] root None None None None None 0 [];
               let b1 = (e_tree r)\<lparr>m_root := (case e_root r of None \<Rightarrow> Some (e_curr r) | Some x \<Rightarrow> x)\<rparr>;
               Some (if not_found (e_res r) then b1
                     else b1\<lparr>m_stats := (m_stats b1)\<lparr>itemcount := itemcount (m_stats b1) - 1\<rparr>\<rparr>) })"

section \<open>Agreement with deletion by key\<close>

lemma res_or_not_found [simp]: "not_found (res_or r s) \<longleftrightarrow> not_found r \<or> not_found s"
  by (simp add: res_or_def)

lemma shift_left_leaf_found: "shift_left_leaf T l r pk i = Some (l', r', pk', s) \<Longrightarrow> \<not> not_found s"
  by (cases "(T, l, r, pk, i)" rule: shift_left_leaf.cases)
     (auto simp: Let_def btree_ok_def btree_update_lastkey_def split: if_splits bind_splits)

lemma underflow_leaf_found:
  "underflow_leaf T r lp rp par i = Some r' \<Longrightarrow> \<not> not_found (e_res r) \<Longrightarrow> \<not> not_found (e_res r')"
  by (auto simp: underflow_leaf_def btree_ok_def btree_fixmerge_def dest: shift_left_leaf_found
      split: bind_splits underflow_action.splits)

lemma underflow_inner_found:
  "underflow_inner T r lp rp par i = Some r' \<Longrightarrow> \<not> not_found (e_res r) \<Longrightarrow> \<not> not_found (e_res r')"
  by (auto simp: underflow_inner_def btree_ok_def btree_fixmerge_def
      split: bind_splits underflow_action.splits node.splits)

lemma erase_from_leaf_found:
  "erase_from_leaf T b isroot a kvs slot left right lp rp par i pk = Some r \<Longrightarrow> \<not> not_found (e_res r)"
  by (auto simp: erase_from_leaf_def Let_def btree_ok_def btree_update_lastkey_def dest!: underflow_leaf_found
      split: bind_splits if_splits)

lemma erase_inner_after_found:
  "erase_inner_after T isroot l cs m slot left right lp rp par i pk r = Some r' \<Longrightarrow> \<not> not_found (e_res r) \<Longrightarrow>
   \<not> not_found (e_res r')"
  by (auto simp: erase_inner_after_def Let_def btree_ok_def btree_update_lastkey_def dest!: underflow_inner_found
      split: bind_splits if_splits)

lemma find_lower_nth:
  assumes "ksorted kvs" "s < length kvs" shows "find_lower (keys_of kvs) (fst (kvs ! s)) = s"
proof -
  let ?f = "find_lower (keys_of kvs) (fst (kvs ! s))"
  have "fst (kvs ! s) \<in> set (keys_of kvs)" using assms(2) by simp
  then have "?f < length kvs \<and> fst (kvs ! s) = fst (kvs ! ?f)"
    using find_lower_miss [OF assms(1) refl, of "fst (kvs ! s)"] by blast
  then show ?thesis using assms ksorted_distinct [OF assms(1)] nth_eq_iff_index_eq [of "keys_of kvs" ?f s] by simp
qed

lemma leaf_keys: "(a, kvs) \<in> set (leaf_list n) \<Longrightarrow> set kvs \<subseteq> set (contents n)"
  by (auto simp: contents_leaf_list)

text \<open>The child that the slot search selects is the one that holds the leaf of the iterator.\<close>

lemma leaf_in_child:
  assumes so: "ksorted (contents_list (as @ c # bs))" and leaf: "(a, kvs) \<in> set (leaf_lists (as @ c # bs))"
    and s: "s < length kvs" and lo: "\<forall>x \<in> set (contents_list as). fst x < fst (kvs ! s)"
    and hi: "bs \<noteq> [] \<Longrightarrow> fst (kvs ! s) \<le> last_key c" and ne: "contents c \<noteq> []"
  shows "(a, kvs) \<in> set (leaf_list c)"
proof -
  have x: "kvs ! s \<in> set kvs" using s by simp
  have "(a, kvs) \<notin> set (leaf_list d)" if "d \<in> set as" for d
    using lo x leaf_keys [of a kvs d] that by fastforce
  moreover have "(a, kvs) \<notin> set (leaf_list d)" if d: "d \<in> set bs" for d
  proof
    assume "(a, kvs) \<in> set (leaf_list d)"
    then have "kvs ! s \<in> set (contents_list bs)" using leaf_keys [of a kvs d] x d by auto
    moreover have "last (contents c) \<in> set (contents c)" using ne by simp
    ultimately have "last_key c < fst (kvs ! s)" using so by (auto simp: sorted_wrt_append last_key_def)
    with hi d show False by (cases bs) auto
  qed
  ultimately show ?thesis using leaf by auto
qed

lemma erase_iter_agrees:
  assumes T: "traits_ok T"
  shows "node_ok T lo h n \<Longrightarrow> ksorted (contents n) \<Longrightarrow> distinct (map fst (leaf_list n)) \<Longrightarrow>
    (a, kvs) \<in> set (leaf_list n) \<Longrightarrow> s < length kvs \<Longrightarrow>
    erase_iter_descend T b (Some a, s) (Some (fst (kvs ! s))) path n left right lp rp par i pk =
      erase_one_descend T b (fst (kvs ! s)) path n left right lp rp par i pk \<and>
    (\<forall>r. erase_one_descend T b (fst (kvs ! s)) path n left right lp rp par i pk = Some r \<longrightarrow> \<not> not_found (e_res r))"
proof (induction h arbitrary: n lo path left right lp rp par i pk)
  case 0
  then have n: "n = Leaf a kvs" and so: "ksorted kvs" by (auto simp: node_ok_0)
  show ?case using 0 find_lower_nth [OF so]
    by (auto simp: n erase_iter_leaf_def Let_def dest: erase_from_leaf_found)
next
  case (Suc h)
  let ?k = "fst (kvs ! s)"
  from Suc.prems(1) obtain cs where n: "n = Inner (Suc h) (seps cs) cs" by (auto simp: node_ok_Suc)
  define slot where "slot = find_lower (seps cs) ?k"
  have so: "ksorted (contents_list cs)" using Suc.prems(2) by (simp add: n)
  obtain as c bs where
    cs: "cs = as @ c # bs" "length as = slot" "\<forall>x \<in> set (contents_list as). fst x < ?k"
    and hi: "bs \<noteq> [] \<longrightarrow> ?k \<le> last_key c" and ok: "node_ok T (min_at T h) h c"
    using inner_slot_split [OF T Suc.prems(1) [unfolded n] so slot_def] by metis
  have leaf: "(a, kvs) \<in> set (leaf_list c)"
    by (rule leaf_in_child [OF so [unfolded cs(1)] _ Suc.prems(5) cs(3) mp [OF hi]])
       (use Suc.prems(4) T ok contents_nonempty [OF T ok] in \<open>auto simp: n cs(1)\<close>)
  have dist: "distinct (map fst (leaf_list c))" using Suc.prems(3) by (simp add: n cs(1))
  note IH = Suc.IH [OF ok ksorted_contents_child [OF so [unfolded cs(1)]] dist leaf Suc.prems(5)]
  have dr: "drop slot cs = c # bs" "rd cs slot = Some c" using cs(1,2) by auto
  show ?case
  proof (cases "\<exists>ml mr. my_left cs slot left = Some ml \<and> my_right (seps cs) cs slot right = Some mr")
    case False
    then consider "my_left cs slot left = None"
      | ml where "my_left cs slot left = Some ml" "my_right (seps cs) cs slot right = None"
      by (cases "my_left cs slot left"; cases "my_right (seps cs) cs slot right") auto
    then show ?thesis by cases (simp_all add: n slot_def [symmetric] dr Let_def)
  next
    case True
    then obtain ml mr where m: "my_left cs slot left = Some ml" "my_right (seps cs) cs slot right = Some mr" by blast
    let ?X = "erase_one_descend T b ?k (path @ [slot]) c ml mr (if slot = 0 then lp else Some path)
      (if slot = length (seps cs) then rp else Some path) (Some path) slot (seps cs)"
    note I = IH [of "path @ [slot]" ml mr "if slot = 0 then lp else Some path"
      "if slot = length (seps cs) then rp else Some path" "Some path" slot "seps cs"]
    show ?thesis
    proof (cases ?X)
      case None
      with I m show ?thesis by (simp add: n slot_def [symmetric] dr Let_def)
    next
      case (Some r)
      then have nf: "\<not> not_found (e_res r)" using I by blast
      with I m Some show ?thesis
        by (auto simp: n slot_def [symmetric] dr Let_def dest: erase_inner_after_found)
    qed
  qed
qed

lemma erase_iter_is_erase_one:
  assumes T: "traits_ok T" and inv: "btree_inv T b" and leaf: "(a, kvs) \<in> set (tree_leaves b)" and s: "s < length kvs"
  shows "erase_iter T b (Some a, s) = map_option fst (erase_one T b (fst (kvs ! s)))"
proof -
  obtain n where n: "m_root b = Some n" using leaf by (cases "m_root b") (auto simp: tree_leaves_def)
  have ok: "node_ok T 1 (level n) n" "ksorted (contents n)" and ch: "distinct (map fst (leaf_list n))"
    using inv n by (auto simp: btree_inv_defs chain_def)
  have l: "(a, kvs) \<in> set (leaf_list n)" using leaf n by (simp add: tree_leaves_def)
  have "leaf_at b a = Some kvs" using ch l n by (simp add: leaf_at_def tree_leaves_def)
  then have "it_key b (Some a, s) = Some (fst (kvs ! s))" using s by (simp add: it_key_def)
  then show ?thesis
    using erase_iter_agrees [OF T ok ch l s, of b "[]" None None None None None 0 "[]"]
    by (auto simp: erase_iter_def erase_one_def n Let_def split: bind_splits)
qed

section \<open>Range insertion\<close>

text \<open>\<open>insert(first, last)\<close> and the range constructor.\<close>

fun insert_range :: "traits \<Rightarrow> ('k::linorder, 'v) btree \<Rightarrow> ('k \<times> 'v) list \<Rightarrow> ('k, 'v) btree option" where
  "insert_range T b [] = Some b"
| "insert_range T b ((k, v) # xs) = do { (b', it, ins) \<leftarrow> insert_start T b k v; insert_range T b' xs }"

definition range_construct :: "traits \<Rightarrow> ('k::linorder \<times> 'v) list \<Rightarrow> ('k, 'v) btree option" where
  "range_construct T xs = insert_range T empty_btree xs"

lemma insert_range_ok:
  assumes "traits_ok T"
  shows "btree_inv T b \<Longrightarrow> \<exists>b'. insert_range T b xs = Some b' \<and> btree_inv T b' \<and>
    tree_contents b' = fold (\<lambda>(k, v). ins_kv k v) xs (tree_contents b)"
proof (induction xs arbitrary: b)
  case (Cons x xs)
  obtain k v where x: "x = (k, v)" by (cases x)
  from insert_start_ok [OF assms Cons.prems, of k v] obtain b1 it ins where
    "insert_start T b k v = Some (b1, it, ins)" "btree_inv T b1" "tree_contents b1 = ins_kv k v (tree_contents b)"
    by (auto simp: insert_ok_def)
  with Cons.IH [of b1] show ?case by (simp add: x)
qed simp

section \<open>Main theorems\<close>

text \<open>
  C27: deleting through an iterator that points to position \<open>p\<close> of the sorted contents keeps the
  invariant, removes exactly the pair at \<open>p\<close>, and leaves the same object as deleting its key.
\<close>

theorem erase_iter_correct:
  assumes "traits_ok T" "btree_inv T b" "it_at b it p" "p < size_of b"
  shows "\<exists>b'. erase_iter T b it = Some b' \<and> btree_inv T b' \<and>
    tree_contents b' = take p (tree_contents b) @ drop (Suc p) (tree_contents b) \<and>
    erase_one T b (fst (tree_contents b ! p)) = Some (b', True)"
proof -
  note ok = btree_inv_leaves_ok [OF assms(1,2)]
  have p: "p < length (tree_contents b)" using assms(2,4) by (simp add: size_of_ok)
  from it_at_inside [OF ok assms(3) p] obtain A a kvs B s where
    it: "tree_leaves b = A @ (a, kvs) # B" "it = (Some a, s)" "s < length kvs"
    "p = length (concat (map snd A)) + s" "tree_contents b ! p = kvs ! s" "leaf_at b a = Some kvs" .
  have so: "ksorted (tree_contents b)" using assms(2) by (simp add: btree_inv_def)
  have "tree_contents b = take p (tree_contents b) @ (fst (tree_contents b ! p), snd (tree_contents b ! p)) # drop (Suc p) (tree_contents b)"
    using p by (simp add: id_take_nth_drop [symmetric])
  moreover have "\<forall>x \<in> set (take p (tree_contents b)). fst x < fst (tree_contents b ! p)"
    using so p by (auto simp: in_set_conv_nth sorted_wrt_iff_nth_less) (metis fst_conv)
  ultimately have "del_kv (fst (tree_contents b ! p)) (tree_contents b) = take p (tree_contents b) @ drop (Suc p) (tree_contents b)"
    by (metis del_kv_mid)
  then show ?thesis
    using erase_one_ok [OF assms(1,2), of "fst (tree_contents b ! p)"] p it
      erase_iter_is_erase_one [OF assms(1,2), of a kvs s]
    by (auto simp: erase_ok_def simp del: set_map) (metis length_map nth_map nth_mem)+
qed

lemma map_of_fold_ins:
  "ksorted ys \<Longrightarrow> map_of (fold (\<lambda>(k, v). ins_kv k v) xs ys) = map_of xs ++ map_of ys"
proof (induction xs arbitrary: ys)
  case (Cons x xs)
  obtain k v where x: "x = (k, v)" by (cases x)
  have "map_of xs ++ map_of (ins_kv k v ys) = map_of (x # xs) ++ map_of ys"
  proof (cases "map_of ys k")
    case None
    then have "k \<notin> set (keys_of ys)" by (simp add: map_of_eq_None_keys)
    with None show ?thesis by (auto simp: x map_of_ins_kv [OF Cons.prems] map_add_def fun_eq_iff split: option.split)
  next
    case (Some w)
    then have "k \<in> set (keys_of ys)" using map_of_eq_None_keys [of ys k] by auto
    with Some show ?thesis by (auto simp: x map_of_ins_kv [OF Cons.prems] map_add_def fun_eq_iff simp del: set_map split: option.split)
  qed
  with Cons.IH [OF ksorted_ins_kv [OF Cons.prems], of k v] show ?case by (simp only: x fold_simps prod.case)
qed simp

text \<open>
  The range constructor inserts the pairs one by one into an empty tree; the result is well
  formed and, of several pairs with the same key, keeps the first.
\<close>

theorem range_construct_correct:
  assumes "traits_ok T"
  shows "\<exists>b. range_construct T xs = Some b \<and> btree_inv T b \<and> map_of (tree_contents b) = map_of xs"
  using insert_range_ok [OF assms btree_inv_empty, of xs] by (auto simp: range_construct_def map_of_fold_ins)

theorem range_construct_correct_witness:
  "\<exists>b. range_construct sample_traits [(3, 30), (1, 10), (3, 31)] = Some b \<and> btree_inv sample_traits b \<and>
    map_of (tree_contents b) (3::nat) = Some (30::nat)"
  using range_construct_correct [OF sample_traits_ok, of "[(3::nat, 30::nat), (1, 10), (3, 31)]"] by auto

theorem erase_iter_correct_witness:
  "\<exists>b'. erase_iter sample_traits sample_btree (Some 0, 3) = Some b' \<and> btree_inv sample_traits b' \<and>
    tree_contents b' = [(1, 10), (2, 20), (3, 30), (5, 50), (6, 60), (7, 70), (8, 80)]"
  using erase_iter_correct [OF sample, of "(Some 0, 3)" 3] sample_it_at by (auto simp: sample_contents sample_size)

end
