(* ===== verification/BTreeBulk.thy ===== *)
theory BTreeBulk
  imports BTreeInv
begin

text \<open>
  The bulk loader of the STX B+ tree, \<open>bulk_load\<close>: the sorted pairs are cut into leaves of
  nearly equal size, the leaves into inner nodes of level 1, and so on until one node is left.
  Each of the three loops takes \<open>n div r\<close> items for the next of the \<open>r\<close> remaining nodes.

  The leaf chain is walked in the order in which the leaves have just been linked, so the
  inner loops consume the list of the nodes below, each with the largest key under it (the
  array \<open>nextlevel\<close>). \<open>None\<close> is a node that would overflow its arrays or have no child, or a
  loop over the levels that does not end.
\<close>

section \<open>Definitions\<close>

text \<open>Linking a new leaf behind the last one.\<close>

definition append_leaf :: "('k, 'v) btree \<Rightarrow> addr \<Rightarrow> ('k, 'v) btree" where
  "append_leaf b a =
     (case m_tailleaf b of
        Some t \<Rightarrow> b\<lparr>nextleaf := (nextleaf b)(t := Some a), prevleaf := (prevleaf b)(a := Some t),
                    m_tailleaf := Some a\<rparr>
      | None \<Rightarrow> b\<lparr>m_headleaf := Some a, m_tailleaf := Some a\<rparr>)"

fun bulk_leaves ::
  "traits \<Rightarrow> ('k, 'v) btree \<Rightarrow> nat \<Rightarrow> nat \<Rightarrow> ('k \<times> 'v) list \<Rightarrow> (('k, 'v) btree \<times> ('k, 'v) node list) option" where
  "bulk_leaves T b num_items 0 xs = Some (b, [])"
| "bulk_leaves T b num_items (Suc r) xs =
     (let (b1, a) = allocate_leaf b; n = num_items div Suc r in
      if n > leafslotmax T \<or> n > length xs then None
      else do { (b2, ls) \<leftarrow> bulk_leaves T (append_leaf b1 a) (num_items - n) r (drop n xs);
                Some (b2, Leaf a (take n xs) # ls) })"

text \<open>The leaves with their last keys.\<close>

fun max_keys :: "('k, 'v) node list \<Rightarrow> (('k, 'v) node \<times> 'k) list option" where
  "max_keys [] = Some []"
| "max_keys (Leaf a kvs # ls) =
     do { k \<leftarrow> rd (keys_of kvs) (length kvs - 1); xs \<leftarrow> max_keys ls; Some ((Leaf a kvs, k) # xs) }"
| "max_keys (Inner l ks cs # ls) = None"

text \<open>One level of inner nodes above \<open>xs\<close>.\<close>

fun bulk_parents ::
  "traits \<Rightarrow> nat \<Rightarrow> ('k, 'v) btree \<Rightarrow> nat \<Rightarrow> nat \<Rightarrow> (('k, 'v) node \<times> 'k) list \<Rightarrow>
   (('k, 'v) btree \<times> (('k, 'v) node \<times> 'k) list) option" where
  "bulk_parents T lvl b num_children 0 xs = Some (b, [])"
| "bulk_parents T lvl b num_children (Suc r) xs =
     (let n = num_children div Suc r in
      if n = 0 \<or> n > innerslotmax T + 1 \<or> n > length xs then None
      else
        do { (b1, ys) \<leftarrow> bulk_parents T lvl (allocate_inner b) (num_children - n) r (drop n xs);
             Some (b1, (Inner lvl (map snd (take (n - 1) xs)) (map fst (take n xs)), snd (xs ! (n - 1))) # ys) })"

definition num_parents :: "traits \<Rightarrow> nat \<Rightarrow> nat" where
  "num_parents T n = (n + (innerslotmax T + 1) - 1) div (innerslotmax T + 1)"

fun bulk_levels ::
  "traits \<Rightarrow> nat \<Rightarrow> nat \<Rightarrow> ('k, 'v) btree \<Rightarrow> (('k, 'v) node \<times> 'k) list \<Rightarrow> (('k, 'v) btree \<times> ('k, 'v) node) option" where
  "bulk_levels T fuel lvl b xs =
     (if length xs = 1 then Some (b, fst (xs ! 0))
      else case fuel of
             0 \<Rightarrow> None
           | Suc fuel' \<Rightarrow>
               do { (b1, ys) \<leftarrow> bulk_parents T lvl b (length xs) (num_parents T (length xs)) xs;
                    bulk_levels T fuel' (lvl + 1) b1 ys })"

declare bulk_levels.simps [simp del]

definition bulk_load :: "traits \<Rightarrow> ('k, 'v) btree \<Rightarrow> ('k \<times> 'v) list \<Rightarrow> ('k, 'v) btree option" where
  "bulk_load T b xs =
     (let b0 = b\<lparr>m_stats := (m_stats b)\<lparr>itemcount := length xs\<rparr>\<rparr>;
          num_leaves = (length xs + leafslotmax T - 1) div leafslotmax T
      in do { (b1, ls) \<leftarrow> bulk_leaves T b0 (length xs) num_leaves xs;
              if m_headleaf b1 = m_tailleaf b1
              then Some (b1\<lparr>m_root := (case ls of [] \<Rightarrow> None | l # _ \<Rightarrow> Some l)\<rparr>)
              else
                do { nextlevel \<leftarrow> max_keys ls;
                     (b2, ys) \<leftarrow> bulk_parents T 1 b1 num_leaves (num_parents T num_leaves) nextlevel;
                     (b3, root) \<leftarrow> bulk_levels T (length ys) 2 b2 ys;
                     Some (b3\<lparr>m_root := Some root\<rparr>) } })"

section \<open>Even distribution\<close>

text \<open>If each node can get between \<open>q\<close> and \<open>c\<close> items, then so it does, and so can the rest.\<close>

lemma even_split:
  assumes "q * Suc r \<le> n" "n \<le> c * Suc r"
  shows "q \<le> n div Suc r" "n div Suc r \<le> c"
    "q * r \<le> n - n div Suc r" "n - n div Suc r \<le> c * r" "n div Suc r \<le> n"
proof -
  define d where "d = n div Suc r"
  have lo: "d * Suc r \<le> n" and hi: "n < Suc d * Suc r"
    unfolding d_def by (metis div_times_less_eq_dividend, metis dividend_less_div_times zero_less_Suc mult_Suc add.commute)
  show 1: "q \<le> n div Suc r" using assms(1) by (simp add: less_eq_div_iff_mult_less_eq)
  show 2: "n div Suc r \<le> c" using assms(2) by (metis div_le_mono div_mult_self_is_m mult.commute zero_less_Suc nonzero_mult_div_cancel_left nat.distinct(1))
  have "q * r \<le> d * r" using 1 by (simp add: d_def)
  moreover have "d + d * r \<le> n" using lo by simp
  ultimately show "q * r \<le> n - n div Suc r" unfolding d_def [symmetric] by linarith
  show "n - n div Suc r \<le> c * r"
  proof (cases "d = c")
    case True
    then show ?thesis using assms(2) by (simp add: d_def)
  next
    case False
    with 2 have "Suc d \<le> c" by (simp add: d_def)
    then have "Suc d * r \<le> c * r" by (rule mult_le_mono1)
    then show ?thesis using hi by (simp add: d_def)
  qed
  show "n div Suc r \<le> n" by simp
qed

text \<open>Rounding up gives enough nodes, and no more than can be half full.\<close>

lemma round_up_bounds:
  fixes n c r :: nat
  assumes "0 < c" "r = (n + c - 1) div c"
  shows "n \<le> c * r" "0 < n \<Longrightarrow> 0 < r" "2 \<le> r \<Longrightarrow> (c + 1) div 2 * r \<le> n"
proof -
  have r: "r * c \<le> n + c - 1" "n + c - 1 < r * c + c"
    unfolding assms(2) using dividend_less_div_times [OF assms(1), of "n + c - 1"] by (simp_all add: add.commute)
  show "n \<le> c * r" using r(2) by (simp add: mult.commute)
  show "0 < r" if "0 < n" using that r(2) assms(1) by (cases r) auto
  show "(c + 1) div 2 * r \<le> n" if "2 \<le> r"
  proof -
    from le_Suc_ex [OF that] obtain s where s: "r = 2 + s" by blast
    have "(c + 1) div 2 * 2 \<le> c + 1" by simp
    moreover have "(c + 1) div 2 * s \<le> c * s" using assms(1) by (intro mult_le_mono1) simp
    moreover have "c * s + c + 1 \<le> n" using r(1) assms(1) by (simp add: s algebra_simps)
    ultimately show ?thesis unfolding s add_mult_distrib2 by linarith
  qed
qed

section \<open>The leaves\<close>

lemma append_leaf_chain:
  assumes "chain b as" "allocate_leaf b = (b1, a)"
  shows "chain (append_leaf b1 a) (as @ [a])" "m_root (append_leaf b1 a) = m_root b"
    "m_stats (append_leaf b1 a) = (m_stats b)\<lparr>leaves := Suc (leaves (m_stats b))\<rparr>"
proof -
  from assms(2) have a: "a = next_addr b" and b1: "next_addr b1 = Suc (next_addr b)" "m_tailleaf b1 = m_tailleaf b"
    "m_headleaf b1 = m_headleaf b" "nextleaf b1 = (nextleaf b)(a := None)" "prevleaf b1 = (prevleaf b)(a := None)"
    "m_root b1 = m_root b" "m_stats b1 = (m_stats b)\<lparr>leaves := Suc (leaves (m_stats b))\<rparr>"
    by (auto simp: allocate_leaf_def Let_def)
  have na: "a \<notin> set as" using assms(1) by (auto simp: chain_def a)
  show "chain (append_leaf b1 a) (as @ [a])"
  proof (cases as rule: rev_cases)
    case Nil
    then show ?thesis using assms(1) by (auto simp: chain_def append_leaf_def b1 a)
  next
    case (snoc r t)
    have ne: "a \<noteq> t" "t \<notin> set r" using na assms(1) snoc by (auto simp: chain_def)
    have t: "m_tailleaf b = Some t" using assms(1) snoc by (simp add: chain_def)
    let ?b = "append_leaf b1 a"
    have nx: "nextleaf ?b = (nextleaf b)(a := None, t := Some a)" and pv: "prevleaf ?b = (prevleaf b)(a := Some t)"
      and o: "next_addr ?b = Suc (next_addr b)" "m_headleaf ?b = m_headleaf b" "m_tailleaf ?b = Some a"
      using t by (auto simp: append_leaf_def b1)
    have "dll (nextleaf ?b) (prevleaf ?b) None r (Some t) = dll (nextleaf b) (prevleaf b) None r (Some t)"
      by (rule dll_cong) (use na ne snoc in \<open>auto simp: nx pv\<close>)
    moreover have "dll (nextleaf b) (prevleaf b) None (r @ [t]) None" using assms(1) snoc by (simp add: chain_def)
    ultimately have "dll (nextleaf ?b) (prevleaf ?b) None (as @ [a]) None"
      using ne(1) by (simp add: snoc dll_append nx pv)
    moreover have "m_headleaf b = (case as @ [a] of [] \<Rightarrow> None | x # _ \<Rightarrow> Some x)"
      using assms(1) snoc by (cases r) (auto simp: chain_def)
    moreover have "distinct (as @ [a])" "\<forall>x \<in> set (as @ [a]). x < Suc (next_addr b)"
      using assms(1) na by (auto simp: chain_def a less_SucI)
    ultimately show ?thesis unfolding chain_def o by simp
  qed
  show "m_root (append_leaf b1 a) = m_root b"
    "m_stats (append_leaf b1 a) = (m_stats b)\<lparr>leaves := Suc (leaves (m_stats b))\<rparr>"
    by (simp_all add: append_leaf_def b1 split: option.split)
qed

lemma bulk_leaves_ok:
  assumes "q * r \<le> length xs" "length xs \<le> leafslotmax T * r" "chain b as"
  shows "\<exists>b' ls. bulk_leaves T b (length xs) r xs = Some (b', ls) \<and> length ls = r \<and>
    contents_list ls = xs \<and> (\<forall>l \<in> set ls. node_ok T q 0 l) \<and>
    chain b' (as @ map fst (leaf_lists ls)) \<and> length (leaf_lists ls) = r \<and> sum_list (map count_inner ls) = 0 \<and>
    m_stats b' = (m_stats b)\<lparr>leaves := leaves (m_stats b) + r\<rparr>"
  using assms
proof (induction r arbitrary: b as xs)
  case 0
  then show ?case by simp
next
  case (Suc r)
  note ev = even_split [OF Suc.prems(1,2)]
  define n where "n = length xs div Suc r"
  obtain b1 a where al: "allocate_leaf b = (b1, a)" by (cases "allocate_leaf b")
  note app = append_leaf_chain [OF Suc.prems(3) al]
  have len: "length (drop n xs) = length xs - n" by simp
  from Suc.IH [of "drop n xs", OF _ _ app(1)] ev obtain b' ls where
    r: "bulk_leaves T (append_leaf b1 a) (length xs - n) r (drop n xs) = Some (b', ls)" "length ls = r"
    "contents_list ls = drop n xs" "\<forall>l \<in> set ls. node_ok T q 0 l"
    "chain b' ((as @ [a]) @ map fst (leaf_lists ls))" "length (leaf_lists ls) = r" "sum_list (map count_inner ls) = 0"
    "m_stats b' = (m_stats (append_leaf b1 a))\<lparr>leaves := leaves (m_stats (append_leaf b1 a)) + r\<rparr>"
    unfolding len n_def [symmetric] by blast
  have "bulk_leaves T b (length xs) (Suc r) xs = Some (b', Leaf a (take n xs) # ls)"
    using r(1) ev(2,5) by (simp add: al n_def Let_def not_less)
  moreover have "n \<le> length xs" using ev(5) by (simp only: n_def)
  then have "length (take n xs) = n" by simp
  then have "node_ok T q 0 (Leaf a (take n xs))" using ev(1,2) by (simp add: n_def)
  ultimately show ?case using r(2-8) app(3) by auto
qed

section \<open>The inner levels\<close>

text \<open>The nodes of one level with the largest keys below them, and what they hold.\<close>

definition level_ok :: "traits \<Rightarrow> nat \<Rightarrow> nat \<Rightarrow> (('k, 'v) node \<times> 'k) list \<Rightarrow> bool" where
  "level_ok T lo h xs \<longleftrightarrow> (\<forall>x \<in> set xs. node_ok T lo h (fst x) \<and> snd x = last_key (fst x))"

lemma max_keys_ok:
  assumes "\<forall>l \<in> set ls. node_ok T q 0 l" "0 < q"
  shows "max_keys ls = Some (map (\<lambda>l. (l, last_key l)) ls)"
  using assms
proof (induction ls)
  case (Cons l ls)
  then obtain a kvs where l: "l = Leaf a kvs" "q \<le> length kvs" by (auto simp: node_ok_0)
  with Cons.prems(2) have "kvs \<noteq> []" by auto
  then show ?case using Cons l by (simp add: last_key_def last_conv_nth)
qed simp

lemma bulk_parent_node:
  assumes T: "traits_ok T" and xs: "level_ok T (min_at T h) h xs" and n: "lo < n" "n \<le> innerslotmax T + 1" "n \<le> length xs"
  defines "m \<equiv> Inner (Suc h) (map snd (take (n - 1) xs)) (map fst (take n xs))"
  shows "node_ok T lo (Suc h) m" "snd (xs ! (n - 1)) = last_key m"
proof -
  let ?cs = "map fst (take n xs)"
  have sep: "map snd (take (n - 1) xs) = seps ?cs"
  proof -
    have "seps ?cs = map last_key (map fst (take (n - 1) xs))"
      by (simp only: map_butlast [symmetric] butlast_take [OF n(3)])
    then show ?thesis using xs by (auto simp: level_ok_def dest: in_set_takeD)
  qed
  have ok: "\<forall>c \<in> set ?cs. node_ok T (min_at T h) h c" using xs by (auto simp: level_ok_def dest: in_set_takeD)
  have ne: "?cs \<noteq> []" using n by auto
  show "node_ok T lo (Suc h) m" unfolding m_def sep using n ok by (simp add: min_def)
  have "last ?cs = fst (xs ! (n - 1))" using n last_take [of n xs] by (subst last_map) auto
  moreover have "last_key m = last_key (last ?cs)" unfolding m_def
    using ne children_nonempty [OF T ok last_in_set [OF ne]] by (intro last_key_Inner) auto
  moreover have "xs ! (n - 1) \<in> set xs" using n by simp
  ultimately show "snd (xs ! (n - 1)) = last_key m" using xs by (simp add: level_ok_def)
qed

lemma bulk_parents_ok:
  assumes T: "traits_ok T" and "level_ok T (min_at T h) h xs"
    and "Suc lo * r \<le> length xs" "length xs \<le> Suc (innerslotmax T) * r"
  shows "\<exists>b' ys. bulk_parents T (Suc h) b (length xs) r xs = Some (b', ys) \<and> length ys = r \<and> level_ok T lo (Suc h) ys \<and>
    contents_list (map fst ys) = contents_list (map fst xs) \<and> leaf_lists (map fst ys) = leaf_lists (map fst xs) \<and>
    sum_list (map count_inner (map fst ys)) = r + sum_list (map count_inner (map fst xs)) \<and>
    (\<forall>as. chain b as \<longrightarrow> chain b' as) \<and>
    m_stats b' = (m_stats b)\<lparr>innernodes := innernodes (m_stats b) + r\<rparr> \<and> m_headleaf b' = m_headleaf b \<and> m_tailleaf b' = m_tailleaf b"
  using assms(2-4)
proof (induction r arbitrary: b xs)
  case 0
  then show ?case by (simp add: level_ok_def)
next
  case (Suc r)
  note ev = even_split [OF Suc.prems(2,3)]
  define n where "n = length xs div Suc r"
  have n: "lo < n" "n \<le> innerslotmax T + 1" "n \<le> length xs" "n \<noteq> 0" using ev(1,2,5) by (simp_all add: n_def [symmetric])
  have len: "length (drop n xs) = length xs - n" by simp
  have lv: "level_ok T (min_at T h) h (drop n xs)" using Suc.prems(1) by (auto simp: level_ok_def dest: in_set_dropD)
  from Suc.IH [OF lv, of "allocate_inner b"] ev(3,4) obtain b' ys where
    r: "bulk_parents T (Suc h) (allocate_inner b) (length xs - n) r (drop n xs) = Some (b', ys)" "length ys = r"
    "level_ok T lo (Suc h) ys" "contents_list (map fst ys) = contents_list (map fst (drop n xs))"
    "leaf_lists (map fst ys) = leaf_lists (map fst (drop n xs))"
    "sum_list (map count_inner (map fst ys)) = r + sum_list (map count_inner (map fst (drop n xs)))"
    "\<forall>as. chain (allocate_inner b) as \<longrightarrow> chain b' as"
    "m_stats b' = (m_stats (allocate_inner b))\<lparr>innernodes := innernodes (m_stats (allocate_inner b)) + r\<rparr>"
    "m_headleaf b' = m_headleaf b" "m_tailleaf b' = m_tailleaf b"
    unfolding len n_def [symmetric] by (auto simp: allocate_inner_def)
  let ?m = "Inner (Suc h) (map snd (take (n - 1) xs)) (map fst (take n xs))"
  have "bulk_parents T (Suc h) b (length xs) (Suc r) xs = Some (b', (?m, snd (xs ! (n - 1))) # ys)"
    using r(1) n by (simp add: n_def [symmetric] Let_def)
  moreover have "level_ok T lo (Suc h) ((?m, snd (xs ! (n - 1))) # ys)"
    using r(3) bulk_parent_node [OF T Suc.prems(1) n(1-3)] by (simp add: level_ok_def)
  moreover have "chain (allocate_inner b) as = chain b as" for as by (rule chain_cong) (simp_all add: allocate_inner_def)
  moreover have "contents_list (map fst (take n xs)) @ contents_list (map fst (drop n xs)) = contents_list (map fst xs)"
    "leaf_lists (map fst (take n xs)) @ leaf_lists (map fst (drop n xs)) = leaf_lists (map fst xs)"
    by (simp_all flip: concat_append map_append)
  moreover have "sum_list (map count_inner (map fst (take n xs))) + sum_list (map count_inner (map fst (drop n xs))) =
      sum_list (map count_inner (map fst xs))" by (simp flip: sum_list_append map_append)
  ultimately show ?case using r(2,4-10) by (simp add: allocate_inner_def)
qed

text \<open>
  A level with more than one node gives a level with fewer nodes, each at least half full
  unless it is the only one.
\<close>

lemma num_parents_bounds:
  assumes T: "traits_ok T" and n: "2 \<le> n"
  shows "n \<le> Suc (innerslotmax T) * num_parents T n" "0 < num_parents T n" "num_parents T n < n"
    "Suc (if num_parents T n = 1 then 1 else mininnerslots T) * num_parents T n \<le> n"
proof -
  have c: "0 < innerslotmax T + 1" "8 \<le> innerslotmax T" using T by (simp_all add: traits_ok_def)
  note b = round_up_bounds [OF c(1), of "num_parents T n" n, OF num_parents_def]
  show 1: "n \<le> Suc (innerslotmax T) * num_parents T n" "0 < num_parents T n" using b(1,2) n by simp_all
  show 3: "Suc (if num_parents T n = 1 then 1 else mininnerslots T) * num_parents T n \<le> n"
  proof (cases "num_parents T n = 1")
    case False
    with 1 have "2 \<le> num_parents T n" by simp
    from b(3) [OF this] False show ?thesis by (simp add: mininnerslots_def)
  qed (use n in simp)
  show "num_parents T n < n"
  proof (cases "num_parents T n = 1")
    case False
    have "1 \<le> mininnerslots T" using c(2) by (simp add: mininnerslots_def)
    then have "2 * num_parents T n \<le> Suc (mininnerslots T) * num_parents T n" by (intro mult_le_mono1) simp
    also have "\<dots> \<le> n" using 3 False by simp
    finally show ?thesis using 1(2) by simp
  qed (use n in simp)
qed

lemma bulk_levels_ok:
  assumes T: "traits_ok T"
  shows "xs \<noteq> [] \<Longrightarrow> level_ok T (if length xs = 1 then 1 else min_at T h) h xs \<Longrightarrow> length xs \<le> fuel \<Longrightarrow>
    \<exists>b' n d h'. bulk_levels T fuel (Suc h) b xs = Some (b', n) \<and> node_ok T 1 h' n \<and>
      contents n = contents_list (map fst xs) \<and> leaf_list n = leaf_lists (map fst xs) \<and>
      count_inner n = d + sum_list (map count_inner (map fst xs)) \<and> (\<forall>as. chain b as \<longrightarrow> chain b' as) \<and>
      m_stats b' = (m_stats b)\<lparr>innernodes := innernodes (m_stats b) + d\<rparr>"
proof (induction fuel arbitrary: h b xs)
  case 0
  then show ?case by simp
next
  case (Suc fuel)
  show ?case
  proof (cases "length xs = 1")
    case True
    then obtain x where "xs = [x]" by (auto simp: length_Suc_conv)
    with Suc.prems(2) show ?thesis by (auto simp: bulk_levels.simps level_ok_def)
  next
    case False
    let ?r = "num_parents T (length xs)"
    let ?lo = "if ?r = 1 then 1 else min_at T (Suc h)"
    have l2: "2 \<le> length xs" using False Suc.prems(1) by (cases xs; cases "tl xs") auto
    note nb = num_parents_bounds [OF T l2]
    have lv: "level_ok T (min_at T h) h xs" using Suc.prems(2) False by simp
    have lo: "Suc ?lo * ?r \<le> length xs" using nb(4) by (cases "?r = 1") (simp_all add: min_at_def)
    from bulk_parents_ok [OF T lv lo nb(1), of b] obtain b1 ys where
      p: "bulk_parents T (Suc h) b (length xs) ?r xs = Some (b1, ys)" "length ys = ?r" "level_ok T ?lo (Suc h) ys"
      "contents_list (map fst ys) = contents_list (map fst xs)" "leaf_lists (map fst ys) = leaf_lists (map fst xs)"
      "sum_list (map count_inner (map fst ys)) = ?r + sum_list (map count_inner (map fst xs))"
      "\<forall>as. chain b as \<longrightarrow> chain b1 as" "m_stats b1 = (m_stats b)\<lparr>innernodes := innernodes (m_stats b) + ?r\<rparr>" by blast
    have "ys \<noteq> []" "length ys \<le> fuel" using p(2) nb(2,3) Suc.prems(3) by auto
    with Suc.IH [of ys "Suc h" b1] p(2,3) obtain b' n d h' where
      q: "bulk_levels T fuel (Suc (Suc h)) b1 ys = Some (b', n)" "node_ok T 1 h' n"
      "contents n = contents_list (map fst ys)" "leaf_list n = leaf_lists (map fst ys)"
      "count_inner n = d + sum_list (map count_inner (map fst ys))" "\<forall>as. chain b1 as \<longrightarrow> chain b' as"
      "m_stats b' = (m_stats b1)\<lparr>innernodes := innernodes (m_stats b1) + d\<rparr>" by auto
    have "bulk_levels T (Suc fuel) (Suc h) b xs = Some (b', n)"
      using False p(1) q(1) by (simp add: bulk_levels.simps [of T "Suc fuel"])
    then show ?thesis using q(2-7) p(4-8)
      by (intro exI [of _ b'] exI [of _ n] exI [of _ "d + ?r"] exI [of _ h']) simp
  qed
qed

section \<open>The loader\<close>

lemma chain_head_tail:
  assumes "chain b as" "length as = r"
  shows "m_headleaf b = m_tailleaf b \<longleftrightarrow> r \<le> 1"
proof (cases as)
  case (Cons x xs)
  then show ?thesis using assms by (cases xs rule: rev_cases) (auto simp: chain_def)
qed (use assms in \<open>simp add: chain_def\<close>)

theorem bulk_load_ok:
  assumes T: "traits_ok T" and inv: "btree_inv T b" and root: "m_root b = None" and so: "ksorted xs"
  shows "\<exists>b'. bulk_load T b xs = Some b' \<and> btree_inv T b' \<and> tree_contents b' = xs"
proof -
  define b0 where "b0 = b\<lparr>m_stats := (m_stats b)\<lparr>itemcount := length xs\<rparr>\<rparr>"
  define r where "r = (length xs + leafslotmax T - 1) div leafslotmax T"
  have L: "8 \<le> leafslotmax T" "0 < leafslotmax T" using T by (auto simp: traits_ok_def)
  note rb = round_up_bounds [OF L(2) r_def]
  have st: "leaves (m_stats b) = 0" "innernodes (m_stats b) = 0" and ch: "chain b0 []"
    using inv root by (auto simp: btree_inv_defs b0_def chain_def)
  define q where "q = (if r \<le> 1 then length xs else minleafslots T)"
  have "minleafslots T * r \<le> (leafslotmax T + 1) div 2 * r"
    by (rule mult_le_mono1) (simp add: minleafslots_def div_le_mono)
  then have "2 \<le> r \<Longrightarrow> minleafslots T * r \<le> length xs" using rb(3) by (rule order_trans)
  then have q: "q * r \<le> length xs" by (cases "r = 0"; cases "r = 1") (auto simp: q_def)
  from bulk_leaves_ok [OF q rb(1) ch] obtain b1 ls where
    ls: "bulk_leaves T b0 (length xs) r xs = Some (b1, ls)" "length ls = r" "contents_list ls = xs"
    "\<forall>l \<in> set ls. node_ok T q 0 l" "chain b1 (map fst (leaf_lists ls))" "length (leaf_lists ls) = r"
    "sum_list (map count_inner ls) = 0" "m_stats b1 = (m_stats b0)\<lparr>leaves := leaves (m_stats b0) + r\<rparr>" by auto
  have ht: "m_headleaf b1 = m_tailleaf b1 \<longleftrightarrow> r \<le> 1" using chain_head_tail [OF ls(5)] ls(6) by simp
  have base: "bulk_load T b xs =
    (if r \<le> 1 then Some (b1\<lparr>m_root := (case ls of [] \<Rightarrow> None | l # _ \<Rightarrow> Some l)\<rparr>)
     else do { nextlevel \<leftarrow> max_keys ls; (b2, ys) \<leftarrow> bulk_parents T 1 b1 r (num_parents T r) nextlevel;
               (b3, root) \<leftarrow> bulk_levels T (length ys) 2 b2 ys; Some (b3\<lparr>m_root := Some root\<rparr>) })"
    using ls(1) ht unfolding bulk_load_def b0_def [symmetric] r_def [symmetric] by (simp add: Let_def)
  have st0: "itemcount (m_stats b0) = length xs" "leaves (m_stats b0) = 0" "innernodes (m_stats b0) = 0"
    using st by (simp_all add: b0_def)
  show ?thesis
  proof (cases "r \<le> 1")
    case True
    have cong: "chain (b1\<lparr>m_root := x\<rparr>) as = chain b1 as" for x as by (rule chain_cong) simp_all
    show ?thesis
    proof (cases ls)
      case Nil
      then show ?thesis using True base ls so st0 by (auto simp: btree_inv_defs cong)
    next
      case (Cons l ls')
      then have ls': "ls' = []" "r = 1" using ls(2) True by (auto simp: le_Suc_eq)
      have "0 < length xs" using ls' r_def L by (cases xs) auto
      then have "node_ok T 1 0 l" using ls(3,4) Cons ls' by (auto simp: q_def node_ok_0 Suc_le_eq)
      then show ?thesis using True base ls so st0 Cons ls' node_ok_level [of T 1 0 l] by (auto simp: btree_inv_defs cong)
    qed
  next
    case False
    then have r2: "2 \<le> r" by simp
    let ?xs = "map (\<lambda>l. (l, last_key l)) ls"
    have mk: "max_keys ls = Some ?xs" by (rule max_keys_ok [OF ls(4)]) (use False L in \<open>simp add: q_def minleafslots_def\<close>)
    have lv: "level_ok T (min_at T 0) 0 ?xs" using ls(4) False by (auto simp: level_ok_def q_def min_at_def)
    have lx: "length ?xs = r" "map fst ?xs = ls" using ls(2) by (simp_all add: o_def)
    note nb = num_parents_bounds [OF T r2]
    define lo where "lo = (if num_parents T r = 1 then 1 else min_at T (Suc 0))"
    have lo: "Suc lo * num_parents T r \<le> length ?xs" "length ?xs \<le> Suc (innerslotmax T) * num_parents T r"
      using nb(1,4) unfolding lx lo_def by (cases "num_parents T r = 1"; simp add: min_at_def)+
    from bulk_parents_ok [OF T lv lo, of b1, unfolded lx] obtain b2 ys where
      p: "bulk_parents T (Suc 0) b1 r (num_parents T r) ?xs = Some (b2, ys)" "length ys = num_parents T r"
      "level_ok T lo (Suc 0) ys" "contents_list (map fst ys) = contents_list ls"
      "leaf_lists (map fst ys) = leaf_lists ls"
      "sum_list (map count_inner (map fst ys)) = num_parents T r + sum_list (map count_inner ls)"
      "\<forall>as. chain b1 as \<longrightarrow> chain b2 as"
      "m_stats b2 = (m_stats b1)\<lparr>innernodes := innernodes (m_stats b1) + num_parents T r\<rparr>" by blast
    have "ys \<noteq> []" using p(2) nb(2) by auto
    with bulk_levels_ok [OF T, of ys "Suc 0" "length ys" b2] p(2,3) obtain b3 n d h where
      q: "bulk_levels T (length ys) (Suc (Suc 0)) b2 ys = Some (b3, n)" "node_ok T 1 h n"
      "contents n = contents_list (map fst ys)" "leaf_list n = leaf_lists (map fst ys)"
      "count_inner n = d + sum_list (map count_inner (map fst ys))" "\<forall>as. chain b2 as \<longrightarrow> chain b3 as"
      "m_stats b3 = (m_stats b2)\<lparr>innernodes := innernodes (m_stats b2) + d\<rparr>" by (auto simp: lo_def)
    have cong: "chain (b3\<lparr>m_root := x\<rparr>) as = chain b3 as" for x as by (rule chain_cong) simp_all
    have "bulk_load T b xs = Some (b3\<lparr>m_root := Some n\<rparr>)"
      using base False mk p(1) q(1) by (simp add: numeral_2_eq_2)
    moreover have "btree_inv T (b3\<lparr>m_root := Some n\<rparr>)"
      using q(2-7) p(4-8) ls(3,5-8) so st0 node_ok_level [OF q(2)] by (simp add: btree_inv_defs cong)
    ultimately show ?thesis using q(3) p(4) ls(3) by (simp add: tree_contents_def)
  qed
qed

section \<open>Main theorem\<close>

text \<open>
  C5: bulk loading sorted pairs into an empty tree ends, overflows no node and builds a
  well-formed tree with exactly these pairs.
\<close>

theorem bulk_load_correct:
  assumes "traits_ok T" "btree_inv T b" "m_root b = None" "ksorted xs"
  shows "\<exists>b'. bulk_load T b xs = Some b' \<and> btree_inv T b' \<and> tree_contents b' = xs"
  using bulk_load_ok [OF assms] .

theorem bulk_load_correct_witness:
  "\<exists>b'. bulk_load sample_traits empty_btree (map (\<lambda>i. (i, i * i)) [0..<100]) = Some b' \<and>
    btree_inv sample_traits b' \<and> tree_contents b' = map (\<lambda>i. (i, i * i)) [0..<100]"
  by (rule bulk_load_correct [OF sample_traits_ok btree_inv_empty])
     (simp_all add: empty_btree_def o_def sorted_wrt_upt)

end
