(* ===== verification/BTreeIndex.thy ===== *)
theory BTreeIndex
  imports IndexApi BTreeEraseIter BTreeBulk
begin

text \<open>
  The adapter of the STX B+ tree, \<open>competitor/btree/btree.h\<close>, with the traits that
  \<open>stx::btree<uint64_t, uint64_t>\<close> has by default, and its contract: the tree of this
  development is an index in the sense of \<open>index_api\<close>. Its \<open>scan\<close> does not meet the scan
  contract; what it returns is stated separately.
\<close>

section \<open>Definitions\<close>

definition adapter_traits :: traits where
  "adapter_traits = btree_default_map_traits 8 8 8"

definition btree_bulk_load :: "('k, 'v) btree \<Rightarrow> ('k \<times> 'v) list \<Rightarrow> ('k, 'v) btree option" where
  "btree_bulk_load idx key_value = bulk_load adapter_traits idx key_value"

definition btree_get :: "('k::linorder, 'v) btree \<Rightarrow> 'k \<Rightarrow> 'v option option" where
  "btree_get idx key =
     do { it \<leftarrow> find_it idx key; e \<leftarrow> end_it idx;
          if it_neq it e then do { v \<leftarrow> it_data idx it; Some (Some v) } else Some None }"

definition btree_put :: "('k::linorder, 'v) btree \<Rightarrow> 'k \<Rightarrow> 'v \<Rightarrow> (('k, 'v) btree \<times> bool) option" where
  "btree_put idx key v = do { (idx', it, inserted) \<leftarrow> insert_start adapter_traits idx key v; Some (idx', inserted) }"

definition btree_update :: "('k::linorder, 'v) btree \<Rightarrow> 'k \<Rightarrow> 'v \<Rightarrow> (('k, 'v) btree \<times> bool) option" where
  "btree_update idx key v = Some (idx, False)"

definition btree_remove :: "('k::linorder, 'v) btree \<Rightarrow> 'k \<Rightarrow> (('k, 'v) btree \<times> bool) option" where
  "btree_remove idx key = do { (idx', num_erase) \<leftarrow> erase adapter_traits idx key; Some (idx', num_erase > 0) }"

text \<open>
  The loop of \<open>scan\<close>; the payloads it reads are only accumulated in a local variable, and
  \<open>result\<close> is not written.
\<close>

fun btree_scan_loop :: "('k, 'v) btree \<Rightarrow> iterator \<Rightarrow> nat \<Rightarrow> iterator \<Rightarrow> nat \<Rightarrow> nat option" where
  "btree_scan_loop idx e 0 it cnt = Some cnt"
| "btree_scan_loop idx e (Suc i) it cnt =
     do { it' \<leftarrow> it_incr idx it;
          let cnt' = cnt + 1;
          if it_eq it' e then Some cnt'
          else do { d \<leftarrow> it_data idx it'; btree_scan_loop idx e i it' cnt' } }"

definition btree_scan :: "('k::linorder, 'v) btree \<Rightarrow> 'k \<Rightarrow> nat \<Rightarrow> (nat \<times> ('k \<times> 'v) list) option" where
  "btree_scan idx key_low_bound key_num =
     do { it \<leftarrow> lower_bound idx key_low_bound; e \<leftarrow> end_it idx;
          if it_eq it e then Some (0, [])
          else do { cnt \<leftarrow> btree_scan_loop idx e key_num it 1; Some (cnt, []) } }"

definition btree_index :: "(('k::linorder, 'v) btree, 'k, 'v) indexInterface" where
  "btree_index =
     \<lparr>bulk_load_op = btree_bulk_load, get_op = btree_get, put_op = btree_put, update_op = btree_update,
      remove_op = btree_remove, scan_op = btree_scan\<rparr>"

section \<open>The contract\<close>

abbreviation adapter_inv :: "('k::linorder, 'v) btree \<Rightarrow> bool" where
  "adapter_inv \<equiv> btree_inv adapter_traits"

lemma adapter_traits_ok: "traits_ok adapter_traits"
  unfolding adapter_traits_def by (rule btree_default_map_traits_ok)

lemma btree_get_ok:
  assumes "adapter_inv b" shows "btree_get b k = Some (map_of (tree_contents b) k)"
proof -
  obtain it e where "find_it b k = Some it" "end_it b = Some e"
    "case map_of (tree_contents b) k of None \<Rightarrow> it = e
     | Some v \<Rightarrow> it \<noteq> e \<and> it_key b it = Some k \<and> it_data b it = Some v"
    using find_it_read [OF adapter_traits_ok assms, of k] by blast
  then show ?thesis by (auto simp: btree_get_def it_neq_iff split: option.splits)
qed

lemma btree_put_ok:
  assumes "adapter_inv b"
  shows "\<exists>b'. btree_put b k v = Some (b', k \<notin> set (keys_of (tree_contents b))) \<and> adapter_inv b' \<and>
    tree_contents b' = ins_kv k v (tree_contents b)"
  using insert_start_ok [OF adapter_traits_ok assms, of k v]
  by (auto simp: btree_put_def insert_ok_def simp del: set_map)

lemma btree_remove_ok:
  assumes "adapter_inv b"
  shows "\<exists>b'. btree_remove b k = Some (b', k \<in> set (keys_of (tree_contents b))) \<and> adapter_inv b' \<and>
    tree_contents b' = del_kv k (tree_contents b)"
  using erase_one_ok [OF adapter_traits_ok assms, of k]
  by (auto simp: btree_remove_def erase_def erase_ok_def simp del: set_map)

section \<open>What the scan returns\<close>

lemma btree_scan_loop_count:
  assumes ok: "leaves_ok b" and e: "it_at b e (length (tree_contents b))"
  shows "it_at b it p \<Longrightarrow> p < length (tree_contents b) \<Longrightarrow>
    btree_scan_loop b e n it cnt = Some (cnt + min n (length (tree_contents b) - p))"
proof (induction n arbitrary: it p cnt)
  case (Suc n)
  obtain jt where jt: "it_incr b it = Some jt" "it_at b jt (Suc p)" using it_at_incr [OF ok Suc.prems] by blast
  have eq: "jt = e \<longleftrightarrow> Suc p = length (tree_contents b)" by (rule it_at_eq [OF ok jt(2) e])
  show ?case
  proof (cases "jt = e")
    case True
    with eq have "length (tree_contents b) - p = 1" by linarith
    with True show ?thesis using jt by (simp add: it_eq_iff)
  next
    case False
    with eq Suc.prems(2) have p: "Suc p < length (tree_contents b)" by simp
    then have "min (Suc n) (length (tree_contents b) - p) = Suc (min n (length (tree_contents b) - Suc p))"
      using Suc_diff_Suc [OF Suc.prems(2)] by (simp add: min_def)
    with False Suc.IH [OF jt(2) p] it_at_read [OF ok jt(2) p] jt(1) show ?thesis by (simp add: it_eq_iff Let_def)
  qed
qed simp

lemma btree_scan_count:
  assumes "adapter_inv b"
  shows "btree_scan b k n =
    (let rest = length (dropWhile (\<lambda>x. fst x < k) (tree_contents b))
     in Some (if rest = 0 then 0 else 1 + min n rest, []))"
proof -
  note ok = btree_inv_leaves_ok [OF adapter_traits_ok assms]
  obtain it e where it: "lower_bound b k = Some it" "it_at b it (rank_lower b k)" "end_it b = Some e"
    and e: "it_at b e (length (tree_contents b))"
    using lower_bound_at [OF adapter_traits_ok assms, of k] end_it_at [OF ok] by blast
  have r: "length (dropWhile (\<lambda>x. fst x < k) (tree_contents b)) = length (tree_contents b) - rank_lower b k"
    by (simp add: dropWhile_eq_drop rank_lower_def)
  have eq: "it = e \<longleftrightarrow> rank_lower b k = length (tree_contents b)" by (rule it_at_eq [OF ok it(2) e])
  show ?thesis
    using it r eq it_at_le [OF it(2)] btree_scan_loop_count [OF ok e it(2), of n 1]
    by (auto simp: btree_scan_def it_eq_iff Let_def)
qed

section \<open>Interpretation\<close>

interpretation stx: index_api btree_index adapter_inv "\<lambda>b. adapter_inv b \<and> m_root b = None" tree_contents
proof unfold_locales
  fix b :: "('k::linorder, 'v) btree" and xs :: "('k \<times> 'v) list"
  assume "adapter_inv b \<and> m_root b = None" "ksorted xs"
  then show "\<exists>b'. bulk_load_op btree_index b xs = Some b' \<and> adapter_inv b' \<and> tree_contents b' = xs"
    using bulk_load_ok [OF adapter_traits_ok, of b xs] by (simp add: btree_index_def btree_bulk_load_def)
next
  fix b :: "('k::linorder, 'v) btree" and k :: 'k and v :: 'v
  assume "adapter_inv b" "k \<notin> set (keys_of (tree_contents b))"
  then show "\<exists>b'. put_op btree_index b k v = Some (b', True) \<and> adapter_inv b' \<and> tree_contents b' = ins_kv k v (tree_contents b)"
    using btree_put_ok [of b k v] by (simp add: btree_index_def)
next
  fix b :: "('k::linorder, 'v) btree" and k :: 'k
  assume "adapter_inv b" "k \<in> set (keys_of (tree_contents b))"
  then show "\<exists>b'. remove_op btree_index b k = Some (b', True) \<and> adapter_inv b' \<and> tree_contents b' = del_kv k (tree_contents b)"
    using btree_remove_ok [of b k] by (simp add: btree_index_def)
next
  fix b :: "('k::linorder, 'v) btree" and k :: 'k and n
  assume "adapter_inv b"
  then show "\<exists>r. scan_op btree_index b k n = Some r" using btree_scan_count [of b k n] by (simp add: btree_index_def Let_def)
qed (auto simp: btree_index_def btree_get_ok btree_update_def btree_inv_def)

section \<open>Main theorems\<close>



text \<open>
  The read test reports \<open>good\<close> on the B+ tree adapter when the payloads are the positions of
  the sorted keys.
\<close>

theorem btree_passes_TestRead:
  assumes "ksorted entries" "\<forall>i < length entries. snd (entries ! i) = pay i"
    "\<forall>ids \<in> set rounds. \<forall>i \<in> set ids. i < length entries"
  shows "TestRead btree_index pay empty_btree entries rounds = Some True"
proof (rule stx.unlimited.TestRead_ok [OF _ assms])
  show "adapter_inv (empty_btree :: ('a, 'b) btree) \<and> m_root (empty_btree :: ('a, 'b) btree) = None"
    using btree_inv_empty by (simp add: empty_btree_def)
qed simp_all

theorem btree_passes_TestRead_witness:
  "TestRead btree_index id empty_btree [(4, 0), (7, 1), (9::nat, 2)] [[2, 0, 1], [1, 2, 0]] = Some True"
  by (rule btree_passes_TestRead) (auto simp: nth_Cons split: nat.splits)

text \<open>
  C29: the scan of the B+ tree adapter does not meet the contract of the interface: it writes no
  result, and whenever there are at least \<open>key_num\<close> pairs from the bound on it returns
  \<open>key_num + 1\<close>; with \<open>key_num - 1\<close> pairs left it returns \<open>key_num\<close>.
\<close>

theorem btree_scan_overcounts:
  assumes "adapter_inv b" "rest = length (filter (\<lambda>x. k \<le> fst x) (tree_contents b))" "0 < rest"
  shows "btree_scan b k n = Some (1 + min n rest, [])"
proof -
  have "filter (\<lambda>x. k \<le> fst x) (tree_contents b) = dropWhile (\<lambda>x. fst x < k) (tree_contents b)"
    using assms(1) by (intro filter_ge_dropWhile) (simp add: btree_inv_def)
  then show ?thesis using btree_scan_count [OF assms(1), of k n] assms(2,3) by (simp add: Let_def)
qed

theorem btree_scan_overcounts_witness:
  "\<exists>b. btree_put (empty_btree :: (nat, nat) btree) 5 50 = Some (b, True) \<and> btree_scan b 5 1 = Some (2, [])"
proof -
  obtain b where b: "btree_put (empty_btree :: (nat, nat) btree) 5 50 = Some (b, True)" "adapter_inv b" "tree_contents b = [(5, 50)]"
    using btree_put_ok [OF btree_inv_empty, of 5 50] by auto
  then show ?thesis using btree_scan_overcounts [OF b(2), of 1 5 1] by simp
qed

end
