(* ===== verification/PgmHull.thy ===== *)
theory PgmHull
  imports Prelude Complex_Main
begin

text \<open>
  The metric of a data set, \<open>benchmark/pgm_metric.h\<close>: \<open>OptimalPiecewiseLinearModel\<close> reads points with
  increasing keys and keeps, as long as there is one, the set of lines that pass every point at a
  vertical distance of at most \<open>epsilon\<close>. It stores the lines of least and greatest slope (\<open>rectangle\<close>) and
  the parts of two convex hulls that can still touch such lines.

  Keys and ranks are 64-bit values; their differences and the products of differences are
  128-bit values in the code. They are integers here; that the products fit is shown at the end.
\<close>

section \<open>Operations\<close>

type_synonym point = "int \<times> int"
type_synonym slope = "int \<times> int"

text \<open>The subtraction of points and the comparison of slopes, a slope being a pair of \<open>dx\<close> and \<open>dy\<close>.\<close>

definition diff_pt :: "point \<Rightarrow> point \<Rightarrow> slope" where
  "diff_pt p q = (fst p - fst q, snd p - snd q)"

definition slope_lt :: "slope \<Rightarrow> slope \<Rightarrow> bool" where
  "slope_lt s t \<longleftrightarrow> snd s * fst t < fst s * snd t"

definition slope_gt :: "slope \<Rightarrow> slope \<Rightarrow> bool" where
  "slope_gt s t \<longleftrightarrow> snd s * fst t > fst s * snd t"

definition cross :: "point \<Rightarrow> point \<Rightarrow> point \<Rightarrow> int" where
  "cross O' A B = (let OA = diff_pt A O'; OB = diff_pt B O' in fst OA * snd OB - snd OA * fst OB)"

text \<open>The members that decide about a segment, and those that only the metric has.\<close>

record opt =
  epsilon :: int
  lower :: "point list"
  upper :: "point list"
  first_x :: int
  last_x :: int
  lower_start :: nat
  upper_start :: nat
  points_in_hull :: nat
  rect0 :: point
  rect1 :: point
  rect2 :: point
  rect3 :: point

record plm = opt +
  last_rank :: int
  points :: "point list"

datatype logic_error = Points_must_be_increasing

text \<open>
  The loop that looks for the extreme slope among the points from position \<open>i\<close> on; \<open>worse\<close> is the
  comparison that ends it, \<open>m\<close> and \<open>mi\<close> are the best slope so far and its position.
\<close>

fun extreme_slope :: "(slope \<Rightarrow> slope \<Rightarrow> bool) \<Rightarrow> point \<Rightarrow> point list \<Rightarrow> nat \<Rightarrow> slope \<Rightarrow> nat \<Rightarrow> nat" where
  "extreme_slope worse p [] i m mi = mi"
| "extreme_slope worse p (q # qs) i m mi =
     (let val = diff_pt q p in if worse val m then mi else extreme_slope worse p qs (i + 1) val i)"

text \<open>The loop that removes points from the end of a hull.\<close>

fun pop_hull :: "(int \<Rightarrow> bool) \<Rightarrow> point list \<Rightarrow> nat \<Rightarrow> point \<Rightarrow> nat \<Rightarrow> nat option" where
  "pop_hull bad v start p end_pos =
     (if end_pos \<ge> start + 2 then
        do { a \<leftarrow> rd v (end_pos - 2); b \<leftarrow> rd v (end_pos - 1);
             if bad (cross a b p) then pop_hull bad v start p (end_pos - 1) else Some end_pos }
      else Some end_pos)"

declare pop_hull.simps [simp del]

definition max_y :: int where
  "max_y = 2 ^ 64 - 1"

definition upper_pt :: "int \<Rightarrow> int \<Rightarrow> int \<Rightarrow> point" where
  "upper_pt eps x y = (x, if y \<ge> max_y - eps then max_y else y + eps)"

definition lower_pt :: "int \<Rightarrow> int \<Rightarrow> int \<Rightarrow> point" where
  "lower_pt eps x y = (x, if y \<le> eps then 0 else y - eps)"

text \<open>The two blocks of \<open>add_point\<close> that replace an extreme line and extend a hull.\<close>

definition lower_line :: "'a opt_scheme \<Rightarrow> point \<Rightarrow> 'a opt_scheme option" where
  "lower_line S p1 =
     do { q \<leftarrow> rd (lower S) (lower_start S);
          let min_i = extreme_slope slope_gt p1 (drop (lower_start S + 1) (lower S)) (lower_start S + 1) (diff_pt q p1) (lower_start S);
          r \<leftarrow> rd (lower S) min_i;
          n \<leftarrow> pop_hull (\<lambda>c. c \<le> 0) (upper S) (upper_start S) p1 (length (upper S));
          Some (S\<lparr>rect1 := r, rect3 := p1, lower_start := min_i, upper := take n (upper S) @ [p1]\<rparr>) }"

definition upper_line :: "'a opt_scheme \<Rightarrow> point \<Rightarrow> 'a opt_scheme option" where
  "upper_line S p2 =
     do { q \<leftarrow> rd (upper S) (upper_start S);
          let max_i = extreme_slope slope_lt p2 (drop (upper_start S + 1) (upper S)) (upper_start S + 1) (diff_pt q p2) (upper_start S);
          r \<leftarrow> rd (upper S) max_i;
          n \<leftarrow> pop_hull (\<lambda>c. c \<ge> 0) (lower S) (lower_start S) p2 (length (lower S));
          Some (S\<lparr>rect0 := r, rect2 := p2, upper_start := max_i, lower := take n (lower S) @ [p2]\<rparr>) }"

definition add_point :: "plm \<Rightarrow> int \<Rightarrow> int \<Rightarrow> (logic_error + plm \<times> bool) option" where
  "add_point S x y =
     (if points_in_hull S > 0 \<and> x \<le> last_x S then Some (Inl Points_must_be_increasing)
      else
        let S1 = S\<lparr>last_x := x, last_rank := y\<rparr>; p1 = upper_pt (epsilon S) x y; p2 = lower_pt (epsilon S) x y in
        if points_in_hull S = 0 then
          Some (Inr (S1\<lparr>first_x := x, rect0 := p1, rect1 := p2, upper := [p1], lower := [p2], upper_start := 0, lower_start := 0,
                        points_in_hull := 1, points := points S @ [(x, y)]\<rparr>, True))
        else if points_in_hull S = 1 then
          Some (Inr (S1\<lparr>rect2 := p2, rect3 := p1, upper := upper S @ [p1], lower := lower S @ [p2],
                        points_in_hull := 2, points := points S @ [(x, y)]\<rparr>, True))
        else
          let slope1 = diff_pt (rect2 S) (rect0 S); slope2 = diff_pt (rect3 S) (rect1 S);
              outside_line1 = slope_lt (diff_pt p1 (rect2 S)) slope1; outside_line2 = slope_gt (diff_pt p2 (rect3 S)) slope2 in
          if outside_line1 \<or> outside_line2 then Some (Inr (S1\<lparr>points_in_hull := 0\<rparr>, False))
          else
            do { S2 \<leftarrow> (if slope_lt (diff_pt p1 (rect1 S)) slope2 then lower_line S1 p1 else Some S1);
                 S3 \<leftarrow> (if slope_gt (diff_pt p2 (rect0 S)) slope1 then upper_line S2 p2 else Some S2);
                 Some (Inr (S3\<lparr>points_in_hull := points_in_hull S + 1, points := points S @ [(x, y)]\<rparr>, True)) })"

definition reset_plm :: "plm \<Rightarrow> plm" where
  "reset_plm S = S\<lparr>points_in_hull := 0, lower := [], upper := [], points := []\<rparr>"

section \<open>Lines\<close>

text \<open>A line is a pair of slope and intercept.\<close>

type_synonym line = "real \<times> real"

definition at_x :: "line \<Rightarrow> real \<Rightarrow> real" where
  "at_x l x = fst l * x + snd l"

abbreviation px :: "point \<Rightarrow> real" where "px p \<equiv> real_of_int (fst p)"
abbreviation py :: "point \<Rightarrow> real" where "py p \<equiv> real_of_int (snd p)"

definition over :: "line \<Rightarrow> point \<Rightarrow> bool" where
  "over l p \<longleftrightarrow> py p \<le> at_x l (px p)"

definition beneath :: "line \<Rightarrow> point \<Rightarrow> bool" where
  "beneath l p \<longleftrightarrow> at_x l (px p) \<le> py p"

definition slope_of :: "point \<Rightarrow> point \<Rightarrow> real" where
  "slope_of p q = (py q - py p) / (px q - px p)"

definition through :: "point \<Rightarrow> point \<Rightarrow> line" where
  "through p q = (slope_of p q, py p - slope_of p q * px p)"

lemma at_x_eq: "at_x l x = at_x l y + fst l * (x - y)"
  by (simp add: at_x_def algebra_simps)

lemma fst_through [simp]: "fst (through p q) = slope_of p q"
  by (simp add: through_def)

lemma through_start: "at_x (through p q) (px p) = py p"
  by (simp add: through_def at_x_def)

lemma through_end: "fst p < fst q \<Longrightarrow> at_x (through p q) (px q) = py q"
  by (simp add: at_x_eq [of _ "px q" "px p"] through_start slope_of_def)

text \<open>Comparisons of slopes in the code as statements on lines.\<close>

lemma at_x_through: "at_x (through p q) x = py p + slope_of p q * (x - px p)"
  by (simp add: at_x_eq [of _ x "px p"] through_start)

lemma line_less:
  assumes "fst p < fst q"
  shows "py r < at_x (through p q) x \<longleftrightarrow> (py r - py p) * (px q - px p) < (py q - py p) * (x - px p)"
    "at_x (through p q) x < py r \<longleftrightarrow> (py q - py p) * (x - px p) < (py r - py p) * (px q - px p)"
  using assms by (simp_all add: at_x_through slope_of_def field_simps)

lemma of_int_rel: "(a::int) < b \<longleftrightarrow> real_of_int a < real_of_int b" "(a::int) \<le> b \<longleftrightarrow> real_of_int a \<le> real_of_int b"
  by simp_all

lemma left_of_through:
  assumes "fst p < fst q"
  shows "slope_lt (diff_pt r q) (diff_pt q p) \<longleftrightarrow> py r < at_x (through p q) (px r)"
    "slope_gt (diff_pt r q) (diff_pt q p) \<longleftrightarrow> at_x (through p q) (px r) < py r"
    "slope_lt (diff_pt r p) (diff_pt q p) \<longleftrightarrow> py r < at_x (through p q) (px r)"
    "slope_gt (diff_pt r p) (diff_pt q p) \<longleftrightarrow> at_x (through p q) (px r) < py r"
  unfolding line_less [OF assms] slope_lt_def slope_gt_def diff_pt_def fst_conv snd_conv of_int_rel of_int_mult of_int_diff
  by (simp_all add: algebra_simps)

lemma cross_line:
  assumes "fst a < fst b" "fst b < fst c"
  shows "cross a b c < 0 \<longleftrightarrow> py c < at_x (through a b) (px c)" "cross a b c \<ge> 0 \<longleftrightarrow> py b \<le> at_x (through a c) (px b)"
proof -
  have ac: "fst a < fst c" using assms by simp
  show "cross a b c < 0 \<longleftrightarrow> py c < at_x (through a b) (px c)"
    unfolding line_less [OF assms(1)] cross_def diff_pt_def Let_def fst_conv snd_conv of_int_rel of_int_mult of_int_diff by (simp add: algebra_simps)
  show "cross a b c \<ge> 0 \<longleftrightarrow> py b \<le> at_x (through a c) (px b)"
    unfolding not_less [symmetric] line_less [OF ac] cross_def diff_pt_def Let_def fst_conv snd_conv of_int_rel of_int_mult of_int_diff
    by (simp add: algebra_simps)
qed

text \<open>Two lines that meet at \<open>x0\<close>.\<close>

lemma steeper_left:
  assumes "at_x l x0 = at_x l' x0" "x < x0" shows "at_x l' x \<le> at_x l x \<longleftrightarrow> fst l \<le> fst l'"
proof -
  have "at_x l' x - at_x l x = (fst l' - fst l) * (x - x0)"
    using assms(1) by (simp add: at_x_eq [of _ x x0] algebra_simps)
  then have "at_x l' x \<le> at_x l x \<longleftrightarrow> (fst l' - fst l) * (x - x0) \<le> 0" by linarith
  then show ?thesis using assms(2) by (auto simp: mult_le_0_iff)
qed

lemma steeper_le: "at_x l x0 \<le> at_x l' x0 \<Longrightarrow> fst l' \<le> fst l \<Longrightarrow> x \<le> x0 \<Longrightarrow> at_x l x \<le> at_x l' x"
  using mult_right_mono_neg [of "fst l'" "fst l" "x - x0"] by (simp add: at_x_eq [of _ x x0])

lemma slopes_from:
  assumes "at_x l x \<le> at_x l' x" "at_x l' y \<le> at_x l y" "x < y" shows "fst l' \<le> fst l"
proof -
  have "fst l' * (y - x) \<le> fst l * (y - x)" using assms(1,2) by (simp add: at_x_eq [of _ y x])
  then show ?thesis using assms(3) by simp
qed

section \<open>Hulls\<close>

fun concave :: "point list \<Rightarrow> bool" where
  "concave (a # b # c # cs) \<longleftrightarrow> fst a < fst b \<and> cross a b c < 0 \<and> concave (b # c # cs)"
| "concave [a, b] \<longleftrightarrow> fst a < fst b"
| "concave _ \<longleftrightarrow> True"

lemma concave_tl: "concave (a # cs) \<Longrightarrow> concave cs"
  by (cases cs rule: concave.cases) auto

lemma concave_drop: "concave cs \<Longrightarrow> concave (drop k cs)"
  by (induction cs arbitrary: k) (auto simp: drop_Cons' dest: concave_tl)

lemma concave_sorted: "concave (a # cs) \<Longrightarrow> q \<in> set cs \<Longrightarrow> fst a < fst q"
proof (induction cs arbitrary: a)
  case (Cons b cs)
  have "fst a < fst b" using Cons.prems(1) by (cases cs) auto
  then show ?case using Cons.IH [of b] concave_tl [OF Cons.prems(1)] Cons.prems(2) by auto
qed simp

lemma concave_sorted_wrt: "concave cs \<Longrightarrow> sorted_wrt (\<lambda>p q. fst p < fst q) cs"
  by (induction cs) (auto intro: concave_sorted dest: concave_tl)

lemma slope_of_less: "fst p < fst q \<Longrightarrow> slope_of p q < s \<longleftrightarrow> py q < py p + s * (px q - px p)"
  "fst p < fst q \<Longrightarrow> slope_of p q \<le> s \<longleftrightarrow> py q \<le> py p + s * (px q - px p)"
  by (auto simp: slope_of_def field_simps)

text \<open>Behind a point where a concave chain is flatter than a line it stays beneath the line.\<close>

lemma chain_below:
  assumes "concave (a # b # cs)" "over l b" "slope_of a b \<le> fst l" "q \<in> set cs"
  shows "over l q"
  using assms
proof (induction cs arbitrary: a b)
  case (Cons c cs)
  have x: "fst a < fst b" "fst b < fst c" "cross a b c < 0" using Cons.prems(1) by (auto intro: concave_sorted)
  then have c: "py c < py b + slope_of a b * (px c - px b)"
    using cross_line(1) [OF x(1,2)] by (simp add: at_x_eq [of _ "px c" "px b"] through_end)
  also have "\<dots> \<le> at_x l (px b) + fst l * (px c - px b)"
    using Cons.prems(2,3) x(2) by (intro add_mono mult_right_mono) (auto simp: over_def)
  finally have "over l c" by (simp add: over_def at_x_eq [of l "px c" "px b"])
  moreover have "slope_of b c \<le> fst l" using c slope_of_less(1) [OF x(2), of "slope_of a b"] Cons.prems(3) by simp
  ultimately show ?case using Cons.IH [of b c] Cons.prems(1,4) by auto
qed simp

lemma behind: "fst m < fst p \<Longrightarrow> slope_gt (diff_pt q p) (diff_pt m p) \<longleftrightarrow> py q < at_x (through m p) (px q)"
  by (simp add: line_less slope_gt_def diff_pt_def of_int_rel algebra_simps del: of_int_less_iff)

lemma extreme_slope_ok:
  assumes "concave (m # qs)" "fst m < fst p" "\<forall>q \<in> set qs. fst q \<le> fst p \<and> (fst q = fst p \<longrightarrow> snd q < snd p)"
  shows "\<exists>k. extreme_slope slope_gt p qs (j + 1) (diff_pt m p) j = j + k \<and> k < length (m # qs) \<and> fst ((m # qs) ! k) < fst p \<and>
    (\<forall>q \<in> set (m # qs). over (through ((m # qs) ! k) p) q)"
  using assms
proof (induction qs arbitrary: m j)
  case Nil
  then show ?case by (intro exI [of _ 0]) (simp add: over_def through_start)
next
  case (Cons q qs)
  let ?N = "through m p"
  have mq: "fst m < fst q" using Cons.prems(1) by (auto intro: concave_sorted)
  show ?case
  proof (cases "slope_gt (diff_pt q p) (diff_pt m p)")
    case True
    then have q: "py q < at_x ?N (px q)" using behind [OF Cons.prems(2)] by simp
    then have "slope_of m q \<le> fst ?N" using slope_of_less(2) [OF mq] by (simp add: at_x_through)
    then have "\<forall>z \<in> set qs. over ?N z" using chain_below [OF Cons.prems(1)] q by (auto simp: over_def)
    then show ?thesis using True q Cons.prems(2) by (intro exI [of _ 0]) (auto simp: over_def through_start)
  next
    case False
    then have q: "at_x ?N (px q) \<le> py q" using behind [OF Cons.prems(2)] by simp
    then have "fst q < fst p" using Cons.prems(2,3) through_end [OF Cons.prems(2)] by (cases "fst q = fst p") auto
    with Cons.IH [OF concave_tl [OF Cons.prems(1)], of "j + 1"] Cons.prems(3) obtain k where
      k: "extreme_slope slope_gt p qs (j + 1 + 1) (diff_pt q p) (j + 1) = j + 1 + k" "k < length (q # qs)" "fst ((q # qs) ! k) < fst p"
      "\<forall>z \<in> set (q # qs). over (through ((q # qs) ! k) p) z" by auto
    let ?N' = "through ((q # qs) ! k) p"
    have meet: "at_x ?N' (px p) = at_x ?N (px p)" using through_end k(3) Cons.prems(2) by simp
    have "at_x ?N (px q) \<le> at_x ?N' (px q)" using q k(4) by (auto simp: over_def)
    then have "fst ?N' \<le> fst ?N" using steeper_left [OF meet] \<open>fst q < fst p\<close> by simp
    then have "at_x ?N (px m) \<le> at_x ?N' (px m)" using steeper_left [OF meet] Cons.prems(2) by simp
    then have "over ?N' m" by (simp add: over_def through_start)
    then show ?thesis using False k by (intro exI [of _ "Suc k"]) auto
  qed
qed

lemma concave_take: "concave cs \<Longrightarrow> concave (take k cs)"
proof (induction cs arbitrary: k rule: concave.induct)
  case (1 a b c cs)
  then show ?case using 1(1) [of "k - 1"] by (cases k; cases "k - 1"; cases "k - 2") auto
qed (auto simp: take_Cons')

lemma concave_snoc: "concave (xs @ [a, b]) \<Longrightarrow> cross a b p < 0 \<Longrightarrow> fst b < fst p \<Longrightarrow> concave (xs @ [a, b, p])"
proof (induction xs)
  case (Cons x xs)
  have "concave (xs @ [a, b, p])" using Cons concave_tl by fastforce
  then show ?case using Cons.prems(1) by (cases xs; cases "tl xs") auto
qed simp

text \<open>A point that is removed from the hull is beneath the segment that replaces it.\<close>

lemma under_segment:
  assumes "fst a < fst b" "fst b < fst p" "cross a b p \<ge> 0" "over l a" "over l p" shows "over l b"
proof -
  have ap: "fst a < fst p" using assms(1,2) by simp
  have "py b \<le> at_x (through a p) (px b)" using cross_line(2) [OF assms(1,2)] assms(3) by simp
  also have "\<dots> \<le> at_x l (px b)"
  proof (cases "fst l \<le> slope_of a p")
    case True
    then show ?thesis using steeper_le [of "through a p" "px p" l "px b"] assms(2,5) through_end [OF ap] by (simp add: over_def)
  next
    case False
    then have "slope_of a p * (px b - px a) \<le> fst l * (px b - px a)" using assms(1) by (intro mult_right_mono) simp_all
    then show ?thesis using assms(4) by (simp add: over_def at_x_eq [of _ "px b" "px a"] through_start)
  qed
  finally show ?thesis by (simp add: over_def)
qed

lemma pop_hull_ok:
  assumes "concave cl" "\<forall>q \<in> set cl. fst q < fst p" "0 < m" "m \<le> length cl"
  shows "\<exists>n. pop_hull (\<lambda>c. c \<ge> 0) (pre @ cl) (length pre) p (length pre + m) = Some (length pre + n) \<and> 0 < n \<and> n \<le> m \<and>
    concave (take n cl @ [p]) \<and> (\<forall>l. (\<forall>q \<in> set (take n cl). over l q) \<and> over l p \<longrightarrow> (\<forall>q \<in> set (take m cl). over l q))"
  using assms(3,4)
proof (induction m)
  case (Suc m)
  show ?case
  proof (cases "m = 0")
    case True
    then obtain a cs where cl: "cl = a # cs" using Suc.prems by (cases cl) auto
    then show ?thesis using True assms(2) by (intro exI [of _ 1]) (auto simp: pop_hull.simps)
  next
    case False
    define a b where "a = cl ! (m - 1)" and "b = cl ! m"
    have t: "take (Suc m) cl = take (m - 1) cl @ [a, b]" "take m cl = take (m - 1) cl @ [a]"
      using Suc.prems False take_Suc_conv_app_nth [of m cl] take_Suc_conv_app_nth [of "m - 1" cl] by (simp_all add: a_def b_def)
    have r: "rd (pre @ cl) (length pre + Suc m - 2) = Some a" "rd (pre @ cl) (length pre + Suc m - 1) = Some b"
      using Suc.prems False by (auto simp: rd_def a_def b_def nth_append Suc_diff_Suc numeral_2_eq_2)
    have c: "concave (take (m - 1) cl @ [a, b])" using concave_take [OF assms(1), of "Suc m"] t(1) by simp
    then have "concave [a, b]" using concave_drop [OF c, of "m - 1"] Suc.prems by simp
    then have ab: "fst a < fst b" "fst b < fst p" using assms(2) Suc.prems by (auto simp: b_def)
    show ?thesis
    proof (cases "cross a b p \<ge> 0")
      case True
      with Suc False obtain n where
        n: "pop_hull (\<lambda>c. c \<ge> 0) (pre @ cl) (length pre) p (length pre + m) = Some (length pre + n)" "0 < n" "n \<le> m"
        "concave (take n cl @ [p])" "\<forall>l. (\<forall>q \<in> set (take n cl). over l q) \<and> over l p \<longrightarrow> (\<forall>q \<in> set (take m cl). over l q)" by auto
      have "pop_hull (\<lambda>c. c \<ge> 0) (pre @ cl) (length pre) p (length pre + Suc m) = Some (length pre + n)"
        using n(1) r True False by (subst pop_hull.simps) simp
      moreover have "\<forall>q \<in> set (take (Suc m) cl). over l q" if "\<forall>q \<in> set (take n cl). over l q" "over l p" for l
      proof -
        have "\<forall>q \<in> set (take m cl). over l q" using n(5) that by blast
        then show ?thesis using under_segment [OF ab True _ that(2)] by (simp add: t)
      qed
      ultimately show ?thesis using n(2-4) by (intro exI [of _ n]) auto
    next
      case False
      then have "pop_hull (\<lambda>c. c \<ge> 0) (pre @ cl) (length pre) p (length pre + Suc m) = Some (length pre + Suc m)"
        using r \<open>m \<noteq> 0\<close> by (subst pop_hull.simps) simp
      moreover have "concave (take (Suc m) cl @ [p])" using concave_snoc [OF c _ ab(2)] False t(1) by simp
      ultimately show ?thesis by (intro exI [of _ "Suc m"]) auto
    qed
  qed
qed simp

section \<open>The line of greatest slope\<close>

text \<open>
  \<open>U\<close> and \<open>L\<close> are the points that lines have to stay beneath and over, \<open>a\<close> and \<open>b\<close> the points that define
  the line of greatest slope, \<open>cl\<close> the hull from \<open>a\<close> on. A line that is not steeper needs to be checked
  against \<open>U\<close> and the hull only.
\<close>

definition hull_inv :: "point set \<Rightarrow> point set \<Rightarrow> point \<Rightarrow> point \<Rightarrow> point list \<Rightarrow> bool" where
  "hull_inv U L a b cl \<longleftrightarrow> a \<in> L \<and> b \<in> U \<and> fst a < fst b \<and> cl \<noteq> [] \<and> hd cl = a \<and> concave cl \<and> set cl \<subseteq> L \<and>
     (\<forall>u \<in> U. beneath (through a b) u) \<and> (\<forall>q \<in> L. over (through a b) q) \<and>
     (\<forall>l. fst l \<le> slope_of a b \<and> (\<forall>u \<in> U. beneath l u) \<and> (\<forall>q \<in> set cl. over l q) \<longrightarrow> (\<forall>q \<in> L. over l q))"

lemma between_line:
  assumes "at_x l0 x \<le> y" "y \<le> at_x l1 x"
  shows "\<exists>M. at_x M x = y \<and> (\<forall>z. min (at_x l0 z) (at_x l1 z) \<le> at_x M z \<and> at_x M z \<le> max (at_x l0 z) (at_x l1 z))"
proof (cases "at_x l0 x = at_x l1 x")
  case True
  then show ?thesis using assms by (intro exI [of _ l0]) auto
next
  case False
  define t where "t = (y - at_x l0 x) / (at_x l1 x - at_x l0 x)"
  have t: "0 \<le> t" "t \<le> 1" using assms False by (auto simp: t_def divide_le_eq)
  define M where "M = (fst l0 + t * (fst l1 - fst l0), snd l0 + t * (snd l1 - snd l0))"
  have M: "at_x M z = at_x l0 z + t * (at_x l1 z - at_x l0 z)" for z by (simp add: M_def at_x_def algebra_simps)
  have "at_x M x = y" using False by (simp add: M t_def)
  moreover have "min u v \<le> u + t * (v - u) \<and> u + t * (v - u) \<le> max u v" for u v :: real
  proof (cases "u \<le> v")
    case True
    then have "0 \<le> t * (v - u)" "t * (v - u) \<le> v - u" using t by (simp_all add: mult_left_le_one_le)
    then show ?thesis using True by (auto simp: min_def max_def)
  next
    case False
    then have "0 \<le> t * (u - v)" "t * (u - v) \<le> u - v" using t by (simp_all add: mult_left_le_one_le)
    moreover have "t * (v - u) = - (t * (u - v))" by (simp add: algebra_simps)
    ultimately have "v \<le> u + t * (v - u)" "u + t * (v - u) \<le> u" by linarith+
    then show ?thesis using False by (simp only: min_def max_def if_False simp_thms)
  qed
  ultimately show ?thesis using M by metis
qed

text \<open>A new point beneath the line: the line is replaced by the one through the point that the search finds.\<close>

lemma replace_line:
  assumes "hull_inv U L a b (a # cs)" "\<forall>u \<in> U. fst u \<le> fst p" "\<forall>q \<in> set cs. fst q \<le> fst p \<and> (fst q = fst p \<longrightarrow> snd q < snd p)"
    "\<forall>u \<in> U. beneath l0 u" "\<forall>q \<in> L. over l0 q" "at_x l0 (px p) \<le> py p" "py p < at_x (through a b) (px p)"
  shows "\<exists>k. extreme_slope slope_gt p cs (j + 1) (diff_pt a p) j = j + k \<and> k < length (a # cs) \<and>
    hull_inv (insert p U) L ((a # cs) ! k) p (drop k (a # cs))"
proof -
  let ?cl = "a # cs" and ?T = "through a b"
  have h: "a \<in> L" "b \<in> U" "fst a < fst b" "concave ?cl" "set ?cl \<subseteq> L" "\<forall>u \<in> U. beneath ?T u" "\<forall>q \<in> L. over ?T q"
    "\<And>l q. fst l \<le> slope_of a b \<Longrightarrow> \<forall>u \<in> U. beneath l u \<Longrightarrow> \<forall>q \<in> set ?cl. over l q \<Longrightarrow> q \<in> L \<Longrightarrow> over l q"
    using assms(1) unfolding hull_inv_def by blast+
  have ap: "fst a < fst p" using h(2,3) assms(2) by force
  from extreme_slope_ok [OF h(4) ap assms(3), of j] obtain k where
    k: "extreme_slope slope_gt p cs (j + 1) (diff_pt a p) j = j + k" "k < length ?cl" "fst (?cl ! k) < fst p"
    "\<forall>q \<in> set ?cl. over (through (?cl ! k) p) q" by blast
  define r where "r = ?cl ! k"
  let ?N = "through r p"
  have r: "r \<in> set ?cl" "fst r < fst p" using k(2,3) nth_mem [OF k(2)] by (simp_all add: r_def)
  have Np: "at_x ?N (px p) = py p" by (rule through_end [OF r(2)])
  obtain M where M: "at_x M (px p) = py p" "\<And>z. min (at_x l0 z) (at_x ?T z) \<le> at_x M z" "\<And>z. at_x M z \<le> max (at_x l0 z) (at_x ?T z)"
    using between_line [OF assms(6) less_imp_le [OF assms(7)]] by blast
  have Mup: "beneath M u" if "u \<in> U" for u using that assms(4) h(6) M(3) [of "px u"] by (force simp: beneath_def)
  have Mlo: "over M q" if "q \<in> L" for q using that assms(5) h(7) M(2) [of "px q"] by (force simp: over_def)
  have "at_x ?N (px r) \<le> at_x M (px r)" using Mlo [of r] r(1) h(5) by (auto simp: over_def through_start)
  then have sM: "fst M \<le> fst ?N" using steeper_left [of M "px p" ?N "px r"] M(1) Np r(2) by simp
  have NU: "beneath ?N u" if "u \<in> insert p U" for u
    using that Mup steeper_le [of ?N "px p" M "px u"] sM assms(2) Np M(1) by (fastforce simp: beneath_def)
  have "at_x ?T (px a) \<le> at_x ?N (px a)" using k(4) by (simp add: r_def over_def through_start)
  then have sN: "slope_of r p \<le> slope_of a b"
    using slopes_from [of ?T "px a" ?N "px p"] ap assms(7) Np by simp
  have cover: "\<forall>q \<in> set ?cl. over l q" if l: "fst l \<le> slope_of r p" "\<forall>q \<in> set (drop k ?cl). over l q" for l
  proof
    fix q assume "q \<in> set ?cl"
    then obtain i where i: "i < length ?cl" "q = ?cl ! i" by (metis in_set_conv_nth)
    show "over l q"
    proof (cases "i < k")
      case True
      then have "fst q < fst r" using sorted_wrt_nth_less [OF concave_sorted_wrt [OF h(4)] True k(2)] i(2) by (simp add: r_def)
      moreover have "r \<in> set (drop k ?cl)" using k(2) by (metis Cons_nth_drop_Suc list.set_intros(1) r_def)
      then have "at_x ?N (px r) \<le> at_x l (px r)" using l(2) by (simp add: over_def through_start)
      ultimately have "at_x ?N (px q) \<le> at_x l (px q)" using steeper_le [of ?N "px r" l "px q"] l(1) by simp
      then show ?thesis using k(4) \<open>q \<in> set ?cl\<close> by (force simp: over_def r_def)
    next
      case False
      then have "q = drop k ?cl ! (i - k)" "i - k < length (drop k ?cl)" using i by simp_all
      then show ?thesis using l(2) nth_mem by blast
    qed
  qed
  have "over l q" if "fst l \<le> slope_of r p" "\<forall>u \<in> insert p U. beneath l u" "\<forall>q \<in> set (drop k ?cl). over l q" "q \<in> L" for l q
    using h(8) [of l q] cover [OF that(1,3)] that sN by simp
  moreover have "\<forall>q \<in> L. over ?N q" using h(8) [of ?N] sN NU k(4) by (auto simp: r_def)
  moreover have "set (drop k ?cl) \<subseteq> L" using h(5) set_drop_subset [of k ?cl] by blast
  ultimately have "hull_inv (insert p U) L r p (drop k ?cl)"
    using NU r h(5) concave_drop [OF h(4)] k(2) unfolding hull_inv_def by (auto simp: r_def hd_drop_conv_nth)
  then show ?thesis using k(1,2) by (auto simp: r_def)
qed

text \<open>A new point that the line passes.\<close>

lemma add_upper: "hull_inv U L a b cl \<Longrightarrow> beneath (through a b) p \<Longrightarrow> hull_inv (insert p U) L a b cl"
  unfolding hull_inv_def by blast

text \<open>Beyond two points, a line that passes them on their outer sides is outside of the line through them.\<close>

lemma past_through:
  assumes "fst c < fst d" "fst d \<le> fst p" "beneath l c" "over l d" shows "at_x (through c d) (px p) \<le> at_x l (px p)"
proof -
  have "fst (through c d) \<le> fst l"
    using slopes_from [of l "px c" "through c d" "px d"] assms through_start [of c d] through_end [OF assms(1)] by (simp add: beneath_def over_def)
  then have "fst (through c d) * (px p - px d) \<le> fst l * (px p - px d)" using assms(2) by (intro mult_right_mono) simp_all
  then show ?thesis using assms(4) through_end [OF assms(1)] by (simp add: over_def at_x_eq [of _ "px p" "px d"])
qed

lemma add_lower:
  assumes "hull_inv U L a b cl" "over (through a b) p" "c \<in> U" "d \<in> L" "fst c < fst d" "fst d \<le> fst p" "over (through c d) p"
  shows "hull_inv U (insert p L) a b cl"
proof -
  have "over l p" if "\<forall>u \<in> U. beneath l u" "\<forall>q \<in> L. over l q" for l
    using past_through [OF assms(5,6), of l] that assms(3,4,7) by (auto simp: over_def)
  then show ?thesis using assms(1,2) unfolding hull_inv_def by blast
qed

lemma push_lower:
  assumes "hull_inv U L a b cl" "over (through a b) p" "\<forall>q \<in> set cl. fst q < fst p"
  shows "\<exists>n. pop_hull (\<lambda>c. c \<ge> 0) (pre @ cl) (length pre) p (length pre + length cl) = Some (length pre + n) \<and> 0 < n \<and> n \<le> length cl \<and>
    hull_inv U (insert p L) a b (take n cl @ [p])"
proof -
  have h: "concave cl" "0 < length cl" "hd cl = a" "set cl \<subseteq> L" using assms(1) by (auto simp: hull_inv_def)
  from pop_hull_ok [OF h(1) assms(3) h(2) order_refl, of pre] obtain n where
    n: "pop_hull (\<lambda>c. c \<ge> 0) (pre @ cl) (length pre) p (length pre + length cl) = Some (length pre + n)" "0 < n" "n \<le> length cl"
    "concave (take n cl @ [p])" "\<forall>l. (\<forall>q \<in> set (take n cl). over l q) \<and> over l p \<longrightarrow> (\<forall>q \<in> set cl. over l q)" by auto
  have "set (take n cl @ [p]) \<subseteq> insert p L" using h(4) set_take_subset [of n cl] by auto
  moreover have "hd (take n cl @ [p]) = a" using h(2,3) n(2) by (cases cl) auto
  moreover have "\<forall>q \<in> insert p L. over l q"
    if "fst l \<le> slope_of a b" "\<forall>u \<in> U. beneath l u" "\<forall>q \<in> set (take n cl @ [p]). over l q" for l
  proof -
    have "\<forall>q \<in> set cl. over l q" using n(5) [THEN spec, of l] that(3) by simp
    then have "\<forall>q \<in> L. over l q" using assms(1) that(1,2) unfolding hull_inv_def by blast
    then show ?thesis using that(3) by simp
  qed
  ultimately have "hull_inv U (insert p L) a b (take n cl @ [p])" using assms(1,2) n(4) unfolding hull_inv_def by blast
  then show ?thesis using n(1-3) by blast
qed

section \<open>The line of least slope\<close>

text \<open>The mirror image of the other side.\<close>

definition neg_pt :: "point \<Rightarrow> point" where
  "neg_pt p = (fst p, - snd p)"

definition neg_line :: "line \<Rightarrow> line" where
  "neg_line l = (- fst l, - snd l)"

lemma neg_simps [simp]: "fst (neg_pt p) = fst p" "snd (neg_pt p) = - snd p" "neg_pt (neg_pt p) = p"
  "fst (neg_line l) = - fst l" "neg_line (neg_line l) = l" "at_x (neg_line l) x = - at_x l x"
  "slope_of (neg_pt p) (neg_pt q) = - slope_of p q" "through (neg_pt p) (neg_pt q) = neg_line (through p q)"
  "over (neg_line l) (neg_pt p) = beneath l p" "beneath (neg_line l) (neg_pt p) = over l p" "cross (neg_pt a) (neg_pt b) (neg_pt c) = - cross a b c"
  by (auto simp: neg_pt_def neg_line_def at_x_def slope_of_def through_def over_def beneath_def cross_def diff_pt_def Let_def field_simps minus_divide_left
      simp del: minus_divide_left [symmetric])

lemma neg_over: "over l (neg_pt p) = beneath (neg_line l) p" "beneath l (neg_pt p) = over (neg_line l) p"
  by (metis neg_simps(5,9,10))+

lemma neg_extreme: "extreme_slope slope_lt p qs i (diff_pt m p) mi = extreme_slope slope_gt (neg_pt p) (map neg_pt qs) i (diff_pt (neg_pt m) (neg_pt p)) mi"
proof (induction qs arbitrary: i m mi)
  case (Cons q qs)
  have "slope_lt (diff_pt q p) (diff_pt m p) \<longleftrightarrow> slope_gt (diff_pt (neg_pt q) (neg_pt p)) (diff_pt (neg_pt m) (neg_pt p))"
    by (simp add: slope_lt_def slope_gt_def diff_pt_def neg_pt_def algebra_simps)
  then show ?case using Cons by simp
qed simp

lemma neg_pop: "pop_hull (\<lambda>c. c \<le> 0) v start p e = pop_hull (\<lambda>c. c \<ge> 0) (map neg_pt v) start (neg_pt p) e"
proof (induction e)
  case (Suc e)
  then show ?case by (subst (1 2) pop_hull.simps) (auto simp: rd_def)
qed (simp add: pop_hull.simps)

section \<open>Both lines\<close>

text \<open>
  One of the two blocks of \<open>add_point\<close>: the line of greatest slope is replaced, and the new point is
  added to the hull on the other side.
\<close>

lemma line_step:
  assumes "hull_inv U L a b (drop s lo)" "hull_inv (neg_pt ` L) (neg_pt ` U) c d (map neg_pt (drop t up))" "\<forall>u \<in> U. fst u \<le> fst p"
    "\<forall>q \<in> set (drop s lo). fst q \<le> fst p \<and> (fst q = fst p \<longrightarrow> snd q < snd p)" "\<forall>q \<in> set (drop t up). fst q < fst p"
    "py p < at_x (through a b) (px p)" "beneath (neg_line (through c d)) p"
    "k = extreme_slope slope_gt p (drop (s + 1) lo) (s + 1) (diff_pt a p) s"
  shows "\<exists>r n. rd lo s = Some a \<and> rd lo k = Some r \<and>
    pop_hull (\<lambda>c. c \<le> 0) up t p (length up) = Some n \<and>
    hull_inv (insert p U) L r p (drop k lo) \<and> hull_inv (neg_pt ` L) (neg_pt ` insert p U) c d (map neg_pt (drop t (take n up @ [p])))"
proof -
  have s: "s < length lo" "t < length up" "hd (drop s lo) = a" using assms(1,2) by (auto simp: hull_inv_def)
  then have "a = lo ! s" by (simp add: hd_drop_conv_nth)
  then have lo: "drop s lo = a # drop (s + 1) lo" "rd lo s = Some a" using Cons_nth_drop_Suc [OF s(1)] s(1) by (simp_all add: rd_def)
  have l0: "beneath (neg_line (through c d)) u" if "u \<in> U" for u
    using that assms(2) unfolding hull_inv_def neg_over(1) [symmetric] by blast
  have l1: "over (neg_line (through c d)) q" if "q \<in> L" for q
    using that assms(2) unfolding hull_inv_def neg_over(2) [symmetric] by blast
  have "at_x (neg_line (through c d)) (px p) \<le> py p" using assms(7) by (simp add: beneath_def)
  with replace_line [OF assms(1) [unfolded lo(1)] assms(3) _ _ _ _ assms(6), of "neg_line (through c d)" s] l0 l1 assms(4) obtain i where
    i: "k = s + i" "i < length (a # drop (s + 1) lo)"
    "hull_inv (insert p U) L ((a # drop (s + 1) lo) ! i) p (drop i (a # drop (s + 1) lo))" unfolding lo(1) assms(8) by auto
  have k': "s + i < length lo" "(a # drop (s + 1) lo) ! i = lo ! (s + i)" "drop i (a # drop (s + 1) lo) = drop (s + i) lo"
    using i(2) s(1) unfolding lo(1) [symmetric] by (simp_all add: add.commute)
  have "over (through c d) (neg_pt p)" using assms(7) by (simp only: neg_over)
  with push_lower [OF assms(2), of "neg_pt p" "map neg_pt (take t up)"] assms(5) s(2) obtain n where
    n: "pop_hull (\<lambda>c. c \<ge> 0) (map neg_pt up) t (neg_pt p) (length up) = Some (t + n)" "n \<le> length up - t"
    "hull_inv (neg_pt ` L) (insert (neg_pt p) (neg_pt ` U)) c d (take n (map neg_pt (drop t up)) @ [neg_pt p])"
    by (auto simp: min_def map_append [symmetric] simp del: map_append)
  have "map neg_pt (drop t (take (t + n) up @ [p])) = take n (map neg_pt (drop t up)) @ [neg_pt p]"
    using s(2) n(2) by (simp add: take_map drop_take min_def)
  then show ?thesis using lo(2) i k' n(1,3)
    by (intro exI [of _ "lo ! (s + i)"] exI [of _ "t + n"]) (simp add: rd_def neg_pop)
qed

definition hulls_ok :: "'a opt_scheme \<Rightarrow> point set \<Rightarrow> point set \<Rightarrow> bool" where
  "hulls_ok S U L \<longleftrightarrow> hull_inv U L (rect1 S) (rect3 S) (drop (lower_start S) (lower S)) \<and>
     hull_inv (neg_pt ` L) (neg_pt ` U) (neg_pt (rect0 S)) (neg_pt (rect2 S)) (map neg_pt (drop (upper_start S) (upper S)))"

lemma neg_image [simp]: "neg_pt ` neg_pt ` A = A" "neg_pt \<circ> neg_pt = id" "neg_pt p \<in> neg_pt ` A \<longleftrightarrow> p \<in> A"
proof -
  show "neg_pt p \<in> neg_pt ` A \<longleftrightarrow> p \<in> A" by (metis image_iff neg_simps(3))
qed (force simp: image_iff fun_eq_iff)+

lemma rd_neg: "rd (map neg_pt v) i = Some q \<longleftrightarrow> rd v i = Some (neg_pt q)"
  by (auto simp: rd_def)

lemma hulls_okD:
  assumes "hulls_ok S U L"
  shows "rect0 S \<in> U" "rect2 S \<in> L" "rect1 S \<in> L" "rect3 S \<in> U" "fst (rect0 S) < fst (rect2 S)" "fst (rect1 S) < fst (rect3 S)"
    "set (drop (lower_start S) (lower S)) \<subseteq> L" "set (drop (upper_start S) (upper S)) \<subseteq> U"
    "\<And>u. u \<in> U \<Longrightarrow> beneath (through (rect0 S) (rect2 S)) u" "\<And>q. q \<in> L \<Longrightarrow> over (through (rect0 S) (rect2 S)) q"
    "\<And>u. u \<in> U \<Longrightarrow> beneath (through (rect1 S) (rect3 S)) u" "\<And>q. q \<in> L \<Longrightarrow> over (through (rect1 S) (rect3 S)) q"
proof -
  have "neg_pt ` set (drop (upper_start S) (upper S)) \<subseteq> neg_pt ` U" using assms by (auto simp: hulls_ok_def hull_inv_def)
  then show "set (drop (upper_start S) (upper S)) \<subseteq> U" by (metis image_mono neg_image(1))
qed (use assms in \<open>auto simp: hulls_ok_def hull_inv_def\<close>)

lemma lower_block:
  assumes "hulls_ok S U L" "\<forall>q \<in> U \<union> L. fst q < fst p" "beneath (through (rect0 S) (rect2 S)) p"
  shows "\<exists>S'. (if slope_lt (diff_pt p (rect1 S)) (diff_pt (rect3 S) (rect1 S)) then lower_line S p else Some S) = Some S' \<and>
    hulls_ok S' (insert p U) L \<and> rect0 S' = rect0 S \<and> rect2 S' = rect2 S \<and> epsilon S' = epsilon S \<and> last_x S' = last_x S \<and> first_x S' = first_x S \<and>
    (rect3 S' = p \<or> rect1 S' = rect1 S \<and> rect3 S' = rect3 S)"
proof -
  note D = hulls_okD [OF assms(1)]
  have h: "hull_inv U L (rect1 S) (rect3 S) (drop (lower_start S) (lower S))"
    "hull_inv (neg_pt ` L) (neg_pt ` U) (neg_pt (rect0 S)) (neg_pt (rect2 S)) (map neg_pt (drop (upper_start S) (upper S)))"
    using assms(1) by (simp_all add: hulls_ok_def)
  show ?thesis
  proof (cases "slope_lt (diff_pt p (rect1 S)) (diff_pt (rect3 S) (rect1 S))")
    case True
    let ?k = "extreme_slope slope_gt p (drop (lower_start S + 1) (lower S)) (lower_start S + 1) (diff_pt (rect1 S) p) (lower_start S)"
    have "py p < at_x (through (rect1 S) (rect3 S)) (px p)" using True left_of_through(3) [OF D(6)] by simp
    moreover have "\<forall>u \<in> U. fst u \<le> fst p" "\<forall>q \<in> set (drop (upper_start S) (upper S)). fst q < fst p"
      "\<forall>q \<in> set (drop (lower_start S) (lower S)). fst q < fst p" using D(7,8) assms(2) by (auto simp: less_imp_le)
    moreover from this(3) have "\<forall>q \<in> set (drop (lower_start S) (lower S)). fst q \<le> fst p \<and> (fst q = fst p \<longrightarrow> snd q < snd p)"
      by (metis less_imp_le less_irrefl)
    ultimately obtain r n where
      "rd (lower S) (lower_start S) = Some (rect1 S)" "rd (lower S) ?k = Some r"
      "pop_hull (\<lambda>c. c \<le> 0) (upper S) (upper_start S) p (length (upper S)) = Some n" "hull_inv (insert p U) L r p (drop ?k (lower S))"
      "hull_inv (neg_pt ` L) (neg_pt ` insert p U) (neg_pt (rect0 S)) (neg_pt (rect2 S)) (map neg_pt (drop (upper_start S) (take n (upper S) @ [p])))"
      using line_step [OF h, of p ?k] assms(3) by auto
    then show ?thesis using True by (simp add: lower_line_def Let_def hulls_ok_def)
  next
    case False
    then have u: "beneath (through (rect1 S) (rect3 S)) p" using left_of_through(3) [OF D(6)] by (simp add: beneath_def)
    have "hull_inv (neg_pt ` L) (insert (neg_pt p) (neg_pt ` U)) (neg_pt (rect0 S)) (neg_pt (rect2 S)) (map neg_pt (drop (upper_start S) (upper S)))"
      using add_lower [OF h(2), of "neg_pt p" "neg_pt (rect1 S)" "neg_pt (rect3 S)"] assms(2,3) D(3,4,6) u by (auto simp: less_imp_le)
    then show ?thesis using False add_upper [OF h(1) u] by (simp add: hulls_ok_def)
  qed
qed

lemma upper_block:
  assumes "hulls_ok S (insert p1 U) L" "\<forall>q \<in> U \<union> L. fst q < fst p" "fst p1 = fst p" "snd p < snd p1" "over (through (rect1 S) (rect3 S)) p"
    "rect0 S \<in> U"
  shows "\<exists>S'. (if slope_gt (diff_pt p (rect0 S)) (diff_pt (rect2 S) (rect0 S)) then upper_line S p else Some S) = Some S' \<and>
    hulls_ok S' (insert p1 U) (insert p L) \<and> epsilon S' = epsilon S \<and> last_x S' = last_x S \<and> first_x S' = first_x S"
proof -
  note D = hulls_okD [OF assms(1)]
  let ?U = "insert p1 U"
  have h: "hull_inv ?U L (rect1 S) (rect3 S) (drop (lower_start S) (lower S))"
    "hull_inv (neg_pt ` L) (neg_pt ` ?U) (neg_pt (rect0 S)) (neg_pt (rect2 S)) (map neg_pt (drop (upper_start S) (upper S)))"
    using assms(1) by (simp_all add: hulls_ok_def)
  have m: "hull_inv (neg_pt ` neg_pt ` ?U) (neg_pt ` neg_pt ` L) (rect1 S) (rect3 S) (map neg_pt (drop (lower_start S) (map neg_pt (lower S))))"
    using h(1) by (simp add: drop_map del: image_insert)
  show ?thesis
  proof (cases "slope_gt (diff_pt p (rect0 S)) (diff_pt (rect2 S) (rect0 S))")
    case True
    let ?k = "extreme_slope slope_lt p (drop (upper_start S + 1) (upper S)) (upper_start S + 1) (diff_pt (rect0 S) p) (upper_start S)"
    have "at_x (through (rect0 S) (rect2 S)) (px p) < py p" using True left_of_through(4) [OF D(5)] by simp
    then have "py (neg_pt p) < at_x (through (neg_pt (rect0 S)) (neg_pt (rect2 S))) (px (neg_pt p))" by simp
    moreover have "fst q \<le> fst p \<and> (fst q = fst p \<longrightarrow> snd p < snd q)" if "q \<in> insert p1 U" for q
      using that assms(2-4) by (cases "q = p1") (auto dest: less_imp_le simp: less_le)
    then have "\<forall>q \<in> set (drop (upper_start S) (map neg_pt (upper S))). fst q \<le> fst (neg_pt p) \<and> (fst q = fst (neg_pt p) \<longrightarrow> snd q < snd (neg_pt p))"
      using D(8) by (auto simp: drop_map)
    moreover have "\<forall>q \<in> set (drop (lower_start S) (map neg_pt (lower S))). fst q < fst (neg_pt p)" using D(7) assms(2) by (auto simp: drop_map)
    ultimately obtain r n where
      r: "rd (map neg_pt (upper S)) (upper_start S) = Some (neg_pt (rect0 S))" "rd (map neg_pt (upper S)) ?k = Some r"
      "pop_hull (\<lambda>c. c \<le> 0) (map neg_pt (lower S)) (lower_start S) (neg_pt p) (length (lower S)) = Some n"
      "hull_inv (insert (neg_pt p) (neg_pt ` L)) (neg_pt ` ?U) r (neg_pt p) (drop ?k (map neg_pt (upper S)))"
      "hull_inv (neg_pt ` neg_pt ` ?U) (neg_pt ` insert (neg_pt p) (neg_pt ` L)) (rect1 S) (rect3 S)
        (map neg_pt (drop (lower_start S) (take n (map neg_pt (lower S)) @ [neg_pt p])))"
      using line_step [OF h(2) [folded drop_map] m, of "neg_pt p" ?k] assms(2,5)
      by (simp add: neg_extreme drop_map less_imp_le neg_over del: image_insert) blast
    have "upper_line S p = Some (S\<lparr>rect0 := neg_pt r, rect2 := p, upper_start := ?k, lower := take n (lower S) @ [p]\<rparr>)"
      using r(1-3) by (simp add: upper_line_def Let_def rd_neg neg_pop)
    moreover have "map neg_pt (drop (lower_start S) (take n (map neg_pt (lower S)) @ [neg_pt p])) = drop (lower_start S) (take n (lower S) @ [p])"
      using map_map [of neg_pt neg_pt] by (simp add: drop_map [symmetric] take_map [symmetric] del: drop_append)
    ultimately show ?thesis using True r(4,5) by (simp add: hulls_ok_def drop_map del: drop_append map_append)
  next
    case False
    then have u: "over (through (rect0 S) (rect2 S)) p" using left_of_through(4) [OF D(5)] by (simp add: over_def)
    have "hull_inv ?U (insert p L) (rect1 S) (rect3 S) (drop (lower_start S) (lower S))"
      using add_lower [OF h(1) assms(5) D(1,2,5) _ u] D(2) assms(2) by (auto simp: less_imp_le)
    moreover have "hull_inv (insert (neg_pt p) (neg_pt ` L)) (neg_pt ` ?U) (neg_pt (rect0 S)) (neg_pt (rect2 S)) (map neg_pt (drop (upper_start S) (upper S)))"
      using add_upper [OF h(2), of "neg_pt p"] u by simp
    ultimately show ?thesis using False by (simp add: hulls_ok_def)
  qed
qed

section \<open>Adding a point\<close>

definition uppers :: "int \<Rightarrow> point list \<Rightarrow> point set" where
  "uppers eps pts = (\<lambda>(x, y). upper_pt eps x y) ` set pts"

definition lowers :: "int \<Rightarrow> point list \<Rightarrow> point set" where
  "lowers eps pts = (\<lambda>(x, y). lower_pt eps x y) ` set pts"

text \<open>A line fits the points if it passes between their lower and their upper points.\<close>

definition fits :: "int \<Rightarrow> point list \<Rightarrow> bool" where
  "fits eps pts \<longleftrightarrow> (\<exists>l. (\<forall>u \<in> uppers eps pts. beneath l u) \<and> (\<forall>q \<in> lowers eps pts. over l q))"

definition opt_inv :: "'a opt_scheme \<Rightarrow> point list \<Rightarrow> bool" where
  "opt_inv S pts \<longleftrightarrow> points_in_hull S = length pts \<and> sorted_wrt (<) (map fst pts) \<and>
     (pts \<noteq> [] \<longrightarrow> last_x S = fst (last pts) \<and> first_x S = fst (hd pts)) \<and>
     (case pts of
        [] \<Rightarrow> True
      | [(x, y)] \<Rightarrow> rect0 S = upper_pt (epsilon S) x y \<and> rect1 S = lower_pt (epsilon S) x y \<and> upper S = [rect0 S] \<and> lower S = [rect1 S] \<and>
          upper_start S = 0 \<and> lower_start S = 0
      | _ \<Rightarrow> hulls_ok S (uppers (epsilon S) pts) (lowers (epsilon S) pts))"

definition plm_inv :: "plm \<Rightarrow> point list \<Rightarrow> bool" where
  "plm_inv S pts \<longleftrightarrow> opt_inv S pts \<and> points S = pts"

lemma bounds_snoc: "uppers eps (pts @ [(x, y)]) = insert (upper_pt eps x y) (uppers eps pts)"
  "lowers eps (pts @ [(x, y)]) = insert (lower_pt eps x y) (lowers eps pts)"
  by (auto simp: uppers_def lowers_def)

lemma pt_simps [simp]: "fst (upper_pt eps x y) = x" "fst (lower_pt eps x y) = x"
  by (simp_all add: upper_pt_def lower_pt_def)

lemma lower_less_upper: "0 < eps \<Longrightarrow> eps \<le> max_y \<Longrightarrow> 0 \<le> y \<Longrightarrow> y \<le> max_y \<Longrightarrow> snd (lower_pt eps x y) < snd (upper_pt eps x y)"
  by (auto simp: lower_pt_def upper_pt_def)

lemma last_greatest: "sorted_wrt (<) (map fst pts) \<Longrightarrow> z \<in> set pts \<Longrightarrow> (fst z :: int) \<le> fst (last pts)"
  by (induction pts) (auto split: if_splits simp: less_imp_le)

lemma bounds_left:
  assumes "sorted_wrt (<) (map fst pts)" "fst (last pts) < x" "q \<in> uppers eps pts \<union> lowers eps pts"
  shows "fst q < x"
proof -
  from assms(3) obtain z where z: "z \<in> set pts" "fst q = fst z" by (auto simp: uppers_def lowers_def)
  with last_greatest [OF assms(1) z(1)] assms(2) show ?thesis by simp
qed

lemma two_points:
  assumes "0 < eps" "eps \<le> max_y" "x0 < x" "0 \<le> y0" "y0 \<le> max_y" "0 \<le> y" "y \<le> max_y"
    "rect0 S = upper_pt eps x0 y0" "rect1 S = lower_pt eps x0 y0" "rect2 S = lower_pt eps x y" "rect3 S = upper_pt eps x y"
    "upper S = [rect0 S, rect3 S]" "lower S = [rect1 S, rect2 S]" "upper_start S = 0" "lower_start S = 0"
  shows "hulls_ok S (uppers eps [(x0, y0), (x, y)]) (lowers eps [(x0, y0), (x, y)])"
proof -
  have y: "snd (rect1 S) < snd (rect0 S)" "snd (rect2 S) < snd (rect3 S)" using assms(1-11) lower_less_upper by simp_all
  have x: "fst (rect0 S) = x0" "fst (rect1 S) = x0" "fst (rect2 S) = x" "fst (rect3 S) = x" using assms(8-11) by simp_all
  have ends: "at_x (through (rect1 S) (rect3 S)) (real_of_int x0) = py (rect1 S)" "at_x (through (rect1 S) (rect3 S)) (real_of_int x) = py (rect3 S)"
    "at_x (through (rect0 S) (rect2 S)) (real_of_int x0) = py (rect0 S)" "at_x (through (rect0 S) (rect2 S)) (real_of_int x) = py (rect2 S)"
    using through_start [of "rect1 S"] through_end [of "rect1 S" "rect3 S"] through_start [of "rect0 S"] through_end [of "rect0 S" "rect2 S"] x assms(3)
    by simp_all
  have sets: "uppers eps [(x0, y0), (x, y)] = {rect0 S, rect3 S}" "lowers eps [(x0, y0), (x, y)] = {rect1 S, rect2 S}"
    using assms(8-11) by (auto simp: uppers_def lowers_def)
  show ?thesis unfolding sets hulls_ok_def using y x ends assms(3,12-15) by (simp add: hull_inv_def over_def beneath_def)
qed

lemma fits_hulls: "hulls_ok S (uppers eps pts) (lowers eps pts) \<Longrightarrow> fits eps pts"
  unfolding fits_def using hulls_okD(11,12) by blast

text \<open>Outside of an extreme line there is no line left.\<close>

lemma outside_no_fit:
  assumes "hulls_ok S (uppers eps pts) (lowers eps pts)" "\<forall>q \<in> uppers eps pts \<union> lowers eps pts. fst q < x"
    "py (upper_pt eps x y) < at_x (through (rect0 S) (rect2 S)) (real_of_int x) \<or> at_x (through (rect1 S) (rect3 S)) (real_of_int x) < py (lower_pt eps x y)"
  shows "\<not> fits eps (pts @ [(x, y)])"
proof
  assume "fits eps (pts @ [(x, y)])"
  then obtain l where l: "\<forall>u \<in> uppers eps pts. beneath l u" "\<forall>q \<in> lowers eps pts. over l q" "beneath l (upper_pt eps x y)" "over l (lower_pt eps x y)"
    by (auto simp: fits_def bounds_snoc)
  note D = hulls_okD [OF assms(1)]
  have "at_x (through (rect0 S) (rect2 S)) (real_of_int x) \<le> at_x l (real_of_int x)"
    using past_through [OF D(5), of "upper_pt eps x y" l] D(1,2) l(1,2) assms(2) by (auto simp: less_imp_le)
  moreover have "at_x l (real_of_int x) \<le> at_x (through (rect1 S) (rect3 S)) (real_of_int x)"
    using past_through [of "neg_pt (rect1 S)" "neg_pt (rect3 S)" "neg_pt (lower_pt eps x y)" "neg_line l"] D(3,4,6) l(1,2) assms(2) by (auto simp: less_imp_le)
  ultimately show False using assms(3) l(3,4) by (auto simp: beneath_def over_def)
qed

lemma sorted_snoc:
  assumes "sorted_wrt (<) (map fst pts)" "pts \<noteq> [] \<Longrightarrow> fst (last pts) < (x :: int)" shows "sorted_wrt (<) (map fst (pts @ [(x, y)]))"
proof -
  have "\<forall>z \<in> set pts. fst z < x" using last_greatest [OF assms(1)] assms(2) by (metis empty_iff le_less_trans list.set(1))
  then show ?thesis using assms(1) by (simp add: sorted_wrt_append)
qed

lemma add_third_point:
  assumes "plm_inv S pts" "2 \<le> length pts" "fst (last pts) < x" "0 < epsilon S" "epsilon S \<le> max_y" "0 \<le> y" "y \<le> max_y"
  shows "\<exists>S'. add_point S x y = Some (Inr (S', fits (epsilon S) (pts @ [(x, y)]))) \<and> epsilon S' = epsilon S \<and>
    (fits (epsilon S) (pts @ [(x, y)]) \<longrightarrow> plm_inv S' (pts @ [(x, y)]))"
proof -
  let ?e = "epsilon S" and ?U = "uppers (epsilon S) pts" and ?L = "lowers (epsilon S) pts"
  define S1 where "S1 = S\<lparr>last_x := x, last_rank := y\<rparr>"
  define p1 p2 where "p1 = upper_pt ?e x y" and "p2 = lower_pt ?e x y"
  have p: "fst p1 = x" "fst p2 = x" "snd p2 < snd p1" using lower_less_upper assms(4-7) by (simp_all add: p1_def p2_def)
  obtain z1 z2 rest where pts: "pts = z1 # z2 # rest" using assms(2) by (cases pts; cases "tl pts") auto
  have I: "points_in_hull S = length pts" "points S = pts" "sorted_wrt (<) (map fst pts)" "last_x S = fst (last pts)" "hulls_ok S ?U ?L" "first_x S = fst (hd pts)"
    using assms(1) pts by (auto simp: plm_inv_def opt_inv_def)
  note D = hulls_okD [OF I(5)]
  have lt: "\<forall>q \<in> ?U \<union> ?L. fst q < x" using bounds_left [OF I(3) assms(3)] by blast
  have o1: "slope_lt (diff_pt p1 (rect2 S)) (diff_pt (rect2 S) (rect0 S)) \<longleftrightarrow> py p1 < at_x (through (rect0 S) (rect2 S)) (real_of_int x)"
    using left_of_through(1) [OF D(5), of p1] p(1) by simp
  have o2: "slope_gt (diff_pt p2 (rect3 S)) (diff_pt (rect3 S) (rect1 S)) \<longleftrightarrow> at_x (through (rect1 S) (rect3 S)) (real_of_int x) < py p2"
    using left_of_through(2) [OF D(6), of p2] p(2) by simp
  have n: "\<not> (points_in_hull S > 0 \<and> x \<le> last_x S)" "points_in_hull S \<noteq> 0" "points_in_hull S \<noteq> 1" using I(1,4) assms(2,3) by auto
  note unfold = add_point_def n if_False Let_def S1_def [symmetric] p1_def [symmetric] p2_def [symmetric]
  show ?thesis
  proof (cases "slope_lt (diff_pt p1 (rect2 S)) (diff_pt (rect2 S) (rect0 S)) \<or> slope_gt (diff_pt p2 (rect3 S)) (diff_pt (rect3 S) (rect1 S))")
    case True
    then have "\<not> fits ?e (pts @ [(x, y)])" using outside_no_fit [OF I(5) lt] o1 o2 by (simp add: p1_def p2_def)
    then show ?thesis using True by (simp only: unfold) (simp add: S1_def)
  next
    case False
    have "hulls_ok S1 ?U ?L" using I(5) by (simp add: hulls_ok_def S1_def)
    moreover have "beneath (through (rect0 S1) (rect2 S1)) p1" using False o1 p(1) by (simp add: beneath_def S1_def)
    ultimately obtain S2 where
      S2: "(if slope_lt (diff_pt p1 (rect1 S)) (diff_pt (rect3 S) (rect1 S)) then lower_line S1 p1 else Some S1) = Some S2"
      "hulls_ok S2 (insert p1 ?U) ?L" "rect0 S2 = rect0 S" "rect2 S2 = rect2 S" "epsilon S2 = ?e" "last_x S2 = x" "first_x S2 = first_x S"
      "rect3 S2 = p1 \<or> rect1 S2 = rect1 S \<and> rect3 S2 = rect3 S"
      using lower_block [of S1 ?U ?L p1] lt p(1) by (auto simp: S1_def)
    have "over (through (rect1 S2) (rect3 S2)) p2"
      using S2(8) False o2 p through_end [OF hulls_okD(6) [OF S2(2)]] by (auto simp: over_def)
    with upper_block [OF S2(2), of p2] lt p S2(3) D(1) obtain S3 where
      S3: "(if slope_gt (diff_pt p2 (rect0 S)) (diff_pt (rect2 S) (rect0 S)) then upper_line S2 p2 else Some S2) = Some S3"
      "hulls_ok S3 (insert p1 ?U) (insert p2 ?L)" "epsilon S3 = ?e" "last_x S3 = x" "first_x S3 = first_x S" by (auto simp: S2(3-7))
    define S' where "S' = S3\<lparr>points_in_hull := points_in_hull S + 1, points := points S @ [(x, y)]\<rparr>"
    have h: "hulls_ok S' (uppers ?e (pts @ [(x, y)])) (lowers ?e (pts @ [(x, y)]))"
      using S3(2) by (simp add: bounds_snoc p1_def p2_def hulls_ok_def S'_def)
    then have "fits ?e (pts @ [(x, y)])" by (rule fits_hulls)
    moreover have "add_point S x y = Some (Inr (S', True))" using False S2(1) S3(1) by (simp only: unfold) (simp add: S'_def)
    moreover have "plm_inv S' (pts @ [(x, y)])"
      using h S3(3-5) I sorted_snoc [OF I(3), of x y] assms(3) pts by (auto simp: plm_inv_def opt_inv_def S'_def)
    ultimately show ?thesis using S3(3) by (auto simp: S'_def)
  qed
qed

lemma add_second_point:
  assumes "plm_inv S [(x0, y0)]" "x0 < x" "0 < epsilon S" "epsilon S \<le> max_y" "0 \<le> y0" "y0 \<le> max_y" "0 \<le> y" "y \<le> max_y"
  shows "\<exists>S'. add_point S x y = Some (Inr (S', True)) \<and> fits (epsilon S) [(x0, y0), (x, y)] \<and> epsilon S' = epsilon S \<and> plm_inv S' [(x0, y0), (x, y)]"
proof -
  have I: "points_in_hull S = 1" "points S = [(x0, y0)]" "last_x S = x0" "first_x S = x0" "rect0 S = upper_pt (epsilon S) x0 y0" "rect1 S = lower_pt (epsilon S) x0 y0"
    "upper S = [rect0 S]" "lower S = [rect1 S]" "upper_start S = 0" "lower_start S = 0" using assms(1) by (auto simp: plm_inv_def opt_inv_def)
  define S' where "S' = S\<lparr>last_x := x, last_rank := y, rect2 := lower_pt (epsilon S) x y, rect3 := upper_pt (epsilon S) x y,
    upper := upper S @ [upper_pt (epsilon S) x y], lower := lower S @ [lower_pt (epsilon S) x y], points_in_hull := 2, points := points S @ [(x, y)]\<rparr>"
  have "add_point S x y = Some (Inr (S', True))" using I(1,3) assms(2) by (simp add: add_point_def S'_def Let_def)
  moreover have h: "hulls_ok S' (uppers (epsilon S) [(x0, y0), (x, y)]) (lowers (epsilon S) [(x0, y0), (x, y)])"
    using assms(2-8) I(5-10) by (intro two_points) (simp_all add: S'_def)
  ultimately show ?thesis using fits_hulls [OF h] I assms(2) by (auto simp: plm_inv_def opt_inv_def S'_def)
qed

text \<open>
  The two hulls decide exactly whether a line is left: \<open>add_point\<close> accepts a point if and only if one
  line fits it together with all points of the segment.
\<close>

lemma fits_single: "0 \<le> eps \<Longrightarrow> eps \<le> max_y \<Longrightarrow> 0 \<le> y \<Longrightarrow> y \<le> max_y \<Longrightarrow> fits eps [(x, y)]"
  unfolding fits_def by (intro exI [of _ "(0, real_of_int y)"]) (auto simp: uppers_def lowers_def beneath_def over_def at_x_def upper_pt_def lower_pt_def)

lemma add_point_step:
  assumes "plm_inv S pts" "pts \<noteq> [] \<Longrightarrow> fst (last pts) < x" "0 < epsilon S" "epsilon S \<le> max_y" "\<forall>z \<in> set (pts @ [(x, y)]). 0 \<le> snd z \<and> snd z \<le> max_y"
  shows "\<exists>S'. add_point S x y = Some (Inr (S', fits (epsilon S) (pts @ [(x, y)]))) \<and> epsilon S' = epsilon S \<and>
    (fits (epsilon S) (pts @ [(x, y)]) \<longrightarrow> plm_inv S' (pts @ [(x, y)]))"
proof -
  consider (none) "pts = []" | (one) x0 y0 where "pts = [(x0, y0)]" | (more) "2 \<le> length pts"
    by (cases pts rule: remdups_adj.cases) auto
  then show ?thesis
  proof cases
    case none
    then have "points_in_hull S = 0" "points S = []" using assms(1) by (auto simp: plm_inv_def opt_inv_def)
    moreover have "fits (epsilon S) (pts @ [(x, y)])" using none assms(3-5) by (simp add: fits_single)
    ultimately show ?thesis using none by (simp add: add_point_def plm_inv_def opt_inv_def Let_def)
  next
    case one
    then show ?thesis using add_second_point [of S x0 y0 x y] assms by auto
  next
    case more
    then have "pts \<noteq> []" by auto
    then show ?thesis using add_third_point [OF assms(1) more assms(2-4)] assms(5) by auto
  qed
qed

lemma add_point_error: "plm_inv S pts \<Longrightarrow> pts \<noteq> [] \<Longrightarrow> x \<le> fst (last pts) \<Longrightarrow> add_point S x y = Some (Inl Points_must_be_increasing)"
  by (simp add: plm_inv_def opt_inv_def add_point_def)

section \<open>The arithmetic fits in 128 bits\<close>

definition in_range :: "nat \<Rightarrow> point \<Rightarrow> bool" where
  "in_range b p \<longleftrightarrow> 0 \<le> fst p \<and> fst p < 2 ^ 64 \<and> 0 \<le> snd p \<and> snd p < 2 ^ b"

lemma product_fits:
  assumes "in_range 33 a" "in_range 33 b" "in_range 33 c" "in_range 33 d"
  shows "\<bar>fst (diff_pt a b) * snd (diff_pt c d)\<bar> < 2 ^ 97"
proof -
  have "\<bar>fst (diff_pt a b)\<bar> < 2 ^ 64" "\<bar>snd (diff_pt c d)\<bar> < 2 ^ 33" using assms by (auto simp: in_range_def diff_pt_def)
  then have "\<bar>fst (diff_pt a b)\<bar> * \<bar>snd (diff_pt c d)\<bar> < 2 ^ 64 * 2 ^ 33" by (intro mult_strict_mono) simp_all
  then show ?thesis by (simp add: abs_mult)
qed

lemma cross_fits: "in_range 33 a \<Longrightarrow> in_range 33 b \<Longrightarrow> in_range 33 c \<Longrightarrow> \<bar>cross a b c\<bar> < 2 ^ 98"
  using product_fits [of b a c a] product_fits [of c a b a] by (simp add: cross_def Let_def mult.commute abs_if split: if_splits)

text \<open>
  With 64-bit keys and ranks and a bound that come from an \<open>int\<close>, every point that \<open>add_point\<close> reads is
  small enough for its products.
\<close>

lemma hull_points_fit:
  assumes "hulls_ok S (uppers eps pts) (lowers eps pts)" "\<forall>z \<in> set pts. in_range 32 z" "0 < eps" "eps < 2 ^ 31"
  shows "\<forall>p \<in> {rect0 S, rect1 S, rect2 S, rect3 S} \<union> set (drop (lower_start S) (lower S)) \<union> set (drop (upper_start S) (upper S)). in_range 33 p"
proof -
  have "in_range 33 p" if "p \<in> uppers eps pts \<union> lowers eps pts" for p
    using that assms(2-4) by (fastforce simp: uppers_def lowers_def upper_pt_def lower_pt_def in_range_def max_y_def)
  then show ?thesis using hulls_okD(1-4,7,8) [OF assms(1)] by blast
qed

end
