(* ===== verification/Greedy.thy ===== *)
theory Greedy
  imports Main
begin

text \<open>
  Cutting a list into consecutive segments, each as long as a property allows. For a property that
  segments inherit to their parts, nothing needs fewer segments.
\<close>

text \<open>How many more segments a greedy segmentation starts behind the current one.\<close>

fun greedy :: "('a list \<Rightarrow> bool) \<Rightarrow> 'a list \<Rightarrow> 'a list \<Rightarrow> nat" where
  "greedy P cur [] = 0"
| "greedy P cur (x # xs) = (if P (cur @ [x]) then greedy P (cur @ [x]) xs else 1 + greedy P [x] xs)"

text \<open>The segments themselves.\<close>

fun greedy_pieces :: "('a list \<Rightarrow> bool) \<Rightarrow> 'a list \<Rightarrow> 'a list \<Rightarrow> 'a list list" where
  "greedy_pieces P cur [] = [cur]"
| "greedy_pieces P cur (x # xs) = (if P (cur @ [x]) then greedy_pieces P (cur @ [x]) xs else cur # greedy_pieces P [x] xs)"

lemma length_greedy_pieces: "length (greedy_pieces P cur xs) = 1 + greedy P cur xs"
  by (induction xs arbitrary: cur) auto

text \<open>A list is cut into segments of which each has the property.\<close>

definition segmentation :: "('a list \<Rightarrow> bool) \<Rightarrow> 'a list \<Rightarrow> 'a list list \<Rightarrow> bool" where
  "segmentation P xs qs \<longleftrightarrow> concat qs = xs \<and> (\<forall>q \<in> set qs. P q)"

definition least_segments :: "('a list \<Rightarrow> bool) \<Rightarrow> 'a list \<Rightarrow> nat \<Rightarrow> bool" where
  "least_segments P xs n \<longleftrightarrow> (\<exists>qs. segmentation P xs qs \<and> length qs = n) \<and> (\<forall>qs. segmentation P xs qs \<longrightarrow> n \<le> length qs)"

text \<open>Greedy segmentation is optimal for a property that segments inherit to their parts.\<close>

locale hereditary =
  fixes P :: "'a list \<Rightarrow> bool"
  assumes front: "P (xs @ ys) \<Longrightarrow> P xs" and rear: "P (xs @ ys) \<Longrightarrow> P ys"
begin

lemma greedy_pieces_ok: "P cur \<Longrightarrow> \<forall>x \<in> set xs. P [x] \<Longrightarrow> segmentation P (cur @ xs) (greedy_pieces P cur xs)"
  by (induction xs arbitrary: cur) (auto simp: segmentation_def)

text \<open>However far the current segment reaches back, no segmentation of the whole has fewer.\<close>

lemma greedy_least:
  assumes "segmentation P (z @ cur @ xs) qs" "cur \<noteq> []" shows "1 + greedy P cur xs \<le> length qs"
  using assms
proof (induction xs arbitrary: z cur qs)
  case Nil
  then show ?case by (cases qs) (auto simp: segmentation_def)
next
  case (Cons x xs)
  show ?case
  proof (cases "P (cur @ [x])")
    case True
    then show ?thesis using Cons.IH [of z "cur @ [x]" qs] Cons.prems by simp
  next
    case False
    obtain q qs' where qs: "qs = q # qs'" using Cons.prems by (cases qs) (auto simp: segmentation_def)
    have q: "P q" "q @ concat qs' = (z @ cur) @ x # xs" using Cons.prems(1) by (auto simp: segmentation_def qs)
    have n: "q \<noteq> z @ cur @ x # w" for w using q(1) False front [of "z @ cur @ [x]" w] rear [of z "cur @ [x]"] by auto
    obtain w where "q @ w = z @ cur \<and> concat qs' = w @ x # xs \<or> q = (z @ cur) @ w \<and> w @ concat qs' = x # xs"
      using q(2) unfolding append_eq_append_conv2 [of q] by metis
    then have "\<exists>w. concat qs' = w @ [x] @ xs" using n by (cases w) auto
    then obtain w where "segmentation P (w @ [x] @ xs) qs'" using Cons.prems(1) by (auto simp: segmentation_def qs)
    then show ?thesis using Cons.IH [of w "[x]" qs'] False by (simp add: qs)
  qed
qed

lemma greedy_optimal: "P [x] \<Longrightarrow> \<forall>y \<in> set xs. P [y] \<Longrightarrow> least_segments P (x # xs) (1 + greedy P [x] xs)"
  using greedy_pieces_ok [of "[x]" xs] length_greedy_pieces [of P "[x]" xs] greedy_least [of "[]" "[x]" xs] unfolding least_segments_def by auto

end

end
