(* ===== verification/PgmMetric.thy ===== *)
theory PgmMetric
  imports PgmHull Greedy "HOL-Library.Multiset"
begin

text \<open>
  \<open>PGM_metric\<close> and \<open>skew_variance\<close> of \<open>benchmark/pgm_metric.h\<close>: how many lines a data set needs. The
  keys are sorted and fed to the model of the theory \<open>PgmHull\<close> with their ranks; when no line is left,
  a new segment starts. The result is shown to be the least number of segments.

  The pointer \<open>mse\<close> is null, as in the benchmark: otherwise mean square errors are added up in
  floating point beside the loop. The error bound is an \<open>int\<close> that becomes an unsigned value, so the
  test for a negative bound in the constructor never fires.
\<close>

section \<open>Operations\<close>

definition new_plm :: "int \<Rightarrow> plm" where
  "new_plm eps = \<lparr>epsilon = eps, lower = [], upper = [], first_x = 0, last_x = 0, lower_start = 0, upper_start = 0,
     points_in_hull = 0, rect0 = (0, 0), rect1 = (0, 0), rect2 = (0, 0), rect3 = (0, 0), last_rank = 0, points = []\<rparr>"

text \<open>
  One round of the loop: the new state and whether a new segment was started. The result of the
  second \<open>add_point\<close> is ignored, an exception is not.
\<close>

definition next_key :: "plm \<Rightarrow> int \<Rightarrow> int \<Rightarrow> (logic_error + plm \<times> bool) option" where
  "next_key S x y =
     do { r \<leftarrow> add_point S x y;
          case r of
            Inl e \<Rightarrow> Some (Inl e)
          | Inr (S', True) \<Rightarrow> Some (Inr (S', False))
          | Inr (S', False) \<Rightarrow>
              do { r' \<leftarrow> add_point (reset_plm S') x y;
                   case r' of Inl e \<Rightarrow> Some (Inl e) | Inr (S'', _) \<Rightarrow> Some (Inr (S'', True)) } }"

fun metric_loop :: "int list \<Rightarrow> int \<Rightarrow> plm \<Rightarrow> nat \<Rightarrow> (logic_error + nat) option" where
  "metric_loop [] i S metric = Some (Inr metric)"
| "metric_loop (k # ks) i S metric =
     do { r \<leftarrow> next_key S k i;
          case r of Inl e \<Rightarrow> Some (Inl e) | Inr (S', new) \<Rightarrow> metric_loop ks (i + 1) S' (if new then metric + 1 else metric) }"

text \<open>A negative \<open>key_num\<close> or one beyond the array makes \<open>std::sort\<close> leave it. The array is left sorted.\<close>

definition PGM_metric :: "int list \<Rightarrow> int \<Rightarrow> int \<Rightarrow> (logic_error + int list \<times> nat) option" where
  "PGM_metric keys key_num error_bound =
     (if key_num < 0 \<or> length keys < nat key_num then None
      else let n = nat key_num; sorted_keys = sort (take n keys) in
        do { r \<leftarrow> metric_loop sorted_keys 0 (new_plm (error_bound mod 2 ^ 64)) 1;
             case r of Inl e \<Rightarrow> Some (Inl e) | Inr metric \<Rightarrow> Some (Inr (sorted_keys @ drop n keys, metric)) })"

text \<open>The loop of \<open>skew_variance\<close> with its counters \<open>model\<close>, \<open>sum\<close> and \<open>seg_count\<close>.\<close>

fun skew_loop :: "nat \<Rightarrow> int list \<Rightarrow> nat \<Rightarrow> plm \<Rightarrow> nat \<Rightarrow> nat \<Rightarrow> nat \<Rightarrow> (logic_error + nat \<times> nat \<times> nat) option" where
  "skew_loop cnt [] i S model acc seg_count = Some (Inr (model, acc, seg_count))"
| "skew_loop cnt (k # ks) i S model acc seg_count =
     (let (S1, model1, acc1, seg_count1) =
        (if i mod cnt = 0 then (reset_plm S, 0, acc + model + 1, seg_count + 1) else (S, model, acc, seg_count)) in
      do { r \<leftarrow> next_key S1 k (int i);
           case r of Inl e \<Rightarrow> Some (Inl e)
           | Inr (S', new) \<Rightarrow> skew_loop cnt ks (i + 1) S' (if new then model1 + 1 else model1) acc1 seg_count1 })"

text \<open>The result is the pair \<open>(model, seg_count)\<close> whose quotient is returned. \<open>i % count\<close> is undefined for
  \<open>count = 0\<close> as soon as there is a key.\<close>

definition skew_variance :: "int list \<Rightarrow> int \<Rightarrow> int \<Rightarrow> nat \<Rightarrow> (logic_error + nat \<times> nat) option" where
  "skew_variance keys key_num error_bound cnt =
     (if key_num < 0 \<or> length keys < nat key_num \<or> (cnt = 0 \<and> 0 < key_num) then None
      else do { r \<leftarrow> skew_loop cnt (sort (take (nat key_num) keys)) 0 (new_plm (error_bound mod 2 ^ 64)) 0 0 0;
                case r of Inl e \<Rightarrow> Some (Inl e) | Inr (model, acc, seg_count) \<Rightarrow> Some (Inr (model, seg_count)) })"

section \<open>Segments inherit their line\<close>

lemma fits_mono: "fits eps ys \<Longrightarrow> set xs \<subseteq> set ys \<Longrightarrow> fits eps xs"
  unfolding fits_def uppers_def lowers_def by (meson image_mono subsetD)

interpretation fit: hereditary "fits eps"
  by unfold_locales (erule fits_mono, simp)+

section \<open>The loop counts greedily\<close>

definition ranked :: "int list \<Rightarrow> int \<Rightarrow> point list" where
  "ranked ks i = zip ks (map (\<lambda>j. i + int j) [0..<length ks])"

lemma ranked_simps [simp]: "ranked [] i = []" "ranked (k # ks) i = (k, i) # ranked ks (i + 1)"
proof -
  have "[0..<length (k # ks)] = 0 # map Suc [0..<length ks]" by (simp add: upt_conv_Cons map_Suc_upt del: upt_Suc)
  then show "ranked (k # ks) i = (k, i) # ranked ks (i + 1)" by (simp add: ranked_def o_def add.assoc del: upt_Suc)
qed (simp add: ranked_def)

lemma ranked_bounds: "z \<in> set (ranked ks i) \<Longrightarrow> i \<le> snd z \<and> snd z < i + int (length ks)"
  by (induction ks arbitrary: i) fastforce+

lemma map_fst_ranked [simp]: "map fst (ranked ks i) = ks"
  by (simp add: ranked_def)

definition in_rank :: "point \<Rightarrow> bool" where
  "in_rank z \<longleftrightarrow> 0 \<le> snd z \<and> snd z \<le> max_y"

lemma reset_empty [simp]: "plm_inv (reset_plm S) []" "epsilon (reset_plm S) = epsilon S" "plm_inv (new_plm eps) []" "epsilon (new_plm eps) = eps"
  by (simp_all add: plm_inv_def opt_inv_def reset_plm_def new_plm_def)

lemma next_key_ok:
  assumes "plm_inv S cur" "cur \<noteq> [] \<Longrightarrow> fst (last cur) < x" "0 < epsilon S" "epsilon S \<le> max_y" "\<forall>z \<in> set (cur @ [(x, y)]). in_rank z"
  shows "\<exists>S'. next_key S x y = Some (Inr (S', \<not> fits (epsilon S) (cur @ [(x, y)]))) \<and> epsilon S' = epsilon S \<and>
    plm_inv S' (if fits (epsilon S) (cur @ [(x, y)]) then cur @ [(x, y)] else [(x, y)])"
proof -
  from add_point_step [OF assms(1-4), of y] assms(5) obtain S1 where
    S1: "add_point S x y = Some (Inr (S1, fits (epsilon S) (cur @ [(x, y)])))" "epsilon S1 = epsilon S"
    "fits (epsilon S) (cur @ [(x, y)]) \<Longrightarrow> plm_inv S1 (cur @ [(x, y)])" by (auto simp: in_rank_def)
  have f: "fits (epsilon S) [(x, y)]" using assms(3-5) by (simp add: fits_single in_rank_def)
  from add_point_step [of "reset_plm S1" "[]" x y] f assms(3-5) S1(2) obtain S2 where
    S2: "add_point (reset_plm S1) x y = Some (Inr (S2, True))" "epsilon S2 = epsilon S" "plm_inv S2 [(x, y)]" by (auto simp: in_rank_def)
  then show ?thesis using S1 by (auto simp: next_key_def)
qed

lemma metric_loop_ok:
  assumes "plm_inv S cur" "sorted_wrt (<) ks" "cur \<noteq> [] \<Longrightarrow> \<forall>k \<in> set ks. fst (last cur) < k" "0 < epsilon S" "epsilon S \<le> max_y"
    "\<forall>z \<in> set (cur @ ranked ks i). in_rank z"
  shows "metric_loop ks i S m = Some (Inr (m + greedy (fits (epsilon S)) cur (ranked ks i)))"
  using assms
proof (induction ks arbitrary: S cur i m)
  case (Cons k ks)
  let ?f = "fits (epsilon S) (cur @ [(k, i)])"
  define cur' where "cur' = (if ?f then cur @ [(k, i)] else [(k, i)])"
  from next_key_ok [of S cur k i] Cons.prems obtain S' where
    S': "next_key S k i = Some (Inr (S', \<not> ?f))" "epsilon S' = epsilon S" "plm_inv S' cur'" by (auto simp: cur'_def)
  have "\<forall>z \<in> set (cur' @ ranked ks (i + 1)). in_rank z" using Cons.prems(6) by (auto simp: cur'_def)
  moreover have "\<forall>k' \<in> set ks. fst (last cur') < k'" using Cons.prems(2) by (simp add: cur'_def)
  ultimately have "metric_loop ks (i + 1) S' m' = Some (Inr (m' + greedy (fits (epsilon S)) cur' (ranked ks (i + 1))))" for m'
    using Cons.IH [OF S'(3), of "i + 1" m'] Cons.prems(2,4,5) S'(2) by simp
  then show ?case using S'(1) by (simp add: cur'_def)
qed simp

text \<open>A key that is not greater than the one before ends the loop with an exception.\<close>

lemma metric_loop_error:
  assumes "plm_inv S cur" "p = (if cur = [] then [] else [fst (last cur)])" "sorted (p @ ks)" "\<not> distinct (p @ ks)" "0 < epsilon S" "epsilon S \<le> max_y"
    "\<forall>z \<in> set (cur @ ranked ks i). in_rank z"
  shows "metric_loop ks i S m = Some (Inl Points_must_be_increasing)"
  using assms
proof (induction ks arbitrary: S cur p i m)
  case Nil
  then show ?case by (auto split: if_splits)
next
  case (Cons k ks)
  show ?case
  proof (cases "cur \<noteq> [] \<and> k \<le> fst (last cur)")
    case True
    then show ?thesis using add_point_error [OF Cons.prems(1)] by (simp add: next_key_def)
  next
    case False
    let ?f = "fits (epsilon S) (cur @ [(k, i)])"
    define cur' where "cur' = (if ?f then cur @ [(k, i)] else [(k, i)])"
    from next_key_ok [of S cur k i] Cons.prems False obtain S' where
      S': "next_key S k i = Some (Inr (S', \<not> ?f))" "epsilon S' = epsilon S" "plm_inv S' cur'" by (auto simp: cur'_def not_le)
    have c: "cur' \<noteq> []" "fst (last cur') = k" by (simp_all add: cur'_def)
    have "sorted ([k] @ ks)" using Cons.prems(3) by (simp add: sorted_append)
    moreover have "\<not> distinct ([k] @ ks)" using Cons.prems(2-4) False by (auto split: if_splits)
    moreover have "\<forall>z \<in> set (cur' @ ranked ks (i + 1)). in_rank z" using Cons.prems(7) by (auto simp: cur'_def)
    ultimately show ?thesis using Cons.IH [OF S'(3), of "[k]" "i + 1"] c Cons.prems(5,6) S'(1,2) by simp
  qed
qed

section \<open>The least number of segments\<close>

text \<open>
  What a segment means: one line predicts every rank up to an error of \<open>eps\<close> and predicts no
  negative rank.
\<close>

definition predicts :: "int \<Rightarrow> point list \<Rightarrow> bool" where
  "predicts eps pts \<longleftrightarrow> (\<exists>a b. \<forall>z \<in> set pts. 0 \<le> a * px z + b \<and> \<bar>a * px z + b - py z\<bar> \<le> real_of_int eps)"

lemma fits_predicts:
  assumes "\<forall>z \<in> set pts. 0 \<le> snd z \<and> snd z + eps < max_y" shows "fits eps pts \<longleftrightarrow> predicts eps pts"
proof -
  have line: "beneath (a, b) (upper_pt eps x y) \<and> over (a, b) (lower_pt eps x y) \<longleftrightarrow>
      0 \<le> a * real_of_int x + b \<and> \<bar>a * real_of_int x + b - real_of_int y\<bar> \<le> real_of_int eps"
    if "0 \<le> y \<and> y + eps < max_y" for x y a b
    using that by (auto simp: beneath_def over_def at_x_def upper_pt_def lower_pt_def)
  have "(\<forall>u \<in> uppers eps pts. beneath (a, b) u) \<and> (\<forall>q \<in> lowers eps pts. over (a, b) q) \<longleftrightarrow>
    (\<forall>z \<in> set pts. beneath (a, b) (upper_pt eps (fst z) (snd z)) \<and> over (a, b) (lower_pt eps (fst z) (snd z)))" for a b
    by (auto simp: uppers_def lowers_def)
  also have "\<dots> a b \<longleftrightarrow> (\<forall>z \<in> set pts. 0 \<le> a * px z + b \<and> \<bar>a * px z + b - py z\<bar> \<le> real_of_int eps)" for a b
    using line assms by (intro ball_cong refl) blast
  finally show ?thesis unfolding fits_def predicts_def split_paired_Ex by simp
qed

lemma least_segments_cong:
  assumes "\<And>q. set q \<subseteq> set xs \<Longrightarrow> P q = Q q" shows "least_segments P xs n = least_segments Q xs n"
proof -
  have "P q = Q q" if "concat qs = xs" "q \<in> set qs" for q qs
    using that by (intro assms) auto
  then have "segmentation P xs qs = segmentation Q xs qs" for qs unfolding segmentation_def by blast
  then show ?thesis by (simp add: least_segments_def)
qed

lemma loop_least:
  assumes "plm_inv S []" "0 < epsilon S" "epsilon S < 2 ^ 31" "sorted_wrt (<) ks" "ks \<noteq> []" "0 \<le> i" "i + int (length ks) < 2 ^ 32"
  shows "\<exists>n. metric_loop ks i S m = Some (Inr (m + n)) \<and> least_segments (predicts (epsilon S)) (ranked ks i) (1 + n)"
proof -
  obtain k ks' where ks: "ks = k # ks'" using assms(5) by (cases ks) auto
  let ?e = "epsilon S"
  have b: "\<forall>z \<in> set (ranked ks i). 0 \<le> snd z \<and> snd z + ?e < max_y" using ranked_bounds [of _ ks i] assms(3,6,7) by (fastforce simp: max_y_def)
  have e: "?e \<le> max_y" using assms(3) by (simp add: max_y_def)
  have f: "fits ?e [z]" if "z \<in> set (ranked ks i)" for z
    using bspec [OF b that] assms(2) e fits_single [of ?e "snd z" "fst z"] by simp
  have "metric_loop ks i S m = Some (Inr (m + greedy (fits ?e) [] (ranked ks i)))"
    using b assms(2) e by (intro metric_loop_ok assms(1,4)) (force simp: in_rank_def)+
  moreover have "greedy (fits ?e) [] (ranked ks i) = greedy (fits ?e) [(k, i)] (ranked ks' (i + 1))" using f by (simp add: ks)
  moreover have "least_segments (fits ?e) (ranked ks i) (1 + greedy (fits ?e) [(k, i)] (ranked ks' (i + 1)))"
    using fit.greedy_optimal [of ?e "(k, i)" "ranked ks' (i + 1)"] f by (simp add: ks)
  moreover have "least_segments (fits ?e) (ranked ks i) n = least_segments (predicts ?e) (ranked ks i) n" for n
    using b by (intro least_segments_cong fits_predicts) blast
  ultimately show ?thesis by auto
qed

text \<open>The bound as the constructor sees it, and the sorted keys.\<close>

lemma error_bound_mod: "0 < (e::int) \<Longrightarrow> e < 2 ^ 31 \<Longrightarrow> e mod 2 ^ 64 = e"
  by simp

lemma sort_strict: "distinct ks \<Longrightarrow> sorted_wrt (<) (sort ks :: int list)"
  by (simp add: strict_sorted_iff)

lemma metric_ok:
  assumes "distinct (take (nat n) keys)" "0 < n" "n \<le> int (length keys)" "n < 2 ^ 31" "0 < error_bound" "error_bound < 2 ^ 31"
  shows "\<exists>m. PGM_metric keys n error_bound = Some (Inr (sort (take (nat n) keys) @ drop (nat n) keys, m)) \<and>
    least_segments (predicts error_bound) (ranked (sort (take (nat n) keys)) 0) m"
proof -
  let ?ks = "sort (take (nat n) keys)"
  have "length ?ks = nat n" using assms(3) by simp
  then have "?ks \<noteq> []" "0 + int (length ?ks) < 2 ^ 32" using assms(2,4) by (metis list.size(3) nat_0_iff not_le, simp)
  from loop_least [of "new_plm error_bound" ?ks 0 1, OF _ _ _ sort_strict [OF assms(1)] this(1) order_refl this(2)] assms(5,6) obtain k where
    "metric_loop ?ks 0 (new_plm error_bound) 1 = Some (Inr (1 + k))" "least_segments (predicts error_bound) (ranked ?ks 0) (1 + k)" by auto
  then show ?thesis using assms(2,3) error_bound_mod [OF assms(5,6)] by (simp add: PGM_metric_def Let_def nat_le_iff not_less)
qed

text \<open>The order of the keys makes no difference to the metric.\<close>

lemma metric_order:
  assumes "mset ks = mset ks'"
  shows "PGM_metric ks (int (length ks)) e = PGM_metric ks' (int (length ks')) e"
proof -
  have "sort ks = sort ks'" using assms by (metis properties_for_sort sorted_sort mset_sort)
  then show ?thesis using mset_eq_length [OF assms] by (simp add: PGM_metric_def)
qed

section \<open>The blocks of skew_variance\<close>

text \<open>Between the resets the loop is the loop of \<open>PGM_metric\<close>.\<close>

lemma skew_no_reset:
  assumes "\<forall>j. i \<le> j \<and> j < i + length ks \<longrightarrow> j mod cnt \<noteq> 0"
  shows "skew_loop cnt ks i S m acc n =
    do { r \<leftarrow> metric_loop ks (int i) S m; case r of Inl e \<Rightarrow> Some (Inl e) | Inr m' \<Rightarrow> Some (Inr (m', acc, n)) }"
  using assms
proof (induction ks arbitrary: i S m)
  case (Cons k ks)
  have "i mod cnt \<noteq> 0" "\<forall>j. i + 1 \<le> j \<and> j < i + 1 + length ks \<longrightarrow> j mod cnt \<noteq> 0" using Cons.prems by auto
  then show ?case using Cons.IH [of "i + 1"]
    by (cases "next_key S k (int i)") (auto simp: add.commute split: sum.splits)
qed simp

lemma skew_last_block:
  assumes "i mod cnt = 0" "ks \<noteq> []" "length ks \<le> cnt"
  shows "skew_loop cnt ks i S m acc n =
    do { r \<leftarrow> metric_loop ks (int i) (reset_plm S) 0; case r of Inl e \<Rightarrow> Some (Inl e) | Inr m' \<Rightarrow> Some (Inr (m', acc + m + 1, n + 1)) }"
proof -
  obtain k ks' where ks: "ks = k # ks'" using assms(2) by (cases ks) auto
  have "j mod cnt \<noteq> 0" if "i + 1 \<le> j" "j < i + 1 + length ks'" for j
  proof -
    have "0 < j - i" "j - i < cnt" using that assms(3) ks by auto
    then have "(j - i) mod cnt \<noteq> 0" by simp
    moreover have "j mod cnt = (j - i) mod cnt" using assms(1) that(1) mod_add_left_eq [of i cnt "j - i"] by simp
    ultimately show ?thesis by simp
  qed
  then have "\<forall>j. i + 1 \<le> j \<and> j < i + 1 + length ks' \<longrightarrow> j mod cnt \<noteq> 0" by blast
  from skew_no_reset [OF this] show ?thesis using assms(1)
    by (cases "next_key (reset_plm S) k (int i)") (auto simp: ks add.commute split: sum.splits)
qed

lemma skew_prefix:
  assumes "plm_inv S cur" "sorted_wrt (<) ks" "cur \<noteq> [] \<Longrightarrow> \<forall>k \<in> set ks. fst (last cur) < k" "0 < epsilon S" "epsilon S \<le> max_y"
    "\<forall>z \<in> set (cur @ ranked ks (int i)). in_rank z"
  shows "\<exists>S' m' acc'. skew_loop cnt (ks @ ks2) i S m acc n =
    skew_loop cnt ks2 (i + length ks) S' m' acc' (n + length (filter (\<lambda>j. j mod cnt = 0) [i..<i + length ks])) \<and> epsilon S' = epsilon S"
  using assms
proof (induction ks arbitrary: S cur i m acc n)
  case (Cons k ks)
  define S1 cur1 where "S1 = (if i mod cnt = 0 then reset_plm S else S)" and "cur1 = (if i mod cnt = 0 then [] else cur)"
  have S1: "plm_inv S1 cur1" "epsilon S1 = epsilon S" "set cur1 \<subseteq> set cur" using Cons.prems(1) by (simp_all add: S1_def cur1_def)
  let ?f = "fits (epsilon S) (cur1 @ [(k, int i)])"
  define cur' where "cur' = (if ?f then cur1 @ [(k, int i)] else [(k, int i)])"
  have "cur1 \<noteq> [] \<Longrightarrow> fst (last cur1) < k" using Cons.prems(3) by (auto simp: cur1_def split: if_splits)
  moreover have "\<forall>z \<in> set (cur1 @ [(k, int i)]). in_rank z" using Cons.prems(6) S1(3) by auto
  ultimately obtain S' where
    S': "next_key S1 k (int i) = Some (Inr (S', \<not> ?f))" "epsilon S' = epsilon S" "plm_inv S' cur'"
    using next_key_ok [OF S1(1), of k "int i"] Cons.prems(4,5) S1(2) by (auto simp: cur'_def)
  have "\<forall>z \<in> set (cur' @ ranked ks (int (i + 1))). in_rank z" using Cons.prems(6) S1(3) by (auto simp: cur'_def add.commute)
  moreover have "\<forall>k' \<in> set ks. fst (last cur') < k'" using Cons.prems(2) by (simp add: cur'_def)
  ultimately have IH: "\<exists>S'' m' acc'. skew_loop cnt (ks @ ks2) (i + 1) S' m acc n =
    skew_loop cnt ks2 (i + 1 + length ks) S'' m' acc' (n + length (filter (\<lambda>j. j mod cnt = 0) [i + 1..<i + 1 + length ks])) \<and>
      epsilon S'' = epsilon S" for m acc n
    using Cons.IH [OF S'(3), of "i + 1" m acc n] Cons.prems(2,4,5) S'(2) by simp
  have "[i..<i + length (k # ks)] = i # [i + 1..<i + 1 + length ks]" by (simp add: upt_conv_Cons del: upt_Suc)
  then show ?case using S'(1) IH [of "if ?f then 0 else 1" "acc + m + 1" "n + 1"] IH [of "if ?f then m else m + 1" acc n]
    by (cases "i mod cnt = 0"; cases ?f) (simp_all add: S1_def add.commute del: upt_Suc)
qed auto

lemma count_multiples: "0 < c \<Longrightarrow> length (filter (\<lambda>j. j mod c = 0) [0..<q * c]) = q"
proof (induction q)
  case (Suc q)
  have "filter (\<lambda>j. j mod c = 0) [q * c..<q * c + c] = [q * c]"
  proof -
    have "filter (\<lambda>j. j mod c = 0) [q * c + 1..<q * c + c] = []"
    proof (subst filter_empty_conv, intro ballI)
      fix j assume "j \<in> set [q * c + 1..<q * c + c]"
      then have "j = q * c + (j - q * c)" "0 < j - q * c" "j - q * c < c" by auto
      moreover have "(q * c + d) mod c = d" if "d < c" for d using that by simp
      ultimately show "j mod c \<noteq> 0" by (metis less_irrefl)
    qed
    then show ?thesis using Suc.prems by (simp add: upt_conv_Cons)
  qed
  moreover have "[0..<Suc q * c] = [0..<q * c] @ [q * c..<q * c + c]" by (metis add.commute le0 mult_Suc upt_add_eq_append)
  ultimately show ?case using Suc by simp
qed simp

section \<open>Main theorems\<close>



text \<open>
  C35: when a key occurs twice the loop ends with the exception of \<open>add_point\<close>; nothing catches it.
\<close>

theorem PGM_metric_rejects_duplicates:
  assumes "\<not> distinct (take (nat key_num) keys)" "0 \<le> key_num" "key_num \<le> int (length keys)" "key_num < 2 ^ 31"
    "0 < error_bound" "error_bound < 2 ^ 31"
  shows "PGM_metric keys key_num error_bound = Some (Inl Points_must_be_increasing)"
proof -
  let ?ks = "sort (take (nat key_num) keys)"
  have l: "int (length ?ks) < 2 ^ 31" using assms(2-4) by simp
  have "in_rank z" if "z \<in> set (ranked ?ks 0)" for z
    using ranked_bounds [OF that] l by (simp add: in_rank_def max_y_def)
  moreover have "error_bound \<le> max_y" using assms(6) by (simp add: max_y_def)
  ultimately have "metric_loop ?ks 0 (new_plm error_bound) 1 = Some (Inl Points_must_be_increasing)"
    using metric_loop_error [of "new_plm error_bound" "[]" "[]" ?ks 0 1] assms(1,5) by simp
  then show ?thesis using assms(2,3) error_bound_mod [OF assms(5,6)] by (simp add: PGM_metric_def Let_def nat_le_iff not_less)
qed

theorem PGM_metric_rejects_duplicates_witness:
  "PGM_metric [3, 1, 3] 3 64 = Some (Inl Points_must_be_increasing)"
  by (rule PGM_metric_rejects_duplicates) simp_all

text \<open>
  C36: \<open>skew_variance\<close> adds up the segments of all blocks of \<open>count\<close> keys but returns the number of new
  segments in the last block alone, divided by the number of blocks.
\<close>

theorem skew_variance_last_block:
  assumes "distinct keys" "length keys = q * cnt + r" "0 < r" "r \<le> cnt" "int (length keys) < 2 ^ 31" "0 < error_bound" "error_bound < 2 ^ 31"
  shows "\<exists>n. skew_variance keys (int (length keys)) error_bound cnt = Some (Inr (n, q + 1)) \<and>
    least_segments (predicts error_bound) (ranked (drop (q * cnt) (sort keys)) (int (q * cnt))) (n + 1)"
proof -
  define ks1 ks2 where "ks1 = take (q * cnt) (sort keys)" and "ks2 = drop (q * cnt) (sort keys)"
  have ks: "sort keys = ks1 @ ks2" "length ks1 = q * cnt" "length ks2 = r" using assms(2) by (simp_all add: ks1_def ks2_def)
  have s: "sorted_wrt (<) ks1" "sorted_wrt (<) ks2" using sort_strict [OF assms(1)] unfolding ks(1) sorted_wrt_append by blast+
  have len: "int (q * cnt) + int r < 2 ^ 31" using assms(2,5) by simp
  have "in_rank z" if "z \<in> set (ranked ks1 0)" for z
    using ranked_bounds [OF that] len by (simp add: in_rank_def max_y_def ks(2))
  moreover have "error_bound \<le> max_y" using assms(7) by (simp add: max_y_def)
  ultimately obtain S m acc where
    S: "skew_loop cnt (ks1 @ ks2) 0 (new_plm error_bound) 0 0 0 = skew_loop cnt ks2 (q * cnt) S m acc (0 + q)" "epsilon S = error_bound"
    using skew_prefix [of "new_plm error_bound" "[]" ks1 0 cnt ks2 0 0 0] s(1) assms(3,4,6) count_multiples [of cnt q] ks(2) by auto
  have ne: "ks2 \<noteq> []" "length ks2 \<le> cnt" using assms(3,4) ks(3) by auto
  from loop_least [of "reset_plm S" ks2 "int (q * cnt)" 0] ne(1) assms(6,7) S(2) s(2) len ks(3) obtain n where
    n: "metric_loop ks2 (int (q * cnt)) (reset_plm S) 0 = Some (Inr n)"
    "least_segments (predicts error_bound) (ranked ks2 (int (q * cnt))) (1 + n)" by auto
  have "skew_loop cnt ks2 (q * cnt) S m acc (0 + q) = Some (Inr (n, acc + m + 1, q + 1))"
    using skew_last_block [OF _ ne, of "q * cnt"] n(1) by simp
  then have "skew_variance keys (int (length keys)) error_bound cnt = Some (Inr (n, q + 1))"
    using S(1) ks(1) error_bound_mod [OF assms(6,7)] assms(3,4) by (simp add: skew_variance_def)
  then show ?thesis using n(2) by (auto simp: ks2_def)
qed

theorem skew_variance_last_block_witness:
  "\<exists>n. skew_variance [1, 2, 4, 1000, 2000, 2001] 6 64 3 = Some (Inr (n, 2)) \<and>
     least_segments (predicts 64) (ranked [1000, 2000, 2001] 3) (n + 1)"
proof -
  have "drop (1 * 3) (sort [1, 2, 4, 1000, 2000, 2001 :: int]) = [1000, 2000, 2001]" by code_simp
  then show ?thesis using skew_variance_last_block [of "[1, 2, 4, 1000, 2000, 2001]" 1 3 3 64] by (simp add: numeral_2_eq_2 del: ranked_simps sort_key_simps)
qed

end
