(* ===== verification/BenchRun.thy ===== *)
theory BenchRun
  imports Workload NaiveIndex BTreeIndex PgmMetric
begin

text \<open>
  The measuring loop of the benchmark, \<open>Benchmark::run\<close>. The iterations of the \<open>omp for\<close> loop
  run in some order, each on some thread; a schedule is the list of pairs of a thread and an
  iteration in the order in which the index calls take effect. Each thread counts in its own
  \<open>ThreadParam\<close>, and the counters are added up at the end.

  The model takes every index call as atomic: that is what an index made for several threads
  promises, and what holds of every index with \<open>thread_num = 1\<close> (the STX tree has no locks). The
  thread number \<open>parlay::worker_id()\<close> indexes \<open>params[thread_num]\<close>; a number beyond the array is
  an access out of bounds, \<open>None\<close>. The sampling interval is computed in double arithmetic and is a
  parameter; the time stamp counter (\<open>tsc\<close>, the two readings around iteration \<open>i\<close>) and the conversion
  \<open>tsc2ns\<close> are parameters, and so are the throughput, which is computed from the elapsed time in double
  arithmetic, and the memory an index reports.
\<close>

section \<open>Definitions\<close>

record ThreadParam =
  tp_latency :: "(int \<times> int) list"
  tp_insert :: nat
  tp_read :: nat
  tp_update :: nat
  tp_remove :: nat
  tp_scan_not_enough :: nat

definition zero_param :: ThreadParam where
  "zero_param = \<lparr>tp_latency = [], tp_insert = 0, tp_read = 0, tp_update = 0, tp_remove = 0, tp_scan_not_enough = 0\<rparr>"

record Stat =
  latency :: "int list"
  throughput :: nat
  fitness_of_dataset :: nat
  memory_consumption :: int
  success_insert :: nat
  success_read :: nat
  success_update :: nat
  success_remove :: nat
  scan_not_enough :: nat

definition zero_stat :: Stat where
  "zero_stat =
     \<lparr>latency = [], throughput = 0, fitness_of_dataset = 0, memory_consumption = 0,
      success_insert = 0, success_read = 0, success_update = 0, success_remove = 0, scan_not_enough = 0\<rparr>"

definition Stat_clear :: "Stat \<Rightarrow> Stat" where
  "Stat_clear st =
     st\<lparr>latency := [], throughput := 0, fitness_of_dataset := 0, memory_consumption := 0, success_insert := 0,
        success_read := 0, success_update := 0, success_remove := 0, scan_not_enough := 0\<rparr>"

text \<open>
  The settings of a run: what the flags give, and the outside world, which is the readings of
  the time stamp counter around iteration \<open>i\<close>, their conversion to nanoseconds, the throughput
  computed from the elapsed time and the memory an index reports (\<open>memory_record\<close>).
\<close>

record 's settings =
  scan_num :: nat
  latency_sample :: bool
  latency_sample_interval :: nat
  tsc :: "nat \<Rightarrow> int \<times> int"
  tsc2ns :: "int \<Rightarrow> int"
  throughput_of :: "nat \<Rightarrow> nat"
  dataset_statistic :: bool
  error_bound :: int
  memory_of :: "('s \<Rightarrow> int) option"

text \<open>One operation of the loop body.\<close>

definition exec_op ::
  "('s, 'k, u64) indexInterface \<Rightarrow> nat \<Rightarrow> Operation \<Rightarrow> 'k \<Rightarrow> 's \<Rightarrow> ThreadParam \<Rightarrow> ('s \<times> ThreadParam) option" where
  "exec_op I sn op key s p =
     (case op of
        READ \<Rightarrow> do { ret \<leftarrow> get_op I s key;
                     Some (s, p\<lparr>tp_read := tp_read p + (if ret \<noteq> None then 1 else 0)\<rparr>) }
      | INSERT \<Rightarrow> do { (s', ret) \<leftarrow> put_op I s key 123456789;
                       Some (s', p\<lparr>tp_insert := tp_insert p + (if ret then 1 else 0)\<rparr>) }
      | UPDATE \<Rightarrow> do { (s', ret) \<leftarrow> update_op I s key 234567891;
                       Some (s', p\<lparr>tp_update := tp_update p + (if ret then 1 else 0)\<rparr>) }
      | SCAN \<Rightarrow> do { (scan_len, result) \<leftarrow> scan_op I s key sn;
                     Some (s, if scan_len \<noteq> sn
                              then p\<lparr>tp_scan_not_enough := tp_scan_not_enough p + 1\<rparr> else p) }
      | DELETE \<Rightarrow> do { (s', ret) \<leftarrow> remove_op I s key;
                       Some (s', p\<lparr>tp_remove := tp_remove p + (if ret then 1 else 0)\<rparr>) })"

fun run_loop ::
  "('s, 'k, u64) indexInterface \<Rightarrow> 's settings \<Rightarrow> nat \<Rightarrow> (Operation \<times> 'k) list \<Rightarrow>
   (nat \<times> nat) list \<Rightarrow> 's \<Rightarrow> (nat \<Rightarrow> ThreadParam) \<Rightarrow> ('s \<times> (nat \<Rightarrow> ThreadParam)) option" where
  "run_loop I P thread_num ops [] s params = Some (s, params)"
| "run_loop I P thread_num ops ((tid, i) # sched) s params =
     do { _ \<leftarrow> (if tid < thread_num then Some () else None);
          (op, key) \<leftarrow> rd ops i;
          (s', p) \<leftarrow> exec_op I (scan_num P) op key s (params tid);
          let p' = (if latency_sample P \<and> i mod latency_sample_interval P = 0
                    then p\<lparr>tp_latency := tp_latency p @ [tsc P i]\<rparr> else p);
          run_loop I P thread_num ops sched s' (params(tid := p')) }"

definition gather_one :: "'s settings \<Rightarrow> ThreadParam \<Rightarrow> Stat \<Rightarrow> Stat" where
  "gather_one P p st =
     st\<lparr>latency := latency st @
          (if latency_sample P then map (\<lambda>e. tsc2ns P (snd e) - tsc2ns P (fst e)) (tp_latency p) else []),
        success_read := success_read st + tp_read p, success_insert := success_insert st + tp_insert p,
        success_update := success_update st + tp_update p, success_remove := success_remove st + tp_remove p,
        scan_not_enough := scan_not_enough st + tp_scan_not_enough p\<rparr>"

text \<open>
  The metric of the data set, if it is asked for. The number of keys is a \<open>long long\<close> that is passed as
  an \<open>int\<close>; nothing catches the exception of \<open>PGM_metric\<close>, which ends the program: \<open>None\<close>. The keys are left sorted,
  which makes no difference to a later run.
\<close>

definition dataset_fitness :: "'s settings \<Rightarrow> u64 list \<Rightarrow> Stat \<Rightarrow> Stat option" where
  "dataset_fitness P ks st =
     (if dataset_statistic P
      then case PGM_metric (sort (map uint ks)) (signed_take_bit 31 (int (length ks))) (error_bound P) of
             Some (Inr (_, m)) \<Rightarrow> Some (st\<lparr>fitness_of_dataset := m\<rparr>)
           | _ \<Rightarrow> None
      else Some st)"

text \<open>\<open>operations_num / latency_sample_interval\<close> divides by zero when the interval is zero.\<close>

definition run ::
  "('s, 'k, u64) indexInterface \<Rightarrow> 's settings \<Rightarrow> u64 list \<Rightarrow> nat \<Rightarrow> (Operation \<times> 'k) list \<Rightarrow> (nat \<times> nat) list \<Rightarrow> 's \<Rightarrow> Stat \<Rightarrow>
   ('s \<times> Stat) option" where
  "run I P ks thread_num ops sched s st =
     (if latency_sample_interval P = 0 then None
      else do { (s', params) \<leftarrow> run_loop I P thread_num ops sched s (\<lambda>_. zero_param);
                let st1 = (fold (\<lambda>t. gather_one P (params t)) [0..<thread_num] st)\<lparr>throughput := throughput_of P (length ops)\<rparr>;
                st2 \<leftarrow> dataset_fitness P ks st1;
                let st3 = (case memory_of P of None \<Rightarrow> st2 | Some f \<Rightarrow> st2\<lparr>memory_consumption := f s'\<rparr>);
                Some (s', st3) })"

text \<open>
  The latency columns of \<open>print_stat\<close>: the smallest and the largest sample and the five
  percentiles in between, from the sorted samples. The positions \<open>0.5 * size\<close> to \<open>0.9999 * size\<close>
  are computed in double arithmetic and are given by \<open>pos\<close>.
\<close>

fun read_at :: "'a list \<Rightarrow> nat list \<Rightarrow> 'a list option" where
  "read_at l [] = Some []"
| "read_at l (i # is) = do { x \<leftarrow> rd l i; xs \<leftarrow> read_at l is; Some (x # xs) }"

definition latency_columns :: "(nat \<Rightarrow> nat list) \<Rightarrow> 's settings \<Rightarrow> Stat \<Rightarrow> int list option" where
  "latency_columns pos P st =
     (if latency_sample P
      then let l = sort (latency st) in
           if l = [] then None else read_at l (0 # pos (length l) @ [length l - 1])
      else Some (replicate 7 0))"

text \<open>
  The outer loop of \<open>run_benchmark\<close> for one index type: every configuration has a number of
  threads and, depending on the number of operations, a schedule; it starts from a new object
  (\<open>prepare\<close>) and from the statistics that \<open>print_stat\<close> has cleared at the end of the run before. The
  result is the statistics as printed.
\<close>

definition prepare :: "('s, u64, u64) indexInterface \<Rightarrow> 's \<Rightarrow> tables \<Rightarrow> 's option" where
  "prepare I new_index t = bulk_load_op I new_index (init_key_values t)"

fun run_configs ::
  "('s, u64, u64) indexInterface \<Rightarrow> 's \<Rightarrow> 's settings \<Rightarrow> tables \<Rightarrow>
   (Operation \<times> u64) list \<Rightarrow> (nat \<times> (nat \<Rightarrow> (nat \<times> nat) list)) list \<Rightarrow> Stat \<Rightarrow> Stat list option" where
  "run_configs I new_index P t ops [] st = Some []"
| "run_configs I new_index P t ops ((thread_num, sched) # cs) st =
     do { s \<leftarrow> prepare I new_index t;
          (s', st') \<leftarrow> run I P (keys t) thread_num ops (sched (length ops)) s st;
          sts \<leftarrow> run_configs I new_index P t ops cs (Stat_clear st');
          Some (st' # sts) }"

datatype sampling = Uniform "int list" | Zipfian "(bool \<times> bool \<times> int) list"

definition sample_keys :: "sampling \<Rightarrow> 'k list \<Rightarrow> 'k list option" where
  "sample_keys d arr =
     (case d of Uniform ps \<Rightarrow> get_search_keys arr ps
      | Zipfian ds \<Rightarrow> get_search_keys_zipf arr (int (length arr)) ds)"

text \<open>
  The whole program after the flags are parsed. The random choices, \<open>init_size\<close>, \<open>del_start\<close> and
  what the file loader returned are parameters, as in the theory \<open>Workload\<close>.
\<close>

definition run_benchmark ::
  "('s, u64, u64) indexInterface \<Rightarrow> 's \<Rightarrow> 's settings \<Rightarrow> bool \<Rightarrow> (u64 list \<Rightarrow> u64 list) \<Rightarrow> (u64 list \<Rightarrow> u64 list) \<Rightarrow>
   (nat \<Rightarrow> nat) \<Rightarrow> (nat \<Rightarrow> nat) \<Rightarrow> sampling \<Rightarrow> ('d::linorder \<Rightarrow> 'd \<Rightarrow> 'd) \<Rightarrow> 'd ratios \<Rightarrow> 'd list \<Rightarrow>
   (nat \<times> (nat \<Rightarrow> (nat \<times> nat) list)) list \<Rightarrow> u64 list option option \<Rightarrow>
   ((Operation \<times> u64) list \<times> Stat list) outcome" where
  "run_benchmark I new_index P data_shift shuffle random_shuffle init_size del_start smpl dadd r probs configs loaded =
     (case load_keys data_shift shuffle init_size loaded of
        Exit \<Rightarrow> Exit
      | Ub \<Rightarrow> Ub
      | Done t \<Rightarrow>
          (case do { sample_ptr \<leftarrow> sample_keys smpl (init_keys t);
                     ops \<leftarrow> generate_operations dadd r data_shift random_shuffle (length (init_keys t))
                       (del_start (length (keys t))) sample_ptr (keys t) probs;
                     sts \<leftarrow> run_configs I new_index P t ops configs zero_stat;
                     Some (ops, sts) }
           of None \<Rightarrow> Ub | Some x \<Rightarrow> Done x))"

text \<open>Every iteration runs exactly once, on one of the threads.\<close>

definition schedule_ok :: "nat \<Rightarrow> nat \<Rightarrow> (nat \<times> nat) list \<Rightarrow> bool" where
  "schedule_ok thread_num n sched \<longleftrightarrow>
     mset (map snd sched) = mset [0..<n] \<and> (\<forall>p \<in> set sched. fst p < thread_num)"

section \<open>The counters do not depend on the threads\<close>

text \<open>The five counters, added componentwise.\<close>

datatype counts = Counts (c_insert: nat) (c_read: nat) (c_update: nat) (c_remove: nat) (c_scan: nat)

instantiation counts :: comm_monoid_add
begin

definition zero_counts :: counts where
  "zero_counts = Counts 0 0 0 0 0"

definition plus_counts :: "counts \<Rightarrow> counts \<Rightarrow> counts" where
  "plus_counts x y = Counts (c_insert x + c_insert y) (c_read x + c_read y) (c_update x + c_update y)
     (c_remove x + c_remove y) (c_scan x + c_scan y)"

instance
  by standard (simp_all add: zero_counts_def plus_counts_def)

end

definition counts :: "ThreadParam \<Rightarrow> counts" where
  "counts p = Counts (tp_insert p) (tp_read p) (tp_update p) (tp_remove p) (tp_scan_not_enough p)"

definition stat_counts :: "Stat \<Rightarrow> counts" where
  "stat_counts st = Counts (success_insert st) (success_read st) (success_update st) (success_remove st) (scan_not_enough st)"

text \<open>The reference: one thread that runs the operations in a given order.\<close>

definition op_effect :: "('s, 'k, u64) indexInterface \<Rightarrow> nat \<Rightarrow> Operation \<Rightarrow> 'k \<Rightarrow> 's \<Rightarrow> ('s \<times> counts) option" where
  "op_effect I sn op key s = map_option (map_prod id counts) (exec_op I sn op key s zero_param)"

fun run_seq :: "('s, 'k, u64) indexInterface \<Rightarrow> nat \<Rightarrow> (Operation \<times> 'k) list \<Rightarrow> nat list \<Rightarrow> 's \<Rightarrow> ('s \<times> counts) option" where
  "run_seq I sn ops [] s = Some (s, 0)"
| "run_seq I sn ops (i # is) s =
     do { (op, key) \<leftarrow> rd ops i; (s', d) \<leftarrow> op_effect I sn op key s;
          (s'', d') \<leftarrow> run_seq I sn ops is s'; Some (s'', d + d') }"

lemma exec_op_effect:
  "map_option (map_prod id counts) (exec_op I sn op key s p) =
   map_option (map_prod id (\<lambda>d. counts p + d)) (op_effect I sn op key s)"
  by (cases op) (auto simp: exec_op_def op_effect_def counts_def plus_counts_def zero_param_def bind_eq_Some_conv
      map_option_case split: option.splits prod.splits if_splits)

lemma counts_latency [simp]: "counts (p\<lparr>tp_latency := l\<rparr>) = counts p"
  by (simp add: counts_def)

lemma sum_fun_upd:
  assumes "t < (n::nat)" "counts p' = counts (params t) + d"
  shows "(\<Sum>i<n. counts ((params(t := p')) i)) = (\<Sum>i<n. counts (params i)) + d"
proof -
  have "(\<Sum>i<n. counts ((params(t := p')) i)) = counts p' + (\<Sum>i \<in> {..<n} - {t}. counts (params i))"
    using assms(1) by (subst sum.remove [of _ t]) (auto intro!: sum.cong)
  moreover have "(\<Sum>i<n. counts (params i)) = counts (params t) + (\<Sum>i \<in> {..<n} - {t}. counts (params i))"
    using assms(1) by (subst sum.remove [of _ t]) auto
  ultimately show ?thesis using assms(2) by (simp add: ac_simps)
qed

lemma run_loop_seq:
  assumes "\<forall>p \<in> set sched. fst p < n"
  shows "map_option (map_prod id (\<lambda>ps. \<Sum>t<n. counts (ps t))) (run_loop I P n ops sched s params) =
    map_option (map_prod id (\<lambda>d. (\<Sum>t<n. counts (params t)) + d)) (run_seq I (scan_num P) ops (map snd sched) s)"
  using assms
proof (induction sched arbitrary: s params)
  case (Cons x sched)
  obtain t i where x: "x = (t, i)" by (cases x)
  have t: "t < n" using Cons.prems by (simp add: x)
  show ?case
  proof (cases "rd ops i")
    case (Some y)
    obtain op key where y: "y = (op, key)" by (cases y)
    note eff = exec_op_effect [of I "scan_num P" op key s "params t"]
    show ?thesis
    proof (cases "exec_op I (scan_num P) op key s (params t)")
      case None
      then show ?thesis using eff Some by (simp add: x y t)
    next
      case (Some z)
      obtain s' p where z: "z = (s', p)" by (cases z)
      from eff Some obtain d where d: "op_effect I (scan_num P) op key s = Some (s', d)" "counts p = counts (params t) + d"
        by (cases "op_effect I (scan_num P) op key s") (auto simp: z)
      define q where "q = (if latency_sample P \<and> i mod latency_sample_interval P = 0 then p\<lparr>tp_latency := tp_latency p @ [tsc P i]\<rparr> else p)"
      have "counts q = counts (params t) + d" using d(2) by (simp add: q_def)
      note upd = sum_fun_upd [of t n q params d, OF t this]
      have "run_loop I P n ops (x # sched) s params = run_loop I P n ops sched s' (params(t := q))"
        using Some \<open>rd ops i = Some y\<close> by (simp add: x y z q_def t)
      moreover have "run_seq I (scan_num P) ops (map snd (x # sched)) s =
          map_option (map_prod id (\<lambda>d'. d + d')) (run_seq I (scan_num P) ops (map snd sched) s')"
        using \<open>rd ops i = Some y\<close> d(1) by (cases "run_seq I (scan_num P) ops (map snd sched) s'") (auto simp: x y)
      moreover have "\<forall>p \<in> set sched. fst p < n" using Cons.prems by simp
      note IH = Cons.IH [OF this, of s' "params(t := q)"]
      ultimately show ?thesis using upd
        by (simp only: IH option.map_comp prod.map_comp o_def id_def add.assoc)
    qed
  qed (simp add: x t)
qed simp

lemma gather_counts: "stat_counts (fold (\<lambda>t. gather_one P (ps t)) ts st) = stat_counts st + sum_list (map (\<lambda>t. counts (ps t)) ts)"
  by (induction ts arbitrary: st) (auto simp: stat_counts_def counts_def gather_one_def plus_counts_def zero_counts_def)

lemma stat_counts_fields [simp]:
  "stat_counts (st\<lparr>throughput := x\<rparr>) = stat_counts st" "stat_counts (st\<lparr>fitness_of_dataset := x\<rparr>) = stat_counts st"
  "stat_counts (st\<lparr>memory_consumption := y\<rparr>) = stat_counts st"
  by (simp_all add: stat_counts_def)

lemma dataset_fitness_counts [simp]: "dataset_fitness P ks st = Some st' \<Longrightarrow> stat_counts st' = stat_counts st"
  by (auto simp: dataset_fitness_def split: if_splits option.splits sum.splits prod.splits)

lemma dataset_fitness_defined: "dataset_fitness P ks st = None \<longleftrightarrow> dataset_fitness P ks st' = None"
  by (auto simp: dataset_fitness_def split: if_splits option.splits sum.splits prod.splits)

lemma run_seq_refines:
  assumes "latency_sample_interval P \<noteq> 0" "\<forall>p \<in> set sched. fst p < n" "dataset_fitness P ks zero_stat \<noteq> None"
  shows "map_option (map_prod id stat_counts) (run I P ks n ops sched s st) =
    map_option (map_prod id (\<lambda>d. stat_counts st + d)) (run_seq I (scan_num P) ops (map snd sched) s)"
proof -
  have z: "(\<Sum>t<n. counts zero_param) = 0" by (simp add: counts_def zero_param_def flip: zero_counts_def)
  have "sum_list (map (\<lambda>t. counts (ps t)) [0..<n]) = (\<Sum>t<n. counts (ps t))" for ps
    by (simp add: interv_sum_list_conv_sum_set_nat atLeast0LessThan)
  note sum = this
  have "map_option (map_prod id (\<lambda>ps. \<Sum>t<n. counts (ps t))) (run_loop I P n ops sched s (\<lambda>_. zero_param)) =
    run_seq I (scan_num P) ops (map snd sched) s"
    using run_loop_seq [OF assms(2), of I P ops s "\<lambda>_. zero_param"] z
    by (simp add: map_prod.id [unfolded id_def] option.map_id0 [unfolded id_def] id_def)
  note seq = this [symmetric]
  show ?thesis
  proof (cases "run_loop I P n ops sched s (\<lambda>_. zero_param)")
    case (Some a)
    define st1 where "st1 = (fold (\<lambda>t. gather_one P (snd a t)) [0..<n] st)\<lparr>throughput := throughput_of P (length ops)\<rparr>"
    obtain st2 where "dataset_fitness P ks st1 = Some st2" using assms(3) dataset_fitness_defined [of P ks st1 zero_stat] by auto
    moreover from this have "stat_counts st2 = stat_counts st + (\<Sum>t<n. counts (snd a t))" using sum by (simp add: st1_def gather_counts)
    ultimately show ?thesis using assms(1) Some unfolding seq
      by (cases a) (simp add: run_def Let_def st1_def split: option.split)
  qed (use assms(1) seq in \<open>simp add: run_def\<close>)
qed

text \<open>What the metric is when the settings and the keys allow it.\<close>

definition metric_settings :: "'s settings \<Rightarrow> nat \<Rightarrow> bool" where
  "metric_settings P n \<longleftrightarrow> (dataset_statistic P \<longrightarrow> 0 < error_bound P \<and> error_bound P < 2 ^ 31 \<and> n < 2 ^ 31)"

definition fitness_as :: "'s settings \<Rightarrow> u64 set \<Rightarrow> Stat \<Rightarrow> bool" where
  "fitness_as P K st \<longleftrightarrow>
     (dataset_statistic P \<longrightarrow> least_segments (predicts (error_bound P)) (ranked (sorted_list_of_set (uint ` K)) 0) (fitness_of_dataset st))"

lemma dataset_fitness_ok:
  assumes "distinct ks" "ks \<noteq> []" "metric_settings P (length ks)"
  shows "\<exists>st'. dataset_fitness P ks st = Some st' \<and> fitness_as P (set ks) st'"
proof (cases "dataset_statistic P")
  case True
  let ?k = "sort (map uint ks)"
  have d: "distinct (map uint ks)" using assms(1) by (simp add: distinct_map inj_on_def word_uint_eq_iff)
  then have k: "?k = sorted_list_of_set (uint ` set ks)" by (metis list.set_map sorted_list_of_set_sort_remdups distinct_remdups_id)
  have n: "signed_take_bit 31 (int (length ks)) = int (length ks)"
    using assms(3) True by (intro signed_take_bit_int_eq_self) (simp_all add: metric_settings_def)
  from metric_ok [of "int (length ks)" ?k "error_bound P"] d assms(2,3) True obtain m where
    "PGM_metric ?k (int (length ks)) (error_bound P) = Some (Inr (?k, m))" "least_segments (predicts (error_bound P)) (ranked ?k 0) m"
    by (auto simp: metric_settings_def sort_key_id_if_sorted)
  then show ?thesis using True by (simp add: dataset_fitness_def n fitness_as_def k)
qed (simp add: dataset_fitness_def fitness_as_def)

lemma run_fitness:
  assumes "run I P ks n ops sched s st = Some (s', st')" "distinct ks" "ks \<noteq> []" "metric_settings P (length ks)"
  shows "fitness_as P (set ks) st'"
proof -
  from assms(1) obtain st1 st2 where st2: "dataset_fitness P ks st1 = Some st2" "fitness_of_dataset st' = fitness_of_dataset st2"
    by (auto simp: run_def Let_def bind_eq_Some_conv split: if_splits option.splits)
  then show ?thesis using dataset_fitness_ok [OF assms(2-4), of st1] by (auto simp: fitness_as_def)
qed

section \<open>What is counted on an index that meets the contract\<close>

lemma mset_keys_with: "mset xs = mset ys \<Longrightarrow> mset (keys_with A xs) = mset (keys_with A ys)"
  unfolding keys_with_def by (metis mset_filter mset_map)

text \<open>What a run of \<open>ops\<close> on an index with this \<open>absent_ret\<close> is expected to print.\<close>

definition counts_as :: "bool \<Rightarrow> (Operation \<times> 'k) list \<Rightarrow> Stat \<Rightarrow> bool" where
  "counts_as absent_ret ops st \<longleftrightarrow>
     success_read st = length (keys_with {READ} ops) \<and> success_insert st = length (keys_with {INSERT} ops) \<and>
     success_remove st = (if absent_ret then length (keys_with {DELETE} ops) else 0)"

text \<open>The operations fit the initial table: they read and update loaded keys, insert new ones
  and remove keys that are neither loaded nor inserted.\<close>

definition ops_fit :: "'k list \<Rightarrow> (Operation \<times> 'k) list \<Rightarrow> bool" where
  "ops_fit loaded ops \<longleftrightarrow>
     set (keys_with {READ, UPDATE} ops) \<subseteq> set loaded \<and> distinct (keys_with {INSERT} ops) \<and>
     set (keys_with {INSERT} ops) \<inter> set loaded = {} \<and>
     set (keys_with {DELETE} ops) \<inter> (set loaded \<union> set (keys_with {INSERT} ops)) = {}"

lemma counts_as_start:
  "stat_counts st = 0 \<Longrightarrow> success_read st = 0 \<and> success_insert st = 0 \<and> success_remove st = 0"
  by (simp add: stat_counts_def zero_counts_def)

lemma stat_counts_clear [simp]: "stat_counts (Stat_clear st) = 0" "stat_counts zero_stat = 0"
  by (simp_all add: stat_counts_def Stat_clear_def zero_stat_def zero_counts_def)

text \<open>The benchmark stores two payloads: a key may be stored with both.\<close>

definition bench_key :: "(u64 \<Rightarrow> u64 \<Rightarrow> bool) \<Rightarrow> u64 \<Rightarrow> bool" where
  "bench_key ok k \<longleftrightarrow> ok k 123456789 \<and> ok k 234567891"

text \<open>
  The indexes differ in what \<open>remove\<close> returns for an absent key: \<open>absent_ret\<close>.
\<close>

locale bench_index = bounded_index I inv fresh items ok room
  for I :: "('s, u64, u64) indexInterface" and inv fresh items ok room +
  fixes absent_ret :: bool
  assumes remove_absent_law: "inv (Suc n) s \<Longrightarrow> k \<notin> set (keys_of (items s)) \<Longrightarrow> ok k v \<Longrightarrow>
      \<exists>s'. remove_op I s k = Some (s', absent_ret) \<and> inv n s' \<and> items s' = items s"
    and inv_less: "inv (Suc n) s \<Longrightarrow> inv n s"
    and room_less: "room n \<Longrightarrow> m \<le> n \<Longrightarrow> room m"
begin

lemma op_effect_ok:
  assumes "inv (Suc m) s" "bench_key ok k"
    "op \<in> {READ, UPDATE} \<Longrightarrow> k \<in> set (keys_of (items s))" "op \<in> {INSERT, DELETE} \<Longrightarrow> k \<notin> set (keys_of (items s))"
  shows "\<exists>s' d. op_effect I sn op k s = Some (s', d) \<and> inv m s' \<and>
    c_read d = length (keys_with {READ} [(op, k)]) \<and> c_insert d = length (keys_with {INSERT} [(op, k)]) \<and>
    c_remove d = (if absent_ret then length (keys_with {DELETE} [(op, k)]) else 0) \<and>
    set (keys_of (items s')) = set (keys_of (items s)) \<union> set (keys_with {INSERT} [(op, k)])"
proof (cases op)
  case READ
  then have "map_of (items s) k \<noteq> None" using assms(3) by (auto simp: map_of_eq_None_iff)
  then show ?thesis using READ get_law [OF assms(1), of k] inv_less [OF assms(1)]
    by (auto simp: op_effect_def exec_op_def counts_def zero_param_def)
next
  case INSERT
  then have "k \<notin> set (keys_of (items s))" "ok k 123456789" using assms(2,4) by (auto simp: bench_key_def)
  from put_law [OF assms(1) this] show ?thesis using INSERT set_keys_ins_kv [of k _ "items s"]
    by (auto simp: op_effect_def exec_op_def counts_def zero_param_def simp del: set_map)
next
  case UPDATE
  then have "k \<in> set (keys_of (items s))" "ok k 234567891" using assms(2,3) by (auto simp: bench_key_def)
  from update_law [OF assms(1) this] show ?thesis using UPDATE
    by (auto simp: op_effect_def exec_op_def counts_def zero_param_def simp del: set_map)
next
  case SCAN
  then show ?thesis using scan_total [OF assms(1), of k sn] inv_less [OF assms(1)]
    by (auto simp: op_effect_def exec_op_def counts_def zero_param_def)
next
  case DELETE
  then have "k \<notin> set (keys_of (items s))" "ok k 123456789" using assms(2,4) by (auto simp: bench_key_def)
  from remove_absent_law [OF assms(1) this] show ?thesis using DELETE
    by (auto simp: op_effect_def exec_op_def counts_def zero_param_def simp del: set_map)
qed

lemma run_seq_ok:
  assumes "inv (length is + m) s" "\<forall>i \<in> set is. i < length ops" "L = map ((!) ops) is" "\<forall>x \<in> set L. bench_key ok (snd x)"
    "ops_fit (keys_of (items s)) L"
  shows "\<exists>s' d. run_seq I sn ops is s = Some (s', d) \<and> inv m s' \<and>
    c_read d = length (keys_with {READ} L) \<and> c_insert d = length (keys_with {INSERT} L) \<and>
    c_remove d = (if absent_ret then length (keys_with {DELETE} L) else 0)"
  using assms
proof (induction "is" arbitrary: s L)
  case Nil
  then show ?case by (simp add: zero_counts_def)
next
  case (Cons i "is")
  define L' where "L' = map ((!) ops) is"
  obtain op k where o: "ops ! i = (op, k)" by (cases "ops ! i")
  have L: "L = (op, k) # L'" using Cons.prems(3) by (simp add: L'_def o)
  have rd: "rd ops i = Some (op, k)" using Cons.prems(2) by (simp add: rd_def o)
  have "inv (Suc (length is + m)) s" "bench_key ok k" using Cons.prems(1,4) by (simp_all add: L)
  from op_effect_ok [OF this, of op sn] Cons.prems(5) obtain s1 d1 where
    s1: "op_effect I sn op k s = Some (s1, d1)" "inv (length is + m) s1"
      "c_read d1 = length (keys_with {READ} [(op, k)])" "c_insert d1 = length (keys_with {INSERT} [(op, k)])"
      "c_remove d1 = (if absent_ret then length (keys_with {DELETE} [(op, k)]) else 0)"
      "set (keys_of (items s1)) = set (keys_of (items s)) \<union> set (keys_with {INSERT} [(op, k)])"
    unfolding ops_fit_def L by (cases op) (auto simp del: set_map)
  have "ops_fit (keys_of (items s1)) L'"
    using Cons.prems(5) unfolding ops_fit_def s1(6) by (auto simp: L split: if_splits simp del: set_map)
  with Cons.IH [OF s1(2) _ L'_def] Cons.prems(2,4) obtain s' d where
    "run_seq I sn ops is s1 = Some (s', d)" "inv m s'"
    "c_read d = length (keys_with {READ} L')" "c_insert d = length (keys_with {INSERT} L')"
    "c_remove d = (if absent_ret then length (keys_with {DELETE} L') else 0)" by (auto simp: L)
  then show ?case using s1 rd by (auto simp: L plus_counts_def simp del: set_map)
qed

text \<open>The whole run, for any schedule.\<close>

theorem run_ok:
  assumes "inv (length ops + m) s" "schedule_ok n (length ops) sched" "latency_sample_interval P \<noteq> 0"
    "\<forall>x \<in> set ops. bench_key ok (snd x)" "ops_fit (keys_of (items s)) ops" "dataset_fitness P ks zero_stat \<noteq> None"
  shows "\<exists>s' st'. run I P ks n ops sched s st = Some (s', st') \<and> inv m s' \<and>
    success_read st' = success_read st + length (keys_with {READ} ops) \<and>
    success_insert st' = success_insert st + length (keys_with {INSERT} ops) \<and>
    success_remove st' = success_remove st + (if absent_ret then length (keys_with {DELETE} ops) else 0)"
proof -
  define L where "L = map ((!) ops) (map snd sched)"
  have m: "mset (map snd sched) = mset [0..<length ops]" and t: "\<forall>p \<in> set sched. fst p < n"
    using assms(2) by (auto simp: schedule_ok_def)
  have "mset L = image_mset ((!) ops) (mset (map snd sched))" by (simp only: L_def mset_map)
  also have "\<dots> = mset (map ((!) ops) [0..<length ops])" unfolding m by (simp only: mset_map)
  finally have L: "mset L = mset ops" by (simp add: map_nth)
  note kw = mset_keys_with [OF L]
  have idx: "\<forall>i \<in> set (map snd sched). i < length ops" using mset_eq_setD [OF m] by auto
  have "ops_fit (keys_of (items s)) L"
    using assms(5) mset_eq_imp_distinct_iff [OF kw] unfolding ops_fit_def mset_eq_setD [OF kw] by blast
  moreover have "\<forall>x \<in> set L. bench_key ok (snd x)" using assms(4) mset_eq_setD [OF L] by blast
  moreover have "inv (length (map snd sched) + m) s" using assms(1) mset_eq_length [OF m] by simp
  ultimately obtain s' d where r: "run_seq I (scan_num P) ops (map snd sched) s = Some (s', d)" "inv m s'"
    "c_read d = length (keys_with {READ} L)" "c_insert d = length (keys_with {INSERT} L)"
    "c_remove d = (if absent_ret then length (keys_with {DELETE} L) else 0)"
    using run_seq_ok [OF _ idx L_def, of m s "scan_num P"] by blast
  then obtain st' where "run I P ks n ops sched s st = Some (s', st')" "stat_counts st' = stat_counts st + d"
    using run_seq_refines [OF assms(3) t assms(6), of I ops s st] by (auto simp: map_option_case split: option.splits)
  then show ?thesis using r mset_eq_length [OF kw] by (auto simp: stat_counts_def plus_counts_def)
qed

text \<open>All configurations, each from a new object.\<close>

lemma run_configs_ok:
  assumes "fresh new_index" "ksorted (init_key_values t)" "ops_fit (keys_of (init_key_values t)) ops"
    "latency_sample_interval P \<noteq> 0" "\<forall>(k, v) \<in> set (init_key_values t). ok k v" "\<forall>x \<in> set ops. bench_key ok (snd x)"
    "room (length (init_key_values t) + length ops)"
    "distinct (keys t)" "keys t \<noteq> []" "metric_settings P (length (keys t))"
    "\<forall>(n, sched) \<in> set configs. schedule_ok n (length ops) (sched (length ops))" "stat_counts st = 0"
  shows "\<exists>sts. run_configs I new_index P t ops configs st = Some sts \<and> length sts = length configs \<and>
    (\<forall>st \<in> set sts. counts_as absent_ret ops st \<and> fitness_as P (set (keys t)) st)"
  using assms(11,12)
proof (induction configs arbitrary: st)
  case (Cons c configs)
  obtain n sched where c: "c = (n, sched)" by (cases c)
  from bulk_load_law [OF assms(1,2,5,7)] obtain s where
    s: "bulk_load_op I new_index (init_key_values t) = Some s" "inv (length ops + 0) s" "items s = init_key_values t" by auto
  have "schedule_ok n (length ops) (sched (length ops))" using Cons.prems(1) by (simp add: c)
  moreover have "dataset_fitness P (keys t) zero_stat \<noteq> None" using dataset_fitness_ok [OF assms(8-10)] by fastforce
  ultimately obtain s' st' where
    r: "run I P (keys t) n ops (sched (length ops)) s st = Some (s', st')" "counts_as absent_ret ops st'"
    using run_ok [OF s(2) _ assms(4,6), of n "sched (length ops)" "keys t" st] assms(3) counts_as_start [OF Cons.prems(2)] unfolding s(3) counts_as_def by auto
  note f = run_fitness [OF r(1) assms(8-10)]
  from Cons.IH [of "Stat_clear st'"] Cons.prems(1) obtain sts where
    "run_configs I new_index P t ops configs (Stat_clear st') = Some sts" "length sts = length configs"
    "\<forall>st \<in> set sts. counts_as absent_ret ops st \<and> fitness_as P (set (keys t)) st" by auto
  then show ?case using r f by (simp add: c prepare_def s(1))
qed simp

end

interpretation stx_bench: bench_index btree_index "\<lambda>_. adapter_inv" "\<lambda>b. adapter_inv b \<and> m_root b = None" tree_contents
  "\<lambda>_ _. True" "\<lambda>_. True" False
proof
  fix b :: "(u64, u64) btree" and k
  assume "adapter_inv b" "k \<notin> set (keys_of (tree_contents b))"
  then show "\<exists>s'. remove_op btree_index b k = Some (s', False) \<and> adapter_inv s' \<and> tree_contents s' = tree_contents b"
    using btree_remove_ok [of b k] del_kv_absent [of "tree_contents b" k] stx.items_sorted [of b]
    by (auto simp: btree_index_def simp del: set_map)
qed

interpretation naive_bench: bench_index naive_index "\<lambda>_. naive_inv" "\<lambda>_. True" naive_items "\<lambda>_ _. True" "\<lambda>_. True" True
  by unfold_locales (auto simp: naive_defs map_of_eq_None_keys simp del: set_map)

section \<open>The operations that are generated fit the table\<close>

text \<open>\<open>parse_args\<close> demands that one of the ratios of insertions and deletions is zero.\<close>

definition insert_xor_delete :: "('d::linorder \<Rightarrow> 'd \<Rightarrow> 'd) \<Rightarrow> 'd ratios \<Rightarrow> 'd list \<Rightarrow> bool" where
  "insert_xor_delete dadd r probs \<longleftrightarrow>
     (let t1 = read_ratio r; t2 = dadd t1 (insert_ratio r); t4 = dadd (dadd t2 (update_ratio r)) (scan_ratio r)
      in (\<forall>p \<in> set probs. p < t1 \<or> t2 \<le> p) \<or> (\<forall>p \<in> set probs. p < t4))"

lemma gen_loop_no_insert:
  "\<forall>p \<in> set ps. p < read_ratio r \<or> dadd (read_ratio r) (insert_ratio r) \<le> p \<Longrightarrow>
   gen_loop dadd r ts smp ks ps sc ic dc = Some ops \<Longrightarrow> keys_with {INSERT} ops = []"
  by (induction ps arbitrary: sc ic dc ops) (auto simp: Let_def bind_eq_Some_conv not_le split: if_splits)

lemma gen_loop_no_delete:
  "\<forall>p \<in> set ps. p < dadd (dadd (dadd (read_ratio r) (insert_ratio r)) (update_ratio r)) (scan_ratio r) \<Longrightarrow>
   gen_loop dadd r ts smp ks ps sc ic dc = Some ops \<Longrightarrow> keys_with {DELETE} ops = []"
  by (induction ps arbitrary: sc ic dc ops) (auto simp: Let_def bind_eq_Some_conv split: if_splits)

lemma generate_xor:
  assumes "insert_xor_delete dadd r probs" "generate_operations dadd r ds sh n dstart smp ks probs = Some ops"
  shows "keys_with {INSERT} ops = [] \<or> keys_with {DELETE} ops = []"
  using assms gen_loop_no_insert [of probs r dadd] gen_loop_no_delete [of probs dadd r]
  unfolding insert_xor_delete_def generate_operations_def Let_def by blast

definition sampling_ok :: "sampling \<Rightarrow> nat \<Rightarrow> nat \<Rightarrow> bool" where
  "sampling_ok d num_keys num_searches \<longleftrightarrow>
     (case d of Uniform ps \<Rightarrow> num_searches \<le> length ps \<and> (\<forall>p \<in> set ps. 0 \<le> p \<and> p < int num_keys)
      | Zipfian ds \<Rightarrow> num_searches \<le> length ds \<and> 0 < num_keys \<and> num_keys < 2 ^ 31)"

lemma sample_keys_ok:
  assumes "sampling_ok d (length arr) n"
  shows "\<exists>smp. sample_keys d arr = Some smp \<and> n \<le> length smp \<and> set smp \<subseteq> set arr"
proof (cases d)
  case (Uniform ps)
  then show ?thesis using assms get_search_keys_ok [of ps arr]
    by (auto simp: sampling_ok_def sample_keys_def nat_less_iff)
next
  case (Zipfian ds)
  then show ?thesis using assms get_search_keys_zipf_ok [of arr ds] by (auto simp: sampling_ok_def sample_keys_def)
qed

lemma keys_with_cover:
  "snd ` set ops \<subseteq> set (keys_with {READ, UPDATE, SCAN} ops) \<union> set (keys_with {INSERT} ops) \<union> set (keys_with {DELETE} ops)"
proof
  fix k assume "k \<in> snd ` set ops"
  then obtain op where "(op, k) \<in> set ops" by auto
  then show "k \<in> set (keys_with {READ, UPDATE, SCAN} ops) \<union> set (keys_with {INSERT} ops) \<union> set (keys_with {DELETE} ops)"
    by (cases op) (force simp: keys_with_def)+
qed

lemma generate_fits:
  assumes "distinct ks" "n \<le> length ks" "n \<le> dstart" "length probs \<le> length smp" "set smp \<subseteq> set (take n ks)"
    "insert_xor_delete dadd r probs" "set loaded = set (take n ks)" "shuffles sh"
  shows "\<exists>ops. generate_operations dadd r False sh n dstart smp ks probs = Some ops \<and> ops_fit loaded ops \<and>
    length ops \<le> length probs \<and> snd ` set ops \<subseteq> set ks"
proof -
  from generate_operations_ok [OF assms(8,1,2,4,5), of dadd r False dstart] obtain ops where
    ops: "generate_operations dadd r False sh n dstart smp ks probs = Some ops" "length ops \<le> length probs"
    "set (keys_with {READ, UPDATE, SCAN} ops) \<subseteq> set (take n ks)" "distinct (keys_with {INSERT} ops)"
    "set (keys_with {INSERT} ops) \<subseteq> set (drop n ks)" "set (keys_with {DELETE} ops) \<subseteq> set (drop dstart ks)"
    by auto
  have "distinct (take n ks @ drop n ks)" using assms(1) by simp
  then have dd: "set (take n ks) \<inter> set (drop n ks) = {}" by (auto simp del: append_take_drop_id)
  moreover have "set (drop dstart ks) \<subseteq> set (drop n ks)" by (rule set_drop_subset_set_drop [OF assms(3)])
  moreover have "set (keys_with {READ, UPDATE} ops) \<subseteq> set (keys_with {READ, UPDATE, SCAN} ops)"
    by (auto simp: keys_with_def)
  ultimately have "ops_fit loaded ops" using ops generate_xor [OF assms(6) ops(1)] assms(7) unfolding ops_fit_def by auto
  moreover have "snd ` set ops \<subseteq> set ks"
    using ops(3,5,6) set_take_subset [of n ks] set_drop_subset [of n ks] set_drop_subset [of dstart ks] keys_with_cover [of ops] by blast
  ultimately show ?thesis using ops(1,2) by blast
qed

context bench_index
begin

text \<open>The whole program, from the key file to the statistics.\<close>

lemma benchmark_ok:
  assumes "shuffles shuffle" "shuffles random_shuffle" "\<forall>n. init_size n \<le> n" "\<forall>n. init_size n \<le> del_start n"
    "10 \<le> length ks" "sampling_ok smpl (init_size (card (set ks))) (length probs)" "insert_xor_delete dadd r probs"
    "latency_sample_interval P \<noteq> 0" "\<forall>(n, sched) \<in> set configs. \<forall>m. schedule_ok n m (sched m)"
    "metric_settings P (card (set ks))" "fresh new_index" "\<forall>k \<in> set ks. bench_key ok k" "room (card (set ks) + length probs)"
  shows "\<exists>ops sts. run_benchmark I new_index P False shuffle random_shuffle init_size del_start smpl dadd r
      probs configs (Some (Some ks)) = Done (ops, sts) \<and> length sts = length configs \<and>
    (\<forall>st \<in> set sts. counts_as absent_ret ops st \<and> fitness_as P (set ks) st)"
proof -
  obtain t where t: "load_keys False shuffle init_size (Some (Some ks)) = Done t" "distinct (keys t)" "set (keys t) = set ks"
    "ksorted (init_key_values t)" "keys_of (init_key_values t) = init_keys t"
    "set (init_keys t) = set (take (init_size (length (keys t))) (keys t))"
    using load_keys_ok [OF assms(1,3,5)] by blast
  have n: "length (keys t) = card (set ks)" using distinct_card [OF t(2)] t(3) by simp
  note i = load_keys_init [OF t(1)]
  have il: "length (init_keys t) = init_size (length (keys t))" using i(1) assms(3) by simp
  from sample_keys_ok [of smpl "init_keys t" "length probs"] assms(6) obtain smp where
    smp: "sample_keys smpl (init_keys t) = Some smp" "length probs \<le> length smp" "set smp \<subseteq> set (init_keys t)"
    by (auto simp: il n)
  from generate_fits [OF t(2) _ _ smp(2) _ assms(7) t(6) assms(2), of "del_start (length (keys t))"] obtain ops where
    ops: "generate_operations dadd r False random_shuffle (length (init_keys t)) (del_start (length (keys t))) smp (keys t) probs
      = Some ops" "ops_fit (init_keys t) ops" "length ops \<le> length probs" "snd ` set ops \<subseteq> set ks"
    using assms(3,4) smp(3) t(3,6) by (auto simp: il)
  have "set (init_keys t) \<subseteq> set ks" using t(3,6) set_take_subset [of _ "keys t"] by blast
  then have ok: "\<forall>(k, v) \<in> set (init_key_values t). ok k v" "\<forall>x \<in> set ops. bench_key ok (snd x)"
    using assms(12) ops(4) unfolding i(2) by (auto simp: bench_key_def)
  have "length (init_key_values t) \<le> card (set ks)" using il n assms(3) by (simp add: i(2))
  then have "room (length (init_key_values t) + length ops)" using room_less [OF assms(13)] ops(3) by simp
  moreover have m: "keys t \<noteq> []" "metric_settings P (length (keys t))" using assms(5,10) t(3) n by auto
  moreover have "ops_fit (keys_of (init_key_values t)) ops" using ops(2) unfolding t(5) .
  ultimately obtain sts where sts: "run_configs I new_index P t ops configs zero_stat = Some sts"
    "length sts = length configs" "\<forall>st \<in> set sts. counts_as absent_ret ops st \<and> fitness_as P (set ks) st"
    using run_configs_ok [OF assms(11) t(4) _ assms(8) ok _ t(2) _ _ _ stat_counts_clear(2), of configs] assms(9) t(3) by fastforce
  show ?thesis using t(1) smp(1) ops(1) sts by (auto simp: run_benchmark_def)
qed

end

section \<open>Main theorems\<close>

lemma read_at_ok: "\<forall>i \<in> set is. i < length l \<Longrightarrow> read_at l is = Some (map ((!) l) is)"
  by (induction "is") (auto simp: rd_def)

lemma sorted_map_nth: "sorted l \<Longrightarrow> sorted is \<Longrightarrow> \<forall>i \<in> set is. i < length l \<Longrightarrow> sorted (map ((!) l) is)"
  by (induction "is") (auto intro: sorted_nth_mono)

text \<open>
  C19: the counters that \<open>run\<close> reports, and the index it leaves, are those of one thread that runs
  the operations one after the other in the order in which they took effect; how they were
  spread over the threads makes no difference. In particular, if the metric of the
  keys does not throw, \<open>run\<close> is undefined only if that sequential run is.
\<close>

theorem run_counts_sequential:
  assumes "latency_sample_interval P \<noteq> 0" "\<forall>p \<in> set sched. fst p < n" "dataset_fitness P ks zero_stat \<noteq> None"
  shows "map_option (map_prod id stat_counts) (run I P ks n ops sched s st) =
    map_option (map_prod id (\<lambda>d. stat_counts st + d)) (run_seq I (scan_num P) ops (map snd sched) s)"
  by (rule run_seq_refines [OF assms])

definition sample_settings :: "'s settings" where
  "sample_settings = \<lparr>scan_num = 2, latency_sample = True, latency_sample_interval = 1, tsc = (\<lambda>i. (int i, 2 * int i)),
     tsc2ns = id, throughput_of = (\<lambda>n. n), dataset_statistic = True, error_bound = 64, memory_of = None\<rparr>"

theorem run_counts_sequential_witness:
  "map_option (map_prod id stat_counts)
     (run naive_index sample_settings [10, 30, 20] 2 [(READ, 1), (INSERT, 3), (READ, 3)] [(1, 1), (0, 2), (1, 0)] (Some [(1::nat, 5)]) zero_stat) =
   Some (Some [(1, 5), (3, 123456789)], Counts 1 2 0 0 0)"
proof -
  have "dataset_fitness sample_settings [10, 30, 20] zero_stat \<noteq> None"
    using dataset_fitness_ok [of "[10, 30, 20]" sample_settings zero_stat] by (auto simp: metric_settings_def sample_settings_def)
  then show ?thesis
    by (subst run_counts_sequential)
      (auto simp: sample_settings_def rd_def op_effect_def exec_op_def naive_defs counts_def zero_param_def plus_counts_def zero_counts_def)
qed

text \<open>
  The latency columns are defined whenever there is a sample and the percentile positions lie
  inside the samples; if the positions ascend, the seven columns, from the minimum to the
  maximum, ascend, and the first and the last bound every sample.
\<close>

theorem latency_columns_ascend:
  assumes "latency_sample P" "latency st \<noteq> []" "sorted (pos (length (latency st)))"
    "\<forall>i \<in> set (pos (length (latency st))). i < length (latency st)"
  shows "\<exists>lo ps hi. latency_columns pos P st = Some (lo # ps @ [hi]) \<and> sorted (lo # ps @ [hi]) \<and>
    length ps = length (pos (length (latency st))) \<and> (\<forall>x \<in> set (latency st). lo \<le> x \<and> x \<le> hi)"
proof -
  define l where "l = sort (latency st)"
  have l: "sorted l" "l \<noteq> []" "length l = length (latency st)" "set l = set (latency st)"
    using assms(2) by (auto simp: l_def) (metis length_0_conv length_sort)
  let ?is = "0 # pos (length l) @ [length l - 1]"
  have i: "\<forall>i \<in> set ?is. i < length l" using assms(2,4) l by auto
  moreover have "sorted ?is" using assms(3) i l by (fastforce simp: sorted_append)
  ultimately have s: "sorted (map ((!) l) ?is)" using l(1) by (blast intro: sorted_map_nth)
  have "l ! 0 \<le> x \<and> x \<le> l ! (length l - 1)" if "x \<in> set (latency st)" for x
    using that l(1,2) unfolding l(4) [symmetric] in_set_conv_nth by (auto intro!: sorted_nth_mono)
  then show ?thesis using read_at_ok [OF i] s assms(1) l(2,3)
    by (auto simp: latency_columns_def Let_def l_def [symmetric])
qed

theorem latency_columns_ascend_witness:
  "\<exists>lo ps hi. latency_columns (\<lambda>n. [n div 2, n * 9 div 10]) sample_settings (zero_stat\<lparr>latency := [30, 10, 20]\<rparr>) =
     Some (lo # ps @ [hi]) \<and> sorted (lo # ps @ [hi])"
  using latency_columns_ascend [of sample_settings "zero_stat\<lparr>latency := [30, 10, 20]\<rparr>" "\<lambda>n. [n div 2, n * 9 div 10]"]
  by (auto simp: sample_settings_def)

end
