(* ===== verification/BTreeVerify.thy ===== *)
theory BTreeVerify
  imports BTreeIter
begin

text \<open>
  The self-check of the STX B+ tree: \<open>verify\<close>, \<open>verify_node\<close> and \<open>verify_leaflinks\<close>. A failed
  \<open>assert\<close> is \<open>None\<close>, or \<open>False\<close> for \<open>verify\<close>. The invariant of this development implies that
  every assertion holds.
\<close>

section \<open>Definitions\<close>

text \<open>The loops that compare each key of a node with the next one.\<close>

fun keys_ascending :: "'k::linorder list \<Rightarrow> bool" where
  "keys_ascending (x # y # zs) = (key_lessequal x y \<and> keys_ascending (y # zs))"
| "keys_ascending _ = True"

text \<open>The links between two neighbouring leaves.\<close>

definition leaves_linked :: "('k, 'v) btree \<Rightarrow> addr \<Rightarrow> addr \<Rightarrow> bool" where
  "leaves_linked b x y \<longleftrightarrow> nextleaf b x = Some y \<and> prevleaf b y = Some x"

fun leaf_addr :: "('k, 'v) node \<Rightarrow> addr option" where
  "leaf_addr (Leaf a kvs) = Some a"
| "leaf_addr (Inner l ks cs) = None"

fun first_leaf_child :: "('k, 'v) node \<Rightarrow> addr option" where
  "first_leaf_child (Inner l ks cs) = do { c \<leftarrow> rd cs 0; leaf_addr c }"
| "first_leaf_child (Leaf a kvs) = None"

fun last_leaf_child :: "('k, 'v) node \<Rightarrow> addr option" where
  "last_leaf_child (Inner l ks cs) = do { c \<leftarrow> rd cs (length ks); leaf_addr c }"
| "last_leaf_child (Leaf a kvs) = None"

definition link_check :: "('k, 'v) btree \<Rightarrow> nat \<Rightarrow> ('k, 'v) node \<Rightarrow> ('k, 'v) node \<Rightarrow> bool option" where
  "link_check b l c d =
     (if l = 1 then do { x \<leftarrow> leaf_addr c; y \<leftarrow> leaf_addr d; Some (leaves_linked b x y) }
      else if l = 2 then do { x \<leftarrow> last_leaf_child c; y \<leftarrow> first_leaf_child d; Some (leaves_linked b x y) }
      else Some True)"

text \<open>
  \<open>verify_slots\<close> is the loop over the children of an inner node, with the smallest and the
  largest key as far as they are known.
\<close>

fun verify_node ::
    "traits \<Rightarrow> ('k::linorder, 'v) btree \<Rightarrow> bool \<Rightarrow> ('k, 'v) node \<Rightarrow> tree_stats \<Rightarrow> ('k \<times> 'k \<times> tree_stats) option"
  and verify_slots ::
    "traits \<Rightarrow> ('k::linorder, 'v) btree \<Rightarrow> nat \<Rightarrow> 'k list \<Rightarrow> ('k, 'v) node list \<Rightarrow> nat \<Rightarrow> 'k option \<Rightarrow> 'k option \<Rightarrow>
     tree_stats \<Rightarrow> ('k \<times> 'k \<times> tree_stats) option" where
  "verify_node T b isroot (Leaf a kvs) st =
     (if (isroot \<or> \<not> isunderflow T (Leaf a kvs)) \<and> length kvs > 0 \<and> keys_ascending (keys_of kvs) then
        do { minkey \<leftarrow> rd (keys_of kvs) 0; maxkey \<leftarrow> rd (keys_of kvs) (length kvs - 1);
             Some (minkey, maxkey, st\<lparr>leaves := leaves st + 1, itemcount := itemcount st + length kvs\<rparr>) }
      else None)"
| "verify_node T b isroot (Inner l ks cs) st =
     (if (isroot \<or> \<not> isunderflow T (Inner l ks cs)) \<and> length ks > 0 \<and> keys_ascending ks
      then verify_slots T b l ks cs 0 None None (st\<lparr>innernodes := innernodes st + 1\<rparr>)
      else None)"
| "verify_slots T b l ks [] slot mn mx st =
     (if slot = length ks + 1 then do { x \<leftarrow> mn; y \<leftarrow> mx; Some (x, y, st) } else None)"
| "verify_slots T b l ks (c # cs) slot mn mx st =
     (if level c + 1 \<noteq> l then None
      else do { (submin, submax, st') \<leftarrow> verify_node T b False c st;
                mn' \<leftarrow> (if slot = 0 then Some (Some submin)
                        else do { k \<leftarrow> rd ks (slot - 1); if key_greaterequal submin k then Some mn else None });
                mx' \<leftarrow> (if slot = length ks then Some (Some submax)
                        else do { k \<leftarrow> rd ks slot; if key_equal k submax then Some mx else None });
                linked \<leftarrow> (if slot < length ks then (case cs of [] \<Rightarrow> None | d # _ \<Rightarrow> link_check b l c d)
                           else Some True);
                if linked then verify_slots T b l ks cs (slot + 1) mn' mx' st' else None })"

text \<open>
  The walk along the leaf list; the fuel is the number of leaves. The counter \<open>testcount\<close> is an
  \<open>unsigned int\<close>, while \<open>size()\<close> is a \<open>size_t\<close>.
\<close>

fun verify_chain :: "('k::linorder, 'v) btree \<Rightarrow> nat \<Rightarrow> addr option \<Rightarrow> u32 \<Rightarrow> u32 option" where
  "verify_chain b fuel None testcount = Some testcount"
| "verify_chain b 0 (Some n) testcount = None"
| "verify_chain b (Suc fuel) (Some n) testcount =
     do { kvs \<leftarrow> leaf_at b n;
          if length kvs > 0 \<and> keys_ascending (keys_of kvs) then
            do { ok \<leftarrow> (case nextleaf b n of
                           Some m \<Rightarrow> do { kvs' \<leftarrow> leaf_at b m; k \<leftarrow> rd (keys_of kvs) (length kvs - 1);
                                           k' \<leftarrow> rd (keys_of kvs') 0;
                                           Some (key_lessequal k k' \<and> prevleaf b m = Some n) }
                         | None \<Rightarrow> Some (m_tailleaf b = Some n));
                 if ok then verify_chain b fuel (nextleaf b n) (testcount + of_nat (length kvs)) else None }
          else None }"

definition verify_leaflinks :: "('k::linorder, 'v) btree \<Rightarrow> bool" where
  "verify_leaflinks b =
     (case m_headleaf b of
        None \<Rightarrow> False
      | Some n \<Rightarrow> prevleaf b n = None \<and>
          (case verify_chain b (length (tree_leaves b)) (Some n) 0 of
             None \<Rightarrow> False
           | Some testcount \<Rightarrow> unat testcount = size_of b))"

definition verify :: "traits \<Rightarrow> ('k::linorder, 'v) btree \<Rightarrow> bool" where
  "verify T b =
     (case m_root b of
        None \<Rightarrow> True
      | Some n \<Rightarrow>
          (case verify_node T b True n zero_stats of
             None \<Rightarrow> False
           | Some (minkey, maxkey, vstats) \<Rightarrow>
               itemcount vstats = itemcount (m_stats b) \<and> leaves vstats = leaves (m_stats b) \<and>
               innernodes vstats = innernodes (m_stats b) \<and> verify_leaflinks b))"

section \<open>Correctness\<close>

lemma keys_ascending_sorted: "sorted_wrt (<) ks \<Longrightarrow> keys_ascending ks"
  by (induction ks rule: keys_ascending.induct) (auto simp: not_less)

lemma dll_linked:
  assumes "dll (nextleaf b) (prevleaf b) p (X @ x # y # Y) q" shows "leaves_linked b x y"
  using dll_nextD [OF assms] dll_prevD [of _ _ p "X @ [x]" y Y q] assms by (simp add: leaves_linked_def)

definition add_stats :: "tree_stats \<Rightarrow> ('k, 'v) node list \<Rightarrow> tree_stats" where
  "add_stats st cs = \<lparr>itemcount = itemcount st + length (contents_list cs), leaves = leaves st + length (leaf_lists cs),
     innernodes = innernodes st + sum_list (map count_inner cs)\<rparr>"

lemma add_stats_Cons: "add_stats (add_stats st [c]) cs = add_stats st (c # cs)"
  by (simp add: add_stats_def)

lemma add_stats_Nil [simp]: "add_stats st [] = st"
  by (cases st) (simp add: add_stats_def)

text \<open>The first and the last leaf below a node.\<close>

lemma edge_leaves:
  assumes "node_ok T lo h n"
  shows "h = 0 \<Longrightarrow> leaf_addr n = Some (fst (hd (leaf_list n))) \<and> leaf_addr n = Some (fst (last (leaf_list n)))"
    and "h = 1 \<Longrightarrow> first_leaf_child n = Some (fst (hd (leaf_list n))) \<and> last_leaf_child n = Some (fst (last (leaf_list n)))"
proof -
  show "leaf_addr n = Some (fst (hd (leaf_list n))) \<and> leaf_addr n = Some (fst (last (leaf_list n)))" if "h = 0"
    using assms that by (auto simp: node_ok_0)
  show "first_leaf_child n = Some (fst (hd (leaf_list n))) \<and> last_leaf_child n = Some (fst (last (leaf_list n)))" if "h = 1"
  proof -
    from assms that obtain cs where n: "n = Inner 1 (seps cs) cs" "lo < length cs"
      and ok: "\<forall>c \<in> set cs. node_ok T (min_at T 0) 0 c" by (auto simp: node_ok_Suc)
    have ne: "cs \<noteq> []" using n by auto
    have "\<exists>a kvs. c = Leaf a kvs" if "c \<in> set cs" for c using ok that by (auto simp: node_ok_0)
    then obtain a kvs a' kvs' where e: "hd cs = Leaf a kvs" "last cs = Leaf a' kvs'"
      using ne by (meson hd_in_set last_in_set)
    have "hd (leaf_list n) = (a, kvs)" using ne e by (cases cs) (auto simp: n)
    moreover have "last (leaf_list n) = (a', kvs')" using ne e by (cases cs rule: rev_cases) (auto simp: n)
    ultimately show ?thesis using ne e by (simp add: n rd_def hd_conv_nth last_conv_nth)
  qed
qed

lemma link_check_ok:
  assumes "node_ok T lo h c" "node_ok T lo h d"
    and "dll (nextleaf b) (prevleaf b) p (X @ map fst (leaf_list c) @ map fst (leaf_list d) @ Y) q"
  shows "link_check b (Suc h) c d = Some True"
proof -
  have ne: "leaf_list c \<noteq> []" "leaf_list d \<noteq> []" using assms(1,2) leaf_list_nonempty by blast+
  then obtain C x D y where l: "leaf_list c = C @ [x]" "leaf_list d = y # D"
    by (metis append_butlast_last_id list.collapse)
  have "leaves_linked b (fst x) (fst y)"
    using assms(3) dll_linked [of b p "X @ map fst C" "fst x" "fst y" "map fst D @ Y" q] by (simp add: l)
  then show ?thesis
    using edge_leaves [OF assms(1)] edge_leaves [OF assms(2)] l by (auto simp: link_check_def)
qed

definition verifies :: "traits \<Rightarrow> ('k::linorder, 'v) btree \<Rightarrow> bool \<Rightarrow> ('k, 'v) node \<Rightarrow> bool" where
  "verifies T b isroot n \<longleftrightarrow>
     (\<forall>st. verify_node T b isroot n st = Some (fst (hd (contents n)), last_key n, add_stats st [n]))"

lemma verify_slots_ok:
  assumes T: "traits_ok T" and ok: "\<forall>c \<in> set (ds @ rest). node_ok T (min_at T h) h c"
    and so: "ksorted (contents_list (ds @ rest))" and ne: "ds @ rest \<noteq> []"
    and dl: "dll (nextleaf b) (prevleaf b) p (map fst (leaf_lists (ds @ rest))) q"
    and IH: "\<forall>c \<in> set (ds @ rest). verifies T b False c"
  shows "verify_slots T b (Suc h) (seps (ds @ rest)) rest (length ds)
      (if ds = [] then None else Some (fst (hd (contents (hd (ds @ rest))))))
      (if rest = [] then Some (last_key (last (ds @ rest))) else None) st =
    Some (fst (hd (contents (hd (ds @ rest)))), last_key (last (ds @ rest)), add_stats st rest)"
  using assms(2-)
proof (induction rest arbitrary: ds st)
  case Nil
  then show ?case by (cases ds rule: rev_cases) auto
next
  case (Cons c rest)
  let ?cs = "ds @ c # rest" and ?n = "length ds"
  have c: "node_ok T (min_at T h) h c" "verifies T b False c" using Cons.prems(1,5) by auto
  have lc: "(level c + 1 \<noteq> Suc h) = False" using node_ok_level [OF c(1)] by simp
  have len: "length (seps ?cs) = length ds + length rest" by simp
  have mn: "(if ?n = 0 then Some (Some (fst (hd (contents c)))) else
      do { k \<leftarrow> rd (seps ?cs) (?n - 1); if key_greaterequal (fst (hd (contents c))) k
           then Some (if ds = [] then None else Some (fst (hd (contents (hd ?cs))))) else None }) =
    Some (Some (fst (hd (contents (hd ?cs)))))"
  proof (cases ds rule: rev_cases)
    case (snoc ds' e)
    have ec: "contents e \<noteq> []" "contents c \<noteq> []" using children_nonempty [OF T Cons.prems(1)] snoc by auto
    have "last_key e < fst (hd (contents c))"
      using Cons.prems(2) last_key_in [OF ec(1)] hd_in_set [OF ec(2)] by (auto simp: snoc sorted_wrt_append)
    moreover have "rd (seps ?cs) (?n - 1) = Some (last_key e)"
      using rd_mid [of "map last_key ds'" "last_key e" "seps (c # rest)"] by (simp add: snoc)
    ultimately show ?thesis by (auto simp: snoc)
  qed simp
  have mx: "(if ?n = length (seps ?cs) then Some (Some (last_key c)) else
      do { k \<leftarrow> rd (seps ?cs) ?n; if key_equal k (last_key c) then Some None else None }) =
    Some (if rest = [] then Some (last_key (last ?cs)) else None)"
    using rd_mid [of "map last_key ds" "last_key c" "seps rest"] by (cases "rest = []") auto
  have lk: "(if ?n < length (seps ?cs) then (case rest of [] \<Rightarrow> None | d # _ \<Rightarrow> link_check b (Suc h) c d) else Some True) = Some True"
  proof (cases rest)
    case (Cons d rest')
    have "link_check b (Suc h) c d = Some True"
      by (rule link_check_ok [of T "min_at T h" h c d b p "map fst (leaf_lists ds)" "map fst (leaf_lists rest')" q])
         (use Cons.prems(1,4) Cons in auto)
    then show ?thesis by (simp add: Cons)
  qed simp
  have "verify_slots T b (Suc h) (seps ((ds @ [c]) @ rest)) rest (length (ds @ [c]))
      (if ds @ [c] = [] then None else Some (fst (hd (contents (hd ((ds @ [c]) @ rest))))))
      (if rest = [] then Some (last_key (last ((ds @ [c]) @ rest))) else None) (add_stats st [c]) =
    Some (fst (hd (contents (hd ((ds @ [c]) @ rest)))), last_key (last ((ds @ [c]) @ rest)), add_stats (add_stats st [c]) rest)"
    by (rule Cons.IH) (use Cons.prems in simp_all)
  then have IH: "verify_slots T b (Suc h) (seps ?cs) rest (?n + 1) (Some (fst (hd (contents (hd ?cs)))))
      (if rest = [] then Some (last_key (last ?cs)) else None) (add_stats st [c]) =
    Some (fst (hd (contents (hd ?cs))), last_key (last ?cs), add_stats st (c # rest))"
    by (simp only: append_assoc append_Cons append_Nil length_append list.size add_stats_Cons
        append_is_Nil_conv list.distinct simp_thms if_False One_nat_def add_0_left)
  have "verify_node T b False c st = Some (fst (hd (contents c)), last_key c, add_stats st [c])"
    using c(2) by (simp add: verifies_def)
  then show ?case by (simp only: verify_slots.simps lc mn mx lk IH bind.bind_lunit prod.case list.discI if_False if_True)
qed

lemma ksorted_seps:
  assumes T: "traits_ok T" and ok: "\<forall>c \<in> set cs. node_ok T (min_at T h) h c"
    and so: "ksorted (contents_list cs)"
  shows "sorted_wrt (<) (seps cs)"
proof -
  have "sorted_wrt (<) (map last_key cs)"
    using ok so
  proof (induction cs)
    case (Cons c cs)
    have "last_key c < last_key d" if "d \<in> set cs" for d
      using Cons.prems(2) last_key_in [of c] last_key_in [of d] that children_nonempty [OF T Cons.prems(1)]
      by (fastforce simp: sorted_wrt_append)
    then show ?case using Cons by (simp add: sorted_wrt_append)
  qed simp
  then show ?thesis by (metis butlast_conv_take map_butlast sorted_wrt_take)
qed

lemma dll_part: "dll nx pv p (A @ B @ C) q \<Longrightarrow> \<exists>p' q'. dll nx pv p' B q'"
  by (auto simp: dll_append)

lemma verify_node_ok:
  assumes T: "traits_ok T"
  shows "node_ok T lo h n \<Longrightarrow> 0 < lo \<Longrightarrow> isroot \<or> min_at T h \<le> lo \<Longrightarrow> ksorted (contents n) \<Longrightarrow>
    dll (nextleaf b) (prevleaf b) p (map fst (leaf_list n)) q \<Longrightarrow> verifies T b isroot n"
proof (induction h arbitrary: n lo isroot p q)
  case 0
  then obtain a kvs where n: "n = Leaf a kvs" "lo \<le> length kvs" by (auto simp: node_ok_0)
  then have "kvs \<noteq> []" using 0 by auto
  moreover have "isroot \<or> \<not> isunderflow T n" using 0 n by (auto simp: isunderflow_def min_at_def)
  ultimately show ?case using 0 keys_ascending_sorted [of "keys_of kvs"]
    by (auto simp: verifies_def n rd_def last_key_def hd_conv_nth last_conv_nth add_stats_def)
next
  case (Suc h)
  then obtain cs where n: "n = Inner (Suc h) (seps cs) cs" "lo < length cs"
    and ok: "\<forall>c \<in> set cs. node_ok T (min_at T h) h c" by (auto simp: node_ok_Suc)
  have so: "ksorted (contents_list cs)" and dl: "dll (nextleaf b) (prevleaf b) p (map fst (leaf_lists cs)) q"
    using Suc.prems(4,5) by (auto simp: n)
  have ne: "cs \<noteq> []" using n by auto
  have u: "isroot \<or> \<not> isunderflow T n" using Suc.prems(3) n by (auto simp: isunderflow_def min_at_def)
  have asc: "keys_ascending (seps cs)" by (rule keys_ascending_sorted [OF ksorted_seps [OF T ok so]])
  have IH: "verifies T b False c" if c: "c \<in> set cs" for c
  proof -
    from split_list [OF c] obtain as bs where cs: "cs = as @ c # bs" by blast
    from dl have "dll (nextleaf b) (prevleaf b) p (map fst (leaf_lists as) @ map fst (leaf_list c) @ map fst (leaf_lists bs)) q"
      by (simp add: cs)
    from dll_part [OF this] obtain p' q' where "dll (nextleaf b) (prevleaf b) p' (map fst (leaf_list c)) q'" by blast
    moreover have "ksorted (contents c)" using so unfolding cs by (rule ksorted_contents_child)
    ultimately show ?thesis using Suc.IH [of "min_at T h" c False] ok c T by simp
  qed
  have "verify_slots T b (Suc h) (seps cs) cs 0 None None st = Some (fst (hd (contents (hd cs))), last_key (last cs), add_stats st cs)"
    for st using verify_slots_ok [of T "[]" cs h b p q st, OF T] ok so ne dl IH by simp
  moreover have "hd (contents n) = hd (contents (hd cs))"
    using children_nonempty [OF T ok, of "hd cs"] ne by (cases cs) (auto simp: n)
  moreover have "last_key n = last_key (last cs)"
    unfolding n using children_nonempty [OF T ok, of "last cs"] ne by (intro last_key_Inner) auto
  moreover have "0 < length (seps cs)" using n(2) Suc.prems(2) by simp
  ultimately show ?case using u asc by (simp add: verifies_def n add_stats_def)
qed

lemma verify_chain_ok:
  assumes ok: "leaves_ok b" and so: "ksorted (tree_contents b)"
  shows "tree_leaves b = A @ B \<Longrightarrow> length B \<le> fuel \<Longrightarrow>
    verify_chain b fuel (case B of [] \<Rightarrow> None | x # _ \<Rightarrow> Some (fst x)) m = Some (m + of_nat (length (concat (map snd B))))"
proof (induction B arbitrary: A fuel m)
  case (Cons x B)
  obtain a kvs where x: "x = (a, kvs)" by (cases x)
  then have l: "tree_leaves b = A @ (a, kvs) # B" using Cons.prems(1) by simp
  note la = leaf_at_mid [OF ok l] and nx = links_mid(1) [OF ok l]
  obtain fuel' where f: "fuel = Suc fuel'" "length B \<le> fuel'" using Cons.prems(2) by (cases fuel) auto
  have kvs: "kvs \<noteq> []" using ok l by (simp add: leaves_ok_def)
  have s: "ksorted (kvs @ concat (map snd B))" using so by (simp add: tree_contents_leaves l sorted_wrt_append)
  then have asc: "keys_ascending (keys_of kvs)" by (intro keys_ascending_sorted) (simp add: sorted_wrt_append)
  have IH: "verify_chain b fuel' (nextleaf b a) (m + of_nat (length kvs)) =
      Some (m + of_nat (length kvs) + of_nat (length (concat (map snd B))))"
    unfolding nx by (rule Cons.IH [of "A @ [x]"]) (use Cons.prems f in auto)
  have "(case nextleaf b a of
           Some m \<Rightarrow> do { kvs' \<leftarrow> leaf_at b m; k \<leftarrow> rd (keys_of kvs) (length kvs - 1); k' \<leftarrow> rd (keys_of kvs') 0;
                           Some (key_lessequal k k' \<and> prevleaf b m = Some a) }
         | None \<Rightarrow> Some (m_tailleaf b = Some a)) = Some True"
  proof (cases B)
    case Nil
    then show ?thesis using ok nx l by (simp add: leaves_ok_def chain_def)
  next
    case (Cons y B')
    then have l': "tree_leaves b = (A @ [x]) @ (fst y, snd y) # B'" using l x by simp
    have y: "snd y \<noteq> []" using ok l' by (simp add: leaves_ok_def)
    have "fst (last kvs) < fst (hd (snd y))"
      using s last_in_set [OF kvs] hd_in_set [OF y] by (auto simp: Cons sorted_wrt_append)
    then show ?thesis using nx Cons leaf_at_mid [OF ok l'] links_mid(2) [OF ok l'] kvs y x
      by (auto simp: rd_def last_conv_nth hd_conv_nth)
  qed
  then show ?case using la kvs asc IH by (simp add: f x)
qed (auto split: list.split)

theorem verify_ok:
  assumes T: "traits_ok T" and inv: "btree_inv T b"
  shows "verify T b \<longleftrightarrow> size_of b < 2 ^ 32"
proof (cases "m_root b")
  case (Some n)
  note ok = btree_inv_leaves_ok [OF assms]
  have n: "node_ok T 1 (level n) n" "ksorted (contents n)" and so: "ksorted (tree_contents b)"
    using inv Some by (auto simp: btree_inv_defs)
  have lv: "tree_leaves b = leaf_list n" using Some by (simp add: tree_leaves_def)
  have dl: "dll (nextleaf b) (prevleaf b) None (map fst (leaf_list n)) None"
    using ok by (simp add: leaves_ok_def chain_def lv)
  have "verifies T b True n" by (rule verify_node_ok [OF T n(1) _ _ n(2) dl]) simp_all
  moreover obtain x B where B: "leaf_list n = x # B" using leaf_list_nonempty [OF n(1)] by (cases "leaf_list n") auto
  have "m_headleaf b = Some (fst x)" "prevleaf b (fst x) = None" using ok by (auto simp: leaves_ok_def chain_def lv B)
  then have "verify_leaflinks b \<longleftrightarrow> unat (of_nat (size_of b) :: u32) = size_of b"
    using verify_chain_ok [OF ok so, of "[]" "tree_leaves b" "length (tree_leaves b)" 0] size_of_ok [OF inv]
    by (simp add: verify_leaflinks_def lv B tree_contents_leaves)
  then have "verify_leaflinks b \<longleftrightarrow> size_of b < 2 ^ 32"
    by (simp add: unat_of_nat)  (metis mod_less mod_less_divisor zero_less_numeral)
  ultimately show ?thesis using inv Some
    by (auto simp: verify_def verifies_def btree_inv_defs add_stats_def zero_stats_def)
qed (use inv in \<open>simp add: verify_def size_of_ok [OF inv] tree_contents_def\<close>)

section \<open>Main theorem\<close>

text \<open>
  C23: on a well-formed tree every assertion of the self-check \<open>verify\<close> holds, including the
  counters and the links between neighbouring leaves, exactly when the tree has fewer than
  \<open>2 ^ 32\<close> pairs: \<open>testcount\<close> is an \<open>unsigned int\<close> that wraps around.
\<close>

theorem verify_accepts:
  assumes "traits_ok T" "btree_inv T b"
  shows "verify T b \<longleftrightarrow> size_of b < 2 ^ 32"
  using verify_ok [OF assms] .

theorem verify_accepts_witness: "verify sample_traits sample_btree"
  using verify_accepts [OF sample] by (simp add: sample_size)

end
