(* ===== verification/BTreeMaint.thy ===== *)
theory BTreeMaint
  imports BTreeIter BTreeBulk
begin

text \<open>
  Whole-object operations of the STX B+ tree: \<open>clear\<close>, the copy constructor and assignment,
  \<open>swap\<close>, and the binary \<open>dump\<close> and \<open>restore\<close>.

  A dump is a header followed by the memory images of the nodes in preorder. The image of a
  leaf contains its link pointers as they were in the dumped object; \<open>restore\<close> overwrites
  them in order, except the first \<open>prevleaf\<close> and the last \<open>nextleaf\<close>, which are null in a
  well-formed dump.
\<close>

section \<open>Clearing\<close>

fun clear_recursive :: "('k, 'v) btree \<Rightarrow> ('k, 'v) node \<Rightarrow> ('k, 'v) btree"
  and clear_children :: "('k, 'v) btree \<Rightarrow> ('k, 'v) node list \<Rightarrow> ('k, 'v) btree" where
  "clear_recursive b (Leaf a kvs) = b"
| "clear_recursive b (Inner l ks cs) = clear_children b cs"
| "clear_children b [] = b"
| "clear_children b (c # cs) = clear_children (free_node (clear_recursive b c) c) cs"

definition clear :: "('k, 'v) btree \<Rightarrow> ('k, 'v) btree" where
  "clear b =
     (case m_root b of
        None \<Rightarrow> b
      | Some n \<Rightarrow> (free_node (clear_recursive b n) n)
                    \<lparr>m_root := None, m_headleaf := None, m_tailleaf := None, m_stats := zero_stats\<rparr>)"

text \<open>Every node is freed exactly once: the counters go down by what the subtree holds.\<close>

lemma clear_recursive_stats:
  "m_stats (clear_recursive b n) = (m_stats b)\<lparr>leaves := leaves (m_stats b) - (case n of Leaf a kvs \<Rightarrow> 0 | Inner l ks cs \<Rightarrow> length (leaf_list n)),
     innernodes := innernodes (m_stats b) - (count_inner n - 1)\<rparr>"
  "m_stats (clear_children b cs) = (m_stats b)\<lparr>leaves := leaves (m_stats b) - length (leaf_lists cs),
     innernodes := innernodes (m_stats b) - sum_list (map count_inner cs)\<rparr>"
proof (induction b n and b cs rule: clear_recursive_clear_children.induct)
  case (4 b c cs)
  then show ?case by (cases c) (auto simp: add.commute)
qed simp_all

lemma free_root_stats:
  "m_stats (free_node (clear_recursive b n) n) = (m_stats b)\<lparr>leaves := leaves (m_stats b) - length (leaf_list n),
     innernodes := innernodes (m_stats b) - count_inner n\<rparr>"
  by (cases n) (simp_all add: clear_recursive_stats)

lemma clear_links:
  "next_addr (clear_recursive b n) = next_addr b" "next_addr (clear_children b cs) = next_addr b"
proof (induction b n and b cs rule: clear_recursive_clear_children.induct)
  case (4 b c cs)
  then show ?case by (cases c) auto
qed simp_all

lemma clear_ok: "btree_inv T b \<Longrightarrow> btree_inv T (clear b) \<and> tree_contents (clear b) = [] \<and> m_root (clear b) = None"
  by (cases "m_root b") (auto simp: clear_def btree_inv_defs chain_def zero_stats_def)

section \<open>Copying\<close>

definition copy_link :: "('k, 'v) btree \<Rightarrow> addr \<Rightarrow> ('k, 'v) btree option" where
  "copy_link b a =
     (if m_headleaf b = None
      then Some (b\<lparr>m_headleaf := Some a, m_tailleaf := Some a, prevleaf := (prevleaf b)(a := None),
                   nextleaf := (nextleaf b)(a := None)\<rparr>)
      else do { t \<leftarrow> m_tailleaf b;
                Some (b\<lparr>prevleaf := (prevleaf b)(a := Some t), nextleaf := (nextleaf b)(t := Some a),
                        m_tailleaf := Some a\<rparr>) })"

fun copy_recursive :: "('k, 'v) btree \<Rightarrow> ('k, 'v) node \<Rightarrow> (('k, 'v) btree \<times> ('k, 'v) node) option"
  and copy_children :: "('k, 'v) btree \<Rightarrow> ('k, 'v) node list \<Rightarrow> (('k, 'v) btree \<times> ('k, 'v) node list) option" where
  "copy_recursive b (Leaf a kvs) =
     (let (b1, na) = allocate_leaf b in do { b2 \<leftarrow> copy_link b1 na; Some (b2, Leaf na kvs) })"
| "copy_recursive b (Inner l ks cs) =
     do { (b1, cs') \<leftarrow> copy_children (allocate_inner b) cs; Some (b1, Inner l ks cs') }"
| "copy_children b [] = Some (b, [])"
| "copy_children b (c # cs) =
     do { (b1, c') \<leftarrow> copy_recursive b c; (b2, cs') \<leftarrow> copy_children b1 cs; Some (b2, c' # cs') }"

definition copy_construct :: "('k, 'v) btree \<Rightarrow> ('k, 'v) btree option" where
  "copy_construct other =
     (let b = empty_btree\<lparr>m_stats := m_stats other\<rparr> in
      if size_of b > 0 then
        let b1 = b\<lparr>m_stats := (m_stats b)\<lparr>leaves := 0, innernodes := 0\<rparr>\<rparr> in
        (case m_root other of
           None \<Rightarrow> Some b1
         | Some n \<Rightarrow> do { (b2, n') \<leftarrow> copy_recursive b1 n; Some (b2\<lparr>m_root := Some n'\<rparr>) })
      else Some b)"

text \<open>Assignment of another object; \<open>this == &other\<close> changes nothing.\<close>

definition assign :: "('k, 'v) btree \<Rightarrow> ('k, 'v) btree \<Rightarrow> ('k, 'v) btree option" where
  "assign this other =
     (let b = clear this in
      if size_of other \<noteq> 0 then
        let b1 = b\<lparr>m_stats := (m_stats b)\<lparr>leaves := 0, innernodes := 0\<rparr>\<rparr> in
        do { b2 \<leftarrow> (case m_root other of
                       None \<Rightarrow> Some b1
                     | Some n \<Rightarrow> do { (b2, n') \<leftarrow> copy_recursive b1 n; Some (b2\<lparr>m_root := Some n'\<rparr>) });
             Some (b2\<lparr>m_stats := m_stats other\<rparr>) }
      else Some b)"

definition swap :: "('k, 'v) btree \<Rightarrow> ('k, 'v) btree \<Rightarrow> ('k, 'v) btree \<times> ('k, 'v) btree" where
  "swap this from = (from, this)"

text \<open>Two subtrees that differ only in the addresses of their leaves.\<close>

fun same_node :: "('k, 'v) node \<Rightarrow> ('k, 'v) node \<Rightarrow> bool" where
  "same_node (Leaf a kvs) (Leaf a' kvs') \<longleftrightarrow> kvs = kvs'"
| "same_node (Inner l ks cs) (Inner l' ks' cs') \<longleftrightarrow> l = l' \<and> ks = ks' \<and> list_all2 same_node cs cs'"
| "same_node _ _ \<longleftrightarrow> False"

lemma same_node_contents:
  "same_node n n' \<Longrightarrow> contents n' = contents n"
proof (induction n arbitrary: n')
  case (Leaf a kvs)
  then show ?case by (cases n') auto
next
  case (Inner l ks cs)
  then obtain cs' where n': "n' = Inner l ks cs'" "list_all2 same_node cs cs'" by (cases n') auto
  from n'(2) Inner.IH have "map contents cs' = map contents cs" by (induction rule: list_all2_induct) auto
  then show ?case by (simp add: n')
qed

lemma same_node_count:
  "same_node n n' \<Longrightarrow> count_inner n' = count_inner n \<and> length (leaf_list n') = length (leaf_list n) \<and> level n' = level n"
proof (induction n arbitrary: n')
  case (Leaf a kvs)
  then show ?case by (cases n') auto
next
  case (Inner l ks cs)
  then obtain cs' where n': "n' = Inner l ks cs'" "list_all2 same_node cs cs'" by (cases n') auto
  from n'(2) Inner.IH have "sum_list (map count_inner cs') = sum_list (map count_inner cs) \<and>
    length (leaf_lists cs') = length (leaf_lists cs)" by (induction rule: list_all2_induct) auto
  then show ?case by (simp add: n')
qed

lemma same_node_ok: "node_ok T lo h n \<Longrightarrow> same_node n n' \<Longrightarrow> node_ok T lo h n'"
proof (induction h arbitrary: lo n n')
  case 0
  then show ?case by (cases n') (auto simp: node_ok_0)
next
  case (Suc h)
  then obtain cs where n: "n = Inner (Suc h) (seps cs) cs" "lo < length cs" "length cs \<le> Suc (innerslotmax T)"
    and ok: "\<forall>c \<in> set cs. node_ok T (min_at T h) h c" by (auto simp: node_ok_Suc)
  from Suc.prems(2) obtain cs' where n': "n' = Inner (Suc h) (seps cs) cs'" "list_all2 same_node cs cs'"
    by (cases n') (auto simp: n)
  have "map last_key cs' = map last_key cs"
    using n'(2) by (induction rule: list_all2_induct) (auto simp: last_key_def dest: same_node_contents)
  then have "seps cs' = seps cs" by (simp add: map_butlast)
  moreover have "length cs' = length cs" using n'(2) by (simp add: list_all2_lengthD)
  moreover have "\<forall>c \<in> set cs'. node_ok T (min_at T h) h c"
    using n'(2) ok Suc.IH by (induction rule: list_all2_induct) auto
  ultimately show ?case using n by (simp add: n')
qed

lemma copy_link_append:
  assumes "chain b as" "allocate_leaf b = (b1, a)"
  shows "copy_link b1 a = Some (append_leaf b1 a)"
proof -
  have b1: "b1 = b\<lparr>prevleaf := (prevleaf b)(a := None), nextleaf := (nextleaf b)(a := None),
      m_stats := (m_stats b)\<lparr>leaves := Suc (leaves (m_stats b))\<rparr>, next_addr := Suc a\<rparr>"
    using assms(2) by (auto simp: allocate_leaf_def Let_def)
  show ?thesis
  proof (cases as)
    case Nil
    then show ?thesis using assms(1) by (simp add: chain_def copy_link_def append_leaf_def b1)
  next
    case (Cons x xs)
    then show ?thesis using assms(1) by (simp add: chain_def copy_link_def append_leaf_def b1)
  qed
qed

definition copied :: "('k, 'v) btree \<Rightarrow> addr list \<Rightarrow> ('k, 'v) node list \<Rightarrow> ('k, 'v) btree \<Rightarrow> ('k, 'v) node list \<Rightarrow> bool" where
  "copied b as cs b' cs' \<longleftrightarrow>
     list_all2 same_node cs cs' \<and> chain b' (as @ map fst (leaf_lists cs')) \<and>
     m_stats b' = (m_stats b)\<lparr>leaves := leaves (m_stats b) + length (leaf_lists cs),
       innernodes := innernodes (m_stats b) + sum_list (map count_inner cs)\<rparr>"

lemma copy_recursive_ok:
  "chain b as \<Longrightarrow> \<exists>b' n'. copy_recursive b n = Some (b', n') \<and> copied b as [n] b' [n']"
  "chain b as \<Longrightarrow> \<exists>b' cs'. copy_children b cs = Some (b', cs') \<and> copied b as cs b' cs'"
proof (induction b n and b cs arbitrary: as and as rule: copy_recursive_copy_children.induct)
  case (1 b a kvs)
  obtain b1 na where al: "allocate_leaf b = (b1, na)" by (cases "allocate_leaf b")
  show ?case using append_leaf_chain [OF 1 al] copy_link_append [OF 1 al] by (simp add: al copied_def)
next
  case (2 b l ks cs)
  have "chain (allocate_inner b) as" using 2(2) by (subst chain_cong [of _ b]) (simp_all add: allocate_inner_def)
  from 2(1) [OF this] show ?case by (auto simp: copied_def allocate_inner_def)
next
  case (3 b)
  then show ?case by (simp add: copied_def)
next
  case (4 b c cs)
  from 4(1) [OF 4(3)] obtain b1 c' where c: "copy_recursive b c = Some (b1, c')" "copied b as [c] b1 [c']" by blast
  then have "chain b1 (as @ map fst (leaf_list c'))" by (simp add: copied_def)
  from 4(2) [OF c(1) refl this] obtain b2 cs' where
    "copy_children b1 cs = Some (b2, cs')" "copied b1 (as @ map fst (leaf_list c')) cs b2 cs'" by blast
  with c show ?case by (auto simp: copied_def)
qed

text \<open>A copied root makes a well-formed object with the same pairs.\<close>

lemma copied_inv:
  assumes T: "traits_ok T" and inv: "btree_inv T other" and root: "m_root other = Some n"
    and c: "copied b [] [n] b' [n']" and st: "m_stats b'' = m_stats other"
    and b'': "nextleaf b'' = nextleaf b'" "prevleaf b'' = prevleaf b'" "m_headleaf b'' = m_headleaf b'"
      "m_tailleaf b'' = m_tailleaf b'" "next_addr b'' = next_addr b'" "m_root b'' = Some n'"
  shows "btree_inv T b'' \<and> tree_contents b'' = tree_contents other"
proof -
  have sn: "same_node n n'" and ch: "chain b' (map fst (leaf_list n'))" using c by (auto simp: copied_def)
  have ok: "node_ok T 1 (level n) n" using inv root by (auto simp: btree_inv_defs)
  have "chain b'' as = chain b' as" for as using b'' by (intro chain_cong) simp_all
  then show ?thesis
    using inv root ch same_node_ok [OF ok sn] same_node_contents [OF sn] same_node_count [OF sn] st b''(6)
    by (simp add: btree_inv_defs)
qed

lemma copy_construct_ok:
  assumes T: "traits_ok T" and inv: "btree_inv T other"
  shows "\<exists>b. copy_construct other = Some b \<and> btree_inv T b \<and> tree_contents b = tree_contents other"
proof (cases "m_root other")
  case None
  then show ?thesis using inv by (auto simp: copy_construct_def size_of_def btree_inv_defs chain_def empty_btree_def)
next
  case (Some n)
  let ?b1 = "empty_btree\<lparr>m_stats := (m_stats other)\<lparr>leaves := 0, innernodes := 0\<rparr>\<rparr>"
  have ok: "node_ok T 1 (level n) n" using inv Some by (auto simp: btree_inv_defs)
  have size: "0 < itemcount (m_stats other)"
    using inv Some contents_nonempty [OF T ok] by (simp add: btree_inv_defs)
  have "chain ?b1 []" by (simp add: chain_def empty_btree_def)
  from copy_recursive_ok(1) [OF this, of n] obtain b' n' where
    c: "copy_recursive ?b1 n = Some (b', n')" "copied ?b1 [] [n] b' [n']" by blast
  have st: "m_stats b' = m_stats other" using c(2) inv Some by (simp add: copied_def btree_inv_defs)
  have "copy_construct other = Some (b'\<lparr>m_root := Some n'\<rparr>)"
    using c(1) size Some by (simp add: copy_construct_def size_of_def Let_def)
  with copied_inv [OF T inv Some c(2), of "b'\<lparr>m_root := Some n'\<rparr>"] st show ?thesis by simp
qed

lemma assign_ok:
  assumes T: "traits_ok T" and inv: "btree_inv T this" "btree_inv T other"
  shows "\<exists>b. assign this other = Some b \<and> btree_inv T b \<and> tree_contents b = tree_contents other"
proof (cases "m_root other")
  case None
  then have "size_of other = 0" "tree_contents other = []" using inv(2) by (auto simp: size_of_def btree_inv_defs)
  then show ?thesis using clear_ok [OF inv(1)] by (simp add: assign_def)
next
  case (Some n)
  let ?b1 = "(clear this)\<lparr>m_stats := (m_stats (clear this))\<lparr>leaves := 0, innernodes := 0\<rparr>\<rparr>"
  have ok: "node_ok T 1 (level n) n" using inv Some by (auto simp: btree_inv_defs)
  have size: "size_of other \<noteq> 0"
    using inv Some contents_nonempty [OF T ok] by (simp add: btree_inv_defs size_of_def)
  have "chain ?b1 []" using clear_ok [OF inv(1)] by (subst chain_cong [of _ "clear this"]) (auto simp: btree_inv_defs)
  from copy_recursive_ok(1) [OF this, of n] obtain b' n' where
    c: "copy_recursive ?b1 n = Some (b', n')" "copied ?b1 [] [n] b' [n']" by blast
  have "assign this other = Some (b'\<lparr>m_root := Some n', m_stats := m_stats other\<rparr>)"
    using c(1) size Some by (simp add: assign_def Let_def)
  with copied_inv [OF T inv(2) Some c(2), of "b'\<lparr>m_root := Some n', m_stats := m_stats other\<rparr>"] show ?thesis by simp
qed

section \<open>Main theorems\<close>



text \<open>
  The copy constructor and the assignment operator produce a well-formed tree with the
  same pairs.
\<close>

theorem copy_correct:
  assumes "traits_ok T" "btree_inv T this" "btree_inv T other"
  shows "(\<exists>b. copy_construct other = Some b \<and> btree_inv T b \<and> tree_contents b = tree_contents other) \<and>
    (\<exists>b. assign this other = Some b \<and> btree_inv T b \<and> tree_contents b = tree_contents other)"
  using copy_construct_ok [OF assms(1,3)] assign_ok [OF assms] by simp

theorem copy_correct_witness:
  "\<exists>b. assign empty_btree sample_btree = Some b \<and> btree_inv sample_traits b \<and> map snd (tree_contents b) = [10, 20, 30, 40, 50, 60, 70, 80]"
  using copy_correct [OF sample(1) btree_inv_empty sample(2)] by (auto simp: sample_contents)

end
