(* ===== verification/BTreeDump.thy ===== *)
theory BTreeDump
  imports BTreeMaint
begin

text \<open>
  \<open>dump\<close> and \<open>restore\<close> of the STX B+ tree. The stream is a header and a list of node images; a
  read that fails (\<open>!is.good()\<close>) is the end of the list. A node image keeps what is copied
  back: the level, the used slots, and for a leaf the two link pointers of the dumped object.

  \<open>restore\<close> does not check the result of \<open>restore_node\<close> for the children of an inner node, so
  a stream that ends inside the tree leaves a null child in a tree that is reported as
  restored; that outcome is the constructor \<open>NullChild\<close>.
\<close>

section \<open>Definitions\<close>

record dump_header =
  signature :: string
  version :: nat
  key_type_size :: nat
  data_type_size :: nat
  h_leafslots :: nat
  h_innerslots :: nat
  h_allow_duplicates :: bool
  h_itemcount :: nat

definition the_signature :: string where
  "the_signature = ''stx-btree'' @ [CHR 0x00, CHR 0x00, CHR 0x00]"

text \<open>\<open>sizes\<close> stands for \<open>sizeof(key_type)\<close> and \<open>sizeof(data_type)\<close>.\<close>

definition fill :: "traits \<Rightarrow> nat \<times> nat \<Rightarrow> nat \<Rightarrow> dump_header" where
  "fill T sizes n =
     \<lparr>signature = the_signature, version = 0, key_type_size = fst sizes, data_type_size = snd sizes,
      h_leafslots = leafslotmax T, h_innerslots = innerslotmax T, h_allow_duplicates = False, h_itemcount = n\<rparr>"

text \<open>\<open>this->same(o)\<close> tests the signature of the receiver and compares the other fields.\<close>

definition same :: "dump_header \<Rightarrow> dump_header \<Rightarrow> bool" where
  "same h o' \<longleftrightarrow>
     signature h = the_signature \<and> version h = version o' \<and>
     key_type_size h = key_type_size o' \<and> data_type_size h = data_type_size o' \<and>
     h_leafslots h = h_leafslots o' \<and> h_innerslots h = h_innerslots o' \<and>
     h_allow_duplicates h = h_allow_duplicates o'"

datatype ('k, 'v) image =
    LeafImage "addr option" "addr option" "('k \<times> 'v) list"
  | InnerImage nat "'k list"

fun dump_node :: "('k, 'v) btree \<Rightarrow> ('k, 'v) node \<Rightarrow> ('k, 'v) image list" where
  "dump_node b (Leaf a kvs) = [LeafImage (prevleaf b a) (nextleaf b a) kvs]"
| "dump_node b (Inner l ks cs) = InnerImage l ks # concat (map (dump_node b) cs)"

definition dump :: "traits \<Rightarrow> nat \<times> nat \<Rightarrow> ('k, 'v) btree \<Rightarrow> dump_header \<times> ('k, 'v) image list" where
  "dump T sizes b = (fill T sizes (size_of b), (case m_root b of None \<Rightarrow> [] | Some n \<Rightarrow> dump_node b n))"

text \<open>
  The outcome of reading a node: the node, the changed object and the rest of the stream; a
  null pointer at the end of the stream; or a node with a null child below it.
\<close>

datatype ('k, 'v) read_node =
    Node "('k, 'v) node" "('k, 'v) btree" "('k, 'v) image list"
  | Null "('k, 'v) btree"
  | BrokenNode

text \<open>The new leaf takes over the link pointers of the image before it is linked.\<close>

definition restore_link :: "('k, 'v) btree \<Rightarrow> addr \<Rightarrow> addr option \<Rightarrow> addr option \<Rightarrow> ('k, 'v) btree option" where
  "restore_link b a pv nx =
     (let b1 = b\<lparr>prevleaf := (prevleaf b)(a := pv), nextleaf := (nextleaf b)(a := nx)\<rparr> in
      if m_headleaf b1 = None then Some (b1\<lparr>m_headleaf := Some a, m_tailleaf := Some a\<rparr>)
      else do { t \<leftarrow> m_tailleaf b1;
                Some (b1\<lparr>prevleaf := (prevleaf b1)(a := Some t), nextleaf := (nextleaf b1)(t := Some a),
                         m_tailleaf := Some a\<rparr>) })"

fun restore_node :: "nat \<Rightarrow> ('k, 'v) btree \<Rightarrow> ('k, 'v) image list \<Rightarrow> ('k, 'v) read_node"
  and restore_slots :: "nat \<Rightarrow> nat \<Rightarrow> ('k, 'v) btree \<Rightarrow> ('k, 'v) image list \<Rightarrow>
    (('k, 'v) node list \<times> ('k, 'v) btree \<times> ('k, 'v) image list) option" where
  "restore_node fuel b [] = Null b"
| "restore_node fuel b (LeafImage pv nx kvs # is) =
     (let (b1, a) = allocate_leaf b in
      case restore_link b1 a pv nx of None \<Rightarrow> BrokenNode | Some b2 \<Rightarrow> Node (Leaf a kvs) b2 is)"
| "restore_node 0 b (InnerImage l ks # is) = BrokenNode"
| "restore_node (Suc fuel) b (InnerImage l ks # is) =
     (case restore_slots fuel (length ks + 1) (allocate_inner b) is of
        None \<Rightarrow> BrokenNode
      | Some (cs, b1, is') \<Rightarrow> Node (Inner l ks cs) b1 is')"
| "restore_slots fuel 0 b is = Some ([], b, is)"
| "restore_slots fuel (Suc n) b is =
     (case restore_node fuel b is of
        Node c b1 is1 \<Rightarrow> do { (cs, b2, is2) \<leftarrow> restore_slots fuel n b1 is1; Some (c # cs, b2, is2) }
      | _ \<Rightarrow> None)"

datatype ('k, 'v) restored =
    Restored "('k, 'v) btree"
  | Refused "('k, 'v) btree"
  | NullChild

definition restore ::
  "traits \<Rightarrow> nat \<times> nat \<Rightarrow> ('k, 'v) btree \<Rightarrow> (dump_header \<times> ('k, 'v) image list) option \<Rightarrow> ('k, 'v) restored" where
  "restore T sizes b stream =
     (case stream of
        None \<Rightarrow> Refused b
      | Some (fileheader, is) \<Rightarrow>
          (let myheader = fill T sizes (h_itemcount fileheader) in
           if \<not> same myheader fileheader then Refused b
           else
             let b1 = clear b in
             if h_itemcount fileheader > 0 then
               (case restore_node (length is) b1 is of
                  Null b2 \<Rightarrow> Refused b2
                | BrokenNode \<Rightarrow> NullChild
                | Node n b2 is' \<Rightarrow>
                    Restored (b2\<lparr>m_root := Some n, m_stats := (m_stats b2)\<lparr>itemcount := h_itemcount fileheader\<rparr>\<rparr>))
             else Restored b1))"

section \<open>Round trip\<close>

lemma dump_length: "length (dump_node b n) = length (leaf_list n) + count_inner n"
proof (induction n)
  case (Inner l ks cs)
  then have "length (concat (map (dump_node b) cs)) = length (leaf_lists cs) + sum_list (map count_inner cs)"
    by (induction cs) auto
  then show ?case by simp
qed simp

lemma leaf_list_pos: "node_ok T lo h n \<Longrightarrow> 0 < length (leaf_list n)"
  using leaf_list_nonempty by auto

text \<open>
  While the leaves are restored, the chain so far ends in the \<open>nextleaf\<close> of the last image;
  everything else is as after appending.
\<close>

definition half_chain :: "('k, 'v) btree \<Rightarrow> addr list \<Rightarrow> addr option \<Rightarrow> bool" where
  "half_chain b as nx \<longleftrightarrow>
     distinct as \<and> (\<forall>a \<in> set as. a < next_addr b) \<and> dll (nextleaf b) (prevleaf b) None as nx \<and>
     m_headleaf b = (case as of [] \<Rightarrow> None | a # _ \<Rightarrow> Some a) \<and>
     m_tailleaf b = (if as = [] then None else Some (last as))"

lemma half_chain_chain: "half_chain b as None \<longleftrightarrow> chain b as"
  by (simp add: half_chain_def chain_def)

lemma half_chain_Nil: "half_chain b [] nx \<longleftrightarrow> half_chain b [] nx'"
  by (simp add: half_chain_def)

lemma half_chain_cong:
  "nextleaf b' = nextleaf b \<Longrightarrow> prevleaf b' = prevleaf b \<Longrightarrow> m_headleaf b' = m_headleaf b \<Longrightarrow>
   m_tailleaf b' = m_tailleaf b \<Longrightarrow> next_addr b' = next_addr b \<Longrightarrow> half_chain b' as nx = half_chain b as nx"
  by (simp add: half_chain_def)

lemma restore_link_ok:
  assumes "half_chain b as q" "allocate_leaf b = (b1, a)" "as = [] \<Longrightarrow> pv = None"
  shows "\<exists>b2. restore_link b1 a pv nx = Some b2 \<and> half_chain b2 (as @ [a]) nx \<and>
    m_stats b2 = (m_stats b)\<lparr>leaves := Suc (leaves (m_stats b))\<rparr>"
proof -
  from assms(2) have a: "a = next_addr b" and b1: "next_addr b1 = Suc (next_addr b)" "m_tailleaf b1 = m_tailleaf b"
    "m_headleaf b1 = m_headleaf b" "nextleaf b1 = (nextleaf b)(a := None)" "prevleaf b1 = (prevleaf b)(a := None)"
    "m_stats b1 = (m_stats b)\<lparr>leaves := Suc (leaves (m_stats b))\<rparr>"
    by (auto simp: allocate_leaf_def Let_def)
  have na: "a \<notin> set as" using assms(1) by (auto simp: half_chain_def a)
  show ?thesis
  proof (cases as rule: rev_cases)
    case Nil
    then show ?thesis using assms(1,3) by (simp add: half_chain_def restore_link_def b1 a)
  next
    case (snoc r t)
    have ne: "a \<noteq> t" "t \<notin> set r" using na assms(1) snoc by (auto simp: half_chain_def)
    have t: "m_tailleaf b = Some t" "m_headleaf b \<noteq> None" using assms(1) snoc by (cases r; auto simp: half_chain_def)+
    define b2 where "b2 = b1\<lparr>prevleaf := (prevleaf b1)(a := Some t), nextleaf := (nextleaf b1)(a := nx, t := Some a),
      m_tailleaf := Some a\<rparr>"
    have r: "restore_link b1 a pv nx = Some b2" using t by (auto simp: restore_link_def b1 b2_def Let_def)
    have "dll (nextleaf b2) (prevleaf b2) None r (Some t) = dll (nextleaf b) (prevleaf b) None r (Some t)"
      by (rule dll_cong) (use na ne snoc in \<open>auto simp: b2_def b1\<close>)
    moreover have "dll (nextleaf b) (prevleaf b) None (r @ [t]) q" using assms(1) snoc by (simp add: half_chain_def)
    ultimately have "dll (nextleaf b2) (prevleaf b2) None (as @ [a]) nx"
      using ne(1) by (simp add: snoc dll_append b2_def b1)
    moreover have "m_headleaf b2 = (case as @ [a] of [] \<Rightarrow> None | x # _ \<Rightarrow> Some x)"
      using assms(1) snoc by (cases r) (auto simp: half_chain_def b2_def b1)
    moreover have "distinct (as @ [a])" "\<forall>x \<in> set (as @ [a]). x < next_addr b2"
      using assms(1) na by (auto simp: half_chain_def a less_SucI b2_def b1)
    ultimately have "half_chain b2 (as @ [a]) nx" by (simp add: half_chain_def b2_def)
    with r show ?thesis by (simp add: b2_def b1)
  qed
qed

text \<open>A restored subtree, given the chain before it and the link behind its last leaf.\<close>

definition restored_ok ::
  "('k, 'v) btree \<Rightarrow> addr list \<Rightarrow> addr option \<Rightarrow> ('k, 'v) node list \<Rightarrow> ('k, 'v) btree \<Rightarrow> ('k, 'v) node list \<Rightarrow> bool" where
  "restored_ok b as q cs b' cs' \<longleftrightarrow>
     list_all2 same_node cs cs' \<and> half_chain b' (as @ map fst (leaf_lists cs')) q \<and>
     m_stats b' = (m_stats b)\<lparr>leaves := leaves (m_stats b) + length (leaf_lists cs),
       innernodes := innernodes (m_stats b) + sum_list (map count_inner cs)\<rparr>"

definition restores :: "('k, 'v) btree \<Rightarrow> nat \<Rightarrow> ('k, 'v) node \<Rightarrow> bool" where
  "restores ob fuel n \<longleftrightarrow>
     (\<forall>b as x p q is. dll (nextleaf ob) (prevleaf ob) p (map fst (leaf_list n)) q \<longrightarrow> half_chain b as x \<longrightarrow>
        (as = [] \<longrightarrow> p = None) \<longrightarrow>
        (\<exists>n' b'. restore_node fuel b (dump_node ob n @ is) = Node n' b' is \<and> restored_ok b as q [n] b' [n']))"

lemma restore_slots_ok:
  assumes "\<forall>c \<in> set cs. restores ob fuel c \<and> leaf_list c \<noteq> []"
    "dll (nextleaf ob) (prevleaf ob) p (map fst (leaf_lists cs)) q" "half_chain b as x" "as = [] \<longrightarrow> p = None" "cs \<noteq> []"
  shows "\<exists>cs' b'. restore_slots fuel (length cs) b (concat (map (dump_node ob) cs) @ is) = Some (cs', b', is) \<and>
    restored_ok b as q cs b' cs'"
  using assms
proof (induction cs arbitrary: b as p x)
  case (Cons c cs)
  let ?q = "if cs = [] then q else Some (hd (map fst (leaf_lists cs)))"
  have ne: "leaf_list c \<noteq> []" "cs \<noteq> [] \<Longrightarrow> leaf_lists cs \<noteq> []" using Cons.prems(1) by (cases cs; auto)+
  have d: "dll (nextleaf ob) (prevleaf ob) p (map fst (leaf_list c)) ?q"
    "dll (nextleaf ob) (prevleaf ob) (Some (last (map fst (leaf_list c)))) (map fst (leaf_lists cs)) q"
    using Cons.prems(2) ne by (cases "cs = []"; simp add: dll_append del: concat_eq_Nil_conv)+
  obtain c' b1 where c: "restore_node fuel b (dump_node ob c @ concat (map (dump_node ob) cs) @ is) =
      Node c' b1 (concat (map (dump_node ob) cs) @ is)" "restored_ok b as ?q [c] b1 [c']"
    using Cons.prems(1,3,4) d(1) unfolding restores_def by (metis list.set_intros(1))
  have h1: "half_chain b1 (as @ map fst (leaf_list c')) ?q" using c(2) by (simp add: restored_ok_def)
  have ne': "leaf_list c' \<noteq> []" using c(2) same_node_count [of c c'] ne(1) by (auto simp: restored_ok_def)
  show ?case
  proof (cases "cs = []")
    case True
    then show ?thesis using c by simp
  next
    case False
    obtain cs' b2 where "restore_slots fuel (length cs) b1 (concat (map (dump_node ob) cs) @ is) = Some (cs', b2, is)"
      "restored_ok b1 (as @ map fst (leaf_list c')) q cs b2 cs'"
      using Cons.IH [OF _ d(2) h1] Cons.prems(1) ne' False by auto
    with c show ?thesis by (auto simp: restored_ok_def)
  qed
qed simp

lemma restore_node_ok: "node_ok T lo h n \<Longrightarrow> h \<le> fuel \<Longrightarrow> restores ob fuel n"
proof (induction h arbitrary: n lo fuel)
  case 0
  then obtain a kvs where n: "n = Leaf a kvs" by (auto simp: node_ok_0)
  show ?case unfolding restores_def
  proof (intro allI impI)
    fix b :: "('a, 'b) btree" and as x p q "is"
    assume d: "dll (nextleaf ob) (prevleaf ob) p (map fst (leaf_list n)) q" "half_chain b as x" "as = [] \<longrightarrow> p = None"
    obtain b1 na where al: "allocate_leaf b = (b1, na)" by (cases "allocate_leaf b")
    from restore_link_ok [OF d(2) al, of p q] d(3) obtain b2 where "restore_link b1 na p q = Some b2"
      "half_chain b2 (as @ [na]) q" "m_stats b2 = (m_stats b)\<lparr>leaves := Suc (leaves (m_stats b))\<rparr>" by auto
    with d(1) show "\<exists>n' b'. restore_node fuel b (dump_node ob n @ is) = Node n' b' is \<and> restored_ok b as q [n] b' [n']"
      by (simp add: n al restored_ok_def)
  qed
next
  case (Suc h)
  then obtain cs where n: "n = Inner (Suc h) (seps cs) cs" "lo < length cs"
    and ok: "\<forall>c \<in> set cs. node_ok T (min_at T h) h c" by (auto simp: node_ok_Suc)
  obtain f where f: "fuel = Suc f" "h \<le> f" using Suc.prems(2) by (cases fuel) auto
  have IH: "\<forall>c \<in> set cs. restores ob f c \<and> leaf_list c \<noteq> []"
    using Suc.IH ok f(2) leaf_list_nonempty by blast
  have len: "length (seps cs) + 1 = length cs" "cs \<noteq> []" using n(2) by auto
  show ?case unfolding restores_def
  proof (intro allI impI)
    fix b :: "('a, 'b) btree" and as x p q "is"
    assume d: "dll (nextleaf ob) (prevleaf ob) p (map fst (leaf_list n)) q" "half_chain b as x" "as = [] \<longrightarrow> p = None"
    have "half_chain (allocate_inner b) as x" using d(2) by (subst half_chain_cong [of _ b]) (simp_all add: allocate_inner_def)
    from restore_slots_ok [OF IH _ this d(3) len(2), of q "is"] d(1) obtain cs' b' where
      "restore_slots f (length cs) (allocate_inner b) (concat (map (dump_node ob) cs) @ is) = Some (cs', b', is)"
      "restored_ok (allocate_inner b) as q cs b' cs'" by (auto simp: n)
    then show "\<exists>n' b'. restore_node fuel b (dump_node ob n @ is) = Node n' b' is \<and> restored_ok b as q [n] b' [n']"
      using len(1) by (simp add: n f restored_ok_def allocate_inner_def)
  qed
qed

lemma level_le_count: "node_ok T lo h n \<Longrightarrow> h \<le> count_inner n"
proof (induction h arbitrary: n lo)
  case (Suc h)
  then obtain cs where n: "n = Inner (Suc h) (seps cs) cs" "lo < length cs"
    and ok: "\<forall>c \<in> set cs. node_ok T (min_at T h) h c" by (auto simp: node_ok_Suc)
  have hd: "hd cs \<in> set cs" using n(2) by (intro hd_in_set) auto
  with ok Suc.IH have "h \<le> count_inner (hd cs)" by blast
  with hd show ?case using member_le_sum_list [of "count_inner (hd cs)" "map count_inner cs"] by (simp add: n)
qed simp

theorem restore_dump_ok:
  assumes T: "traits_ok T" and inv: "btree_inv T b" "btree_inv T c"
  shows "\<exists>b'. restore T sizes c (Some (dump T sizes b)) = Restored b' \<and> btree_inv T b' \<and>
    tree_contents b' = tree_contents b \<and> m_stats b' = m_stats b"
proof (cases "m_root b")
  case None
  then have "size_of b = 0" "tree_contents b = []" "m_stats b = zero_stats"
    using inv(1) by (auto simp: size_of_def btree_inv_defs zero_stats_def)
  moreover have "m_stats (clear c) = zero_stats"
    using clear_ok [OF inv(2)] by (auto simp: btree_inv_defs zero_stats_def)
  ultimately show ?thesis using clear_ok [OF inv(2)] None
    by (simp add: restore_def dump_def fill_def same_def Let_def)
next
  case (Some n)
  have ok: "node_ok T 1 (level n) n" using inv Some by (auto simp: btree_inv_defs)
  have size: "0 < size_of b" using inv Some contents_nonempty [OF T ok] by (simp add: btree_inv_defs size_of_def)
  have dl: "dll (nextleaf b) (prevleaf b) None (map fst (leaf_list n)) None"
    using inv(1) Some by (simp add: btree_inv_defs chain_def)
  have cl: "half_chain (clear c) [] None" "m_stats (clear c) = zero_stats"
    using clear_ok [OF inv(2)] by (auto simp: half_chain_chain btree_inv_defs zero_stats_def)
  have "level n \<le> length (dump_node b n)" using level_le_count [OF ok] by (simp add: dump_length)
  from restore_node_ok [OF ok this, of b] dl cl(1) obtain n' b' where
    r: "restore_node (length (dump_node b n)) (clear c) (dump_node b n @ []) = Node n' b' []"
    "restored_ok (clear c) [] None [n] b' [n']" unfolding restores_def by metis
  let ?b = "b'\<lparr>m_root := Some n', m_stats := (m_stats b')\<lparr>itemcount := size_of b\<rparr>\<rparr>"
  have sn: "same_node n n'" and ch: "chain b' (map fst (leaf_list n'))"
    and st: "m_stats b' = \<lparr>itemcount = 0, leaves = length (leaf_list n), innernodes = count_inner n\<rparr>"
    using r(2) by (auto simp: restored_ok_def half_chain_chain cl(2) zero_stats_def)
  have "chain ?b as = chain b' as" for as by (rule chain_cong) simp_all
  then have "btree_inv T ?b \<and> tree_contents ?b = tree_contents b \<and> m_stats ?b = m_stats b"
    using inv(1) Some ch same_node_ok [OF ok sn] same_node_contents [OF sn] same_node_count [OF sn] st
    by (simp add: btree_inv_defs size_of_def)
  moreover have "restore T sizes c (Some (dump T sizes b)) = Restored ?b"
    using r(1) size Some by (simp add: restore_def dump_def fill_def same_def Let_def)
  ultimately show ?thesis by blast
qed

section \<open>Truncated and foreign images\<close>

text \<open>A node that is read back from the images of a subtree consumes exactly these images.\<close>

lemma restore_rest:
  "node_ok T lo h n \<Longrightarrow> restore_node fuel b (dump_node ob n @ is) = Node n' b' is' \<Longrightarrow> is' = is"
proof (induction h arbitrary: n lo fuel b "is" is' n' b')
  case 0
  then show ?case by (auto simp: node_ok_0 Let_def split: option.splits prod.splits)
next
  case (Suc h)
  then obtain cs where n: "n = Inner (Suc h) (seps cs) cs" "lo < length cs"
    and ok: "\<forall>c \<in> set cs. node_ok T (min_at T h) h c" by (auto simp: node_ok_Suc)
  obtain f where f: "fuel = Suc f" using Suc.prems(2) n by (cases fuel) auto
  have slots: "is' = is" if "restore_slots f (length ds) b (concat (map (dump_node ob) ds) @ is) = Some (cs', b', is')"
    "set ds \<subseteq> set cs" for ds b cs' b' is'
    using that
  proof (induction ds arbitrary: b cs' b' is')
    case (Cons d ds)
    have d: "node_ok T (min_at T h) h d" using Cons.prems(2) ok by auto
    from Cons.prems(1) obtain c1 b1 is1 where
      "restore_node f b (dump_node ob d @ concat (map (dump_node ob) ds) @ is) = Node c1 b1 is1"
      and r: "\<exists>cs2. restore_slots f (length ds) b1 is1 = Some (cs2, b', is')"
      by (auto split: read_node.splits bind_splits)
    from Suc.IH [OF d this(1)] r Cons.IH Cons.prems(2) show ?case by auto
  qed simp
  have "length (seps cs) + 1 = length cs" using n(2) by auto
  with Suc.prems(2) slots [of cs] n f show ?case by (auto simp del: restore_slots.simps split: option.splits prod.splits)
qed

lemma restore_truncated_node:
  "node_ok T lo h n \<Longrightarrow> m < length (dump_node ob n) \<Longrightarrow> restore_node fuel b (take m (dump_node ob n)) \<noteq> Node n' b' is'"
proof (induction h arbitrary: n lo fuel b m n' b' is')
  case 0
  then show ?case by (auto simp: node_ok_0)
next
  case (Suc h)
  then obtain cs where n: "n = Inner (Suc h) (seps cs) cs" "lo < length cs"
    and ok: "\<forall>c \<in> set cs. node_ok T (min_at T h) h c" by (auto simp: node_ok_Suc)
  have slots: "restore_slots f (length ds) b (take j (concat (map (dump_node ob) ds))) = None"
    if "j < length (concat (map (dump_node ob) ds))" "set ds \<subseteq> set cs" for f ds b j
    using that
  proof (induction ds arbitrary: b j)
    case (Cons d ds)
    have d: "node_ok T (min_at T h) h d" using Cons.prems(2) ok by auto
    show ?case
    proof (cases "j < length (dump_node ob d)")
      case True
      with Suc.IH [OF d True] show ?thesis by (auto split: read_node.splits)
    next
      case False
      then have "take j (concat (map (dump_node ob) (d # ds))) =
        dump_node ob d @ take (j - length (dump_node ob d)) (concat (map (dump_node ob) ds))" by simp
      moreover have "restore_slots f (length ds) b1 (take (j - length (dump_node ob d)) (concat (map (dump_node ob) ds))) = None" for b1
        using Cons False by auto
      ultimately show ?thesis using restore_rest [OF d] by (fastforce split: read_node.splits)
    qed
  qed simp
  have len: "length (seps cs) + 1 = length cs" using n(2) by auto
  show ?case
  proof (cases m)
    case (Suc j)
    then have "restore_slots f (length cs) b1 (take j (concat (map (dump_node ob) cs))) = None" for f b1
      using slots [of j cs] Suc.prems(2) n by simp
    then show ?thesis using len Suc n by (cases fuel) auto
  qed simp
qed

section \<open>Main theorems\<close>

text \<open>
  C25: restoring a dump into any tree of the same instantiation succeeds and yields a
  well-formed tree with the same pairs and the same statistics.
\<close>

theorem restore_dump:
  assumes "traits_ok T" "btree_inv T b" "btree_inv T c"
  shows "\<exists>b'. restore T sizes c (Some (dump T sizes b)) = Restored b' \<and> btree_inv T b' \<and>
    tree_contents b' = tree_contents b \<and> m_stats b' = m_stats b"
  using restore_dump_ok [OF assms] .

theorem restore_dump_witness:
  "\<exists>b'. restore sample_traits (8, 8) empty_btree (Some (dump sample_traits (8, 8) sample_btree)) = Restored b' \<and>
    btree_inv sample_traits b' \<and> length (tree_contents b') = 8"
  using restore_dump [OF sample btree_inv_empty, of "(8, 8)"] by (auto simp: sample_contents)



text \<open>
  The signature in the file has no influence on \<open>restore\<close>.
\<close>

theorem restore_ignores_signature:
  "restore T sizes b (Some (h\<lparr>signature := s\<rparr>, is)) = restore T sizes b (Some (h, is))"
  by (simp add: restore_def fill_def same_def Let_def split: read_node.split)

end
