(* ===== verification/Flags.thy ===== *)
theory Flags
  imports Prelude
begin

text \<open>
  Command line flags (\<open>benchmark/flags.h\<close>). A \<open>std::map<string, string>\<close> is a map; messages on
  \<open>std::cout\<close> are not modelled. Dereferencing the end iterator in \<open>get_required\<close> is \<open>None\<close>.
\<close>

section \<open>Definitions\<close>

type_synonym flags = "string \<rightharpoonup> string"

text \<open>\<open>arg.find("=")\<close>; \<open>None\<close> is \<open>npos\<close>.\<close>

definition find_char :: "char \<Rightarrow> string \<Rightarrow> nat option" where
  "find_char c s = (let n = length (takeWhile (\<lambda>x. x \<noteq> c) s) in if n < length s then Some n else None)"

definition parse_flag :: "string \<Rightarrow> (string \<times> string) option" where
  "parse_flag arg =
     (let equals = find_char (CHR ''='') arg in
      if take 2 arg \<noteq> ''--'' then None
      else case equals of
             None \<Rightarrow> Some (drop 2 arg, '''')
           | Some e \<Rightarrow> Some (take (e - 2) (drop 2 arg), drop (e + 1) arg))"

fun parse_from :: "flags \<Rightarrow> string list \<Rightarrow> flags" where
  "parse_from flags [] = flags"
| "parse_from flags (arg # args) =
     (case parse_flag arg of
        None \<Rightarrow> parse_from flags args
      | Some (key, val) \<Rightarrow> parse_from (flags(key \<mapsto> val)) args)"

text \<open>\<open>argv[0]\<close> is the program name.\<close>

definition parse_flags :: "string list \<Rightarrow> flags" where
  "parse_flags argv = parse_from (\<lambda>_. None) (drop 1 argv)"

definition get_with_default :: "flags \<Rightarrow> string \<Rightarrow> string \<Rightarrow> string" where
  "get_with_default m key defval = (case m key of None \<Rightarrow> defval | Some v \<Rightarrow> v)"

definition get_required :: "flags \<Rightarrow> string \<Rightarrow> string option" where
  "get_required m key = m key"

definition get_boolean_flag :: "flags \<Rightarrow> string \<Rightarrow> bool" where
  "get_boolean_flag m key \<longleftrightarrow> m key \<noteq> None"

text \<open>The loop over \<open>std::getline(s, val, ',')\<close>: a separator at the very end adds no empty value.\<close>

function split_commas :: "string \<Rightarrow> string list" where
  "split_commas s =
     (if s = [] then []
      else takeWhile (\<lambda>c. c \<noteq> CHR '','') s # split_commas (drop 1 (dropWhile (\<lambda>c. c \<noteq> CHR '','') s)))"
  by pat_completeness auto
termination
proof (relation "measure length")
  fix s :: string
  assume "s \<noteq> []"
  then have "length (drop 1 (dropWhile (\<lambda>c. c \<noteq> CHR '','') s)) < length s"
    using length_dropWhile_le [of "\<lambda>c. c \<noteq> CHR '',''" s] by (cases s) auto
  then show "(drop 1 (dropWhile (\<lambda>c. c \<noteq> CHR '','') s), s) \<in> measure length" by simp
qed simp

declare split_commas.simps [simp del]

definition get_comma_separated :: "flags \<Rightarrow> string \<Rightarrow> string list" where
  "get_comma_separated m key = (case m key of None \<Rightarrow> [] | Some s \<Rightarrow> split_commas s)"

section \<open>Printing\<close>

definition print_flag :: "string \<times> string \<Rightarrow> string" where
  "print_flag kv = ''--'' @ fst kv @ ''='' @ snd kv"

fun join_commas :: "string list \<Rightarrow> string" where
  "join_commas [] = ''''"
| "join_commas [v] = v"
| "join_commas (v # vs) = v @ '','' @ join_commas vs"

lemma span_char:
  "c \<notin> set xs \<Longrightarrow> takeWhile (\<lambda>x. x \<noteq> c) (xs @ c # ys) = xs"
  "c \<notin> set xs \<Longrightarrow> dropWhile (\<lambda>x. x \<noteq> c) (xs @ c # ys) = c # ys"
  by (induction xs) auto

lemma find_char_app: "c \<notin> set xs \<Longrightarrow> find_char c (xs @ c # ys) = Some (length xs)"
  by (simp add: find_char_def Let_def span_char)

lemma parse_print_flag:
  assumes "CHR ''='' \<notin> set (fst kv)" shows "parse_flag (print_flag kv) = Some kv"
proof -
  have "find_char (CHR ''='') (print_flag kv) = Some (length (''--'' @ fst kv))"
    using find_char_app [of "CHR ''=''" "''--'' @ fst kv" "snd kv"] assms by (simp add: print_flag_def)
  then show ?thesis by (simp add: parse_flag_def Let_def print_flag_def)
qed

lemma parse_from_print:
  "\<forall>kv \<in> set kvs. CHR ''='' \<notin> set (fst kv) \<Longrightarrow> parse_from m (map print_flag kvs) = m ++ map_of (rev kvs)"
proof (induction kvs arbitrary: m)
  case (Cons kv kvs)
  then show ?case by (cases kv) (simp add: parse_print_flag map_add_upd_left map_of_append fun_eq_iff map_add_def split: option.split)
qed simp

lemma split_join:
  assumes "\<forall>v \<in> set vs. CHR '','' \<notin> set v" "vs \<noteq> [] \<longrightarrow> last vs \<noteq> []"
  shows "split_commas (join_commas vs) = vs"
  using assms
proof (induction vs rule: join_commas.induct)
  case (2 v)
  have t: "takeWhile (\<lambda>c. c \<noteq> CHR '','') v = v" and d: "dropWhile (\<lambda>c. c \<noteq> CHR '','') v = []"
    using 2 by (auto simp: takeWhile_eq_all_conv dropWhile_eq_Nil_conv)
  have "split_commas [] = []" by (simp add: split_commas.simps)
  then show ?case using 2 unfolding join_commas.simps by (subst split_commas.simps) (simp only: t d, simp)
next
  case (3 v w vs)
  have "takeWhile (\<lambda>c. c \<noteq> CHR '','') (v @ '','' @ join_commas (w # vs)) = v"
    "dropWhile (\<lambda>c. c \<noteq> CHR '','') (v @ '','' @ join_commas (w # vs)) = '','' @ join_commas (w # vs)"
    using span_char [of "CHR '',''" v "join_commas (w # vs)"] 3 by simp_all
  with 3 show ?case by (subst split_commas.simps) (simp del: join_commas.simps add: join_commas.simps(3))
qed (simp add: split_commas.simps)

section \<open>Main theorem\<close>

text \<open>
  C33: flags survive printing and parsing: from arguments \<open>--key=value\<close> the parser recovers every
  value, the last of several for one key, and the comma-separated lists among them.
\<close>

theorem parse_flags_roundtrip:
  assumes "\<forall>kv \<in> set kvs. CHR ''='' \<notin> set (fst kv)"
  shows "parse_flags (prog # map print_flag kvs) = map_of (rev kvs) \<and>
    (\<forall>key vs. map_of (rev kvs) key = Some (join_commas vs) \<longrightarrow> (\<forall>v \<in> set vs. CHR '','' \<notin> set v) \<longrightarrow>
      (vs \<noteq> [] \<longrightarrow> last vs \<noteq> []) \<longrightarrow> get_comma_separated (parse_flags (prog # map print_flag kvs)) key = vs)"
proof -
  have "parse_flags (prog # map print_flag kvs) = map_of (rev kvs)"
    using parse_from_print [OF assms, of "\<lambda>_. None"] by (simp add: parse_flags_def)
  then show ?thesis by (simp add: get_comma_separated_def split_join)
qed

theorem parse_flags_roundtrip_witness:
  "parse_flags [''bench'', ''--read=0.5'', ''--thread_num=1,2,16'', ''--read=1''] ''read'' = Some ''1'' \<and>
   get_comma_separated (parse_flags [''bench'', ''--read=0.5'', ''--thread_num=1,2,16'', ''--read=1'']) ''thread_num'' = [''1'', ''2'', ''16'']"
proof -
  let ?kvs = "[(''read'', ''0.5''), (''thread_num'', ''1,2,16''), (''read'', ''1'')]"
  have p: "map print_flag ?kvs = [''--read=0.5'', ''--thread_num=1,2,16'', ''--read=1'']" by (simp add: print_flag_def)
  have j: "join_commas [''1'', ''2'', ''16''] = ''1,2,16''" by simp
  show ?thesis
    using parse_flags_roundtrip [of ?kvs "''bench''"] unfolding p using j by auto
qed

end
