(* ===== verification/OlcNodes.thy ===== *)
theory OlcNodes
  imports Prelude
begin

unbundle bit_operations_syntax

text \<open>
  The pages of the B+ tree with optimistic lock coupling
  (\<open>competitor/btreeolc/src/BTreeOLC/BTreeOLC_child_layout.h\<close>): the version word of \<open>OptLock\<close> at
  its width of 64 bits, and the operations on the contents of one page, which the tree
  operations of the theory \<open>OlcTree\<close> compose.

  A leaf is the list of its used slots and the pointer to the next leaf, an inner page the
  lists of its separators and children. An access outside the used slots is \<open>None\<close>.
\<close>

section \<open>OptLock\<close>

definition isLocked :: "u64 \<Rightarrow> bool" where
  "isLocked version \<longleftrightarrow> version AND 2 = 2"

definition isObsolete :: "u64 \<Rightarrow> bool" where
  "isObsolete version \<longleftrightarrow> version AND 1 = 1"

definition initial_version :: u64 where
  "initial_version = 4"

text \<open>\<open>None\<close> is \<open>needRestart\<close>.\<close>

definition readLockOrRestart :: "u64 \<Rightarrow> u64 option" where
  "readLockOrRestart version = (if isLocked version \<or> isObsolete version then None else Some version)"

text \<open>Compare and exchange: the new version word if it still was the expected one.\<close>

definition upgradeToWriteLockOrRestart :: "u64 \<Rightarrow> u64 \<Rightarrow> u64 option" where
  "upgradeToWriteLockOrRestart current version = (if current = version then Some (version + 2) else None)"

definition writeLockOrRestart :: "u64 \<Rightarrow> u64 option" where
  "writeLockOrRestart current =
     do { version \<leftarrow> readLockOrRestart current; upgradeToWriteLockOrRestart current version }"

definition writeUnlock :: "u64 \<Rightarrow> u64" where
  "writeUnlock current = current + 2"

definition writeUnlockObsolete :: "u64 \<Rightarrow> u64" where
  "writeUnlockObsolete current = current + 3"

definition readUnlockOrRestart :: "u64 \<Rightarrow> u64 \<Rightarrow> bool" where
  "readUnlockOrRestart current startRead \<longleftrightarrow> startRead \<noteq> current"

section \<open>Pages\<close>

datatype ('k, 'v) page =
    BTreeLeaf "('k \<times> 'v) list" "addr option"
  | BTreeInner "'k list" "addr list"

record sizes =
  leafMax :: nat
  innerMax :: nat

text \<open>\<open>maxEntries\<close> of both page types; \<open>sizeof(NodeBase)\<close> is 16.\<close>

definition olc_sizes :: "nat \<Rightarrow> nat \<Rightarrow> sizes" where
  "olc_sizes sizeof_Key sizeof_Payload =
     \<lparr>leafMax = (512 - 16) div (sizeof_Key + sizeof_Payload), innerMax = (512 - 16) div (sizeof_Key + 8)\<rparr>"

definition sizes_ok :: "sizes \<Rightarrow> bool" where
  "sizes_ok S \<longleftrightarrow> 2 \<le> leafMax S \<and> 5 \<le> innerMax S"

fun isFull :: "sizes \<Rightarrow> ('k, 'v) page \<Rightarrow> bool" where
  "isFull S (BTreeLeaf data next) \<longleftrightarrow> length data = leafMax S"
| "isFull S (BTreeInner ks cs) \<longleftrightarrow> length ks = innerMax S - 1"

text \<open>The do-while loop of \<open>lowerBound\<close>, which leaf and inner pages share.\<close>

function lowerBound_loop :: "'k::linorder list \<Rightarrow> 'k \<Rightarrow> nat \<Rightarrow> nat \<Rightarrow> nat option" where
  "lowerBound_loop ks k lower upper =
     (let mid = (upper - lower) div 2 + lower in
      do { middle_key \<leftarrow> rd ks mid;
           if k < middle_key then (if lower < mid then lowerBound_loop ks k lower mid else Some lower)
           else if k > middle_key then
             (if mid + 1 < upper then lowerBound_loop ks k (mid + 1) upper else Some (mid + 1))
           else Some mid })"
  by pat_completeness auto
termination
  by (relation "measure (\<lambda>(ks, k, lower, upper). upper - lower)") auto

declare lowerBound_loop.simps [simp del]

definition lowerBound :: "'k::linorder list \<Rightarrow> 'k \<Rightarrow> nat option" where
  "lowerBound ks k = lowerBound_loop ks k 0 (length ks)"

text \<open>The branch-free variant, which the tree does not call.\<close>

function lowerBoundBF_loop :: "'k::linorder list \<Rightarrow> 'k \<Rightarrow> nat \<Rightarrow> nat \<Rightarrow> nat option" where
  "lowerBoundBF_loop ks k base n =
     (if n > 1 then
        (let half = n div 2 in
         do { x \<leftarrow> rd ks (base + half);
              lowerBoundBF_loop ks k (if x < k then base + half else base) (n - half) })
      else do { x \<leftarrow> rd ks base; Some ((if x < k then 1 else 0) + base) })"
  by pat_completeness auto
termination
  by (relation "measure (\<lambda>(ks, k, base, n). n)") auto

declare lowerBoundBF_loop.simps [simp del]

definition lowerBoundBF :: "'k::linorder list \<Rightarrow> 'k \<Rightarrow> nat option" where
  "lowerBoundBF ks k = lowerBoundBF_loop ks k 0 (length ks)"

text \<open>
  The slot search of \<open>lookup\<close>. On an empty leaf the search compares with an unused slot; it
  returns 0 or 1 then, which is not below \<open>count\<close>, and nothing is found.
\<close>

definition leaf_find :: "('k::linorder \<times> 'v) list \<Rightarrow> 'k \<Rightarrow> 'v option" where
  "leaf_find data k =
     (case lowerBound (keys_of data) k of
        None \<Rightarrow> None
      | Some pos \<Rightarrow> if pos < length data \<and> fst (data ! pos) = k then Some (snd (data ! pos)) else None)"

definition leaf_insert :: "sizes \<Rightarrow> ('k::linorder \<times> 'v) list \<Rightarrow> 'k \<Rightarrow> 'v \<Rightarrow> ('k \<times> 'v) list option" where
  "leaf_insert S data k p =
     (if length data < leafMax S then
        if data \<noteq> [] then
          do { pos \<leftarrow> lowerBound (keys_of data) k;
               if pos < length data \<and> fst (data ! pos) = k then wr data pos (k, p)
               else ins_at (leafMax S) data pos (k, p) }
        else Some [(k, p)]
      else None)"

text \<open>The left half, the separator and the right half.\<close>

definition leaf_split :: "('k \<times> 'v) list \<Rightarrow> (('k \<times> 'v) list \<times> 'k \<times> ('k \<times> 'v) list) option" where
  "leaf_split data =
     (let c = length data; newcount = c - c div 2; count = c - newcount in
      do { _ \<leftarrow> (if count = 0 then None else Some ());
           sep \<leftarrow> rd (keys_of (take count data)) (count - 1);
           Some (take count data, sep, drop count data) })"

definition inner_split ::
  "'k list \<Rightarrow> addr list \<Rightarrow> (('k list \<times> addr list) \<times> 'k \<times> ('k list \<times> addr list)) option" where
  "inner_split ks cs =
     (let c = length ks; newcount = c - c div 2 in
      if c < newcount + 1 then None
      else let count = c - newcount - 1 in
           do { sep \<leftarrow> rd ks count;
                Some ((take count ks, take (count + 1) cs), sep, (drop (count + 1) ks, drop (count + 1) cs)) })"

definition inner_insert :: "sizes \<Rightarrow> 'k::linorder list \<Rightarrow> addr list \<Rightarrow> 'k \<Rightarrow> addr \<Rightarrow> ('k list \<times> addr list) option" where
  "inner_insert S ks cs k child =
     (if length ks < innerMax S - 1 then
        do { pos \<leftarrow> lowerBound ks k;
             ks' \<leftarrow> ins_at (innerMax S) ks pos k;
             cs' \<leftarrow> ins_at (innerMax S) cs (pos + 1) child;
             Some (ks', cs') }
      else None)"

section \<open>The version word\<close>

lemma and_exp_eq_exp: "n < 64 \<Longrightarrow> (w::u64) AND 2 ^ n = 2 ^ n \<longleftrightarrow> bit w n"
proof
  assume n: "n < 64" and "w AND 2 ^ n = 2 ^ n"
  then have "bit (w AND 2 ^ n) n = bit (2 ^ n :: u64) n" by simp
  with n show "bit w n" by (simp add: bit_simps)
next
  assume "bit w n"
  then show "w AND 2 ^ n = 2 ^ n"
    by (intro bit_word_eqI) (auto simp: bit_and_iff bit_exp_iff)
qed

lemma isLocked_unat: "isLocked w \<longleftrightarrow> odd (unat w div 2)"
proof -
  have "bit w 1 \<longleftrightarrow> bit (unat w) 1" by (simp add: bit_unsigned_iff)
  then show ?thesis using and_exp_eq_exp [of 1 w] by (simp add: isLocked_def bit_nat_def)
qed

lemma isObsolete_unat: "isObsolete w \<longleftrightarrow> odd (unat w)"
proof -
  have "bit w 0 \<longleftrightarrow> bit (unat w) 0" by (simp only: bit_unsigned_iff) simp
  then show ?thesis using and_exp_eq_exp [of 0 w] by (simp add: isObsolete_def bit_nat_def)
qed

lemma unat_add2: "unat (w :: u64) + 2 < 2 ^ 64 \<Longrightarrow> unat (w + 2) = unat w + 2"
  by (simp add: unat_word_ariths)

lemma lock_flips:
  assumes "unat w + 2 < 2 ^ 64"
  shows "isLocked (w + 2) \<longleftrightarrow> \<not> isLocked w" "isObsolete (w + 2) \<longleftrightarrow> isObsolete w" "w + 2 \<noteq> w"
  using assms unat_add2 [OF assms] by (simp_all add: isLocked_unat isObsolete_unat)

lemma initial_version_free: "\<not> isLocked initial_version" "\<not> isObsolete initial_version" "unat initial_version = 4"
  by (simp_all add: isLocked_unat isObsolete_unat initial_version_def)

section \<open>The slot searches\<close>

text \<open>\<open>pos\<close> is the first slot whose key is not below \<open>k\<close>.\<close>

definition first_ge :: "'k::linorder list \<Rightarrow> 'k \<Rightarrow> nat \<Rightarrow> bool" where
  "first_ge ks k pos \<longleftrightarrow> pos \<le> length ks \<and> (\<forall>i < pos. ks ! i < k) \<and> (\<forall>i < length ks. pos \<le> i \<longrightarrow> k \<le> ks ! i)"

lemma first_ge_unique: "first_ge ks k p \<Longrightarrow> first_ge ks k q \<Longrightarrow> p = q"
  unfolding first_ge_def by (metis leD le_less_linear nat_le_linear order_le_less order_less_le_trans)

lemma lowerBound_loop_ok:
  assumes "sorted_wrt (<) ks" "lower < upper" "upper \<le> length ks"
    "\<forall>i < lower. ks ! i < k" "\<forall>i < length ks. upper \<le> i \<longrightarrow> k \<le> ks ! i"
  shows "\<exists>pos. lowerBound_loop ks k lower upper = Some pos \<and> first_ge ks k pos"
  using assms
proof (induction "upper - lower" arbitrary: lower upper rule: less_induct)
  case less
  define mid where "mid = (upper - lower) div 2 + lower"
  have mid: "lower \<le> mid" "mid < upper" "mid < length ks" using less.prems(2,3) by (auto simp: mid_def)
  have below: "ks ! i \<le> ks ! mid" if "i \<le> mid" for i
    using sorted_nth_mono [of ks i mid] assms(1) mid that by (simp add: strict_sorted_imp_sorted)
  have above: "ks ! mid \<le> ks ! i" if "mid \<le> i" "i < length ks" for i
    using sorted_nth_mono [of ks mid i] assms(1) mid that by (simp add: strict_sorted_imp_sorted)
  have step: "lowerBound_loop ks k lower upper =
      (if k < ks ! mid then (if lower < mid then lowerBound_loop ks k lower mid else Some lower)
       else if k > ks ! mid then (if mid + 1 < upper then lowerBound_loop ks k (mid + 1) upper else Some (mid + 1))
       else Some mid)"
    using mid(3) by (subst lowerBound_loop.simps) (simp add: rd_def mid_def [symmetric])
  have strict: "\<forall>i < mid. ks ! i < ks ! mid" using assms(1) mid(3) by (simp add: sorted_wrt_iff_nth_less)
  consider "k < ks ! mid" "lower < mid" | "k < ks ! mid" "lower = mid" | "k > ks ! mid" "mid + 1 < upper"
    | "k > ks ! mid" "mid + 1 = upper" | "k = ks ! mid" 
    using mid linorder_less_linear [of k "ks ! mid"] by (metis Suc_eq_plus1 Suc_lessI le_neq_implies_less)
  then show ?case
  proof cases
    case 1
    have "\<forall>i < length ks. mid \<le> i \<longrightarrow> k \<le> ks ! i" using above 1(1) by (meson less_imp_le order.trans)
    then show ?thesis using less.hyps [of mid lower] less.prems 1 mid step by simp
  next
    case 2
    have "first_ge ks k lower" using above 2 less.prems(4) mid unfolding first_ge_def by (auto intro: order.trans less_imp_le)
    then show ?thesis using step 2 by simp
  next
    case 3
    have "\<forall>i < mid + 1. ks ! i < k" using below 3(1) by (auto simp: less_Suc_eq_le intro: le_less_trans [of _ "ks ! mid"])
    moreover have "\<not> k < ks ! mid" using 3(1) by simp
    ultimately show ?thesis using less.hyps [of upper "mid + 1"] less.prems 3 mid step by simp
  next
    case 4
    have "\<forall>i < mid + 1. ks ! i < k" using below 4(1) by (auto simp: less_Suc_eq_le intro: le_less_trans [of _ "ks ! mid"])
    then have "first_ge ks k (mid + 1)" using 4(2) less.prems(3,5) unfolding first_ge_def by simp
    moreover have "\<not> k < ks ! mid" using 4(1) by simp
    ultimately show ?thesis using step 4 by simp
  next
    case 5
    have "first_ge ks k mid" using strict above mid 5 unfolding first_ge_def by auto
    then show ?thesis using step 5 by simp
  qed
qed

lemma lowerBound_ok:
  assumes "sorted_wrt (<) ks" "ks \<noteq> []"
  shows "\<exists>pos. lowerBound ks k = Some pos \<and> first_ge ks k pos"
  unfolding lowerBound_def using lowerBound_loop_ok [OF assms(1), of 0 "length ks" k] assms(2) by simp

lemma lowerBoundBF_loop_ok:
  assumes "sorted_wrt (<) ks" "0 < n" "base + n \<le> length ks"
    "\<forall>i < base. ks ! i < k" "\<forall>i < length ks. base + n \<le> i \<longrightarrow> k \<le> ks ! i"
  shows "\<exists>pos. lowerBoundBF_loop ks k base n = Some pos \<and> first_ge ks k pos"
  using assms
proof (induction n arbitrary: base rule: less_induct)
  case (less n)
  show ?case
  proof (cases "n > 1")
    case True
    define half where "half = n div 2"
    have half: "0 < half" "half < n" using True by (auto simp: half_def)
    let ?b = "if ks ! (base + half) < k then base + half else base"
    have step: "lowerBoundBF_loop ks k base n = lowerBoundBF_loop ks k ?b (n - half)"
    proof -
      have "rd ks (base + half) = Some (ks ! (base + half))" using half less.prems(3) by (simp add: rd_def)
      then show ?thesis using True by (subst lowerBoundBF_loop.simps) (simp add: half_def [symmetric] Let_def)
    qed
    have mono: "ks ! i \<le> ks ! j" if "i \<le> j" "j < length ks" for i j
      using sorted_nth_mono [of ks i j] assms(1) that by (simp add: strict_sorted_imp_sorted)
    have "ks ! i < k" if "i < base + half" "ks ! (base + half) < k" for i
      using mono [of i "base + half"] that less.prems(3) half by (simp add: le_less_trans)
    then have "\<forall>i < ?b. ks ! i < k" using less.prems(4) by simp
    moreover have "k \<le> ks ! i" if "i < length ks" "?b + (n - half) \<le> i" for i
    proof (cases "ks ! (base + half) < k")
      case False
      have "base + half \<le> i" using that False half by (auto simp: half_def)
      then show ?thesis using False mono [of "base + half" i] that(1) by (meson leI order.trans)
    qed (use that less.prems(5) half in auto)
    moreover have "0 < n - half" "?b + (n - half) \<le> length ks" "n - half < n" using half less.prems(3) by auto
    ultimately show ?thesis unfolding step using less.IH [of "n - half" ?b] assms(1) by blast
  next
    case False
    then have n: "n = 1" using less.prems(2) by simp
    then have "lowerBoundBF_loop ks k base n = Some ((if ks ! base < k then 1 else 0) + base)"
      using less.prems(3) by (subst lowerBoundBF_loop.simps) (simp add: rd_def)
    moreover have "first_ge ks k ((if ks ! base < k then 1 else 0) + base)"
      using less.prems n unfolding first_ge_def by (auto simp: less_Suc_eq le_less Suc_le_eq)
    ultimately show ?thesis by simp
  qed
qed

lemma lowerBoundBF_ok:
  assumes "sorted_wrt (<) ks" "ks \<noteq> []"
  shows "\<exists>pos. lowerBoundBF ks k = Some pos \<and> first_ge ks k pos"
  unfolding lowerBoundBF_def using lowerBoundBF_loop_ok [OF assms(1), of "length ks" 0 k] assms(2) by simp

section \<open>Operations on leaves\<close>

text \<open>A sorted list around the search position.\<close>

lemma first_ge_split:
  assumes "ksorted data" "first_ge (keys_of data) k pos"
  shows "\<forall>x \<in> set (take pos data). fst x < k" "\<forall>x \<in> set (drop pos data). k \<le> fst x"
    "pos \<le> length data"
proof -
  have p: "pos \<le> length data" using assms(2) by (simp add: first_ge_def)
  then show "pos \<le> length data" .
  show "\<forall>x \<in> set (take pos data). fst x < k"
    using assms(2) p by (force simp: first_ge_def in_set_conv_nth)
  show "\<forall>x \<in> set (drop pos data). k \<le> fst x"
  proof
    fix x
    assume "x \<in> set (drop pos data)"
    then obtain i where "x = data ! (pos + i)" "pos + i < length data" by (auto simp: in_set_conv_nth)
    then show "k \<le> fst x" using assms(2) by (simp add: first_ge_def)
  qed
qed

text \<open>Reading and writing at the search position.\<close>

lemma map_of_at:
  assumes "ksorted data" "first_ge (keys_of data) k pos"
  shows "map_of data k = (if pos < length data \<and> fst (data ! pos) = k then Some (snd (data ! pos)) else None)"
proof -
  note sp = first_ge_split [OF assms]
  have "map_of (take pos data) k = None" using sp(1) by (auto simp: map_of_eq_None_iff)
  then have "map_of (take pos data @ drop pos data) k = map_of (drop pos data) k"
    by (simp only: map_of_append) (simp add: map_add_def split: option.split)
  also have "\<dots> = (if pos < length data \<and> fst (data ! pos) = k then Some (snd (data ! pos)) else None)"
  proof (cases "pos < length data")
    case True
    obtain a b where ab: "data ! pos = (a, b)" by (cases "data ! pos")
    have d: "drop pos data = (a, b) # drop (Suc pos) data" using True ab by (metis Cons_nth_drop_Suc)
    have "ksorted (drop pos data)" using assms(1) by (metis drop_map sorted_wrt_drop)
    then have "\<forall>x \<in> set (drop (Suc pos) data). a < fst x" unfolding d by simp
    moreover have "k \<le> a" using sp(2) unfolding d by simp
    ultimately have "k \<noteq> a \<longrightarrow> map_of (drop (Suc pos) data) k = None"
      by (auto simp: map_of_eq_None_iff dest: bspec)
    then show ?thesis using True ab unfolding d by auto
  qed simp
  finally show ?thesis by simp
qed

lemma upd_kv_at:
  assumes "ksorted data" "first_ge (keys_of data) k pos"
  shows "upd_kv k v data =
    (if pos < length data \<and> fst (data ! pos) = k then data[pos := (k, v)] else take pos data @ (k, v) # drop pos data)"
proof -
  note sp = first_ge_split [OF assms]
  have left: "upd_kv k v (as @ bs) = as @ upd_kv k v bs" if "\<forall>x \<in> set as. fst x < k" for as bs
    using that by (induction as) auto
  have "upd_kv k v (take pos data @ drop pos data) = take pos data @ upd_kv k v (drop pos data)" by (rule left [OF sp(1)])
  then have u: "upd_kv k v data = take pos data @ upd_kv k v (drop pos data)" by simp
  show ?thesis
  proof (cases "pos < length data")
    case True
    obtain a b where ab: "data ! pos = (a, b)" by (cases "data ! pos")
    have d: "drop pos data = (a, b) # drop (Suc pos) data" using True ab by (metis Cons_nth_drop_Suc)
    have "k \<le> a" using sp(2) unfolding d by simp
    then show ?thesis using u True ab by (auto simp: d upd_conv_take_nth_drop)
  qed (use u in simp)
qed

lemma leaf_find_ok:
  assumes "ksorted data"
  shows "leaf_find data k = map_of data k"
proof (cases "data = []")
  case False
  then obtain pos where "lowerBound (keys_of data) k = Some pos" "first_ge (keys_of data) k pos"
    using lowerBound_ok [OF assms, of k] by auto
  then show ?thesis using map_of_at [OF assms] by (simp add: leaf_find_def)
qed (simp add: leaf_find_def split: option.splits)

lemma leaf_insert_ok:
  assumes "ksorted data" "length data < leafMax S"
  shows "leaf_insert S data k v = Some (upd_kv k v data)"
proof (cases "data = []")
  case False
  then obtain pos where pos: "lowerBound (keys_of data) k = Some pos" "first_ge (keys_of data) k pos"
    using lowerBound_ok [OF assms(1), of k] by auto
  have "pos \<le> length data" using pos(2) by (simp add: first_ge_def)
  then show ?thesis using upd_kv_at [OF assms(1) pos(2), of v] pos(1) False assms(2)
    by (auto simp: leaf_insert_def wr_def ins_at_def)
qed (use assms in \<open>simp add: leaf_insert_def\<close>)

lemma leaf_split_ok:
  assumes "2 \<le> length data"
  shows "\<exists>l r. leaf_split data = Some (l, fst (last l), r) \<and> data = l @ r \<and> l \<noteq> [] \<and> r \<noteq> []"
proof -
  define n where "n = length data - (length data - length data div 2)"
  have n: "0 < n" "n < length data" "n \<le> length data" using assms by (auto simp: n_def)
  then have "take n data \<noteq> []" "drop n data \<noteq> []" by auto
  moreover have "rd (keys_of (take n data)) (n - 1) = Some (fst (last (take n data)))"
    using n by (simp add: rd_def last_take)
  ultimately have "leaf_split data = Some (take n data, fst (last (take n data)), drop n data)"
    using n(1) unfolding leaf_split_def Let_def n_def [symmetric] by simp
  then show ?thesis using \<open>take n data \<noteq> []\<close> \<open>drop n data \<noteq> []\<close> by (metis append_take_drop_id)
qed

section \<open>Operations on inner pages\<close>

text \<open>
  Every page is responsible for the keys of a half-open interval; \<open>None\<close> is an infinite end. The
  intervals of the children follow from the separators.
\<close>

type_synonym 'k interval = "'k option \<times> 'k option"

definition covers :: "'k::linorder interval \<Rightarrow> 'k \<Rightarrow> bool" where
  "covers b k \<longleftrightarrow> (\<forall>x. fst b = Some x \<longrightarrow> x < k) \<and> (\<forall>y. snd b = Some y \<longrightarrow> k \<le> y)"

definition child_iv :: "'k interval \<Rightarrow> 'k list \<Rightarrow> nat \<Rightarrow> 'k interval" where
  "child_iv b ks i = (if i = 0 then fst b else Some (ks ! (i - 1)), if i < length ks then Some (ks ! i) else snd b)"

definition seps_ok :: "'k::linorder interval \<Rightarrow> 'k list \<Rightarrow> bool" where
  "seps_ok b ks \<longleftrightarrow> sorted_wrt (<) ks \<and> (\<forall>x \<in> set ks. covers b x)"

lemma child_iv_covers:
  assumes "seps_ok b ks" "covers b k" "first_ge ks k i"
  shows "covers (child_iv b ks i) k"
  using assms by (auto simp: covers_def child_iv_def first_ge_def)

lemma child_iv_subset:
  assumes "seps_ok b ks" "i \<le> length ks" "covers (child_iv b ks i) k"
  shows "covers b k"
proof -
  have ks: "covers b (ks ! j)" if "j < length ks" for j using assms(1) that by (simp add: seps_ok_def)
  have "x < k" if "fst b = Some x" for x
  proof (cases i)
    case 0
    then show ?thesis using assms(3) that by (simp add: covers_def child_iv_def)
  next
    case (Suc j)
    then have "x < ks ! j" "ks ! j < k" using ks [of j] assms(2,3) that by (auto simp: covers_def child_iv_def)
    then show ?thesis by (rule less_trans)
  qed
  moreover have "k \<le> y" if "snd b = Some y" for y
  proof (cases "i < length ks")
    case True
    then have "k \<le> ks ! i" "ks ! i \<le> y" using ks [of i] assms(3) that by (auto simp: covers_def child_iv_def)
    then show ?thesis by (rule order.trans)
  qed (use assms(3) that in \<open>simp add: covers_def child_iv_def\<close>)
  ultimately show ?thesis by (simp add: covers_def)
qed

lemma covers_child_first_ge:
  assumes "sorted_wrt (<) ks" "i \<le> length ks" "covers (child_iv b ks i) k"
  shows "first_ge ks k i"
proof -
  have mono: "ks ! x \<le> ks ! y" if "x \<le> y" "y < length ks" for x y
    using sorted_nth_mono [of ks x y] assms(1) that by (simp add: strict_sorted_imp_sorted)
  have "ks ! j < k" if "j < i" for j
  proof -
    have "ks ! (i - 1) < k" using assms(3) that by (auto simp: covers_def child_iv_def)
    moreover have "ks ! j \<le> ks ! (i - 1)" using mono [of j "i - 1"] that assms(2) by simp
    ultimately show ?thesis by (rule order.strict_trans1 [rotated])
  qed
  moreover have "k \<le> ks ! j" if "i \<le> j" "j < length ks" for j
  proof -
    have "k \<le> ks ! i" using assms(3) that by (auto simp: covers_def child_iv_def)
    then show ?thesis using mono [OF that] by (rule order.trans)
  qed
  ultimately show ?thesis using assms(2) by (simp add: first_ge_def)
qed

lemma inner_split_ok:
  assumes "3 \<le> length ks" "length cs = Suc (length ks)"
  shows "\<exists>m. m < length ks - 1 \<and> inner_split ks cs =
    Some ((take m ks, take (Suc m) cs), ks ! m, (drop (Suc m) ks, drop (Suc m) cs)) \<and> (4 \<le> length ks \<longrightarrow> 0 < m)"
proof -
  let ?c = "length ks"
  let ?m = "?c - (?c - ?c div 2) - 1"
  have m: "?m < ?c - 1" "?m < ?c" "\<not> ?c < ?c - ?c div 2 + 1" "4 \<le> ?c \<longrightarrow> 0 < ?m" using assms(1) by auto
  then have "inner_split ks cs = Some ((take ?m ks, take (Suc ?m) cs), ks ! ?m, (drop (Suc ?m) ks, drop (Suc ?m) cs))"
    by (simp add: inner_split_def rd_def Let_def)
  then show ?thesis using m(1,4) by blast
qed

lemma seps_ok_split:
  assumes "seps_ok b ks" "m < length ks"
  shows "seps_ok (fst b, Some (ks ! m)) (take m ks)" "seps_ok (Some (ks ! m), snd b) (drop (Suc m) ks)"
proof -
  have "ks = take m ks @ ks ! m # drop (Suc m) ks" by (rule id_take_nth_drop [OF assms(2)])
  then have s: "sorted_wrt (<) (take m ks @ ks ! m # drop (Suc m) ks)" using assms(1) by (simp add: seps_ok_def)
  have c: "\<forall>x \<in> set ks. covers b x" using assms(1) by (simp add: seps_ok_def)
  show "seps_ok (fst b, Some (ks ! m)) (take m ks)"
    using s c by (auto simp: seps_ok_def sorted_wrt_append covers_def dest: in_set_takeD)
  show "seps_ok (Some (ks ! m), snd b) (drop (Suc m) ks)"
    using s c by (auto simp: seps_ok_def sorted_wrt_append covers_def dest: in_set_dropD)
qed

lemma child_iv_split_left:
  "m < length ks \<Longrightarrow> i \<le> m \<Longrightarrow> child_iv (fst b, Some (ks ! m)) (take m ks) i = child_iv b ks i"
  by (auto simp: child_iv_def le_less)

lemma child_iv_split_right:
  "m < length ks \<Longrightarrow> i \<le> length ks - Suc m \<Longrightarrow>
   child_iv (Some (ks ! m), snd b) (drop (Suc m) ks) i = child_iv b ks (Suc m + i)"
  by (cases i) (auto simp: child_iv_def)

lemma seps_ok_insert:
  assumes "seps_ok b ks" "i \<le> length ks" "covers (child_iv b ks i) sep" "i < length ks \<longrightarrow> sep < ks ! i"
  shows "seps_ok b (take i ks @ sep # drop i ks)"
proof -
  have f: "first_ge ks sep i" using covers_child_first_ge [of ks i b sep] assms by (simp add: seps_ok_def)
  have s: "sorted_wrt (<) (take i ks @ drop i ks)" using assms(1) by (simp add: seps_ok_def)
  have "\<forall>x \<in> set (take i ks). x < sep" using f by (auto simp: first_ge_def in_set_conv_nth)
  moreover have "\<forall>x \<in> set (drop i ks). sep < x"
  proof (cases "i < length ks")
    case True
    have "drop i ks = ks ! i # drop (Suc i) ks" using True by (simp add: Cons_nth_drop_Suc)
    then show ?thesis using s assms(4) True unfolding sorted_wrt_append by auto
  qed simp
  ultimately have "sorted_wrt (<) (take i ks @ sep # drop i ks)" using s unfolding sorted_wrt_append by simp
  moreover have "covers b sep" by (rule child_iv_subset [OF assms(1-3)])
  ultimately show ?thesis using assms(1) by (auto simp: seps_ok_def dest: in_set_takeD in_set_dropD)
qed

lemma child_iv_insert:
  assumes "i \<le> length ks"
  shows "j < i \<Longrightarrow> child_iv b (take i ks @ sep # drop i ks) j = child_iv b ks j"
    and "child_iv b (take i ks @ sep # drop i ks) i = (fst (child_iv b ks i), Some sep)"
    and "child_iv b (take i ks @ sep # drop i ks) (Suc i) = (Some sep, snd (child_iv b ks i))"
    and "i < j \<Longrightarrow> j \<le> length ks \<Longrightarrow> child_iv b (take i ks @ sep # drop i ks) (Suc j) = child_iv b ks j"
  using assms by (auto simp: child_iv_def nth_append nth_Cons' min_def)

lemma inner_insert_ok:
  assumes "sorted_wrt (<) ks" "length cs = Suc (length ks)" "length ks < innerMax S - 1" "ks \<noteq> []"
    "i \<le> length ks" "covers (child_iv b ks i) sep"
  shows "inner_insert S ks cs sep new = Some (take i ks @ sep # drop i ks, take (Suc i) cs @ new # drop (Suc i) cs)"
proof -
  obtain pos where pos: "lowerBound ks sep = Some pos" "first_ge ks sep pos" using lowerBound_ok [OF assms(1,4)] by blast
  have "pos = i" by (rule first_ge_unique [OF pos(2) covers_child_first_ge [OF assms(1,5,6)]])
  then show ?thesis using pos(1) assms by (simp add: inner_insert_def ins_at_def)
qed

section \<open>Main theorem\<close>

text \<open>
  On the sorted keys of a page that is not empty both slot searches stay inside the array,
  and the branch-free one returns the same slot as the one with early exit: the first whose key
  is not below the key.
\<close>

theorem lowerBound_searches_agree:
  assumes "sorted_wrt (<) ks" "ks \<noteq> []"
  shows "lowerBound ks k = Some (length (takeWhile (\<lambda>x. x < k) ks)) \<and> lowerBoundBF ks k = lowerBound ks k"
proof -
  obtain p q where p: "lowerBound ks k = Some p" "first_ge ks k p" and q: "lowerBoundBF ks k = Some q" "first_ge ks k q"
    using lowerBound_ok [OF assms, of k] lowerBoundBF_ok [OF assms, of k] by blast
  have "first_ge ks k (length (takeWhile (\<lambda>x. x < k) ks))" unfolding first_ge_def
  proof (intro conjI allI impI)
    show "length (takeWhile (\<lambda>x. x < k) ks) \<le> length ks" by (rule length_takeWhile_le)
    show "ks ! i < k" if "i < length (takeWhile (\<lambda>x. x < k) ks)" for i
      using that by (metis nth_mem set_takeWhileD takeWhile_nth)
    show "k \<le> ks ! i" if i: "i < length ks" "length (takeWhile (\<lambda>x. x < k) ks) \<le> i" for i
    proof -
      have "\<not> ks ! length (takeWhile (\<lambda>x. x < k) ks) < k" using i by (intro nth_length_takeWhile) simp
      then show ?thesis using sorted_nth_mono [of ks "length (takeWhile (\<lambda>x. x < k) ks)" i] assms(1) i
        by (simp add: strict_sorted_imp_sorted)
    qed
  qed
  then show ?thesis using p q first_ge_unique by metis
qed

theorem lowerBound_searches_agree_witness:
  "lowerBound [2, 5, 8::nat] 6 = Some 2 \<and> lowerBoundBF [2, 5, 8::nat] 6 = Some 2"
  using lowerBound_searches_agree [of "[2, 5, 8::nat]" 6] by simp

end
