(* ===== verification/OlcTree.thy ===== *)
theory OlcTree
  imports OlcNodes
begin

text \<open>
  The B+ tree with optimistic lock coupling (\<open>btreeolc::BTree\<close>) under any number of threads.

  The pages live in a heap with one version word each. A thread running \<open>insert\<close> or \<open>lookup\<close> is
  its program counter, a value of \<open>pc\<close> with the local variables that are live there; \<open>tstep\<close>
  has one rule for each access to shared memory and each outcome. What a thread reads from a
  page between taking the version and checking it may be torn by a writer: if the version has
  changed by the time of the read, the rule allows any result. The changes a thread makes to
  pages while it holds their locks are one step, since nobody can use what is visible in
  between; the step that publishes a new page is the store to \<open>root\<close> or the release of the
  parent.

  \<open>Crashed\<close> stands for an access outside a page.
\<close>

section \<open>The heap\<close>

record ('k, 'v) heap =
  root :: addr
  pages :: "addr \<Rightarrow> ('k, 'v) page"
  versions :: "addr \<Rightarrow> u64"
  next_page :: addr

definition init_heap :: "('k, 'v) heap" where
  "init_heap = \<lparr>root = 0, pages = (\<lambda>_. BTreeLeaf [] None), versions = (\<lambda>_. initial_version), next_page = 1\<rparr>"

text \<open>A new page has a new version word.\<close>

definition new_page :: "('k, 'v) heap \<Rightarrow> ('k, 'v) page \<Rightarrow> ('k, 'v) heap \<times> addr" where
  "new_page h p =
     (let a = next_page h
      in (h\<lparr>pages := (pages h)(a := p), versions := (versions h)(a := initial_version), next_page := Suc a\<rparr>, a))"

definition set_page :: "('k, 'v) heap \<Rightarrow> addr \<Rightarrow> ('k, 'v) page \<Rightarrow> ('k, 'v) heap" where
  "set_page h a p = h\<lparr>pages := (pages h)(a := p)\<rparr>"

definition set_version :: "('k, 'v) heap \<Rightarrow> addr \<Rightarrow> u64 \<Rightarrow> ('k, 'v) heap" where
  "set_version h a w = h\<lparr>versions := (versions h)(a := w)\<rparr>"

definition makeRoot :: "('k, 'v) heap \<Rightarrow> 'k \<Rightarrow> addr \<Rightarrow> addr \<Rightarrow> ('k, 'v) heap" where
  "makeRoot h k leftChild rightChild =
     (let (h', inner) = new_page h (BTreeInner [k] [leftChild, rightChild]) in h'\<lparr>root := inner\<rparr>)"

text \<open>Hanging the new page behind its left sibling: into the parent, or below a new root.\<close>

definition link_page :: "sizes \<Rightarrow> ('k::linorder, 'v) heap \<Rightarrow> addr option \<Rightarrow> 'k \<Rightarrow> addr \<Rightarrow> addr \<Rightarrow> ('k, 'v) heap option" where
  "link_page S h parent sep node newNode =
     (case parent of
        None \<Rightarrow> Some (makeRoot h sep node newNode)
      | Some p \<Rightarrow>
          (case pages h p of
             BTreeLeaf data next \<Rightarrow> None
           | BTreeInner ks cs \<Rightarrow>
               do { (ks', cs') \<leftarrow> inner_insert S ks cs sep newNode; Some (set_page h p (BTreeInner ks' cs')) }))"

definition split_page :: "sizes \<Rightarrow> ('k::linorder, 'v) heap \<Rightarrow> addr \<Rightarrow> addr option \<Rightarrow> ('k, 'v) heap option" where
  "split_page S h node parent =
     (case pages h node of
        BTreeLeaf data next \<Rightarrow>
          do { (l, sep, r) \<leftarrow> leaf_split data;
               let (h1, newLeaf) = new_page h (BTreeLeaf r None);
               link_page S (set_page h1 node (BTreeLeaf l (Some newLeaf))) parent sep node newLeaf }
      | BTreeInner ks cs \<Rightarrow>
          do { ((lks, lcs), sep, (rks, rcs)) \<leftarrow> inner_split ks cs;
               let (h1, newInner) = new_page h (BTreeInner rks rcs);
               link_page S (set_page h1 node (BTreeInner lks lcs)) parent sep node newInner })"

fun is_inner :: "('k, 'v) page \<Rightarrow> bool" where
  "is_inner (BTreeInner ks cs) \<longleftrightarrow> True"
| "is_inner (BTreeLeaf data next) \<longleftrightarrow> False"

fun child :: "('k::linorder, 'v) page \<Rightarrow> 'k \<Rightarrow> addr option" where
  "child (BTreeInner ks cs) k = do { i \<leftarrow> lowerBound ks k; rd cs i }"
| "child (BTreeLeaf data next) k = None"

fun leaf_data :: "('k, 'v) page \<Rightarrow> ('k \<times> 'v) list" where
  "leaf_data (BTreeLeaf data next) = data"
| "leaf_data (BTreeInner ks cs) = []"

fun leaf_next :: "('k, 'v) page \<Rightarrow> addr option" where
  "leaf_next (BTreeLeaf data next) = next"
| "leaf_next (BTreeInner ks cs) = None"

definition insert_page :: "sizes \<Rightarrow> ('k::linorder, 'v) heap \<Rightarrow> addr \<Rightarrow> 'k \<Rightarrow> 'v \<Rightarrow> ('k, 'v) heap option" where
  "insert_page S h node k v =
     (case pages h node of
        BTreeLeaf data next \<Rightarrow>
          do { data' \<leftarrow> leaf_insert S data k v; Some (set_page h node (BTreeLeaf data' next)) }
      | BTreeInner ks cs \<Rightarrow> None)"

section \<open>The threads\<close>

datatype ('k, 'v) call = Ins 'k 'v | Look 'k

fun key :: "('k, 'v) call \<Rightarrow> 'k" where
  "key (Ins k v) = k"
| "key (Look k) = k"

fun is_ins :: "('k, 'v) call \<Rightarrow> bool" where
  "is_ins (Ins k v) \<longleftrightarrow> True"
| "is_ins (Look k) \<longleftrightarrow> False"

type_synonym parent = "(addr \<times> u64) option"

datatype ('k, 'v) pc =
    Idle
  | Restart "('k, 'v) call"
  | RootLoaded "('k, 'v) call" addr
  | RootVersion "('k, 'v) call" addr u64
  | Loop "('k, 'v) call" addr u64 parent
  | Descend "('k, 'v) call" addr u64 parent
  | Search "('k, 'v) call" addr u64
  | ChildRead "('k, 'v) call" addr u64 addr
  | ChildChecked "('k, 'v) call" addr u64 addr
  | LockParent "('k, 'v) call" addr u64 parent
  | LockNode "('k, 'v) call" addr u64 "addr option"
  | CheckRoot "('k, 'v) call" addr
  | DoSplit "('k, 'v) call" addr "addr option"
  | UnlockBoth "('k, 'v) call" addr "addr option"
  | UnlockRestart "('k, 'v) call" addr
  | LockLeaf 'k 'v addr u64 parent
  | CheckParent 'k 'v addr parent
  | DoInsert 'k 'v addr
  | UnlockReturn 'k 'v addr
  | ValueRead 'k addr u64 parent "'v option"
  | CheckLeaf 'k addr u64 "'v option"
  | Returned "('k, 'v) call" bool "'v option"
  | Crashed

text \<open>\<open>readUnlockOrRestart\<close> on the parent, if there is one, does not ask for a restart.\<close>

definition parent_valid :: "('k, 'v) heap \<Rightarrow> parent \<Rightarrow> bool" where
  "parent_valid h par \<longleftrightarrow> (case par of None \<Rightarrow> True | Some (p, vp) \<Rightarrow> \<not> readUnlockOrRestart (versions h p) vp)"

text \<open>
  In \<open>returns\<close> the flag \<open>success\<close> is an uninitialised local variable of \<open>lookup\<close> when the key was
  not found.
\<close>

inductive tstep :: "sizes \<Rightarrow> ('k::linorder, 'v) heap \<Rightarrow> ('k, 'v) pc \<Rightarrow> ('k, 'v) heap \<Rightarrow> ('k, 'v) pc \<Rightarrow> bool"
  for S where
  call: "tstep S h Idle h (Restart c)"
| recall: "tstep S h (Returned c0 b r) h (Restart c)"
| load_root: "tstep S h (Restart c) h (RootLoaded c (root h))"
| root_locked: "readLockOrRestart (versions h n) = None \<Longrightarrow> tstep S h (RootLoaded c n) h (Restart c)"
| root_version: "readLockOrRestart (versions h n) = Some v \<Longrightarrow> tstep S h (RootLoaded c n) h (RootVersion c n v)"
| root_moved: "n \<noteq> root h \<Longrightarrow> tstep S h (RootVersion c n v) h (Restart c)"
| root_same: "n = root h \<Longrightarrow> tstep S h (RootVersion c n v) h (Loop c n v None)"
| inner_full: "is_inner (pages h n) \<Longrightarrow> is_ins c \<Longrightarrow> (versions h n = v \<longrightarrow> isFull S (pages h n)) \<Longrightarrow>
    tstep S h (Loop c n v par) h (LockParent c n v par)"
| inner_open: "is_inner (pages h n) \<Longrightarrow> (is_ins c \<longrightarrow> versions h n = v \<longrightarrow> \<not> isFull S (pages h n)) \<Longrightarrow>
    tstep S h (Loop c n v par) h (Descend c n v par)"
| parent_ok: "parent_valid h par \<Longrightarrow> tstep S h (Descend c n v par) h (Search c n v)"
| parent_bad: "\<not> parent_valid h par \<Longrightarrow> tstep S h (Descend c n v par) h (Restart c)"
| read_child: "(versions h n = v \<longrightarrow> child (pages h n) (key c) = Some m) \<Longrightarrow>
    tstep S h (Search c n v) h (ChildRead c n v m)"
| read_wild: "versions h n = v \<Longrightarrow> child (pages h n) (key c) = None \<Longrightarrow> tstep S h (Search c n v) h Crashed"
| check_ok: "\<not> readUnlockOrRestart (versions h n) v \<Longrightarrow> tstep S h (ChildRead c n v m) h (ChildChecked c n v m)"
| check_bad: "readUnlockOrRestart (versions h n) v \<Longrightarrow> tstep S h (ChildRead c n v m) h (Restart c)"
| child_version: "readLockOrRestart (versions h m) = Some w \<Longrightarrow>
    tstep S h (ChildChecked c n v m) h (Loop c m w (Some (n, v)))"
| child_locked: "readLockOrRestart (versions h m) = None \<Longrightarrow> tstep S h (ChildChecked c n v m) h (Restart c)"
| no_parent: "tstep S h (LockParent c n v None) h (LockNode c n v None)"
| lock_parent: "upgradeToWriteLockOrRestart (versions h p) vp = Some w \<Longrightarrow>
    tstep S h (LockParent c n v (Some (p, vp))) (set_version h p w) (LockNode c n v (Some p))"
| lock_parent_bad: "upgradeToWriteLockOrRestart (versions h p) vp = None \<Longrightarrow>
    tstep S h (LockParent c n v (Some (p, vp))) h (Restart c)"
| lock_node: "upgradeToWriteLockOrRestart (versions h n) v = Some w \<Longrightarrow>
    tstep S h (LockNode c n v (Some p)) (set_version h n w) (DoSplit c n (Some p))"
| lock_root: "upgradeToWriteLockOrRestart (versions h n) v = Some w \<Longrightarrow>
    tstep S h (LockNode c n v None) (set_version h n w) (CheckRoot c n)"
| lock_node_bad: "upgradeToWriteLockOrRestart (versions h n) v = None \<Longrightarrow>
    tstep S h (LockNode c n v (Some p)) h (UnlockRestart c p)"
| lock_root_bad: "upgradeToWriteLockOrRestart (versions h n) v = None \<Longrightarrow>
    tstep S h (LockNode c n v None) h (Restart c)"
| still_root: "n = root h \<Longrightarrow> tstep S h (CheckRoot c n) h (DoSplit c n None)"
| new_parent: "n \<noteq> root h \<Longrightarrow> tstep S h (CheckRoot c n) h (UnlockRestart c n)"
| split: "split_page S h n par = Some h' \<Longrightarrow> tstep S h (DoSplit c n par) h' (UnlockBoth c n par)"
| split_wild: "split_page S h n par = None \<Longrightarrow> tstep S h (DoSplit c n par) h Crashed"
| unlock_root: "tstep S h (UnlockBoth c n None) (set_version h n (writeUnlock (versions h n))) (Restart c)"
| unlock_node: "tstep S h (UnlockBoth c n (Some p)) (set_version h n (writeUnlock (versions h n))) (UnlockRestart c p)"
| unlock_restart: "tstep S h (UnlockRestart c p) (set_version h p (writeUnlock (versions h p))) (Restart c)"
| leaf_full: "\<not> is_inner (pages h n) \<Longrightarrow> is_ins c \<Longrightarrow> (versions h n = v \<longrightarrow> isFull S (pages h n)) \<Longrightarrow>
    tstep S h (Loop c n v par) h (LockParent c n v par)"
| leaf_open: "\<not> is_inner (pages h n) \<Longrightarrow> (versions h n = v \<longrightarrow> \<not> isFull S (pages h n)) \<Longrightarrow>
    tstep S h (Loop (Ins k x) n v par) h (LockLeaf k x n v par)"
| lock_leaf: "upgradeToWriteLockOrRestart (versions h n) v = Some w \<Longrightarrow>
    tstep S h (LockLeaf k x n v par) (set_version h n w) (CheckParent k x n par)"
| lock_leaf_bad: "upgradeToWriteLockOrRestart (versions h n) v = None \<Longrightarrow>
    tstep S h (LockLeaf k x n v par) h (Restart (Ins k x))"
| leaf_parent_ok: "parent_valid h par \<Longrightarrow> tstep S h (CheckParent k x n par) h (DoInsert k x n)"
| leaf_parent_bad: "\<not> parent_valid h par \<Longrightarrow> tstep S h (CheckParent k x n par) h (UnlockRestart (Ins k x) n)"
| insert: "insert_page S h n k x = Some h' \<Longrightarrow> tstep S h (DoInsert k x n) h' (UnlockReturn k x n)"
| insert_wild: "insert_page S h n k x = None \<Longrightarrow> tstep S h (DoInsert k x n) h Crashed"
| unlock_return: "tstep S h (UnlockReturn k x n) (set_version h n (writeUnlock (versions h n))) (Returned (Ins k x) True None)"
| read_value: "\<not> is_inner (pages h n) \<Longrightarrow> (versions h n = v \<longrightarrow> r = leaf_find (leaf_data (pages h n)) k) \<Longrightarrow>
    tstep S h (Loop (Look k) n v par) h (ValueRead k n v par r)"
| value_parent_ok: "parent_valid h par \<Longrightarrow> tstep S h (ValueRead k n v par r) h (CheckLeaf k n v r)"
| value_parent_bad: "\<not> parent_valid h par \<Longrightarrow> tstep S h (ValueRead k n v par r) h (Restart (Look k))"
| returns: "\<not> readUnlockOrRestart (versions h n) v \<Longrightarrow> (r \<noteq> None \<longrightarrow> success) \<Longrightarrow>
    tstep S h (CheckLeaf k n v r) h (Returned (Look k) success r)"
| leaf_changed: "readUnlockOrRestart (versions h n) v \<Longrightarrow> tstep S h (CheckLeaf k n v r) h (Restart (Look k))"

text \<open>Any thread moves.\<close>

inductive ostep ::
  "sizes \<Rightarrow> nat \<Rightarrow> ('k::linorder, 'v) heap \<times> (nat \<Rightarrow> ('k, 'v) pc) \<Rightarrow> ('k, 'v) heap \<times> (nat \<Rightarrow> ('k, 'v) pc) \<Rightarrow> bool" for S t where
  move: "tstep S h (th t) h' l \<Longrightarrow> ostep S t (h, th) (h', th(t := l))"

inductive reach :: "sizes \<Rightarrow> nat \<Rightarrow> ('k::linorder, 'v) heap \<Rightarrow> (nat \<Rightarrow> ('k, 'v) pc) \<Rightarrow> bool" for S where
  start: "reach S 0 init_heap (\<lambda>_. Idle)"
| step: "reach S n h th \<Longrightarrow> ostep S t (h, th) (h', th') \<Longrightarrow> reach S (Suc n) h' th'"

section \<open>The abstract map\<close>

text \<open>The leaf responsible for a key, and what it holds.\<close>

inductive routes :: "('k::linorder, 'v) heap \<Rightarrow> 'k \<Rightarrow> addr \<Rightarrow> addr \<Rightarrow> bool" for h k where
  leaf: "\<not> is_inner (pages h a) \<Longrightarrow> routes h k a a"
| inner: "is_inner (pages h a) \<Longrightarrow> child (pages h a) k = Some c \<Longrightarrow> routes h k c l \<Longrightarrow> routes h k a l"

definition maps :: "('k::linorder, 'v) heap \<Rightarrow> 'k \<Rightarrow> 'v option \<Rightarrow> bool" where
  "maps h k r \<longleftrightarrow> (\<exists>l. routes h k (root h) l \<and> leaf_find (leaf_data (pages h l)) k = r)"

inductive_cases routesE: "routes h k a l"

end
