(* ===== verification/OlcInv.thy ===== *)
theory OlcInv
  imports OlcTree
begin

text \<open>
  The invariant of the heap of the tree with optimistic lock coupling, and what the two
  changes of it, the split of a full page and the insertion into a leaf, do to the invariant
  and to the abstract map.

  A ghost gives every page the interval of keys it is responsible for and its level. The
  conditions on a page then only mention its children, and two pages of one level are
  responsible for disjoint intervals.
\<close>

section \<open>The invariant\<close>

record 'k ghost =
  iv :: "addr \<Rightarrow> 'k interval"
  lvl :: "addr \<Rightarrow> nat"

fun page_children :: "('k, 'v) page \<Rightarrow> addr set" where
  "page_children (BTreeInner ks cs) = set cs"
| "page_children (BTreeLeaf data next) = {}"

text \<open>A page of level \<open>l\<close> that is responsible for the interval \<open>b\<close>, with children below \<open>N\<close>.\<close>

fun body_ok :: "sizes \<Rightarrow> 'k::linorder ghost \<Rightarrow> addr \<Rightarrow> 'k interval \<Rightarrow> nat \<Rightarrow> ('k, 'v) page \<Rightarrow> bool" where
  "body_ok S G N b l (BTreeLeaf data next) \<longleftrightarrow>
     l = 0 \<and> ksorted data \<and> length data \<le> leafMax S \<and> (\<forall>x \<in> set data. covers b (fst x))"
| "body_ok S G N b l (BTreeInner ks cs) \<longleftrightarrow>
     ks \<noteq> [] \<and> seps_ok b ks \<and> length cs = Suc (length ks) \<and> length ks \<le> innerMax S - 1 \<and>
     (\<forall>i \<le> length ks. cs ! i < N \<and> iv G (cs ! i) = child_iv b ks i \<and> l = Suc (lvl G (cs ! i)))"

definition page_ok :: "sizes \<Rightarrow> 'k::linorder ghost \<Rightarrow> ('k, 'v) heap \<Rightarrow> addr \<Rightarrow> bool" where
  "page_ok S G h a \<longleftrightarrow> body_ok S G (next_page h) (iv G a) (lvl G a) (pages h a)"

definition ginv :: "sizes \<Rightarrow> 'k::linorder ghost \<Rightarrow> ('k, 'v) heap \<Rightarrow> bool" where
  "ginv S G h \<longleftrightarrow>
     root h < next_page h \<and> iv G (root h) = (None, None) \<and>
     (\<forall>a < next_page h. page_ok S G h a \<and> lvl G a \<le> lvl G (root h)) \<and>
     (\<forall>a < next_page h. \<forall>b < next_page h. \<forall>k. a \<noteq> b \<longrightarrow> lvl G a = lvl G b \<longrightarrow> \<not> (covers (iv G a) k \<and> covers (iv G b) k))"

lemma covers_all [simp]: "covers (None, None) k"
  by (simp add: covers_def)

lemma body_ok_cong:
  assumes "body_ok S G N b l pg" "N \<le> N'" "\<forall>c \<in> page_children pg. c < N \<longrightarrow> iv G' c = iv G c \<and> lvl G' c = lvl G c"
  shows "body_ok S G' N' b l pg"
proof (cases pg)
  case (BTreeInner ks cs)
  have "cs ! i \<in> set cs" if "i \<le> length ks" for i using assms(1) that by (simp add: BTreeInner)
  then show ?thesis using assms by (fastforce simp: BTreeInner)
qed (use assms in simp)

lemma ginv_page: "ginv S G h \<Longrightarrow> a < next_page h \<Longrightarrow> body_ok S G (next_page h) (iv G a) (lvl G a) (pages h a)"
  by (simp add: ginv_def page_ok_def)

lemma ginv_disjoint:
  "ginv S G h \<Longrightarrow> a < next_page h \<Longrightarrow> b < next_page h \<Longrightarrow> lvl G a = lvl G b \<Longrightarrow> covers (iv G a) k \<Longrightarrow> covers (iv G b) k \<Longrightarrow> a = b"
  unfolding ginv_def by blast

lemma is_inner_iff: "is_inner p \<longleftrightarrow> (\<exists>ks cs. p = BTreeInner ks cs)" "\<not> is_inner p \<longleftrightarrow> (\<exists>data next. p = BTreeLeaf data next)"
  by (cases p; simp)+

lemma inner_page:
  assumes "ginv S G h" "a < next_page h" "pages h a = BTreeInner ks cs"
  shows "ks \<noteq> []" "seps_ok (iv G a) ks" "length cs = Suc (length ks)" "length ks \<le> innerMax S - 1"
    "\<forall>i \<le> length ks. cs ! i < next_page h \<and> iv G (cs ! i) = child_iv (iv G a) ks i \<and> lvl G a = Suc (lvl G (cs ! i))"
  using ginv_page [OF assms(1,2)] by (simp_all add: assms(3))

text \<open>Following the pointers for a key.\<close>

lemma child_ok:
  assumes "ginv S G h" "a < next_page h" "covers (iv G a) k" "pages h a = BTreeInner ks cs"
  shows "\<exists>i \<le> length ks. child (pages h a) k = Some (cs ! i) \<and> first_ge ks k i \<and> cs ! i < next_page h \<and>
    iv G (cs ! i) = child_iv (iv G a) ks i \<and> covers (iv G (cs ! i)) k \<and> lvl G a = Suc (lvl G (cs ! i))"
proof -
  note b = inner_page [OF assms(1,2,4)]
  obtain i where i: "lowerBound ks k = Some i" "first_ge ks k i"
    using lowerBound_ok [OF _ b(1), of k] b(2) by (auto simp: seps_ok_def)
  have "i \<le> length ks" using i(2) by (simp add: first_ge_def)
  moreover have "covers (child_iv (iv G a) ks i) k" by (rule child_iv_covers [OF b(2) assms(3) i(2)])
  ultimately show ?thesis using i b(3,5) by (auto simp: assms(4) rd_def)
qed

lemma routes_ex:
  assumes "ginv S G h"
  shows "a < next_page h \<Longrightarrow> covers (iv G a) k \<Longrightarrow>
    \<exists>l < next_page h. routes h k a l \<and> \<not> is_inner (pages h l) \<and> covers (iv G l) k"
proof (induction "lvl G a" arbitrary: a rule: less_induct)
  case less
  show ?case
  proof (cases "pages h a")
    case (BTreeInner ks cs)
    obtain i where "child (pages h a) k = Some (cs ! i)" "cs ! i < next_page h" "covers (iv G (cs ! i)) k"
      "lvl G (cs ! i) < lvl G a" using child_ok [OF assms less.prems BTreeInner] by auto
    moreover obtain l where "l < next_page h" "routes h k (cs ! i) l" "\<not> is_inner (pages h l)" "covers (iv G l) k"
      using less.hyps [of "cs ! i"] calculation by blast
    moreover have "is_inner (pages h a)" by (simp add: BTreeInner)
    ultimately show ?thesis by (blast intro: routes.inner)
  next
    case (BTreeLeaf data nx)
    then have "\<not> is_inner (pages h a)" by simp
    then show ?thesis using less.prems by (blast intro: routes.leaf)
  qed
qed

lemma routes_det: "routes h k a l \<Longrightarrow> routes h k a l' \<Longrightarrow> l = l'"
proof (induction arbitrary: l' rule: routes.induct)
  case (leaf a)
  from leaf.prems leaf.hyps show ?case by (cases rule: routes.cases) simp_all
next
  case (inner a c l)
  from inner.prems have "routes h k c l'" using inner.hyps by (cases rule: routes.cases) simp_all
  then show ?case by (rule inner.IH)
qed

lemma leaf_level: "ginv S G h \<Longrightarrow> a < next_page h \<Longrightarrow> \<not> is_inner (pages h a) \<Longrightarrow> lvl G a = 0 \<and> ksorted (leaf_data (pages h a))"
  using ginv_page [of S G h a] by (cases "pages h a") auto

text \<open>The abstract map, read off any leaf that is responsible for the key.\<close>

lemma maps_leaf:
  assumes "ginv S G h" "l < next_page h" "\<not> is_inner (pages h l)" "covers (iv G l) k"
  shows "maps h k r \<longleftrightarrow> r = map_of (leaf_data (pages h l)) k"
proof -
  have "root h < next_page h" "covers (iv G (root h)) k" using assms(1) by (simp_all add: ginv_def)
  from routes_ex [OF assms(1) this] obtain m where
    m: "m < next_page h" "routes h k (root h) m" "\<not> is_inner (pages h m)" "covers (iv G m) k" by blast
  have "m = l" using ginv_disjoint [OF assms(1) m(1) assms(2) _ m(4) assms(4)] leaf_level [OF assms(1)] m(1,3) assms(2,3) by simp
  then show ?thesis using m routes_det [OF m(2)] leaf_find_ok leaf_level [OF assms(1-3)] unfolding maps_def by metis
qed

lemma maps_ex: "ginv S G h \<Longrightarrow> \<exists>l < next_page h. \<not> is_inner (pages h l) \<and> covers (iv G l) k"
  using routes_ex [of S G h "root h" k] unfolding ginv_def by auto

lemma parent_unique:
  assumes "ginv S G h" "p < next_page h" "q < next_page h" "pages h p = BTreeInner ks cs" "pages h q = BTreeInner ks' cs'"
    "i \<le> length ks" "j \<le> length ks'" "cs ! i = cs' ! j" "covers (iv G (cs ! i)) k"
  shows "p = q \<and> i = j"
proof -
  note P = inner_page [OF assms(1,2,4)] and Q = inner_page [OF assms(1,3,5)]
  have iP: "iv G (cs ! i) = child_iv (iv G p) ks i" "lvl G p = Suc (lvl G (cs ! i))" using P(5) assms(6) by blast+
  have iQ: "iv G (cs' ! j) = child_iv (iv G q) ks' j" "lvl G q = Suc (lvl G (cs' ! j))" using Q(5) assms(7) by blast+
  have p: "covers (child_iv (iv G p) ks i) k" using assms(9) unfolding iP(1) .
  have q: "covers (child_iv (iv G q) ks' j) k" using assms(9) unfolding assms(8) iQ(1) .
  have "covers (iv G p) k" by (rule child_iv_subset [OF P(2) assms(6) p])
  moreover have "covers (iv G q) k" by (rule child_iv_subset [OF Q(2) assms(7) q])
  moreover have "lvl G p = lvl G q" using iP(2) iQ(2) assms(8) by simp
  ultimately have pq: "p = q" using ginv_disjoint [OF assms(1-3)] by blast
  then have "ks = ks'" using assms(4,5) by simp
  moreover have "first_ge ks k i" using covers_child_first_ge [OF _ assms(6) p] P(2) by (simp add: seps_ok_def)
  moreover have "first_ge ks' k j" using covers_child_first_ge [OF _ assms(7) q] Q(2) by (simp add: seps_ok_def)
  ultimately have "i = j" using first_ge_unique by blast
  with pq show ?thesis ..
qed

section \<open>Insertion into a leaf\<close>

lemma insert_page_ok:
  assumes "ginv S G h" "n < next_page h" "\<not> is_inner (pages h n)" "\<not> isFull S (pages h n)" "covers (iv G n) k"
  shows "\<exists>data'. insert_page S h n k v = Some (set_page h n (BTreeLeaf data' (leaf_next (pages h n)))) \<and>
    ginv S G (set_page h n (BTreeLeaf data' (leaf_next (pages h n)))) \<and>
    (\<forall>x r. maps (set_page h n (BTreeLeaf data' (leaf_next (pages h n)))) x r \<longleftrightarrow> (if x = k then r = Some v else maps h x r))"
proof -
  obtain data nx where pg: "pages h n = BTreeLeaf data nx" using assms(3) by (cases "pages h n") auto
  have b: "lvl G n = 0" "ksorted data" "length data \<le> leafMax S" "\<forall>x \<in> set data. covers (iv G n) (fst x)"
    using ginv_page [OF assms(1,2)] by (simp_all add: pg)
  have len: "length data < leafMax S" using b(3) assms(4) by (simp add: pg)
  let ?d = "upd_kv k v data"
  let ?h = "set_page h n (BTreeLeaf ?d nx)"
  have "length ?d \<le> Suc (length data)" by (induction k v data rule: upd_kv.induct) auto
  moreover have "\<forall>x \<in> set ?d. covers (iv G n) (fst x)"
  proof
    fix x
    assume "x \<in> set ?d"
    then have "fst x \<in> set (keys_of ?d)" by simp
    then have "fst x \<in> insert k (set (keys_of data))" unfolding set_keys_upd_kv .
    then show "covers (iv G n) (fst x)" using b(4) assms(5) by auto
  qed
  ultimately have "body_ok S G N (iv G n) (lvl G n) (BTreeLeaf ?d nx)" for N
    using b len ksorted_upd_kv [OF b(2)] by simp
  then have g: "ginv S G ?h" using assms(1) by (auto simp: ginv_def page_ok_def set_page_def)
  have "maps ?h x r \<longleftrightarrow> (if x = k then r = Some v else maps h x r)" for x r
  proof (cases "covers (iv G n) x")
    case True
    then show ?thesis
      using maps_leaf [OF g, of n x r] maps_leaf [OF assms(1-3), of x r] assms(2)
      by (simp add: set_page_def pg map_of_upd_kv)
  next
    case False
    obtain l where l: "l < next_page h" "\<not> is_inner (pages h l)" "covers (iv G l) x" using maps_ex [OF assms(1)] by blast
    then have "l \<noteq> n" "x \<noteq> k" using False assms(5) by auto
    then show ?thesis using maps_leaf [OF assms(1) l, of r] maps_leaf [OF g, of l x r] l by (simp add: set_page_def)
  qed
  then show ?thesis using g leaf_insert_ok [OF b(2) len, of k v] by (auto simp: insert_page_def pg)
qed

section \<open>Splitting a page\<close>

text \<open>What the two halves of a page have to satisfy.\<close>

definition halves_ok :: "sizes \<Rightarrow> 'k::linorder ghost \<Rightarrow> ('k, 'v) heap \<Rightarrow> addr \<Rightarrow> ('k, 'v) page \<Rightarrow> 'k \<Rightarrow> ('k, 'v) page \<Rightarrow> bool" where
  "halves_ok S G h n pl sep pr \<longleftrightarrow>
     covers (iv G n) sep \<and> (\<exists>k. sep < k \<and> covers (iv G n) k) \<and>
     is_inner pl = is_inner (pages h n) \<and> is_inner pr = is_inner (pages h n) \<and>
     leaf_data (pages h n) = leaf_data pl @ leaf_data pr \<and>
     body_ok S G (next_page h) (fst (iv G n), Some sep) (lvl G n) pl \<and>
     body_ok S G (next_page h) (Some sep, snd (iv G n)) (lvl G n) pr"

lemma leaf_halves:
  assumes "ginv S G h" "n < next_page h" "pages h n = BTreeLeaf data nx" "2 \<le> length data"
  shows "\<exists>l sep r. leaf_split data = Some (l, sep, r) \<and> (\<forall>x y. halves_ok S G h n (BTreeLeaf l x) sep (BTreeLeaf r y))"
proof -
  obtain l r where s: "leaf_split data = Some (l, fst (last l), r)" "data = l @ r" "l \<noteq> []" "r \<noteq> []"
    using leaf_split_ok [OF assms(4)] by blast
  let ?sep = "fst (last l)"
  have b: "lvl G n = 0" "ksorted (l @ r)" "length (l @ r) \<le> leafMax S" "\<forall>x \<in> set (l @ r). covers (iv G n) (fst x)"
    using ginv_page [OF assms(1,2)] by (simp_all add: assms(3) s(2))
  have last: "last l \<in> set l" using s(3) by simp
  have lt: "fst x < fst y" if "x \<in> set l" "y \<in> set r" for x y using b(2) that by (auto simp: sorted_wrt_append)
  have "ksorted (butlast l @ [last l])" using b(2) s(3) by (simp add: sorted_wrt_append)
  then have "\<forall>x \<in> set (butlast l). fst x < ?sep" by (simp add: sorted_wrt_append)
  moreover have "set l = insert (last l) (set (butlast l))"
    using s(3) by (metis append_butlast_last_id list.set(2) rotate1.simps(2) set_rotate1)
  ultimately have le: "\<forall>x \<in> set l. fst x \<le> ?sep" by auto
  obtain y where y: "y \<in> set r" using s(4) by (cases r) auto
  have "covers (iv G n) ?sep" "?sep < fst y" "covers (iv G n) (fst y)" using b(4) last y lt by auto
  moreover have "\<forall>x \<in> set l. covers (fst (iv G n), Some ?sep) (fst x)" using b(4) le by (auto simp: covers_def)
  moreover have "\<forall>x \<in> set r. covers (Some ?sep, snd (iv G n)) (fst x)" using b(4) lt last by (auto simp: covers_def)
  moreover have "ksorted l" "ksorted r" using b(2) by (simp_all add: sorted_wrt_append)
  ultimately show ?thesis using s(1) b(1,3) by (auto simp: halves_ok_def assms(3) s(2))
qed

lemma inner_halves:
  assumes "ginv S G h" "n < next_page h" "pages h n = BTreeInner ks cs" "4 \<le> length ks"
  shows "\<exists>lks lcs sep rks rcs. inner_split ks cs = Some ((lks, lcs), sep, (rks, rcs)) \<and>
    halves_ok S G h n (BTreeInner lks lcs) sep (BTreeInner rks rcs)"
proof -
  note b = inner_page [OF assms(1-3)]
  obtain m where m: "m < length ks - 1" "0 < m"
    "inner_split ks cs = Some ((take m ks, take (Suc m) cs), ks ! m, (drop (Suc m) ks, drop (Suc m) cs))"
    using inner_split_ok [of ks cs] assms(4) b(3) by auto
  have mk: "m < length ks" "Suc m < length ks" using m(1) by auto
  have k: "covers (iv G n) (ks ! j)" if "j < length ks" for j using b(2) that by (simp add: seps_ok_def)
  have "ks ! m < ks ! Suc m" using b(2) mk by (simp add: seps_ok_def sorted_wrt_iff_nth_less)
  then have "halves_ok S G h n (BTreeInner (take m ks) (take (Suc m) cs)) (ks ! m) (BTreeInner (drop (Suc m) ks) (drop (Suc m) cs))"
    using k [OF mk(1)] k [OF mk(2)] m(2) mk b seps_ok_split [OF b(2) mk(1)] child_iv_split_left [OF mk(1)] child_iv_split_right [OF mk(1)]
    by (auto simp: halves_ok_def assms(3))
  then show ?thesis using m(3) by blast
qed

text \<open>The ghost after a split: the old page keeps the lower part of its interval.\<close>

definition split_ghost :: "'k ghost \<Rightarrow> addr \<Rightarrow> addr \<Rightarrow> 'k \<Rightarrow> 'k ghost" where
  "split_ghost G n new sep =
     G\<lparr>iv := (iv G)(n := (fst (iv G n), Some sep), new := (Some sep, snd (iv G n))), lvl := (lvl G)(new := lvl G n)\<rparr>"

definition split_heap :: "('k, 'v) heap \<Rightarrow> addr \<Rightarrow> ('k, 'v) page \<Rightarrow> ('k, 'v) page \<Rightarrow> ('k, 'v) heap" where
  "split_heap h n pl pr = set_page (fst (new_page h pr)) n pl"

lemma split_heap_simps:
  "n \<noteq> next_page h \<Longrightarrow> pages (split_heap h n pl pr) = (pages h)(n := pl, next_page h := pr)"
  "next_page (split_heap h n pl pr) = Suc (next_page h)" "root (split_heap h n pl pr) = root h"
  "versions (split_heap h n pl pr) = (versions h)(next_page h := initial_version)"
  by (auto simp: split_heap_def set_page_def new_page_def Let_def)

lemma split_covers:
  assumes "covers (iv G n) sep" "n \<noteq> new"
  shows "covers (iv (split_ghost G n new sep) n) k \<longleftrightarrow> covers (iv G n) k \<and> k \<le> sep"
    "covers (iv (split_ghost G n new sep) new) k \<longleftrightarrow> covers (iv G n) k \<and> sep < k"
    "a \<noteq> n \<Longrightarrow> a \<noteq> new \<Longrightarrow> iv (split_ghost G n new sep) a = iv G a"
    "a \<noteq> new \<Longrightarrow> lvl (split_ghost G n new sep) a = lvl G a" "lvl (split_ghost G n new sep) new = lvl G n"
  using assms by (auto simp: split_ghost_def covers_def intro: order.trans order.strict_trans1)

text \<open>
  Pages other than the parent do not notice: the split page is a child of its parent only.
\<close>

lemma split_others:
  assumes "ginv S G h" "n < next_page h" "halves_ok S G h n pl sep pr" "a < next_page h" "a \<noteq> n" "n \<notin> page_children (pages h a)"
  shows "body_ok S (split_ghost G n (next_page h) sep) (Suc (next_page h)) (iv G a) (lvl G a) (pages h a)"
  using ginv_page [OF assms(1,4)]
proof (rule body_ok_cong)
  show "\<forall>c \<in> page_children (pages h a). c < next_page h \<longrightarrow>
      iv (split_ghost G n (next_page h) sep) c = iv G c \<and> lvl (split_ghost G n (next_page h) sep) c = lvl G c"
    using assms(6) by (auto simp: split_ghost_def)
qed simp

lemma children_level:
  assumes "body_ok S G N b l pg" "c \<in> page_children pg"
  shows "l = Suc (lvl G c) \<and> c < N"
proof (cases pg)
  case (BTreeInner ks cs)
  then obtain i where "i < length cs" "c = cs ! i" using assms(2) by (auto simp: in_set_conv_nth)
  then show ?thesis using assms(1) by (simp add: BTreeInner)
qed (use assms in simp)

lemma split_halves:
  assumes "ginv S G h" "n < next_page h" "halves_ok S G h n pl sep pr"
  shows "body_ok S (split_ghost G n (next_page h) sep) (Suc (next_page h)) (fst (iv G n), Some sep) (lvl G n) pl"
    "body_ok S (split_ghost G n (next_page h) sep) (Suc (next_page h)) (Some sep, snd (iv G n)) (lvl G n) pr"
proof -
  have b: "body_ok S G (next_page h) (fst (iv G n), Some sep) (lvl G n) pl"
    "body_ok S G (next_page h) (Some sep, snd (iv G n)) (lvl G n) pr" using assms(3) by (simp_all add: halves_ok_def)
  have "c \<noteq> n \<and> c < next_page h" if "c \<in> page_children pl \<union> page_children pr" for c
    using children_level [OF b(1), of c] children_level [OF b(2), of c] that by fastforce
  then have "\<forall>c \<in> page_children pl \<union> page_children pr.
      iv (split_ghost G n (next_page h) sep) c = iv G c \<and> lvl (split_ghost G n (next_page h) sep) c = lvl G c"
    by (auto simp: split_ghost_def)
  then show "body_ok S (split_ghost G n (next_page h) sep) (Suc (next_page h)) (fst (iv G n), Some sep) (lvl G n) pl"
    "body_ok S (split_ghost G n (next_page h) sep) (Suc (next_page h)) (Some sep, snd (iv G n)) (lvl G n) pr"
    by (intro body_ok_cong [OF b(1)] body_ok_cong [OF b(2)]; simp)+
qed

lemma split_disjoint:
  assumes "ginv S G h" "n < next_page h" "covers (iv G n) sep" "a < Suc (next_page h)" "b < Suc (next_page h)" "a \<noteq> b"
    "lvl (split_ghost G n (next_page h) sep) a = lvl (split_ghost G n (next_page h) sep) b"
  shows "\<not> (covers (iv (split_ghost G n (next_page h) sep) a) k \<and> covers (iv (split_ghost G n (next_page h) sep) b) k)"
proof -
  let ?G = "split_ghost G n (next_page h) sep"
  define f where "f a = (if a = next_page h then n else a)" for a
  have nn: "n \<noteq> next_page h" using assms(2) by simp
  note sc = split_covers [OF assms(3) nn]
  have f: "f x < next_page h" "lvl G (f x) = lvl ?G x" if "x < Suc (next_page h)" for x
    using that sc assms(2) by (auto simp: f_def)
  have fc: "covers (iv ?G x) k \<Longrightarrow> covers (iv G (f x)) k" for x
    using sc(1-3) nn by (cases "x = n"; cases "x = next_page h") (auto simp: f_def)
  show ?thesis
  proof (cases "f a = f b")
    case True
    then have "{a, b} = {n, next_page h}" using assms(6) by (auto simp: f_def split: if_splits)
    then show ?thesis using sc(1,2) [of k] assms(6) by (auto simp: doubleton_eq_iff)
  next
    case False
    then show ?thesis using ginv_disjoint [OF assms(1) f(1) [OF assms(4)] f(1) [OF assms(5)]] f(2) fc assms(4,5,7) by metis
  qed
qed

text \<open>The pairs of a leaf are found in its halves.\<close>

lemma split_maps:
  assumes "ginv S G h" "n < next_page h" "halves_ok S G h n pl sep pr"
    "ginv S G' h'" "next_page h < next_page h'"
    "\<forall>a. iv G' a = iv (split_ghost G n (next_page h) sep) a \<or> next_page h < a"
    "\<forall>a < next_page h. a \<noteq> n \<longrightarrow> \<not> is_inner (pages h a) \<longrightarrow> pages h' a = pages h a"
    "pages h' n = pl" "pages h' (next_page h) = pr"
  shows "maps h' k r \<longleftrightarrow> maps h k r"
proof -
  have nn: "n \<noteq> next_page h" using assms(2) by simp
  have hv: "covers (iv G n) sep" "is_inner pl = is_inner (pages h n)" "is_inner pr = is_inner (pages h n)"
    "leaf_data (pages h n) = leaf_data pl @ leaf_data pr" using assms(3) by (simp_all add: halves_ok_def)
  note sc = split_covers [OF hv(1) nn]
  obtain l where l: "l < next_page h" "\<not> is_inner (pages h l)" "covers (iv G l) k" using maps_ex [OF assms(1)] by blast
  note m = maps_leaf [OF assms(1) l, of r]
  show ?thesis
  proof (cases "l = n")
    case False
    have "iv G' l = iv G l" using assms(6) sc(3) [of l] False l(1) by (metis less_irrefl order_less_trans)
    then show ?thesis using maps_leaf [OF assms(4), of l k r] m l assms(5,7) False by simp
  next
    case True
    have p: "pl = BTreeLeaf (leaf_data pl) (leaf_next pl)" "pr = BTreeLeaf (leaf_data pr) (leaf_next pr)"
      using hv(2,3) l(2) True by (cases pl; cases pr; simp)+
    have b: "\<forall>x \<in> set (leaf_data pl). fst x \<le> sep" "\<forall>x \<in> set (leaf_data pr). sep < fst x"
      using assms(3) p by (auto simp: halves_ok_def covers_def) (metis body_ok.simps(1) covers_def snd_conv fst_conv)+
    have i: "iv G' n = iv (split_ghost G n (next_page h) sep) n"
      "iv G' (next_page h) = iv (split_ghost G n (next_page h) sep) (next_page h)"
      using assms(2,6) by (metis less_asym, metis less_irrefl)
    show ?thesis
    proof (cases "k \<le> sep")
      case True
      then have "map_of (leaf_data pr) k = None" using b(2) by (auto simp: map_of_eq_None_iff)
      then have "map_of (leaf_data (pages h n)) k = map_of (leaf_data pl) k"
        unfolding hv(4) map_of_append by (simp add: map_add_def split: option.split)
      then show ?thesis using maps_leaf [OF assms(4), of n k r] m hv(2) l \<open>l = n\<close> assms(2,5,8) sc(1) i(1) True by simp
    next
      case False
      then have "map_of (leaf_data pl) k = None" using b(1) by (auto simp: map_of_eq_None_iff)
      then have "map_of (leaf_data (pages h n)) k = map_of (leaf_data pr) k"
        unfolding hv(4) map_of_append by (simp add: map_add_def)
      then show ?thesis using maps_leaf [OF assms(4), of "next_page h" k r] m hv(3) l \<open>l = n\<close> assms(2,5,9) sc(2) i(2) False by simp
    qed
  qed
qed

text \<open>What a split leaves alone.\<close>

definition split_frame :: "('k, 'v) heap \<Rightarrow> 'k ghost \<Rightarrow> ('k, 'v) heap \<Rightarrow> 'k ghost \<Rightarrow> addr \<Rightarrow> addr option \<Rightarrow> bool" where
  "split_frame h G h' G' n par \<longleftrightarrow>
     next_page h \<le> next_page h' \<and>
     (\<forall>a < next_page h. versions h' a = versions h a \<and> is_inner (pages h' a) = is_inner (pages h a) \<and>
        (a \<noteq> n \<longrightarrow> iv G' a = iv G a \<and> (par \<noteq> Some a \<longrightarrow> pages h' a = pages h a))) \<and>
     (\<forall>a. next_page h \<le> a \<longrightarrow> a < next_page h' \<longrightarrow> versions h' a = initial_version) \<and>
     (par \<noteq> None \<longrightarrow> root h' = root h)"

definition root_ghost :: "'k ghost \<Rightarrow> addr \<Rightarrow> nat \<Rightarrow> 'k ghost" where
  "root_ghost G a l = G\<lparr>iv := (iv G)(a := (None, None)), lvl := (lvl G)(a := l)\<rparr>"

lemma split_root_ok:
  assumes "ginv S G h" "n = root h" "halves_ok S G h n pl sep pr" "5 \<le> innerMax S"
  defines "G' \<equiv> root_ghost (split_ghost G n (next_page h) sep) (Suc (next_page h)) (Suc (lvl G n))"
  defines "h' \<equiv> makeRoot (split_heap h n pl pr) sep n (next_page h)"
  shows "ginv S G' h' \<and> split_frame h G h' G' n None \<and> (\<forall>k r. maps h' k r \<longleftrightarrow> maps h k r)"
proof -
  let ?G = "split_ghost G n (next_page h) sep"
  have n: "n < next_page h" "iv G n = (None, None)" "n \<noteq> next_page h" using assms(1,2) by (auto simp: ginv_def)
  have cov: "covers (iv G n) sep" using n(2) by simp
  note sc = split_covers [OF cov n(3)]
  have h': "root h' = Suc (next_page h)" "next_page h' = Suc (Suc (next_page h))"
    "pages h' = (pages h)(n := pl, next_page h := pr, Suc (next_page h) := BTreeInner [sep] [n, next_page h])"
    "versions h' = (versions h)(next_page h := initial_version, Suc (next_page h) := initial_version)"
    using n(3) by (auto simp: h'_def makeRoot_def new_page_def split_heap_simps Let_def)
  have iv': "iv G' a = (if a = Suc (next_page h) then (None, None) else iv ?G a)"
    "lvl G' a = (if a = Suc (next_page h) then Suc (lvl G n) else lvl ?G a)" for a
    by (simp_all add: G'_def root_ghost_def)
  have ghost: "body_ok S ?G (Suc (next_page h)) b l pg \<Longrightarrow> body_ok S G' (next_page h') b l pg" for b l and pg :: "('a, 'b) page"
    by (erule body_ok_cong) (auto simp: h'(2) iv')
  have lv: "lvl G a \<le> lvl G n" if "a < next_page h" for a using assms(1,2) that by (simp add: ginv_def)
  have pg: "page_ok S G' h' a \<and> lvl G' a \<le> lvl G' (root h')" if a: "a < next_page h'" for a
  proof -
    consider "a = Suc (next_page h)" | "a = next_page h" | "a = n" | "a < next_page h" "a \<noteq> n"
      using a unfolding h'(2) by linarith
    then show ?thesis
    proof cases
      case 1
      have "child_iv (None, None) [sep] i = iv ?G ([n, next_page h] ! i)" if "i \<le> 1" for i
        using that n(2,3) by (cases i) (auto simp: child_iv_def split_ghost_def)
      then show ?thesis using 1 n assms(4) sc(4) [of n] sc(5) by (auto simp: page_ok_def h' iv' seps_ok_def le_Suc_eq)
    next
      case 2
      then show ?thesis using ghost [OF split_halves(2) [OF assms(1) n(1) assms(3)]] sc n(3)
        by (auto simp: page_ok_def h'(1,3) iv' split_ghost_def)
    next
      case 3
      then show ?thesis using ghost [OF split_halves(1) [OF assms(1) n(1) assms(3)]] sc n(1,3)
        by (auto simp: page_ok_def h'(1,3) iv' split_ghost_def)
    next
      case 4
      have "n \<notin> page_children (pages h a)"
        using children_level [OF ginv_page [OF assms(1) 4(1)], of n] lv [OF 4(1)] by auto
      from ghost [OF split_others [OF assms(1) n(1) assms(3) 4 this]] show ?thesis
        using 4 sc(3,4) [of a] lv [OF 4(1)] by (simp add: page_ok_def h'(1,3) iv')
    qed
  qed
  have "\<not> (covers (iv G' a) k \<and> covers (iv G' b) k)" if ab: "a < next_page h'" "b < next_page h'" "a \<noteq> b" "lvl G' a = lvl G' b" for a b k
  proof -
    have less: "lvl ?G x < Suc (lvl G n)" if "x < Suc (next_page h)" for x
      using that lv [of x] sc(4,5) by (cases "x = next_page h") (auto simp: less_Suc_eq_le)
    have "a < Suc (next_page h)" "b < Suc (next_page h)" using ab less [of a] less [of b] by (auto simp: h'(2) iv' less_Suc_eq split: if_splits)
    then show ?thesis using split_disjoint [OF assms(1) n(1) cov, of a b k] ab(3,4) by (simp add: iv')
  qed
  then have g: "ginv S G' h'" using pg by (auto simp: ginv_def h'(1,2) iv')
  have "maps h' k r \<longleftrightarrow> maps h k r" for k r
    by (rule split_maps [OF assms(1) n(1) assms(3) g]) (use n(1,3) in \<open>auto simp: h' iv'\<close>)
  moreover have "split_frame h G h' G' n None"
    using assms(3) n by (auto simp: split_frame_def h' iv' halves_ok_def less_Suc_eq split_ghost_def)
  ultimately show ?thesis using g by blast
qed

lemma split_parent_ok:
  assumes "ginv S G h" "n < next_page h" "halves_ok S G h n pl sep pr" "p < next_page h" "pages h p = BTreeInner ks cs"
    "length ks < innerMax S - 1" "child (pages h p) k = Some n" "covers (iv G p) k"
  defines "G' \<equiv> split_ghost G n (next_page h) sep"
  shows "\<exists>h'. link_page S (split_heap h n pl pr) (Some p) sep n (next_page h) = Some h' \<and>
    ginv S G' h' \<and> split_frame h G h' G' n (Some p) \<and> (\<forall>k r. maps h' k r \<longleftrightarrow> maps h k r)"
proof -
  have nn: "n \<noteq> next_page h" using assms(2) by simp
  have hv: "covers (iv G n) sep" "is_inner pl = is_inner (pages h n)" using assms(3) by (simp_all add: halves_ok_def)
  note sc = split_covers [OF hv(1) nn, folded G'_def]
  note P = inner_page [OF assms(1,4,5)]
  obtain i where i: "i \<le> length ks" "cs ! i = n" "iv G n = child_iv (iv G p) ks i" "lvl G p = Suc (lvl G n)"
    using child_ok [OF assms(1,4,8,5)] assms(7) by auto
  have pn: "p \<noteq> n" "p \<noteq> next_page h" using i(4) assms(4) by auto
  have seps: "sorted_wrt (<) ks" "covers (child_iv (iv G p) ks i) sep" using P(2) hv(1) by (simp_all add: seps_ok_def i(3))
  have lt: "i < length ks \<longrightarrow> sep < ks ! i"
  proof
    assume "i < length ks"
    obtain x where x: "sep < x" "covers (iv G n) x" using assms(3) by (auto simp: halves_ok_def)
    then have "x \<le> ks ! i" using \<open>i < length ks\<close> by (simp add: i(3) covers_def child_iv_def)
    with x(1) show "sep < ks ! i" by simp
  qed
  let ?ks = "take i ks @ sep # drop i ks" and ?cs = "take (Suc i) cs @ next_page h # drop (Suc i) cs"
  define h' where "h' = set_page (split_heap h n pl pr) p (BTreeInner ?ks ?cs)"
  have link: "link_page S (split_heap h n pl pr) (Some p) sep n (next_page h) = Some h'"
    using inner_insert_ok [OF seps(1) P(3) assms(6) P(1) i(1) seps(2), of "next_page h"] pn nn
    by (simp add: link_page_def split_heap_simps assms(5) h'_def)
  have h': "root h' = root h" "next_page h' = Suc (next_page h)"
    "pages h' = (pages h)(n := pl, next_page h := pr, p := BTreeInner ?ks ?cs)"
    "versions h' = (versions h)(next_page h := initial_version)"
    using nn by (auto simp: h'_def set_page_def split_heap_simps)
  have only: "cs ! j \<noteq> n" if "j \<le> length ks" "j \<noteq> i" for j
    using parent_unique [OF assms(1,4,4,5,5) that(1) i(1), of sep] i(2) hv(1) that(2) by auto
  have old: "iv G' (cs ! j) = child_iv (iv G p) ks j" "lvl G p = Suc (lvl G' (cs ! j))" "cs ! j < Suc (next_page h)"
    if "j \<le> length ks" "j \<noteq> i" for j
    using P(5) [rule_format, OF that(1)] only [OF that] sc(3,4) [of "cs ! j"] by auto
  have par: "body_ok S G' (next_page h') (iv G p) (lvl G p) (BTreeInner ?ks ?cs)"
  proof -
    have "?cs ! j < next_page h' \<and> iv G' (?cs ! j) = child_iv (iv G p) ?ks j \<and> lvl G p = Suc (lvl G' (?cs ! j))"
      if j: "j \<le> length ?ks" for j
    proof -
      have len: "length cs = Suc (length ks)" by (rule P(3))
      have j': "j \<le> Suc (length ks)" using j i(1) by simp
      consider "j < i" | "j = i" | "j = Suc i" | "Suc i < j" by linarith
      then show ?thesis
      proof cases
        case 1
        then have "?cs ! j = cs ! j" using i(1) len by (simp add: nth_append)
        then show ?thesis using old [of j] child_iv_insert(1) [OF i(1) 1] 1 i(1) h'(2) by simp
      next
        case 2
        then have "?cs ! j = n" using i(1,2) len by (simp add: nth_append)
        then show ?thesis using child_iv_insert(2) [OF i(1)] sc(4) [OF nn] 2 i(3,4) assms(2) h'(2) nn by (simp add: G'_def split_ghost_def)
      next
        case 3
        then have "?cs ! j = next_page h" using i(1) len by (simp add: nth_append)
        then show ?thesis using child_iv_insert(3) [OF i(1)] sc(5) 3 i(3,4) h'(2) by (simp add: G'_def split_ghost_def)
      next
        case 4
        obtain m where m: "j = Suc m" "i < m" "m \<le> length ks" using 4 j' by (cases j) auto
        then have "?cs ! j = cs ! m" using i(1) len by (simp add: nth_append nth_Cons')
        then show ?thesis using old [of m] child_iv_insert(4) [OF i(1) m(2,3)] m h'(2) by simp
      qed
    qed
    then show ?thesis using seps_ok_insert [OF P(2) i(1) seps(2) lt] P(3) i(1) assms(6) by simp
  qed
  have pg: "page_ok S G' h' a \<and> lvl G' a \<le> lvl G' (root h')" if a: "a < next_page h'" for a
  proof -
    have lv: "lvl G x \<le> lvl G (root h)" if "x < next_page h" for x using assms(1) that by (simp add: ginv_def)
    have r: "lvl G' (root h') = lvl G (root h)" using sc(4) [of "root h"] assms(1) by (simp add: h'(1) ginv_def)
    consider "a = p" | "a = next_page h" | "a = n" | "a < next_page h" "a \<noteq> n" "a \<noteq> p"
      using a unfolding h'(2) by linarith
    then show ?thesis
    proof cases
      case 1
      then show ?thesis using par pn sc(3,4) [of p] lv [OF assms(4)] r by (simp add: page_ok_def h'(3))
    next
      case 2
      then show ?thesis using split_halves(2) [OF assms(1-3)] pn nn sc(5) lv [OF assms(2)] r
        by (simp add: page_ok_def h'(2,3) G'_def) (simp add: split_ghost_def)
    next
      case 3
      then show ?thesis using split_halves(1) [OF assms(1-3)] pn nn sc(4) lv [OF assms(2)] r
        by (simp add: page_ok_def h'(2,3) G'_def) (simp add: split_ghost_def)
    next
      case 4
      have "n \<notin> page_children (pages h a)"
      proof
        assume "n \<in> page_children (pages h a)"
        then obtain ks' cs' where q: "pages h a = BTreeInner ks' cs'" "n \<in> set cs'" by (cases "pages h a") auto
        then obtain j where "j < length cs'" "cs' ! j = n" by (auto simp: in_set_conv_nth)
        then show False using parent_unique [OF assms(1) 4(1) assms(4) q(1) assms(5) _ i(1), of j sep] inner_page(3) [OF assms(1) 4(1) q(1)]
            i(2) hv(1) 4(3) by simp
      qed
      from split_others [OF assms(1-3) 4(1,2) this] show ?thesis
        using 4 sc(3,4) [of a] lv [OF 4(1)] r by (simp add: page_ok_def h'(2,3) G'_def)
    qed
  qed
  have g: "ginv S G' h'"
  proof -
    have "root h \<noteq> n" using i(4) assms(1,4) by (auto simp: ginv_def)
    then have "iv G' (root h) = (None, None)" using assms(1) sc(3) [of "root h"] by (auto simp: ginv_def)
    then show ?thesis using pg split_disjoint [OF assms(1,2) hv(1)] assms(1) by (auto simp: ginv_def h'(1,2) G'_def)
  qed
  have "maps h' k r \<longleftrightarrow> maps h k r" for k r
    by (rule split_maps [OF assms(1-3) g]) (use nn pn assms(5) in \<open>auto simp: h' G'_def\<close>)
  moreover have "split_frame h G h' G' n (Some p)"
    using assms(2,5) hv(2) pn nn sc(3) by (auto simp: split_frame_def h' less_Suc_eq)
  ultimately show ?thesis using g link by blast
qed

text \<open>The two kinds of pages and the two ways to hang in the new page together.\<close>

definition parent_ok :: "sizes \<Rightarrow> 'k::linorder ghost \<Rightarrow> ('k, 'v) heap \<Rightarrow> addr option \<Rightarrow> addr \<Rightarrow> 'k \<Rightarrow> bool" where
  "parent_ok S G h par n k \<longleftrightarrow>
     (case par of None \<Rightarrow> n = root h
      | Some p \<Rightarrow> p < next_page h \<and> is_inner (pages h p) \<and> \<not> isFull S (pages h p) \<and>
          child (pages h p) k = Some n \<and> covers (iv G p) k)"

lemma link_halves:
  assumes "ginv S G h" "n < next_page h" "halves_ok S G h n pl sep pr" "5 \<le> innerMax S" "parent_ok S G h par n k"
  shows "\<exists>h' G'. link_page S (split_heap h n pl pr) par sep n (next_page h) = Some h' \<and>
    ginv S G' h' \<and> split_frame h G h' G' n par \<and> (\<forall>k r. maps h' k r \<longleftrightarrow> maps h k r)"
proof (cases par)
  case None
  then show ?thesis using split_root_ok [OF assms(1) _ assms(3,4)] assms(5) by (auto simp: parent_ok_def link_page_def)
next
  case (Some p)
  then obtain ks cs where p: "p < next_page h" "pages h p = BTreeInner ks cs" "length ks \<noteq> innerMax S - 1"
    "child (pages h p) k = Some n" "covers (iv G p) k"
    using assms(5) by (cases "pages h p") (auto simp: parent_ok_def)
  then have "length ks < innerMax S - 1" using inner_page(4) [OF assms(1) p(1,2)] by simp
  from split_parent_ok [OF assms(1-3) p(1,2) this p(4,5)] show ?thesis by (auto simp: Some)
qed

lemma split_page_ok:
  assumes "sizes_ok S" "ginv S G h" "n < next_page h" "isFull S (pages h n)" "parent_ok S G h par n k"
  shows "\<exists>h' G'. split_page S h n par = Some h' \<and> ginv S G' h' \<and> split_frame h G h' G' n par \<and>
    (\<forall>k r. maps h' k r \<longleftrightarrow> maps h k r)"
proof -
  have im: "5 \<le> innerMax S" "2 \<le> leafMax S" using assms(1) by (simp_all add: sizes_ok_def)
  show ?thesis
  proof (cases "pages h n")
    case (BTreeLeaf data nx)
    then have "2 \<le> length data" using assms(4) im by simp
    from leaf_halves [OF assms(2,3) BTreeLeaf this] obtain l sep r where
      s: "leaf_split data = Some (l, sep, r)" "\<And>x y. halves_ok S G h n (BTreeLeaf l x) sep (BTreeLeaf r y)" by blast
    have "split_page S h n par = link_page S (split_heap h n (BTreeLeaf l (Some (next_page h))) (BTreeLeaf r None)) par sep n (next_page h)"
      by (simp add: split_page_def BTreeLeaf s(1) split_heap_def new_page_def Let_def)
    then show ?thesis using link_halves [OF assms(2,3) s(2) im(1) assms(5)] by simp
  next
    case (BTreeInner ks cs)
    then have "4 \<le> length ks" using assms(4) im by simp
    from inner_halves [OF assms(2,3) BTreeInner this] obtain lks lcs sep rks rcs where
      s: "inner_split ks cs = Some ((lks, lcs), sep, (rks, rcs))"
      "halves_ok S G h n (BTreeInner lks lcs) sep (BTreeInner rks rcs)" by blast
    have "split_page S h n par = link_page S (split_heap h n (BTreeInner lks lcs) (BTreeInner rks rcs)) par sep n (next_page h)"
      by (simp add: split_page_def BTreeInner s(1) split_heap_def new_page_def Let_def)
    then show ?thesis using link_halves [OF assms(2,3) s(2) im(1) assms(5)] by simp
  qed
qed

end
