(* ===== verification/OlcConc.thy ===== *)
theory OlcConc
  imports OlcInv
begin

text \<open>
  Correctness of the tree with optimistic lock coupling under any interleaving of threads.

  \<open>linv\<close> says for every program counter what its thread knows: facts about a page whose lock it
  holds, and facts that are true of a page as long as its version is the one the thread has
  read. \<open>rely\<close> is what a thread may assume of the steps of the others, and \<open>linv_rely\<close> shows that
  such steps keep what it knows; \<open>tstep_ok\<close> shows that each step keeps the invariant of the
  heap, establishes what is known at the next program counter, and is a step the other
  threads may rely on.
\<close>

section \<open>What a thread knows\<close>

fun holds :: "('k, 'v) pc \<Rightarrow> addr set" where
  "holds (LockNode c n v par) = set_option par"
| "holds (CheckRoot c n) = {n}"
| "holds (DoSplit c n par) = insert n (set_option par)"
| "holds (UnlockBoth c n par) = insert n (set_option par)"
| "holds (UnlockRestart c p) = {p}"
| "holds (CheckParent k x n par) = {n}"
| "holds (DoInsert k x n) = {n}"
| "holds (UnlockReturn k x n) = {n}"
| "holds _ = {}"

definition vok :: "('k, 'v) heap \<Rightarrow> addr \<Rightarrow> u64 \<Rightarrow> bool" where
  "vok h n v \<longleftrightarrow> n < next_page h \<and> \<not> isLocked v \<and> unat v \<le> unat (versions h n)"

definition edge :: "sizes \<Rightarrow> 'k::linorder ghost \<Rightarrow> ('k, 'v) heap \<Rightarrow> ('k, 'v) call \<Rightarrow> addr \<Rightarrow> addr \<Rightarrow> bool" where
  "edge S G h c p n \<longleftrightarrow> is_inner (pages h p) \<and> (is_ins c \<longrightarrow> \<not> isFull S (pages h p)) \<and>
     child (pages h p) (key c) = Some n \<and> covers (iv G p) (key c)"

definition way_ok :: "sizes \<Rightarrow> 'k::linorder ghost \<Rightarrow> ('k, 'v) heap \<Rightarrow> ('k, 'v) call \<Rightarrow> addr \<Rightarrow> parent \<Rightarrow> bool" where
  "way_ok S G h c n par \<longleftrightarrow>
     (case par of None \<Rightarrow> True | Some (p, vp) \<Rightarrow> vok h p vp \<and> (versions h p = vp \<longrightarrow> edge S G h c p n))"

definition node_inv :: "sizes \<Rightarrow> 'k::linorder ghost \<Rightarrow> ('k, 'v) heap \<Rightarrow> ('k, 'v) call \<Rightarrow> addr \<Rightarrow> u64 \<Rightarrow> parent \<Rightarrow> bool" where
  "node_inv S G h c n v par \<longleftrightarrow>
     vok h n v \<and> way_ok S G h c n par \<and> (par = None \<longrightarrow> versions h n = v \<longrightarrow> covers (iv G n) (key c))"

fun linv :: "sizes \<Rightarrow> 'k::linorder ghost \<Rightarrow> ('k, 'v) heap \<Rightarrow> ('k, 'v) pc \<Rightarrow> bool" where
  "linv S G h (RootLoaded c n) \<longleftrightarrow> n < next_page h"
| "linv S G h (RootVersion c n v) \<longleftrightarrow> vok h n v"
| "linv S G h (Loop c n v par) \<longleftrightarrow> node_inv S G h c n v par"
| "linv S G h (Descend c n v par) \<longleftrightarrow> node_inv S G h c n v par \<and> is_inner (pages h n) \<and>
     (is_ins c \<longrightarrow> versions h n = v \<longrightarrow> \<not> isFull S (pages h n))"
| "linv S G h (Search c n v) \<longleftrightarrow> vok h n v \<and> is_inner (pages h n) \<and>
     (versions h n = v \<longrightarrow> covers (iv G n) (key c) \<and> (is_ins c \<longrightarrow> \<not> isFull S (pages h n)))"
| "linv S G h (ChildRead c n v m) \<longleftrightarrow> vok h n v \<and> (versions h n = v \<longrightarrow> edge S G h c n m)"
| "linv S G h (ChildChecked c n v m) \<longleftrightarrow> m < next_page h \<and> vok h n v \<and> (versions h n = v \<longrightarrow> edge S G h c n m)"
| "linv S G h (LockParent c n v par) \<longleftrightarrow> node_inv S G h c n v par \<and> is_ins c \<and> (versions h n = v \<longrightarrow> isFull S (pages h n))"
| "linv S G h (LockNode c n v par) \<longleftrightarrow> vok h n v \<and> is_ins c \<and> (versions h n = v \<longrightarrow> isFull S (pages h n)) \<and>
     (\<forall>p. par = Some p \<longrightarrow> p < next_page h \<and> edge S G h c p n)"
| "linv S G h (CheckRoot c n) \<longleftrightarrow> n < next_page h \<and> isFull S (pages h n)"
| "linv S G h (DoSplit c n par) \<longleftrightarrow> n < next_page h \<and> isFull S (pages h n) \<and> parent_ok S G h par n (key c)"
| "linv S G h (UnlockBoth c n par) \<longleftrightarrow> n < next_page h \<and> (\<forall>p. par = Some p \<longrightarrow> p < next_page h \<and> p \<noteq> n)"
| "linv S G h (UnlockRestart c p) \<longleftrightarrow> p < next_page h"
| "linv S G h (LockLeaf k x n v par) \<longleftrightarrow> node_inv S G h (Ins k x) n v par \<and> \<not> is_inner (pages h n) \<and>
     (versions h n = v \<longrightarrow> \<not> isFull S (pages h n))"
| "linv S G h (CheckParent k x n par) \<longleftrightarrow> n < next_page h \<and> \<not> is_inner (pages h n) \<and> \<not> isFull S (pages h n) \<and>
     way_ok S G h (Ins k x) n par \<and> (par = None \<longrightarrow> covers (iv G n) k)"
| "linv S G h (DoInsert k x n) \<longleftrightarrow> n < next_page h \<and> \<not> is_inner (pages h n) \<and> \<not> isFull S (pages h n) \<and> covers (iv G n) k"
| "linv S G h (UnlockReturn k x n) \<longleftrightarrow> n < next_page h"
| "linv S G h (ValueRead k n v par r) \<longleftrightarrow> node_inv S G h (Look k) n v par \<and> \<not> is_inner (pages h n) \<and>
     (versions h n = v \<longrightarrow> r = leaf_find (leaf_data (pages h n)) k)"
| "linv S G h (CheckLeaf k n v r) \<longleftrightarrow> vok h n v \<and> \<not> is_inner (pages h n) \<and>
     (versions h n = v \<longrightarrow> covers (iv G n) k \<and> r = leaf_find (leaf_data (pages h n)) k)"
| "linv S G h Crashed \<longleftrightarrow> False"
| "linv S G h _ \<longleftrightarrow> True"

section \<open>What a thread relies on\<close>

definition rely :: "'k ghost \<Rightarrow> ('k, 'v) heap \<Rightarrow> 'k ghost \<Rightarrow> ('k, 'v) heap \<Rightarrow> addr set \<Rightarrow> bool" where
  "rely G h G' h' H \<longleftrightarrow>
     next_page h \<le> next_page h' \<and>
     (\<forall>a < next_page h. unat (versions h a) \<le> unat (versions h' a) \<and> is_inner (pages h' a) = is_inner (pages h a) \<and>
        (\<not> isLocked (versions h a) \<or> a \<in> H \<longrightarrow> pages h' a = pages h a \<and> iv G' a = iv G a) \<and>
        (a \<in> H \<longrightarrow> versions h' a = versions h a)) \<and>
     (root h \<in> H \<longrightarrow> root h' = root h)"

lemma rely_vok: "rely G h G' h' H \<Longrightarrow> vok h n v \<Longrightarrow> vok h' n v"
  by (auto simp: rely_def vok_def intro: order.trans)

lemma rely_next: "rely G h G' h' H \<Longrightarrow> n < next_page h \<Longrightarrow> n < next_page h'"
  by (simp add: rely_def)

lemma rely_held:
  "rely G h G' h' H \<Longrightarrow> n < next_page h \<Longrightarrow> n \<in> H \<Longrightarrow> pages h' n = pages h n \<and> iv G' n = iv G n \<and> versions h' n = versions h n"
  by (simp add: rely_def)

lemma rely_type: "rely G h G' h' H \<Longrightarrow> n < next_page h \<Longrightarrow> is_inner (pages h' n) = is_inner (pages h n)"
  by (simp add: rely_def)

text \<open>A page whose version is still the one that was read has not changed.\<close>

lemma rely_cur:
  assumes "rely G h G' h' H" "vok h n v" "versions h' n = v"
  shows "versions h n = v \<and> pages h' n = pages h n \<and> iv G' n = iv G n"
proof -
  have n: "n < next_page h" "\<not> isLocked v" "unat v \<le> unat (versions h n)" using assms(2) by (auto simp: vok_def)
  have "unat (versions h n) \<le> unat v" using assms(1,3) n(1) by (auto simp: rely_def)
  then have "versions h n = v" using n(3) by (simp add: word_unat_eq_iff)
  then show ?thesis using assms(1) n by (auto simp: rely_def)
qed

lemma edge_cong: "pages h' p = pages h p \<Longrightarrow> iv G' p = iv G p \<Longrightarrow> edge S G' h' c p n = edge S G h c p n"
  by (simp add: edge_def)

lemma rely_way: "rely G h G' h' H \<Longrightarrow> way_ok S G h c n par \<Longrightarrow> way_ok S G' h' c n par"
  unfolding way_ok_def using rely_cur [of G h G' h' H] rely_vok [of G h G' h' H] edge_cong [of h' _ h G' G S c n]
  by (auto split: option.splits)

lemma rely_node: "rely G h G' h' H \<Longrightarrow> node_inv S G h c n v par \<Longrightarrow> node_inv S G' h' c n v par"
  unfolding node_inv_def using rely_way rely_vok rely_cur by metis

lemma linv_rely:
  assumes "rely G h G' h' (holds l)" "linv S G h l"
  shows "linv S G' h' l"
proof -
  note R = rely_vok [OF assms(1)] rely_next [OF assms(1)] rely_node [OF assms(1)] rely_type [OF assms(1)] rely_way [OF assms(1)]
  note C = rely_cur [OF assms(1)] and H = rely_held [OF assms(1)]
  have v: "vok h n v \<Longrightarrow> n < next_page h" for n v by (simp add: vok_def)
  show ?thesis
  proof (cases l)
    case (Descend c n v par)
    then show ?thesis using assms(2) R C [of n v] by (auto simp: node_inv_def vok_def)
  next
    case (Search c n v)
    then show ?thesis using assms(2) R C [of n v] v by auto
  next
    case (ChildRead c n v m)
    then show ?thesis using assms(2) R C [of n v] edge_cong [of h' n h G' G] by auto
  next
    case (ChildChecked c n v m)
    then show ?thesis using assms(2) R C [of n v] edge_cong [of h' n h G' G] by auto
  next
    case (LockParent c n v par)
    then show ?thesis using assms(2) R C [of n v] by (auto simp: node_inv_def)
  next
    case (LockNode c n v par)
    then show ?thesis using assms(2) R C [of n v] H edge_cong [of h' _ h G' G] by auto
  next
    case (CheckRoot c n)
    then show ?thesis using assms(2) R H [of n] by auto
  next
    case (DoSplit c n par)
    then show ?thesis using assms R H by (auto simp: parent_ok_def rely_def split: option.splits)
  next
    case (LockLeaf k x n v par)
    then show ?thesis using assms(2) R C [of n v] by (auto simp: node_inv_def vok_def)
  next
    case (CheckParent k x n par)
    then show ?thesis using assms(2) R H [of n] by auto
  next
    case (DoInsert k x n)
    then show ?thesis using assms(2) R H [of n] by auto
  next
    case (ValueRead k n v par r)
    then show ?thesis using assms(2) R C [of n v] by (auto simp: node_inv_def vok_def)
  next
    case (CheckLeaf k n v r)
    then show ?thesis using assms(2) R C [of n v] v by auto
  qed (use assms(2) R in auto)
qed

section \<open>The specification\<close>

text \<open>An atomic map: what a step of a thread means for it.\<close>

datatype ('k, 'v) event = Tau | Inserted 'k 'v | LookedUp 'k "'v option"

fun spec_step :: "('k \<rightharpoonup> 'v) \<Rightarrow> ('k, 'v) event \<Rightarrow> ('k \<rightharpoonup> 'v) \<Rightarrow> bool" where
  "spec_step m Tau m' \<longleftrightarrow> m' = m"
| "spec_step m (Inserted k x) m' \<longleftrightarrow> m' = m(k \<mapsto> x)"
| "spec_step m (LookedUp k r) m' \<longleftrightarrow> m k = r \<and> m' = m"

fun label :: "('k, 'v) pc \<Rightarrow> ('k, 'v) pc \<Rightarrow> ('k, 'v) event" where
  "label (DoInsert k x n) l' = Inserted k x"
| "label (CheckLeaf k n v r) (Returned c b r') = LookedUp k r"
| "label l l' = Tau"

definition repr :: "('k::linorder, 'v) heap \<Rightarrow> ('k \<rightharpoonup> 'v) \<Rightarrow> bool" where
  "repr h m \<longleftrightarrow> (\<forall>k r. maps h k r \<longleftrightarrow> m k = r)"

lemma repr_ex:
  assumes "ginv S G h"
  shows "\<exists>m. repr h m"
proof -
  have "\<exists>r. \<forall>r'. maps h k r' \<longleftrightarrow> r' = r" for k using maps_ex [OF assms, of k] maps_leaf [OF assms] by blast
  then have "\<exists>m. \<forall>k r'. maps h k r' \<longleftrightarrow> r' = m k" by metis
  then show ?thesis by (auto simp: repr_def)
qed

section \<open>Every step keeps its promises\<close>

definition step_ok ::
  "sizes \<Rightarrow> 'k::linorder ghost \<Rightarrow> ('k, 'v) heap \<Rightarrow> ('k, 'v) pc \<Rightarrow> 'k ghost \<Rightarrow> ('k, 'v) heap \<Rightarrow> ('k, 'v) pc \<Rightarrow> bool" where
  "step_ok S G h l G' h' l' \<longleftrightarrow>
     ginv S G' h' \<and> linv S G' h' l' \<and>
     (\<forall>H. H \<subseteq> {a. a < next_page h \<and> isLocked (versions h a)} \<longrightarrow> H \<inter> holds l = {} \<longrightarrow> rely G h G' h' H) \<and>
     (\<forall>a < next_page h'. isLocked (versions h' a) \<longleftrightarrow>
        a \<in> holds l' \<or> (a < next_page h \<and> isLocked (versions h a) \<and> a \<notin> holds l)) \<and>
     (\<forall>a \<in> holds l'. a < next_page h' \<and> (a \<in> holds l \<or> a < next_page h \<and> \<not> isLocked (versions h a))) \<and>
     (\<forall>a < next_page h'. if a < next_page h then unat (versions h' a) \<le> unat (versions h a) + 2 else unat (versions h' a) = 4) \<and>
     (\<forall>m. repr h m \<longrightarrow> (\<exists>m'. repr h' m' \<and> spec_step m (label l l') m'))"

text \<open>What is known of the locks before a step.\<close>

definition locks_ok :: "('k, 'v) heap \<Rightarrow> ('k, 'v) pc \<Rightarrow> bool" where
  "locks_ok h l \<longleftrightarrow> (\<forall>a \<in> holds l. a < next_page h \<and> isLocked (versions h a)) \<and> (\<forall>a < next_page h. unat (versions h a) + 2 < 2 ^ 64)"

lemma set_version_simps [simp]:
  "pages (set_version h a w) = pages h" "root (set_version h a w) = root h" "next_page (set_version h a w) = next_page h"
  "versions (set_version h a w) = (versions h)(a := w)"
  by (simp_all add: set_version_def)

lemma ginv_version [simp]: "ginv S G (set_version h a w) = ginv S G h"
  by (simp add: ginv_def page_ok_def)

lemma routes_version [simp]: "routes (set_version h a w) k b l = routes h k b l"
proof
  show "routes h k b l" if "routes (set_version h a w) k b l" using that
    by (induction rule: routes.induct) (auto intro: routes.intros)
  show "routes (set_version h a w) k b l" if "routes h k b l" using that
    by (induction rule: routes.induct) (auto intro: routes.intros)
qed

lemma repr_version [simp]: "repr (set_version h a w) m = repr h m"
  by (simp add: repr_def maps_def)

lemma edge_version [simp]: "edge S G (set_version h a w) c p n = edge S G h c p n"
  by (simp add: edge_def)

lemma step_quiet:
  assumes "ginv S G h" "locks_ok h l" "holds l' = holds l" "linv S G h l'"
    "\<And>m. repr h m \<Longrightarrow> spec_step m (label l l') m"
  shows "step_ok S G h l G h l'"
  using assms by (auto simp: step_ok_def locks_ok_def rely_def)

lemma step_lock:
  assumes "ginv S G h" "locks_ok h l" "a < next_page h" "\<not> isLocked (versions h a)" "holds l' = insert a (holds l)"
    "linv S G (set_version h a (versions h a + 2)) l'" "label l l' = Tau"
  shows "step_ok S G h l G (set_version h a (versions h a + 2)) l'"
proof -
  have u: "unat (versions h a) + 2 < 2 ^ 64" using assms(2,3) by (simp add: locks_ok_def)
  note f = lock_flips [OF u] unat_add2 [OF u]
  have "rely G h G (set_version h a (versions h a + 2)) H" if "H \<subseteq> {a. a < next_page h \<and> isLocked (versions h a)}" for H
    using that assms(4) f by (auto simp: rely_def)
  then show ?thesis using assms f by (auto simp: step_ok_def locks_ok_def)
qed

lemma step_unlock:
  assumes "ginv S G h" "locks_ok h l" "a \<in> holds l" "holds l' = holds l - {a}" "linv S G (set_version h a (versions h a + 2)) l'"
    "label l l' = Tau"
  shows "step_ok S G h l G (set_version h a (versions h a + 2)) l'"
proof -
  have a: "a < next_page h" "isLocked (versions h a)" using assms(2,3) by (auto simp: locks_ok_def)
  have u: "unat (versions h a) + 2 < 2 ^ 64" using assms(2) a(1) by (simp add: locks_ok_def)
  note f = lock_flips [OF u] unat_add2 [OF u]
  have "rely G h G (set_version h a (versions h a + 2)) H" if "H \<inter> holds l = {}" for H
    using that assms(3) f by (auto simp: rely_def)
  then show ?thesis using assms a f by (auto simp: step_ok_def locks_ok_def)
qed

lemma step_split:
  assumes "sizes_ok S" "ginv S G h" "locks_ok h (DoSplit c n par)" "linv S G h (DoSplit c n par)"
  shows "\<exists>h' G'. split_page S h n par = Some h' \<and> step_ok S G h (DoSplit c n par) G' h' (UnlockBoth c n par)"
proof -
  have n: "n < next_page h" "isFull S (pages h n)" "parent_ok S G h par n (key c)" using assms(4) by auto
  obtain h' G' where s: "split_page S h n par = Some h'" "ginv S G' h'" "split_frame h G h' G' n par"
    "\<And>k r. maps h' k r \<longleftrightarrow> maps h k r" using split_page_ok [OF assms(1,2) n] by blast
  have pn: "p < next_page h \<and> p \<noteq> n" if par: "par = Some p" for p
  proof -
    obtain ks cs where "p < next_page h" "pages h p = BTreeInner ks cs" "child (pages h p) (key c) = Some n" "covers (iv G p) (key c)"
      using n(3) par by (cases "pages h p") (auto simp: parent_ok_def)
    then show ?thesis using child_ok [OF assms(2), of p "key c" ks cs] by auto
  qed
  have nb: "unat (versions h' a) = 4 \<and> \<not> isLocked (versions h' a)" if "next_page h \<le> a" "a < next_page h'" for a
    using s(3) that initial_version_free by (simp add: split_frame_def)
  have fr: "versions h' a = versions h a" "a < next_page h'" if "a < next_page h" for a using s(3) that by (auto simp: split_frame_def)
  have rl: "rely G h G' h' H" if H: "H \<inter> holds (DoSplit c n par) = {}" for H
  proof -
    have "a \<noteq> n" "par \<noteq> Some a" if "\<not> isLocked (versions h a) \<or> a \<in> H" for a
      using that H assms(3) by (auto simp: locks_ok_def)
    moreover have "root h \<notin> H" if "par = None" using that n(3) H by (auto simp: parent_ok_def)
    ultimately show ?thesis using s(3) unfolding rely_def split_frame_def by force
  qed
  have lk: "isLocked (versions h' a) \<longleftrightarrow> a \<in> holds (UnlockBoth c n par) \<or> (a < next_page h \<and> isLocked (versions h a) \<and> a \<notin> holds (DoSplit c n par))"
    if "a < next_page h'" for a
    using that nb [of a] fr [of a] assms(3) by (cases "a < next_page h") (auto simp: locks_ok_def)
  have "step_ok S G h (DoSplit c n par) G' h' (UnlockBoth c n par)"
    unfolding step_ok_def
  proof (intro conjI allI ballI impI)
    show "if a < next_page h then unat (versions h' a) \<le> unat (versions h a) + 2 else unat (versions h' a) = 4"
      if "a < next_page h'" for a using nb [of a] fr [of a] that by simp
  qed (use s(2) rl lk pn fr(2) n(1) in \<open>auto simp: repr_def s(4)\<close>)
  then show ?thesis using s(1) by blast
qed

lemma step_insert:
  assumes "ginv S G h" "locks_ok h (DoInsert k x n)" "linv S G h (DoInsert k x n)"
  shows "\<exists>h'. insert_page S h n k x = Some h' \<and> step_ok S G h (DoInsert k x n) G h' (UnlockReturn k x n)"
proof -
  have n: "n < next_page h" "\<not> is_inner (pages h n)" "\<not> isFull S (pages h n)" "covers (iv G n) k" using assms(3) by auto
  obtain d where d: "insert_page S h n k x = Some (set_page h n (BTreeLeaf d (leaf_next (pages h n))))"
    "ginv S G (set_page h n (BTreeLeaf d (leaf_next (pages h n))))"
    "\<And>y r. maps (set_page h n (BTreeLeaf d (leaf_next (pages h n)))) y r \<longleftrightarrow> (if y = k then r = Some x else maps h y r)"
    using insert_page_ok [OF assms(1) n, of x] by blast
  let ?h = "set_page h n (BTreeLeaf d (leaf_next (pages h n)))"
  have nl: "isLocked (versions h n)" using assms(2) by (simp add: locks_ok_def)
  have "rely G h G ?h H" if "n \<notin> H" for H using that nl n(2) by (auto simp: rely_def set_page_def)
  moreover have "repr ?h (m(k \<mapsto> x))" if "repr h m" for m using that d(3) by (auto simp: repr_def)
  ultimately have "step_ok S G h (DoInsert k x n) G ?h (UnlockReturn k x n)"
    using d(2) n(1) nl by (auto simp: step_ok_def set_page_def)
  then show ?thesis using d(1) by blast
qed

text \<open>What the edge from a valid parent says about the page.\<close>

lemma edge_covers:
  assumes "ginv S G h" "edge S G h c p n" "p < next_page h"
  shows "n < next_page h \<and> covers (iv G n) (key c)"
proof -
  obtain ks cs where "pages h p = BTreeInner ks cs" using assms(2) by (cases "pages h p") (auto simp: edge_def)
  then show ?thesis using child_ok [OF assms(1,3), of "key c" ks cs] assms(2) by (auto simp: edge_def)
qed

lemma way_covers:
  assumes "ginv S G h" "way_ok S G h c n par" "parent_valid h par" "par \<noteq> None"
  shows "covers (iv G n) (key c)"
  using assms edge_covers [OF assms(1)]
  by (auto simp: way_ok_def parent_valid_def readUnlockOrRestart_def vok_def split: option.splits)

lemma node_covers:
  assumes "ginv S G h" "node_inv S G h c n v par" "parent_valid h par" "versions h n = v"
  shows "covers (iv G n) (key c)"
  using assms way_covers [OF assms(1) _ assms(3), of c n] by (cases "par = None") (auto simp: node_inv_def)

lemma search_finds:
  assumes "ginv S G h" "linv S G h (Search c n v)" "versions h n = v"
  shows "child (pages h n) (key c) \<noteq> None"
proof -
  obtain ks cs where "pages h n = BTreeInner ks cs" using assms(2) by (cases "pages h n") auto
  then show ?thesis using child_ok [OF assms(1), of n "key c" ks cs] assms(2,3) by (auto simp: vok_def)
qed

lemma readLock_vok: "readLockOrRestart (versions h n) = Some v \<Longrightarrow> n < next_page h \<Longrightarrow> vok h n v"
  by (auto simp: readLockOrRestart_def vok_def split: if_splits)

lemma upgrade_iff: "upgradeToWriteLockOrRestart cur v = Some w \<longleftrightarrow> cur = v \<and> w = v + 2"
  by (auto simp: upgradeToWriteLockOrRestart_def)

lemma lookup_found:
  assumes "ginv S G h" "linv S G h (CheckLeaf k n v r)" "versions h n = v" "repr h m"
  shows "m k = r"
proof -
  have n: "n < next_page h" "\<not> is_inner (pages h n)" "covers (iv G n) k" "r = leaf_find (leaf_data (pages h n)) k"
    using assms(2,3) by (auto simp: vok_def)
  have "maps h k r" unfolding maps_leaf [OF assms(1) n(1-3)] n(4)
    using leaf_find_ok leaf_level [OF assms(1) n(1,2)] by blast
  then show ?thesis using assms(4) by (simp add: repr_def)
qed

lemma lock_not_stale: "vok h p v \<Longrightarrow> versions h p = v \<Longrightarrow> vok h n w \<Longrightarrow> unat v + 2 < 2 ^ 64 \<Longrightarrow>
    vok (set_version h p (v + 2)) n w \<and> (n = p \<longrightarrow> w \<noteq> v + 2)"
  using lock_flips [of v] unat_add2 [of v] by (auto simp: vok_def)

lemma tstep_ok:
  assumes "sizes_ok S" "ginv S G h" "locks_ok h l" "linv S G h l" "tstep S h l h' l'"
  shows "\<exists>G'. step_ok S G h l G' h' l'"
proof -
  have quiet: "\<exists>G'. step_ok S G h l G' h' l'"
    if "h' = h" "holds l' = holds l" "linv S G h l'" "\<And>m. repr h m \<Longrightarrow> spec_step m (label l l') m"
    using step_quiet [OF assms(2,3) that(2-4)] that(1) by blast
  have lock: "\<exists>G'. step_ok S G h l G' h' l'"
    if "h' = set_version h a (versions h a + 2)" "a < next_page h" "\<not> isLocked (versions h a)" "holds l' = insert a (holds l)"
      "linv S G h' l'" "label l l' = Tau" for a
    using step_lock [OF assms(2,3) that(2-4), unfolded that(1) [symmetric]] that(5,6) by blast
  have unlock: "\<exists>G'. step_ok S G h l G' h' l'"
    if "h' = set_version h a (versions h a + 2)" "a \<in> holds l" "holds l' = holds l - {a}" "linv S G h' l'" "label l l' = Tau" for a
    using step_unlock [OF assms(2,3) that(2,3), unfolded that(1) [symmetric]] that(4,5) by blast
  have big: "unat (versions h a) + 2 < 2 ^ 64" if "a < next_page h" for a using assms(3) that by (simp add: locks_ok_def)
  have rt: "root h < next_page h" "covers (iv G (root h)) k" for k using assms(2) by (simp_all add: ginv_def)
  note node = node_covers [OF assms(2)] and vers = readLock_vok [of h]
  show ?thesis
    using assms(5)
  proof (cases rule: tstep.cases)
    case (root_same n c v)
    then show ?thesis using assms(4) rt by (intro quiet) (auto simp: node_inv_def way_ok_def)
  next
    case (parent_ok par c n v)
    then show ?thesis using assms(4) node by (intro quiet) (auto simp: node_inv_def)
  next
    case (read_child n v c m)
    then show ?thesis using assms(4) by (intro quiet) (auto simp: edge_def)
  next
    case (read_wild n v c)
    then have False using assms(4) search_finds [OF assms(2), of c n v] by simp
    then show ?thesis ..
  next
    case (check_ok n v c m)
    then show ?thesis using assms(4) edge_covers [OF assms(2)]
      by (intro quiet) (auto simp: readUnlockOrRestart_def vok_def)
  next
    case (child_version m w c n v)
    then show ?thesis using assms(4) vers by (intro quiet) (auto simp: node_inv_def way_ok_def)
  next
    case (lock_parent p vp w c n v)
    then have e: "versions h p = vp" "w = versions h p + 2" "vok h p vp" "vok h n v" "edge S G h c p n" "is_ins c"
      using assms(4) by (auto simp: upgrade_iff node_inv_def way_ok_def)
    then show ?thesis
      using lock_parent assms(4) big [of p] lock_not_stale [OF e(3,1,4)] by (intro lock [of p]) (auto simp: vok_def)
  next
    case (lock_node n v w c p)
    then show ?thesis
      using assms(4) by (intro lock [of n]) (auto simp: upgrade_iff vok_def parent_ok_def edge_def)
  next
    case (lock_root n v w c)
    then show ?thesis using assms(4) by (intro lock [of n]) (auto simp: upgrade_iff vok_def)
  next
    case (split n par c)
    then show ?thesis using step_split [OF assms(1,2), of c n par] assms(3,4) by simp
  next
    case (split_wild n par c)
    then show ?thesis using step_split [OF assms(1,2), of c n par] assms(3,4) by simp
  next
    case (unlock_root c n)
    then show ?thesis by (intro unlock [of n]) (auto simp: writeUnlock_def)
  next
    case (unlock_node c n p)
    then show ?thesis using assms(4) by (intro unlock [of n]) (auto simp: writeUnlock_def)
  next
    case (unlock_restart c p)
    then show ?thesis by (intro unlock [of p]) (auto simp: writeUnlock_def)
  next
    case (lock_leaf n v w k x par)
    then have e: "versions h n = v" "w = versions h n + 2" "vok h n v" "way_ok S G h (Ins k x) n par"
      using assms(4) by (auto simp: upgrade_iff node_inv_def)
    have "way_ok S G (set_version h n (v + 2)) (Ins k x) n par"
    proof (cases par)
      case (Some a)
      obtain p vp where a: "a = (p, vp)" by (cases a)
      have "n < next_page h" using e(3) by (simp add: vok_def)
      then show ?thesis using e(4) lock_not_stale [OF e(3,1), of p vp] big [of n] e(1) by (auto simp: way_ok_def Some a)
    qed (simp add: way_ok_def)
    then show ?thesis using lock_leaf e assms(4)
      by (intro lock [of n]) (auto simp: vok_def node_inv_def)
  next
    case (leaf_parent_ok par k x n)
    then show ?thesis using assms(4) way_covers [OF assms(2)] by (intro quiet) fastforce+
  next
    case (insert n k x)
    then show ?thesis using step_insert [OF assms(2), of k x n] assms(3,4) by auto
  next
    case (insert_wild n k x)
    then show ?thesis using step_insert [OF assms(2), of k x n] assms(3,4) by simp
  next
    case (unlock_return k x n)
    then show ?thesis by (intro unlock [of n]) (auto simp: writeUnlock_def)
  next
    case (value_parent_ok par k n v r)
    then show ?thesis using assms(4) node by (intro quiet) (fastforce simp: node_inv_def)+
  next
    case (returns n v r success k)
    then show ?thesis using assms(4) lookup_found [OF assms(2)]
      by (intro quiet) (auto simp: readUnlockOrRestart_def)
  qed (use assms(4) rt vers in \<open>(intro quiet; auto simp: node_inv_def vok_def parent_ok_def)+\<close>)
qed

section \<open>Reachable states\<close>

definition sysinv :: "sizes \<Rightarrow> 'k::linorder ghost \<Rightarrow> nat \<Rightarrow> ('k, 'v) heap \<Rightarrow> (nat \<Rightarrow> ('k, 'v) pc) \<Rightarrow> bool" where
  "sysinv S G n h th \<longleftrightarrow>
     ginv S G h \<and> (\<forall>t. linv S G h (th t)) \<and>
     (\<forall>a < next_page h. isLocked (versions h a) \<longleftrightarrow> (\<exists>t. a \<in> holds (th t))) \<and>
     (\<forall>t. \<forall>a \<in> holds (th t). a < next_page h) \<and>
     (\<forall>t u. t \<noteq> u \<longrightarrow> holds (th t) \<inter> holds (th u) = {}) \<and>
     (\<forall>a < next_page h. unat (versions h a) \<le> 4 + 2 * n)"

lemma reach_move: "reach S n h th \<Longrightarrow> tstep S h (th t) h' l \<Longrightarrow> reach S (Suc n) h' (th(t := l))"
  by (blast intro: reach.step ostep.move)

lemma sysinv_init: "\<exists>G. sysinv S G 0 init_heap (\<lambda>_. Idle)"
proof
  let ?G = "\<lparr>iv = (\<lambda>_. (None, None)), lvl = (\<lambda>_. 0)\<rparr>"
  show "sysinv S ?G 0 init_heap (\<lambda>_. Idle)"
    using initial_version_free by (simp add: sysinv_def init_heap_def ginv_def page_ok_def)
qed

lemma sysinv_locks: "sysinv S G n h th \<Longrightarrow> n < 2 ^ 62 \<Longrightarrow> locks_ok h (th t)"
  unfolding sysinv_def locks_ok_def by fastforce

lemma sysinv_step:
  assumes "sizes_ok S" "sysinv S G n h th" "n < 2 ^ 62" "tstep S h (th t) h' l"
  shows "\<exists>G'. sysinv S G' (Suc n) h' (th(t := l)) \<and> step_ok S G h (th t) G' h' l"
proof -
  have inv: "ginv S G h" "linv S G h (th t)" for t using assms(2) by (auto simp: sysinv_def)
  obtain G' where ok: "step_ok S G h (th t) G' h' l"
    using tstep_ok [OF assms(1) inv(1) sysinv_locks [OF assms(2,3)] inv(2) assms(4)] by blast
  have held: "a < next_page h \<and> isLocked (versions h a)" if "a \<in> holds (th u)" for a u
    using assms(2) that by (auto simp: sysinv_def)
  have dis: "holds (th u) \<inter> holds (th v) = {}" if "u \<noteq> v" for u v using assms(2) that by (auto simp: sysinv_def)
  have g: "ginv S G' h'" "linv S G' h' l"
    and ri: "\<And>H. H \<subseteq> {a. a < next_page h \<and> isLocked (versions h a)} \<Longrightarrow> H \<inter> holds (th t) = {} \<Longrightarrow> rely G h G' h' H"
    and new: "\<And>a. a \<in> holds l \<Longrightarrow> a < next_page h' \<and> (a \<in> holds (th t) \<or> \<not> isLocked (versions h a))"
    using ok by (auto simp: step_ok_def)
  have rl: "rely G h G' h' (holds (th u))" if "u \<noteq> t" for u
    by (rule ri) (use held [of _ u] dis [OF that] in auto)
  have "linv S G' h' ((th(t := l)) u)" for u
    using g(2) linv_rely [OF rl inv(2)] by (cases "u = t") simp_all
  moreover have "isLocked (versions h' a) \<longleftrightarrow> (\<exists>u. a \<in> holds ((th(t := l)) u))" if "a < next_page h'" for a
  proof -
    have "isLocked (versions h' a) \<longleftrightarrow> a \<in> holds l \<or> (a < next_page h \<and> isLocked (versions h a) \<and> a \<notin> holds (th t))"
      using ok that by (simp add: step_ok_def)
    also have "\<dots> \<longleftrightarrow> a \<in> holds l \<or> (\<exists>u. u \<noteq> t \<and> a \<in> holds (th u))"
    proof -
      have "a < next_page h \<Longrightarrow> isLocked (versions h a) \<longleftrightarrow> (\<exists>u. a \<in> holds (th u))" using assms(2) by (simp add: sysinv_def)
      then show ?thesis using dis held by (metis disjoint_iff)
    qed
    finally show ?thesis by auto
  qed
  moreover have "a < next_page h'" if "a \<in> holds ((th(t := l)) u)" for a u
    using that new held [of a u] rely_next [OF ri [of "{}"], of a] by (cases "u = t") auto
  moreover have "holds ((th(t := l)) u) \<inter> holds ((th(t := l)) v) = {}" if "u \<noteq> v" for u v
  proof -
    have "holds l \<inter> holds (th w) = {}" if "w \<noteq> t" for w
    proof -
      have "a \<notin> holds (th w)" if "a \<in> holds l" for a
        using new [OF that] held [of a w] dis [of t w] \<open>w \<noteq> t\<close> by blast
      then show ?thesis by blast
    qed
    then show ?thesis using that dis [OF that] by (cases "u = t"; cases "v = t") auto
  qed
  moreover have "unat (versions h' a) \<le> 4 + 2 * Suc n" if "a < next_page h'" for a
  proof -
    have "if a < next_page h then unat (versions h' a) \<le> unat (versions h a) + 2 else unat (versions h' a) = 4"
      using ok that unfolding step_ok_def by blast
    moreover have "a < next_page h \<Longrightarrow> unat (versions h a) \<le> 4 + 2 * n" using assms(2) unfolding sysinv_def by blast
    ultimately show ?thesis by (simp split: if_splits)
  qed
  ultimately show ?thesis using ok g(1) unfolding sysinv_def by blast
qed

lemma reach_sysinv:
  assumes "sizes_ok S" "reach S n h th" "n \<le> 2 ^ 62"
  shows "\<exists>G. sysinv S G n h th"
  using assms(2,3)
proof (induction rule: reach.induct)
  case start
  show ?case by (rule sysinv_init)
next
  case (step n h th t h' th')
  obtain l where l: "tstep S h (th t) h' l" "th' = th(t := l)" using step.hyps(2) by (cases rule: ostep.cases) auto
  have "n < 2 ^ 62" using step.prems by simp
  moreover obtain G where "sysinv S G n h th" using step.IH step.prems by auto
  ultimately show ?case using sysinv_step [of S G n h th t h' l] assms(1) l by blast
qed

section \<open>Main theorems\<close>


text \<open>
  C20: in every reachable state the lock bit of a page is set exactly while one thread holds the
  page, no two threads hold the same page, and no thread has accessed a slot outside a page.
\<close>

theorem olc_mutual_exclusion:
  assumes "sizes_ok S" "reach S n h th" "n < 2 ^ 62"
  shows "(\<forall>a < next_page h. isLocked (versions h a) \<longleftrightarrow> (\<exists>t. a \<in> holds (th t))) \<and>
    (\<forall>t u a. a \<in> holds (th t) \<longrightarrow> a \<in> holds (th u) \<longrightarrow> t = u) \<and> (\<forall>t. th t \<noteq> Crashed)"
proof -
  obtain G where "sysinv S G n h th" using reach_sysinv [OF assms(1,2)] assms(3) by auto
  then show ?thesis unfolding sysinv_def by (metis disjoint_iff linv.simps(20))
qed

lemma olc_sizes_ok: "sizes_ok (olc_sizes 8 8)"
  by (simp add: sizes_ok_def olc_sizes_def)

text \<open>A run of one insertion up to the moment before it takes effect.\<close>

definition sample_heap :: "(nat, nat) heap" where
  "sample_heap = set_version init_heap 0 6"

definition sample_threads :: "nat \<Rightarrow> (nat, nat) pc" where
  "sample_threads = (\<lambda>_. Idle)(0 := DoInsert 5 50 0)"

lemma sample_reach: "reach (olc_sizes 8 8) 7 sample_heap sample_threads"
proof -
  let ?S = "olc_sizes 8 8" and ?h = "init_heap :: (nat, nat) heap" and ?c = "Ins 5 50 :: (nat, nat) call"
  note run = reach_move [where t = 0 and S = ?S]
  have 1: "reach ?S 1 ?h ((\<lambda>_. Idle)(0 := Restart ?c))"
    using run [OF reach.start] tstep.call [of ?S ?h ?c] by simp
  have 2: "reach ?S 2 ?h ((\<lambda>_. Idle)(0 := RootLoaded ?c 0))"
    using run [OF 1] tstep.load_root [of ?S ?h ?c] by (simp add: init_heap_def numeral_2_eq_2)
  have 3: "reach ?S 3 ?h ((\<lambda>_. Idle)(0 := RootVersion ?c 0 4))"
    using run [OF 2] tstep.root_version [of ?h 0 4 ?S ?c]
    by (simp add: init_heap_def readLockOrRestart_def isLocked_def isObsolete_def initial_version_def numeral_3_eq_3)
  have 4: "reach ?S 4 ?h ((\<lambda>_. Idle)(0 := Loop ?c 0 4 None))"
    using run [OF 3] tstep.root_same [of 0 ?h ?S ?c 4] by (simp add: init_heap_def)
  have 5: "reach ?S 5 ?h ((\<lambda>_. Idle)(0 := LockLeaf 5 50 0 4 None))"
    using run [OF 4] tstep.leaf_open [of ?h 0 4 ?S 5 50 None] by (simp add: init_heap_def olc_sizes_def)
  have 6: "reach ?S 6 sample_heap ((\<lambda>_. Idle)(0 := CheckParent 5 50 0 None))"
    using run [OF 5] tstep.lock_leaf [of ?h 0 4 6 ?S 5 50 None]
    by (simp add: upgradeToWriteLockOrRestart_def sample_heap_def init_heap_def initial_version_def)
  show ?thesis
    using run [OF 6] tstep.leaf_parent_ok [of sample_heap None ?S 5 50 0] by (simp add: parent_valid_def sample_threads_def)
qed


theorem olc_mutual_exclusion_witness: "isLocked (versions sample_heap 0)"
proof -
  have "\<exists>t. 0 \<in> holds (sample_threads t)" by (rule exI [of _ 0]) (simp add: sample_threads_def)
  moreover have "0 < next_page sample_heap" by (simp add: sample_heap_def init_heap_def)
  ultimately show ?thesis using olc_mutual_exclusion [OF olc_sizes_ok sample_reach] by auto
qed

end
