(* ===== verification/OlcScan.thy ===== *)
theory OlcScan
  imports OlcConc
begin

text \<open>
  Range scans of the tree with optimistic lock coupling, without interference of other threads
  (no version check fails then): the descent to the first leaf and the walk along \<open>next_leaf\<close>. A
  split cuts the list of leaves behind the new leaf, since \<open>newLeaf->next_leaf\<close> is never set.
\<close>

section \<open>Definitions\<close>

text \<open>The descent; the fuel bounds the height.\<close>

fun find_leaf :: "nat \<Rightarrow> ('k::linorder, 'v) heap \<Rightarrow> addr \<Rightarrow> 'k \<Rightarrow> addr option" where
  "find_leaf fuel h node k =
     (if is_inner (pages h node) then
        (case fuel of 0 \<Rightarrow> None | Suc f \<Rightarrow> do { c \<leftarrow> child (pages h node) k; find_leaf f h c k })
      else Some node)"

declare find_leaf.simps [simp del]

text \<open>The slots of one leaf, from \<open>pos\<close> on, until \<open>range\<close> (\<open>rng\<close>) pairs have been written.\<close>

definition scan_leaf :: "('k \<times> 'v) list \<Rightarrow> nat \<Rightarrow> nat \<Rightarrow> ('k \<times> 'v) list \<Rightarrow> ('k \<times> 'v) list" where
  "scan_leaf data pos rng out = out @ take (rng - length out) (drop pos data)"

text \<open>
  On an empty leaf \<open>lowerBound\<close> returns 0 or 1, and no slot is read.
\<close>

fun scan_walk :: "nat \<Rightarrow> ('k::linorder, 'v) heap \<Rightarrow> addr option \<Rightarrow> 'k \<Rightarrow> nat \<Rightarrow> ('k \<times> 'v) list \<Rightarrow> ('k \<times> 'v) list option" where
  "scan_walk fuel h None k rng out = Some out"
| "scan_walk 0 h (Some node) k rng out = (if length out < rng then None else Some out)"
| "scan_walk (Suc fuel) h (Some node) k rng out =
     (if length out < rng then
        let data = leaf_data (pages h node);
            pos = (if out = [] then (case lowerBound (keys_of data) k of None \<Rightarrow> 0 | Some p \<Rightarrow> p) else 0)
        in scan_walk fuel h (leaf_next (pages h node)) k rng (scan_leaf data pos rng out)
      else Some out)"

declare scan_walk.simps(3) [simp del]

definition olc_scan :: "('k::linorder, 'v) heap \<Rightarrow> 'k \<Rightarrow> nat \<Rightarrow> ('k \<times> 'v) list option" where
  "olc_scan h k rng =
     do { node \<leftarrow> find_leaf (next_page h) h (root h) k; scan_walk (next_page h) h (Some node) k rng [] }"

section \<open>What a scan sees after a split\<close>

lemma drop_lowerBound:
  assumes "ksorted data"
  shows "drop (case lowerBound (keys_of data) k of None \<Rightarrow> 0 | Some p \<Rightarrow> p) data = filter (\<lambda>x. k \<le> fst x) data"
proof (cases "data = []")
  case False
  obtain p where p: "lowerBound (keys_of data) k = Some p" "first_ge (keys_of data) k p"
    using lowerBound_ok [OF assms, of k] False by auto
  note sp = first_ge_split [OF assms p(2)]
  have "filter (\<lambda>x. k \<le> fst x) (take p data @ drop p data) = drop p data"
    unfolding filter_append using sp(1,2) by (simp add: filter_empty_conv not_le)
  then show ?thesis using p(1) by simp
qed simp

lemma split_leaf_pages:
  assumes "pages h n = BTreeLeaf data nx" "leaf_split data = Some (l, sep, r)" "split_page S h n par = Some h'"
    "n < next_page h" "par \<noteq> Some n" "\<forall>p. par = Some p \<longrightarrow> p < next_page h"
  shows "pages h' n = BTreeLeaf l (Some (next_page h)) \<and> pages h' (next_page h) = BTreeLeaf r None"
proof (cases par)
  case None
  then show ?thesis using assms
    by (auto simp: split_page_def link_page_def makeRoot_def new_page_def set_page_def Let_def)
next
  case (Some p)
  then show ?thesis using assms
    by (auto simp: split_page_def link_page_def new_page_def set_page_def Let_def bind_eq_Some_conv split: page.splits)
qed

lemma scan_walk_first:
  assumes "ksorted data" "pages h n = BTreeLeaf data nx"
  shows "scan_walk (Suc fuel) h (Some n) k rng [] =
    (if 0 < rng then scan_walk fuel h nx k rng (take rng (filter (\<lambda>x. k \<le> fst x) data)) else Some [])"
  by (subst scan_walk.simps(3)) (simp only: assms(2) leaf_data.simps leaf_next.simps Let_def scan_leaf_def
      drop_lowerBound [OF assms(1)] append_Nil list.size diff_zero simp_thms if_True)

lemma scan_walk_last:
  assumes "ksorted data" "pages h n = BTreeLeaf data None"
  shows "scan_walk (Suc fuel) h (Some n) k rng [] = Some (take rng (filter (\<lambda>x. k \<le> fst x) data))"
    "out \<noteq> [] \<Longrightarrow> length out \<le> rng \<Longrightarrow> scan_walk (Suc fuel) h (Some n) k rng out = Some (take rng (out @ data))"
  using drop_lowerBound [OF assms(1), of k] by (auto simp: assms(2) scan_leaf_def scan_walk.simps(3))

text \<open>
  C34: after the split of a leaf that has a successor, a scan that starts at this leaf returns
  only pairs that were in the leaf before, however many are asked for: the new leaf has no
  successor, and all pairs to the right of it are lost for the scan.
\<close>

theorem olc_split_cuts_scan:
  assumes "sizes_ok S" "pages h n = BTreeLeaf data (Some x)" "isFull S (pages h n)" "ksorted data"
    "split_page S h n par = Some h'" "n < next_page h" "par \<noteq> Some n" "\<forall>p. par = Some p \<longrightarrow> p < next_page h"
  shows "scan_walk (Suc (Suc fuel)) h' (Some n) k rng [] = Some (take rng (filter (\<lambda>p. k \<le> fst p) data))"
proof -
  have "2 \<le> length data" using assms(1-3) by (simp add: sizes_ok_def)
  from leaf_split_ok [OF this] obtain l r where
    s: "leaf_split data = Some (l, fst (last l), r)" "data = l @ r" by blast
  note pg = split_leaf_pages [OF assms(2) s(1) assms(5-8)]
  have srt: "ksorted l" "ksorted r" and lt: "\<forall>a \<in> set l. \<forall>b \<in> set r. fst a < fst b"
    using assms(4) by (auto simp: s(2) sorted_wrt_append)
  let ?f = "filter (\<lambda>p. k \<le> fst p)"
  note last = scan_walk_last [OF srt(2), where h = h' and n = "next_page h" and k = k and rng = rng]
  have hd: "scan_walk (Suc (Suc fuel)) h' (Some n) k rng [] =
      (if 0 < rng then scan_walk (Suc fuel) h' (Some (next_page h)) k rng (take rng (?f l)) else Some [])"
    using pg scan_walk_first [OF srt(1)] by blast
  show ?thesis
  proof (cases "?f l = []")
    case True
    then show ?thesis using hd last(1) [where fuel = fuel] pg by (simp add: s(2))
  next
    case False
    then obtain a where "a \<in> set l" "k \<le> fst a" by (auto simp: filter_empty_conv)
    then have "\<forall>b \<in> set r. k \<le> fst b" using lt by force
    then have "?f r = r" by (simp add: filter_True)
    then show ?thesis using hd last(2) [where out = "take rng (?f l)" and fuel = fuel] pg False by (simp add: s(2) min_def)
  qed
qed

theorem olc_split_cuts_scan_witness:
  "\<exists>h'. split_page \<lparr>leafMax = 2, innerMax = 5\<rparr>
      \<lparr>root = 0, pages = (\<lambda>_. BTreeLeaf [(9, 90)] None)(0 := BTreeLeaf [(1, 10), (2, 20)] (Some 1)),
       versions = (\<lambda>_. 4), next_page = 2\<rparr> 0 None = Some h' \<and>
    scan_walk 3 h' (Some 0) (1::nat) 3 [] = Some [(1, 10), (2, 20::nat)]"
proof -
  let ?S = "\<lparr>leafMax = 2, innerMax = 5\<rparr>"
  let ?h = "\<lparr>root = 0, pages = (\<lambda>_. BTreeLeaf [(9, 90)] None)(0 := BTreeLeaf [(1, 10), (2, 20)] (Some 1)),
     versions = (\<lambda>_. 4), next_page = 2\<rparr> :: (nat, nat) heap"
  obtain h' where h': "split_page ?S ?h 0 None = Some h'"
    by (simp add: split_page_def leaf_split_def rd_def link_page_def new_page_def Let_def)
  then show ?thesis
    using olc_split_cuts_scan [of ?S ?h 0 "[(1, 10), (2, 20)]" 1 None h' 1 1 3] by (simp add: sizes_ok_def numeral_eq_Suc)
qed

text \<open>
  \<open>lookup\<close> returns an uninitialised flag when the key is not in the leaf: one lookup on the
  empty tree may return either value, so that a caller can be told that the key was found.
\<close>

theorem olc_lookup_absent_unspecified:
  "\<exists>n th. reach S n (init_heap :: ('k::linorder, 'v) heap) th \<and> th 0 = Returned (Look k) success None"
proof -
  let ?h = "init_heap :: ('k, 'v) heap"
  have h: "root ?h = 0" "versions ?h 0 = initial_version" "pages ?h 0 = BTreeLeaf [] None" by (simp_all add: init_heap_def)
  note go = reach_move [where h' = ?h and t = 0]
  have "reach S 1 ?h ((\<lambda>_. Idle)(0 := Restart (Look k)))"
    using go [OF reach.start] tstep.call [of S ?h "Look k"] by simp
  then have "reach S 2 ?h ((\<lambda>_. Idle)(0 := RootLoaded (Look k) 0))"
    using go tstep.load_root [of S ?h "Look k"] by (fastforce simp: h numeral_2_eq_2)
  then have "reach S 3 ?h ((\<lambda>_. Idle)(0 := RootVersion (Look k) 0 initial_version))"
    using go tstep.root_version [of ?h 0 initial_version S "Look k"] initial_version_free
    by (fastforce simp: h readLockOrRestart_def numeral_3_eq_3)
  then have "reach S 4 ?h ((\<lambda>_. Idle)(0 := Loop (Look k) 0 initial_version None))"
    using go tstep.root_same [of 0 ?h S "Look k" initial_version] by (fastforce simp: h)
  then have "reach S 5 ?h ((\<lambda>_. Idle)(0 := ValueRead k 0 initial_version None None))"
    using go tstep.read_value [of ?h 0 initial_version None k S None] by (fastforce simp: h leaf_find_def split: option.splits)
  then have "reach S 6 ?h ((\<lambda>_. Idle)(0 := CheckLeaf k 0 initial_version None))"
    using go tstep.value_parent_ok [of ?h None S k 0 initial_version None] by (fastforce simp: parent_valid_def)
  then have "reach S 7 ?h ((\<lambda>_. Idle)(0 := Returned (Look k) success None))"
    using go tstep.returns [of ?h 0 initial_version None success S k] by (fastforce simp: h readUnlockOrRestart_def)
  then show ?thesis by fastforce
qed

end
