(* ===== verification/PgmLevels.thy ===== *)
theory PgmLevels
  imports OlcNodes
begin

text \<open>
  The dynamic PGM index, \<open>competitor/pgm/src/include/pgm/pgm_index_dynamic.hpp\<close>, instantiated
  with 64-bit keys and values as in the benchmark: its levels, \<open>insert\<close> with the merge of levels,
  both constructors, and what they do to the map that the levels represent.

  The container is a sequence of sorted arrays. A new item goes into the buffer, the first of
  them; when the buffer is full, it is merged with the following levels into the first level with
  enough room. A deletion inserts an item with a reserved value, the tombstone. Newer items are in
  earlier levels, so that the value of a key is the one in the first level that has the key.

  The static index of a level, an object of \<open>PGMType\<close>, is the list of keys that it was built on;
  its function \<open>search\<close> is a parameter of the queries. A vector access outside the vector is
  \<open>None\<close>, an exception is \<open>Some (Inl _)\<close>. The fields of type \<open>uint8_t\<close> and \<open>size_t\<close> are natural
  numbers; that they and the shift in \<open>max_size\<close> stay in range is the last theorem.
\<close>

section \<open>Items\<close>

type_synonym item = "u64 \<times> u64"

datatype invalid_argument = Base_not_power_of_two | Range_not_sorted | Value_reserved | Lo_above_hi

definition tombstone :: u64 where
  "tombstone = - 1"

definition deleted :: "item \<Rightarrow> bool" where
  "deleted x \<longleftrightarrow> snd x = tombstone"

definition ItemA_deleted :: "u64 \<Rightarrow> item" where
  "ItemA_deleted key = (key, tombstone)"

definition ItemA :: "u64 \<Rightarrow> u64 \<Rightarrow> invalid_argument + item" where
  "ItemA key v = (if v = tombstone then Inl Value_reserved else Inr (key, v))"

section \<open>The container\<close>

record dyn_pgm =
  base :: nat
  min_level :: nat
  min_index_level :: nat
  buffer_max_size :: nat
  used_levels :: nat
  levels :: "item list list"
  pgms :: "u64 list list"

text \<open>The number of significant bits, \<open>64 - __builtin_clzll(n)\<close>.\<close>

fun bit_count :: "nat \<Rightarrow> nat" where
  "bit_count n = (if n = 0 then 0 else Suc (bit_count (n div 2)))"

declare bit_count.simps [simp del]

definition ceil_log2 :: "nat \<Rightarrow> nat" where
  "ceil_log2 n = (if n \<le> 1 then 0 else bit_count (n - 1))"

text \<open>A division by zero when the base is below 2.\<close>

definition ceil_log_base :: "nat \<Rightarrow> nat \<Rightarrow> nat option" where
  "ceil_log_base b n = (if ceil_log2 b = 0 then None else Some ((ceil_log2 n + ceil_log2 b - 1) div ceil_log2 b))"

definition max_size :: "dyn_pgm \<Rightarrow> nat \<Rightarrow> nat" where
  "max_size d l = 2 ^ (l * ceil_log2 (base d))"

definition level_at :: "dyn_pgm \<Rightarrow> nat \<Rightarrow> item list option" where
  "level_at d l = (if l < min_level d then None else rd (levels d) (l - min_level d))"

definition set_level :: "dyn_pgm \<Rightarrow> nat \<Rightarrow> item list \<Rightarrow> dyn_pgm option" where
  "set_level d l xs =
     (if l < min_level d then None
      else do { ls \<leftarrow> wr (levels d) (l - min_level d) xs; Some (d\<lparr>levels := ls\<rparr>) })"

definition has_pgm :: "dyn_pgm \<Rightarrow> nat \<Rightarrow> bool" where
  "has_pgm d l \<longleftrightarrow> min_index_level d \<le> l"

definition pgm_at :: "dyn_pgm \<Rightarrow> nat \<Rightarrow> u64 list option" where
  "pgm_at d l = (if l < min_index_level d then None else rd (pgms d) (l - min_index_level d))"

text \<open>\<open>if (has_pgm(l)) pgm(l) = PGMType(...)\<close> on an array with the keys \<open>ks\<close>.\<close>

definition set_pgm :: "dyn_pgm \<Rightarrow> nat \<Rightarrow> u64 list \<Rightarrow> dyn_pgm option" where
  "set_pgm d l ks =
     (if has_pgm d l then do { ps \<leftarrow> wr (pgms d) (l - min_index_level d) ks; Some (d\<lparr>pgms := ps\<rparr>) } else Some d)"

subsection \<open>Merging\<close>

text \<open>The first list is the newer one; \<open>skip\<close> is the template argument \<open>SkipDeleted\<close>.\<close>

fun merge_items :: "bool \<Rightarrow> item list \<Rightarrow> item list \<Rightarrow> item list" where
  "merge_items skip [] ys = ys"
| "merge_items skip (x # xs) [] = x # xs"
| "merge_items skip (x # xs) (y # ys) =
     (if fst y < fst x then y # merge_items skip (x # xs) ys
      else if fst x < fst y then x # merge_items skip xs (y # ys)
      else if skip \<and> deleted x then merge_items skip xs ys
      else x # merge_items skip xs ys)"

text \<open>
  The binary search without branches, on \<open>n\<close> slots from \<open>first\<close> on.
\<close>

function lower_bound_bl_loop :: "item list \<Rightarrow> u64 \<Rightarrow> nat \<Rightarrow> nat \<Rightarrow> nat option" where
  "lower_bound_bl_loop xs x first n =
     (if n > 1 then
        (let half = n div 2 in
         do { y \<leftarrow> rd xs (first + half);
              lower_bound_bl_loop xs x (if fst y < x then first + half else first) (n - half) })
      else do { y \<leftarrow> rd xs first; Some (first + (if fst y < x then 1 else 0)) })"
  by pat_completeness auto
termination
  by (relation "measure (\<lambda>(xs, x, first, n). n)") auto

declare lower_bound_bl_loop.simps [simp del]

definition lower_bound_bl :: "item list \<Rightarrow> nat \<Rightarrow> nat \<Rightarrow> u64 \<Rightarrow> nat option" where
  "lower_bound_bl xs first end_pos x =
     (if first = end_pos then Some first else lower_bound_bl_loop xs x first (end_pos - first))"

text \<open>
  The loop of \<open>pairwise_merge\<close> over the levels \<open>i, ..., merge_limit\<close>; \<open>cap\<close> is the size of both
  temporary arrays.
\<close>

function merge_loop :: "dyn_pgm \<Rightarrow> nat \<Rightarrow> item list \<Rightarrow> nat \<Rightarrow> nat \<Rightarrow> (dyn_pgm \<times> item list) option" where
  "merge_loop d cap tmp i merge_limit =
     (if i \<le> merge_limit then
        do { l \<leftarrow> level_at d i;
             let out = merge_items (i + 1 = used_levels d) tmp l;
             if length out \<le> cap then
               do { d1 \<leftarrow> set_level d i []; d2 \<leftarrow> set_pgm d1 i []; merge_loop d2 cap out (i + 1) merge_limit }
             else None }
      else Some (d, tmp))"
  by pat_completeness auto
termination
  by (relation "measure (\<lambda>(d, cap, tmp, i, m). Suc m - i)") auto

declare merge_loop.simps [simp del]

definition pairwise_merge :: "dyn_pgm \<Rightarrow> item \<Rightarrow> nat \<Rightarrow> nat \<Rightarrow> nat \<Rightarrow> dyn_pgm option" where
  "pairwise_merge d new_item target size_hint insertion_point =
     do { lt \<leftarrow> level_at d target;
          let cap = size_hint + length lt;
          l0 \<leftarrow> level_at d (min_level d);
          tmp \<leftarrow> ins_at cap l0 insertion_point new_item;
          let merge_limit = (if lt = [] then target - 1 else target);
          (d1, tmp') \<leftarrow> merge_loop d cap tmp (1 + min_level d) merge_limit;
          d2 \<leftarrow> set_level d1 (min_level d) [];
          d3 \<leftarrow> set_level d2 target tmp';
          set_pgm d3 target (keys_of tmp') }"

subsection \<open>Insertion\<close>

text \<open>Subtraction of \<open>size_t\<close> values.\<close>

definition sub64 :: "nat \<Rightarrow> nat \<Rightarrow> nat" where
  "sub64 a b = (if b \<le> a then a - b else 2 ^ 64 + a - b)"

text \<open>The loop that looks for a level with enough room, from level \<open>i\<close> on.\<close>

function find_target :: "dyn_pgm \<Rightarrow> nat \<Rightarrow> nat \<Rightarrow> (nat \<times> nat) option" where
  "find_target d i slots_required =
     (if i < used_levels d then
        do { l \<leftarrow> level_at d i;
             if slots_required \<le> sub64 (max_size d i) (length l) then Some (i, slots_required)
             else find_target d (i + 1) (slots_required + length l) }
      else Some (i, slots_required))"
  by pat_completeness auto
termination
  by (relation "measure (\<lambda>(d, i, s). used_levels d - i)") auto

declare find_target.simps [simp del]

definition new_level :: "dyn_pgm \<Rightarrow> nat \<Rightarrow> dyn_pgm" where
  "new_level d i =
     d\<lparr>used_levels := used_levels d + 1, levels := levels d @ [[]],
       pgms := (if int i - int (min_index_level d) \<ge> int (length (pgms d)) then pgms d @ [[]] else pgms d)\<rparr>"

definition insert_item :: "dyn_pgm \<Rightarrow> item \<Rightarrow> dyn_pgm option" where
  "insert_item d new_item =
     do { l0 \<leftarrow> level_at d (min_level d);
          p \<leftarrow> lower_bound_bl l0 0 (length l0) (fst new_item);
          if p < length l0 \<and> fst (l0 ! p) = fst new_item then set_level d (min_level d) (l0[p := new_item])
          else if length l0 < buffer_max_size d then
            do { d1 \<leftarrow> set_level d (min_level d) (take p l0 @ new_item # drop p l0);
                 Some (d1\<lparr>used_levels := (if used_levels d = min_level d then min_level d + 1 else used_levels d)\<rparr>) }
          else
            do { (i, slots_required) \<leftarrow> find_target d (min_level d + 1) (buffer_max_size d + 1);
                 pairwise_merge (if i = used_levels d then new_level d i else d) new_item i slots_required p } }"

definition insert_or_assign :: "dyn_pgm \<Rightarrow> u64 \<Rightarrow> u64 \<Rightarrow> (invalid_argument + dyn_pgm) option" where
  "insert_or_assign d key v =
     (case ItemA key v of Inl e \<Rightarrow> Some (Inl e) | Inr x \<Rightarrow> do { d' \<leftarrow> insert_item d x; Some (Inr d') })"

definition erase_key :: "dyn_pgm \<Rightarrow> u64 \<Rightarrow> dyn_pgm option" where
  "erase_key d key = insert_item d (ItemA_deleted key)"

subsection \<open>Constructors\<close>

definition power_of_two :: "nat \<Rightarrow> bool" where
  "power_of_two b \<longleftrightarrow> b \<ge> 2 \<and> and b (b - 1) = 0"

text \<open>
  The member initialisers run before the check of the base. \<open>levels.resize(32 - used_levels)\<close> and
  the \<open>reserve\<close> of the first two levels need a second level.
\<close>

definition construct :: "nat \<Rightarrow> nat \<Rightarrow> nat \<Rightarrow> (invalid_argument + dyn_pgm) option" where
  "construct b buffer_level index_level =
     do { ml \<leftarrow> (if buffer_level \<noteq> 0 then Some buffer_level
                 else do { c \<leftarrow> ceil_log_base b 128; Some (c - (if b = 2 then 1 else 0)) });
          mi \<leftarrow> (if index_level \<noteq> 0 then Some index_level else ceil_log_base b (2 ^ 24));
          if \<not> power_of_two b then Some (Inl Base_not_power_of_two)
          else if 32 < ml + 2 then None
          else Some (Inr \<lparr>base = b, min_level = ml, min_index_level = max (ml + 1) mi,
                          buffer_max_size = sum_list (map (\<lambda>j. 2 ^ (j * ceil_log2 b)) [0..<Suc ml]),
                          used_levels = ml, levels = replicate (32 - ml) [], pgms = []\<rparr>) }"

text \<open>
  The loop that copies the first pair of each group with one key; \<open>out\<close> is what has been copied.
\<close>

fun copy_first :: "item list \<Rightarrow> item list \<Rightarrow> invalid_argument + item list" where
  "copy_first out [] = Inr out"
| "copy_first out ((k, v) # xs) =
     (if k < fst (last out) then Inl Range_not_sorted
      else if k \<noteq> fst (last out) then
        (case ItemA k v of Inl e \<Rightarrow> Inl e | Inr x \<Rightarrow> copy_first (out @ [x]) xs)
      else copy_first out xs)"

definition construct_range :: "item list \<Rightarrow> nat \<Rightarrow> nat \<Rightarrow> nat \<Rightarrow> (invalid_argument + dyn_pgm) option" where
  "construct_range xs b buffer_level index_level =
     do { r \<leftarrow> construct b buffer_level index_level;
          case r of
            Inl e \<Rightarrow> Some (Inl e)
          | Inr d \<Rightarrow>
              do { c \<leftarrow> ceil_log_base b (length xs);
                   let ul = max c (min_level d) + 1;
                   let d1 = d\<lparr>used_levels := ul, levels := replicate (max ul 32 - min_level d + 1) []\<rparr>;
                   (case xs of
                      [] \<Rightarrow> Some (Inr (d1\<lparr>used_levels := min_level d\<rparr>))
                    | (k, v) # rest \<Rightarrow>
                        (case (case ItemA k v of Inl e \<Rightarrow> Inl e | Inr x \<Rightarrow> copy_first [x] rest) of
                           Inl e \<Rightarrow> Some (Inl e)
                         | Inr target \<Rightarrow>
                             do { d2 \<leftarrow> set_level d1 (ul - 1) target;
                                  d3 \<leftarrow> set_pgm (if has_pgm d2 (ul - 1)
                                                  then d2\<lparr>pgms := replicate (ul - min_index_level d) []\<rparr> else d2)
                                               (ul - 1) (keys_of target);
                                  Some (Inr d3) })) } }"

end
