(* ===== verification/PgmInsert.thy ===== *)
theory PgmInsert
  imports PgmLevels
begin

text \<open>
  Correctness of insertion into the dynamic PGM index: the invariant of the levels, the map that
  they represent, and that \<open>insert\<close> keeps the one and updates the other.
\<close>

section \<open>The represented map\<close>

text \<open>The item of a key in the first level that has the key.\<close>

fun raw :: "item list list \<Rightarrow> u64 \<rightharpoonup> u64" where
  "raw [] = Map.empty"
| "raw (l # ls) = raw ls ++ map_of l"

definition live :: "(u64 \<rightharpoonup> u64) \<Rightarrow> u64 \<rightharpoonup> u64" where
  "live m k = (case m k of None \<Rightarrow> None | Some v \<Rightarrow> if v = tombstone then None else Some v)"

definition dyn_map :: "dyn_pgm \<Rightarrow> u64 \<rightharpoonup> u64" where
  "dyn_map d = live (raw (levels d))"

lemma raw_append: "raw (xs @ ys) = raw ys ++ raw xs"
  by (induction xs) auto

lemma raw_empty_levels: "\<forall>l \<in> set ls. l = [] \<Longrightarrow> raw ls = Map.empty"
  by (induction ls) auto

lemma live_add: "live (m ++ n) k = (case n k of None \<Rightarrow> live m k | Some v \<Rightarrow> live n k)"
  by (simp add: live_def map_add_def split: option.split)

lemma live_upd: "live (m(k \<mapsto> v)) = (live m)(k := if v = tombstone then None else Some v)"
  by (auto simp: live_def)

section \<open>Logarithms\<close>

lemma bit_count_le: "n < 2 ^ bit_count n"
proof (induction n rule: bit_count.induct)
  case (1 n)
  show ?case
  proof (cases "n = 0")
    case False
    then have "n div 2 < 2 ^ bit_count (n div 2)" by (rule 1)
    then show ?thesis using False by (subst bit_count.simps) (simp; linarith)
  qed (simp add: bit_count.simps)
qed

lemma le_pow_ceil_log2: "n \<le> 2 ^ ceil_log2 n"
  using bit_count_le [of "n - 1"] by (auto simp: ceil_log2_def)

lemma bit_count_mono_less: "m < 2 ^ j \<Longrightarrow> bit_count m \<le> j"
proof (induction m arbitrary: j rule: bit_count.induct)
  case (1 m)
  show ?case
  proof (cases "m = 0")
    case False
    then obtain i where j: "j = Suc i" using 1(2) by (cases j) auto
    then have "m div 2 < 2 ^ i" using 1(2) by simp
    with 1(1) [OF False] have "bit_count (m div 2) \<le> i" by blast
    then show ?thesis using False j by (subst bit_count.simps) simp
  qed (simp add: bit_count.simps)
qed

lemma ceil_log2_le: "n \<le> 2 ^ j \<Longrightarrow> ceil_log2 n \<le> j"
  using bit_count_mono_less [of "n - 1" j] by (cases n) (auto simp: ceil_log2_def)

lemma ceil_log2_pow: "ceil_log2 (2 ^ j) = j"
proof (rule antisym)
  show "ceil_log2 (2 ^ j) \<le> j" by (rule ceil_log2_le) simp
  show "j \<le> ceil_log2 (2 ^ j)" using le_pow_ceil_log2 [of "2 ^ j"] by simp
qed

lemma ceil_log2_pos: "2 \<le> b \<Longrightarrow> 0 < ceil_log2 b"
  using le_pow_ceil_log2 [of b] by (cases "ceil_log2 b") auto

text \<open>A level has room for all levels before it.\<close>

lemma geometric_room: "0 < (g::nat) \<Longrightarrow> Suc (\<Sum>j < n. 2 ^ (j * g)) \<le> 2 ^ (n * g)"
proof (induction n)
  case (Suc n)
  have "(2::nat) * 2 ^ (n * g) \<le> 2 ^ g * 2 ^ (n * g)" using Suc.prems by (intro mult_right_mono) (simp_all add: self_le_power)
  moreover have "Suc (\<Sum>j < n. 2 ^ (j * g)) \<le> 2 ^ (n * g)" using Suc by blast
  ultimately have "Suc (\<Sum>j < n. 2 ^ (j * g)) + 2 ^ (n * g) \<le> 2 ^ g * 2 ^ (n * g)" by linarith
  then show ?case by (simp add: power_add)
qed simp

section \<open>Merging\<close>

lemma set_merge: "set (merge_items s xs ys) \<subseteq> set xs \<union> set ys"
  by (induction s xs ys rule: merge_items.induct) auto

lemma merge_above:
  assumes "\<forall>z \<in> set xs. k < fst z" "\<forall>z \<in> set ys. k < fst z" "z \<in> set (merge_items s xs ys)"
  shows "k < fst z"
  using assms set_merge [of s xs ys] by blast

lemma ksorted_merge: "ksorted xs \<Longrightarrow> ksorted ys \<Longrightarrow> ksorted (merge_items s xs ys)"
proof (induction s xs ys rule: merge_items.induct)
  case (3 s x xs y ys)
  have x: "\<forall>z \<in> set xs. fst x < fst z" "ksorted xs" and y: "\<forall>z \<in> set ys. fst y < fst z" "ksorted ys"
    using 3(5,6) by auto
  show ?case
  proof (cases "fst x" "fst y" rule: linorder_cases)
    case less
    then have "\<forall>z \<in> set (y # ys). fst x < fst z" using y(1) by auto
    then have "\<forall>z \<in> set (merge_items s xs (y # ys)). fst x < fst z" using merge_above [of xs "fst x" "y # ys"] x(1) by blast
    then show ?thesis using 3(2) 3(6) x(2) less by (simp add: less_not_sym)
  next
    case equal
    then have "\<forall>z \<in> set (merge_items s xs ys). fst x < fst z" using merge_above [of xs "fst x" ys] x(1) y(1) by simp
    then show ?thesis using 3(3,4) x(2) y(2) equal by simp
  next
    case greater
    then have "\<forall>z \<in> set (x # xs). fst y < fst z" using x(1) by auto
    then have "\<forall>z \<in> set (merge_items s (x # xs) ys). fst y < fst z" using merge_above [of "x # xs" "fst y" ys] y(1) by blast
    then show ?thesis using 3(1) 3(5) y(2) greater by simp
  qed
qed auto

lemma length_merge_items: "length (merge_items s xs ys) \<le> length xs + length ys"
  by (induction s xs ys rule: merge_items.induct) auto

text \<open>What a merge holds for a key.\<close>

lemma map_of_merge:
  assumes "ksorted xs" "ksorted ys"
  shows "map_of (merge_items s xs ys) k =
    (case map_of xs k of None \<Rightarrow> map_of ys k
     | Some v \<Rightarrow> if s \<and> v = tombstone \<and> k \<in> set (keys_of ys) then None else Some v)"
  using assms
proof (induction s xs ys rule: merge_items.induct)
  case (3 s x xs y ys)
  have x: "\<forall>z \<in> set xs. fst x < fst z" "ksorted xs" and y: "\<forall>z \<in> set ys. fst y < fst z" "ksorted ys"
    using 3(5,6) by auto
  have ky: "k \<notin> fst ` set ys" "map_of ys k = None" if "k \<le> fst y" using y(1) that by (auto simp: map_of_eq_None_iff)
  have kx: "map_of xs k = None" if "k \<le> fst x" using x(1) that by (auto simp: map_of_eq_None_iff)
  have kn: "map_of (merge_items s xs ys) k = None" if "k = fst x" "k = fst y"
    using merge_above [of xs k ys] x(1) y(1) that by (fastforce simp: map_of_eq_None_iff)
  show ?case
  proof (cases "fst x" "fst y" rule: linorder_cases)
    case less
    then show ?thesis using 3(2) 3(6) x(2) ky(1) by (cases "k = fst x") (auto simp: ky(2))
  next
    case equal
    show ?thesis
    proof (cases "k = fst x")
      case True
      then show ?thesis using equal kn kx by (auto simp: deleted_def)
    next
      case False
      then have "map_of (merge_items s (x # xs) (y # ys)) k = map_of (merge_items s xs ys) k" using equal by auto
      also have "\<dots> = (case map_of xs k of None \<Rightarrow> map_of ys k
        | Some v \<Rightarrow> if s \<and> v = tombstone \<and> k \<in> set (keys_of ys) then None else Some v)"
        using 3(3,4) x(2) y(2) equal by fastforce
      finally show ?thesis using False equal by (simp split: option.split)
    qed
  next
    case greater
    have m: "merge_items s (x # xs) (y # ys) = y # merge_items s (x # xs) ys" using greater by simp
    show ?thesis
    proof (cases "k = fst y")
      case True
      then have "map_of (x # xs) k = None" using greater kx by auto
      then show ?thesis using True by (simp only: m) simp
    next
      case False
      have ih: "map_of (merge_items s (x # xs) ys) k = (case map_of (x # xs) k of None \<Rightarrow> map_of ys k
        | Some v \<Rightarrow> if s \<and> v = tombstone \<and> k \<in> set (keys_of ys) then None else Some v)"
        by (rule 3(1) [OF greater 3(5) y(2)])
      have "map_of (y # zs) k = map_of zs k" "k \<in> set (keys_of (y # zs)) \<longleftrightarrow> k \<in> set (keys_of zs)" for zs
        using False by auto
      then show ?thesis by (simp only: m ih)
    qed
  qed
qed (auto split: option.splits)

lemma merge_keep: "ksorted xs \<Longrightarrow> ksorted ys \<Longrightarrow> map_of (merge_items False xs ys) = map_of ys ++ map_of xs"
  by (simp add: fun_eq_iff map_of_merge map_add_def split: option.split)

lemma merge_live: "ksorted xs \<Longrightarrow> ksorted ys \<Longrightarrow> live (map_of (merge_items s xs ys)) = live (map_of ys ++ map_of xs)"
  by (simp add: fun_eq_iff live_def map_of_merge map_add_def split: option.split)

section \<open>The invariant\<close>

definition config_ok :: "dyn_pgm \<Rightarrow> bool" where
  "config_ok d \<longleftrightarrow> 0 < ceil_log2 (base d) \<and> min_level d < min_index_level d \<and>
     buffer_max_size d = (\<Sum>j < Suc (min_level d). max_size d j)"

text \<open>The largest number of items in the level with index \<open>j\<close> in the vector.\<close>

definition capacity :: "dyn_pgm \<Rightarrow> nat \<Rightarrow> nat" where
  "capacity d j = (if j = 0 then buffer_max_size d else max_size d (min_level d + j))"

definition levels_ok :: "dyn_pgm \<Rightarrow> bool" where
  "levels_ok d \<longleftrightarrow> min_level d \<le> used_levels d \<and> used_levels d - min_level d \<le> length (levels d) \<and> levels d \<noteq> [] \<and>
     (\<forall>j < length (levels d). ksorted (levels d ! j) \<and> length (levels d ! j) \<le> capacity d j \<and>
        (used_levels d - min_level d \<le> j \<longrightarrow> levels d ! j = []))"

definition pgms_ok :: "dyn_pgm \<Rightarrow> bool" where
  "pgms_ok d \<longleftrightarrow> length (pgms d) = used_levels d - min_index_level d \<and>
     (\<forall>i. min_index_level d \<le> i \<and> i < used_levels d \<longrightarrow>
        pgms d ! (i - min_index_level d) = keys_of (levels d ! (i - min_level d)))"

definition dyn_inv :: "dyn_pgm \<Rightarrow> bool" where
  "dyn_inv d \<longleftrightarrow> config_ok d \<and> levels_ok d \<and> pgms_ok d"

lemma max_size_upd [simp]:
  "max_size (d\<lparr>levels := ls\<rparr>) = max_size d" "max_size (d\<lparr>pgms := ps\<rparr>) = max_size d"
  "max_size (d\<lparr>used_levels := u\<rparr>) = max_size d"
  by (simp_all add: max_size_def fun_eq_iff)

lemma capacity_upd [simp]:
  "capacity (d\<lparr>levels := ls\<rparr>) = capacity d" "capacity (d\<lparr>pgms := ps\<rparr>) = capacity d"
  "capacity (d\<lparr>used_levels := u\<rparr>) = capacity d"
  by (simp_all add: capacity_def fun_eq_iff)

lemma config_ok_upd [simp]:
  "config_ok (d\<lparr>levels := ls\<rparr>) = config_ok d" "config_ok (d\<lparr>pgms := ps\<rparr>) = config_ok d"
  "config_ok (d\<lparr>used_levels := u\<rparr>) = config_ok d"
  by (simp_all add: config_ok_def)

lemma level_at_Some: "min_level d \<le> i \<Longrightarrow> i - min_level d < length (levels d) \<Longrightarrow> level_at d i = Some (levels d ! (i - min_level d))"
  by (simp add: level_at_def rd_def)

lemma set_level_Some:
  "min_level d \<le> i \<Longrightarrow> i - min_level d < length (levels d) \<Longrightarrow>
   set_level d i l = Some (d\<lparr>levels := (levels d)[i - min_level d := l]\<rparr>)"
  by (simp add: set_level_def wr_def)

lemma set_pgm_Some:
  "i < used_levels d \<Longrightarrow> length (pgms d) = used_levels d - min_index_level d \<Longrightarrow>
   set_pgm d i ks = Some (d\<lparr>pgms := (pgms d)[i - min_index_level d := ks]\<rparr>) \<or> \<not> has_pgm d i \<and> set_pgm d i ks = Some d"
  by (auto simp: set_pgm_def has_pgm_def wr_def)

section \<open>Room for a merge\<close>

text \<open>The number of items in the levels from \<open>i\<close> on and before \<open>j\<close>.\<close>

definition items_between :: "dyn_pgm \<Rightarrow> nat \<Rightarrow> nat \<Rightarrow> nat" where
  "items_between d i j = (\<Sum>l \<in> {i..<j}. length (levels d ! (l - min_level d)))"

lemma items_between_step: "i < j \<Longrightarrow> items_between d i j = length (levels d ! (i - min_level d)) + items_between d (Suc i) j"
  by (simp add: items_between_def sum.atLeast_Suc_lessThan)

lemma items_between_empty [simp]: "items_between d i i = 0"
  by (simp add: items_between_def)

lemma items_between_snoc: "i \<le> j \<Longrightarrow> items_between d i (Suc j) = items_between d i j + length (levels d ! (j - min_level d))"
  by (simp add: items_between_def)

lemma sub64_room: "b \<le> a \<Longrightarrow> s \<le> sub64 a b \<longleftrightarrow> s + b \<le> a"
  by (auto simp: sub64_def)

lemma level_in_range:
  assumes "levels_ok d" "min_level d \<le> i" "i < used_levels d"
  shows "i - min_level d < length (levels d)" "level_at d i = Some (levels d ! (i - min_level d))"
    "ksorted (levels d ! (i - min_level d))" "length (levels d ! (i - min_level d)) \<le> capacity d (i - min_level d)"
proof -
  show i: "i - min_level d < length (levels d)" using assms by (auto simp: levels_ok_def)
  then show "level_at d i = Some (levels d ! (i - min_level d))" using assms(2) by (simp add: level_at_Some)
  show "ksorted (levels d ! (i - min_level d))" "length (levels d ! (i - min_level d)) \<le> capacity d (i - min_level d)"
    using assms(1) i unfolding levels_ok_def by blast+
qed

lemma find_target_ok:
  assumes "levels_ok d" "min_level d < i" "i \<le> used_levels d"
  shows "\<exists>t. find_target d i s = Some (t, s + items_between d i t) \<and> i \<le> t \<and> t \<le> used_levels d \<and>
    (t < used_levels d \<longrightarrow> s + items_between d i t + length (levels d ! (t - min_level d)) \<le> max_size d t) \<and>
    (i < t \<longrightarrow> max_size d (t - 1) < s + items_between d i t)"
  using assms
proof (induction d i s rule: find_target.induct)
  case (1 d i s)
  show ?case
  proof (cases "i < used_levels d")
    case True
    let ?l = "levels d ! (i - min_level d)"
    have l: "level_at d i = Some ?l" "length ?l \<le> max_size d i"
      using level_in_range [OF 1(2) _ True] 1(3) by (auto simp: capacity_def)
    note room = sub64_room [OF l(2), of s]
    show ?thesis
    proof (cases "s + length ?l \<le> max_size d i")
      case fits: True
      then have "find_target d i s = Some (i, s)" using True l(1) room by (subst find_target.simps) simp
      with fits True show ?thesis by (intro exI [of _ i]) simp
    next
      case False
      then have step: "find_target d i s = find_target d (i + 1) (s + length ?l)" using True l(1) room by (subst find_target.simps) simp
      have "\<not> s \<le> sub64 (max_size d i) (length ?l)" using False room by simp
      from 1(1) [OF True l(1) this 1(2)] 1(3) True obtain t where
        t: "find_target d (i + 1) (s + length ?l) = Some (t, s + length ?l + items_between d (i + 1) t)"
        "i + 1 \<le> t" "t \<le> used_levels d"
        "t < used_levels d \<longrightarrow> s + length ?l + items_between d (i + 1) t + length (levels d ! (t - min_level d)) \<le> max_size d t"
        "i + 1 < t \<longrightarrow> max_size d (t - 1) < s + length ?l + items_between d (i + 1) t" by auto
      have b: "items_between d i t = length ?l + items_between d (i + 1) t" using items_between_step [of i t d] t(2) by simp
      have "max_size d (t - 1) < s + items_between d i t" using t(2,5) False by (cases "i + 1 = t") (auto simp: b)
      with t(1-4) step show ?thesis by (intro exI [of _ t]) (simp add: b add.assoc)
    qed
  qed (use 1 in \<open>simp add: find_target.simps\<close>)
qed

lemma room_in_new_level:
  assumes "config_ok d" "levels_ok d" "min_level d < t" "t \<le> used_levels d"
  shows "buffer_max_size d + 1 + items_between d (min_level d + 1) t \<le> max_size d t"
proof -
  have "items_between d (min_level d + 1) t \<le> (\<Sum>j \<in> {min_level d + 1..<t}. max_size d j)" unfolding items_between_def
  proof (rule sum_mono)
    fix j assume j: "j \<in> {min_level d + 1..<t}"
    then have "j - min_level d \<noteq> 0" by auto
    then show "length (levels d ! (j - min_level d)) \<le> max_size d j"
      using level_in_range(4) [OF assms(2), of j] j assms(4) by (simp add: capacity_def)
  qed
  moreover have "(\<Sum>j < Suc (min_level d). max_size d j) + (\<Sum>j \<in> {min_level d + 1..<t}. max_size d j) = (\<Sum>j < t. max_size d j)"
    using sum.atLeastLessThan_concat [of 0 "Suc (min_level d)" t "max_size d"] assms(3)
    by (simp only: lessThan_atLeast0) simp
  moreover have "Suc (\<Sum>j < t. max_size d j) \<le> max_size d t"
    using geometric_room [of "ceil_log2 (base d)" t] assms(1) by (simp add: config_ok_def max_size_def)
  ultimately show ?thesis using assms(1) by (simp add: config_ok_def)
qed

section \<open>Storing a level\<close>

lemma levels_ok_store:
  assumes "levels_ok d" "min_level d \<le> i" "i < used_levels d" "ksorted l" "length l \<le> capacity d (i - min_level d)"
  shows "levels_ok (d\<lparr>levels := (levels d)[i - min_level d := l], pgms := ps\<rparr>)"
  using assms unfolding levels_ok_def by (auto simp: nth_list_update)

lemma pgms_ok_store:
  assumes "pgms_ok d" "min_level d < min_index_level d" "min_level d \<le> i" "i < used_levels d" "i - min_level d < length (levels d)"
  shows "pgms_ok (d\<lparr>levels := (levels d)[i - min_level d := l],
    pgms := (if has_pgm d i then (pgms d)[i - min_index_level d := keys_of l] else pgms d)\<rparr>)"
proof -
  let ?ls = "(levels d)[i - min_level d := l]" and ?ps = "if has_pgm d i then (pgms d)[i - min_index_level d := keys_of l] else pgms d"
  have "?ps ! (j - min_index_level d) = keys_of (?ls ! (j - min_level d))" if j: "min_index_level d \<le> j" "j < used_levels d" for j
  proof -
    have "pgms d ! (j - min_index_level d) = keys_of (levels d ! (j - min_level d))" "j - min_index_level d < length (pgms d)"
      using assms(1) j by (auto simp: pgms_ok_def)
    then show ?thesis using j assms(2-5) by (auto simp: nth_list_update has_pgm_def)
  qed
  then show ?thesis using assms(1) by (auto simp: pgms_ok_def)
qed

lemma store_level:
  assumes "levels_ok d" "pgms_ok d" "min_level d < min_index_level d" "min_level d \<le> i" "i < used_levels d"
    "ksorted l" "length l \<le> capacity d (i - min_level d)"
  shows "\<exists>d1 d2. set_level d i l = Some d1 \<and> set_pgm d1 i (keys_of l) = Some d2 \<and>
    d2 = d\<lparr>levels := (levels d)[i - min_level d := l], pgms := pgms d2\<rparr> \<and> levels_ok d2 \<and> pgms_ok d2"
proof -
  let ?d1 = "d\<lparr>levels := (levels d)[i - min_level d := l]\<rparr>"
  let ?d2 = "?d1\<lparr>pgms := (if has_pgm d i then (pgms d)[i - min_index_level d := keys_of l] else pgms d)\<rparr>"
  note r = level_in_range(1) [OF assms(1,4,5)]
  have "set_level d i l = Some ?d1" by (rule set_level_Some [OF assms(4) r])
  moreover have "set_pgm ?d1 i (keys_of l) = Some ?d2"
    using assms(2,5) by (auto simp: set_pgm_def has_pgm_def wr_def pgms_ok_def)
  moreover have "levels_ok ?d2" using levels_ok_store [OF assms(1,4-7)] by simp
  moreover have "pgms_ok ?d2" using pgms_ok_store [OF assms(2-5) r] by simp
  ultimately show ?thesis by (intro exI [of _ ?d1] exI [of _ ?d2]) simp
qed

section \<open>Merging levels\<close>

text \<open>
  The loop empties the levels \<open>i, ..., m\<close> and their indexes and returns one array that holds what
  they held, apart from tombstones that nothing below can need.
\<close>

lemma merge_level_live:
  assumes "levels_ok d" "min_level d \<le> i" "i < used_levels d" "ksorted tmp" "j = i - min_level d"
  shows "live (raw (drop (Suc j) (levels d)) ++ map_of (merge_items (i + 1 = used_levels d) tmp (levels d ! j))) =
    live (raw (drop j (levels d)) ++ map_of tmp)"
proof -
  note l = level_in_range [OF assms(1-3)]
  have d: "drop j (levels d) = (levels d ! j) # drop (Suc j) (levels d)" using l(1) assms(5) by (simp add: Cons_nth_drop_Suc)
  note lj = l(3) [folded assms(5)]
  show ?thesis
  proof (cases "i + 1 = used_levels d")
    case True
    then have "x = []" if "x \<in> set (drop (Suc j) (levels d))" for x
      using assms that unfolding levels_ok_def by (auto simp: in_set_conv_nth)
    then have "raw (drop (Suc j) (levels d)) = Map.empty" by (intro raw_empty_levels) blast
    then show ?thesis using True merge_live [OF assms(4) lj] by (simp add: d)
  next
    case False
    then show ?thesis using merge_keep [OF assms(4) lj] by (simp add: d)
  qed
qed

lemma merge_loop_ok:
  assumes "levels_ok d" "pgms_ok d" "min_level d < min_index_level d" "min_level d < i" "i \<le> Suc m" "m < used_levels d" "ksorted tmp"
    "length tmp + items_between d i (Suc m) \<le> cap"
  shows "\<exists>d' out. merge_loop d cap tmp i m = Some (d', out) \<and> ksorted out \<and>
    length out \<le> length tmp + items_between d i (Suc m) \<and>
    live (raw (drop (Suc m - min_level d) (levels d)) ++ map_of out) = live (raw (drop (i - min_level d) (levels d)) ++ map_of tmp) \<and>
    d' = d\<lparr>levels := levels d', pgms := pgms d'\<rparr> \<and> levels_ok d' \<and> pgms_ok d' \<and> length (levels d') = length (levels d) \<and>
    (\<forall>j < length (levels d). levels d' ! j = (if i \<le> j + min_level d \<and> j + min_level d \<le> m then [] else levels d ! j))"
  using assms
proof (induction d cap tmp i m rule: merge_loop.induct)
  case (1 d cap tmp i m)
  show ?case
  proof (cases "i \<le> m")
    case True
    let ?l = "levels d ! (i - min_level d)" and ?j = "i - min_level d"
    let ?out = "merge_items (i + 1 = used_levels d) tmp ?l"
    have i: "min_level d \<le> i" "i < used_levels d" using 1(5,7) True by auto
    note l = level_in_range [OF 1(2) i]
    have b: "items_between d i (Suc m) = length ?l + items_between d (Suc i) (Suc m)" using items_between_step [of i "Suc m" d] True by simp
    have out: "length ?out \<le> length tmp + length ?l" "ksorted ?out" using length_merge_items ksorted_merge 1(8) l(3) by blast+
    have cap: "length ?out \<le> cap" using out(1) b 1(9) by linarith
    from store_level [OF 1(2-4) i, of "[]"] obtain d1 d2 where
      d2: "set_level d i [] = Some d1" "set_pgm d1 i [] = Some d2" "d2 = d\<lparr>levels := (levels d)[?j := []], pgms := pgms d2\<rparr>"
      "levels_ok d2" "pgms_ok d2" by auto
    have f: "min_level d2 = min_level d" "min_index_level d2 = min_index_level d" "used_levels d2 = used_levels d"
      "levels d2 = (levels d)[?j := []]" by (subst d2(3), simp)+
    have b2: "items_between d2 (Suc i) (Suc m) = items_between d (Suc i) (Suc m)"
      unfolding items_between_def using 1(5) by (intro sum.cong) (auto simp: f)
    have dr: "drop (Suc n) (levels d2) = drop (Suc n) (levels d)" if "?j \<le> n" for n using that by (simp add: f)
    have m: "Suc m - min_level d = Suc (m - min_level d)" "?j \<le> m - min_level d" "i + 1 - min_level d = Suc ?j"
      using i(1) True by auto
    have pre: "min_level d2 < min_index_level d2" "min_level d2 < i + 1" "i + 1 \<le> Suc m" "m < used_levels d2"
      "length ?out + items_between d2 (i + 1) (Suc m) \<le> cap"
      using 1(4,5,7,9) True out(1) b by (auto simp: f b2)
    from 1(1) [OF True l(2) refl cap d2(1,2,4,5) pre(1-4) out(2) pre(5)] obtain d' out' where
      r: "merge_loop d2 cap ?out (i + 1) m = Some (d', out')" "ksorted out'"
      "length out' \<le> length ?out + items_between d2 (i + 1) (Suc m)"
      "live (raw (drop (Suc m - min_level d2) (levels d2)) ++ map_of out') = live (raw (drop (i + 1 - min_level d2) (levels d2)) ++ map_of ?out)"
      "d' = d2\<lparr>levels := levels d', pgms := pgms d'\<rparr>" "levels_ok d'" "pgms_ok d'" "length (levels d') = length (levels d2)"
      "\<forall>j < length (levels d2). levels d' ! j = (if i + 1 \<le> j + min_level d2 \<and> j + min_level d2 \<le> m then [] else levels d2 ! j)"
      by blast
    have "merge_loop d cap tmp i m = Some (d', out')" using True l(2) cap d2(1,2) r(1) by (subst merge_loop.simps) simp
    moreover have "length out' \<le> length tmp + items_between d i (Suc m)" using r(3) out(1) b b2 by simp
    moreover have "live (raw (drop (Suc m - min_level d) (levels d)) ++ map_of out') = live (raw (drop ?j (levels d)) ++ map_of tmp)"
      using r(4) merge_level_live [OF 1(2) i 1(8) refl] unfolding f(1) m(1,3) dr [OF m(2)] dr [OF order_refl] by simp
    moreover have "d' = d\<lparr>levels := levels d', pgms := pgms d'\<rparr>" by (subst r(5), subst d2(3)) simp
    moreover have "levels d' ! j = (if i \<le> j + min_level d \<and> j + min_level d \<le> m then [] else levels d ! j)" if "j < length (levels d)" for j
      using r(9) that i(1) True by (cases "j = ?j") (auto simp: f nth_list_update)
    ultimately show ?thesis using r(2,6-8) by (intro exI [of _ d'] exI [of _ out']) (simp add: f)
  next
    case False
    then have "i = Suc m" using 1(6) by simp
    moreover have "merge_loop d cap tmp i m = Some (d, tmp)" using False by (simp add: merge_loop.simps)
    ultimately show ?thesis using 1 by (intro exI [of _ d] exI [of _ tmp]) auto
  qed
qed

section \<open>Searching a level\<close>

lemma lower_bound_bl_loop_eq: "lower_bound_bl_loop xs x i n = lowerBoundBF_loop (keys_of xs) x i n"
proof (induction n arbitrary: i rule: less_induct)
  case (less n)
  have "rd (keys_of xs) j = map_option fst (rd xs j)" for j by (simp add: rd_def)
  then show ?case using less
    by (subst lower_bound_bl_loop.simps, subst lowerBoundBF_loop.simps)
      (cases "rd xs (i + n div 2)"; cases "rd xs i"; auto simp: Let_def)
qed

text \<open>The search in a window that is known to hold the position.\<close>

lemma lower_bound_bl_ok:
  assumes "ksorted xs" "a \<le> b" "b \<le> length xs" "\<forall>i < a. fst (xs ! i) < k" "\<forall>i < length xs. b \<le> i \<longrightarrow> k \<le> fst (xs ! i)"
  shows "\<exists>pos. lower_bound_bl xs a b k = Some pos \<and> first_ge (keys_of xs) k pos"
proof (cases "a = b")
  case True
  with assms show ?thesis by (auto simp: lower_bound_bl_def first_ge_def)
next
  case False
  with assms lowerBoundBF_loop_ok [OF assms(1), of "b - a" a k] show ?thesis
    by (auto simp: lower_bound_bl_def lower_bound_bl_loop_eq)
qed

section \<open>Insertion\<close>

definition total_items :: "dyn_pgm \<Rightarrow> nat" where
  "total_items d = sum_list (map length (levels d))"

lemma sum_take: "n \<le> length ls \<Longrightarrow> sum_list (map length (take n ls)) = (\<Sum>j < n. length (ls ! j))"
  by (simp add: sum_list_sum_nth atLeast0LessThan)

lemma sum_levels_before:
  "min_level d \<le> t \<Longrightarrow> (\<Sum>j < Suc (t - min_level d). length (levels d ! j)) = length (levels d ! 0) + items_between d (min_level d + 1) (Suc t)"
proof (induction t rule: dec_induct)
  case (step n)
  then show ?case by (simp add: Suc_diff_le items_between_snoc)
qed simp

text \<open>The levels after a merge into the one with index \<open>t\<close>, and what they hold.\<close>

lemma merged_levels:
  assumes "length L1 = length L" "0 < t" "t < length L" "m = (if L ! t = [] then t - 1 else t)"
    "\<forall>j < length L. L1 ! j = (if 1 \<le> j \<and> j \<le> m then [] else L ! j)"
  shows "L1[0 := [], t := out] = replicate t [] @ out # drop (Suc t) L"
proof (rule nth_equalityI)
  fix j assume "j < length (L1[0 := [], t := out])"
  then have j: "j < length L" using assms(1) by simp
  consider "j = 0" | "0 < j" "j < t" | "j = t" | "t < j" by linarith
  then show "L1[0 := [], t := out] ! j = (replicate t [] @ out # drop (Suc t) L) ! j"
    using j assms by cases (auto simp: nth_append nth_Cons' split: if_splits)
qed (use assms in simp)

lemma raw_merged:
  assumes "0 < t" "t < length L" "m = (if L ! t = [] then t - 1 else t)"
    "live (raw (drop (Suc m) L) ++ map_of out) = live (raw (drop 1 L) ++ map_of tmp)" "map_of tmp = (map_of (L ! 0))(k \<mapsto> v)"
  shows "live (raw (replicate t [] @ out # drop (Suc t) L)) = live ((raw L)(k \<mapsto> v))"
proof -
  have "L = L ! 0 # drop 1 L" using assms(2) by (cases L) auto
  then have "raw L = raw (drop 1 L) ++ map_of (L ! 0)" by (metis raw.simps(2))
  moreover have "raw (drop (Suc m) L) = raw (drop (Suc t) L)"
    using assms(1-3) Cons_nth_drop_Suc [of t L, symmetric] by auto
  ultimately show ?thesis using assms(4,5) raw_empty_levels [of "replicate t []"] by (simp add: raw_append)
qed

lemma pairwise_merge_ok:
  assumes inv: "dyn_inv d" and t: "min_level d < t" "t < used_levels d" and p: "p \<le> length (levels d ! 0)"
    and tmp: "ksorted (take p (levels d ! 0) @ x # drop p (levels d ! 0))" "map_of (take p (levels d ! 0) @ x # drop p (levels d ! 0)) = (map_of (levels d ! 0))(fst x \<mapsto> snd x)"
    and s: "s = Suc (length (levels d ! 0)) + items_between d (min_level d + 1) t"
    and room: "s + length (levels d ! (t - min_level d)) \<le> max_size d t"
  shows "\<exists>d'. pairwise_merge d x t s p = Some d' \<and> dyn_inv d' \<and> d' = d\<lparr>levels := levels d', pgms := pgms d'\<rparr> \<and>
    dyn_map d' = live ((raw (levels d))(fst x \<mapsto> snd x)) \<and> total_items d' \<le> Suc (total_items d)"
proof -
  let ?ml = "min_level d" and ?l0 = "levels d ! 0" and ?tmp = "take p (levels d ! 0) @ x # drop p (levels d ! 0)"
  let ?lt = "levels d ! (t - ?ml)"
  have ok: "config_ok d" "levels_ok d" "pgms_ok d" "?ml < min_index_level d" using inv by (auto simp: dyn_inv_def config_ok_def)
  have lt: "level_at d t = Some ?lt" "t - ?ml < length (levels d)" using level_in_range [OF ok(2) _ t(2)] t(1) by auto
  have l0: "level_at d ?ml = Some ?l0" "levels d \<noteq> []" using ok(2) level_at_Some [of d ?ml] by (auto simp: levels_ok_def)
  define m where "m = (if ?lt = [] then t - 1 else t)"
  have m: "?ml + 1 \<le> Suc m" "m < used_levels d" "m \<le> t" using t by (auto simp: m_def)
  have ib: "items_between d (?ml + 1) (Suc m) = items_between d (?ml + 1) t + length ?lt"
    using items_between_snoc [of "?ml + 1" t d] t(1) by (auto simp: m_def)
  have cap: "length ?tmp + items_between d (?ml + 1) (Suc m) \<le> s + length ?lt" using p unfolding ib s by simp
  from merge_loop_ok [OF ok(2-4) _ m(1,2) tmp(1) cap] obtain d1 out where
    r: "merge_loop d (s + length ?lt) ?tmp (?ml + 1) m = Some (d1, out)" "ksorted out"
    "length out \<le> length ?tmp + items_between d (?ml + 1) (Suc m)"
    "live (raw (drop (Suc m - ?ml) (levels d)) ++ map_of out) = live (raw (drop (?ml + 1 - ?ml) (levels d)) ++ map_of ?tmp)"
    "d1 = d\<lparr>levels := levels d1, pgms := pgms d1\<rparr>" "levels_ok d1" "pgms_ok d1" "length (levels d1) = length (levels d)"
    "\<forall>j < length (levels d). levels d1 ! j = (if ?ml + 1 \<le> j + ?ml \<and> j + ?ml \<le> m then [] else levels d ! j)" by auto
  have f: "min_level d1 = ?ml" "min_index_level d1 = min_index_level d" "used_levels d1 = used_levels d" "capacity d1 = capacity d"
    by (subst r(5), simp)+
  let ?d2 = "d1\<lparr>levels := (levels d1)[0 := []]\<rparr>"
  have d2: "set_level d1 ?ml [] = Some ?d2" using set_level_Some [of d1 ?ml "[]"] r(8) l0(2) by (simp add: f)
  have "levels_ok ?d2" using levels_ok_store [OF r(6), of ?ml "[]" "pgms d1"] t by (simp add: f)
  moreover have "pgms_ok ?d2" using pgms_ok_store [OF r(7), of ?ml "[]"] t ok(4) r(8) l0(2) by (simp add: f has_pgm_def)
  moreover have "length out \<le> capacity d (t - ?ml)"
    using r(3) cap room t(1) by (simp add: capacity_def del: length_append)
  ultimately obtain d3 d4 where
    d4: "set_level ?d2 t out = Some d3" "set_pgm d3 t (keys_of out) = Some d4"
    "d4 = ?d2\<lparr>levels := (levels ?d2)[t - ?ml := out], pgms := pgms d4\<rparr>" "levels_ok d4" "pgms_ok d4"
    using store_level [of ?d2 t out] t r(2) ok(4) f by auto
  let ?t = "t - ?ml"
  have m': "Suc m - ?ml = Suc (m - ?ml)" "m - ?ml = (if ?lt = [] then ?t - 1 else ?t)" using t by (auto simp: m_def)
  have "\<forall>j < length (levels d). levels d1 ! j = (if 1 \<le> j \<and> j \<le> m - ?ml then [] else levels d ! j)"
    using r(9) t by (auto simp: m_def)
  then have ls: "levels d4 = replicate ?t [] @ out # drop (Suc ?t) (levels d)"
    using merged_levels [OF r(8) _ lt(2) m'(2)] t(1) by (subst d4(3)) simp
  have upd: "d1\<lparr>levels := ls', pgms := ps\<rparr> = d\<lparr>levels := ls', pgms := ps\<rparr>" for ls' ps by (subst r(5)) simp
  have "levels d4 = (levels d1)[0 := [], ?t := out]" by (subst d4(3)) simp
  then have fin: "d4 = d\<lparr>levels := levels d4, pgms := pgms d4\<rparr>" using d4(3) by (simp flip: upd)
  have "pairwise_merge d x t s p = Some d4"
    using lt(1) l0(1) p r(1) d2 d4(1,2) cap by (simp add: pairwise_merge_def ins_at_def m_def [symmetric] Let_def s)
  moreover have "dyn_inv d4" unfolding dyn_inv_def using d4(4,5) ok(1) by (subst fin) simp
  moreover have "dyn_map d4 = live ((raw (levels d))(fst x \<mapsto> snd x))"
    using raw_merged [OF _ lt(2) m'(2) _ tmp(2)] r(4) t(1) by (simp add: dyn_map_def ls m'(1))
  moreover have "total_items d4 \<le> Suc (total_items d)"
  proof -
    have "total_items d = sum_list (map length (take (Suc ?t) (levels d))) + sum_list (map length (drop (Suc ?t) (levels d)))"
      by (simp add: total_items_def flip: map_append sum_list_append)
    moreover have "sum_list (map length (take (Suc ?t) (levels d))) = length ?l0 + items_between d (?ml + 1) (Suc t)"
      using sum_take [of "Suc ?t" "levels d"] lt(2) sum_levels_before [of d t] t(1) by simp
    moreover have "items_between d (?ml + 1) (Suc t) = items_between d (?ml + 1) (Suc m)"
      using items_between_snoc [of "?ml + 1" t d] t(1) ib by simp
    ultimately show ?thesis using r(3) p by (simp add: total_items_def ls sum_list_replicate)
  qed
  ultimately show ?thesis using fin by blast
qed

lemma new_level_lookup:
  assumes "levels_ok d"
  shows "levels (new_level d i) ! 0 = levels d ! 0" "levels (new_level d i) ! (used_levels d - min_level d) = []"
    "min_level d < l \<Longrightarrow> l < used_levels d \<Longrightarrow> levels (new_level d i) ! (l - min_level d) = levels d ! (l - min_level d)"
proof -
  have u: "used_levels d - min_level d \<le> length (levels d)" "levels d \<noteq> []"
    "\<forall>j < length (levels d). used_levels d - min_level d \<le> j \<longrightarrow> levels d ! j = []"
    using assms unfolding levels_ok_def by blast+
  show "levels (new_level d i) ! (used_levels d - min_level d) = []"
    using u by (cases "used_levels d - min_level d = length (levels d)") (auto simp: nth_append new_level_def)
qed (use assms in \<open>auto simp: levels_ok_def new_level_def nth_append\<close>)

lemma new_level_items_between:
  assumes "levels_ok d" "t \<le> used_levels d"
  shows "items_between (new_level d i) (Suc (min_level d)) t = items_between d (Suc (min_level d)) t"
proof -
  have "min_level (new_level d i) = min_level d" by (simp add: new_level_def)
  then show ?thesis unfolding items_between_def using assms new_level_lookup(3) [OF assms(1), of _ i]
    by (intro sum.cong) auto
qed

lemma new_level_ok:
  assumes "dyn_inv d" "min_level d < used_levels d"
  shows "dyn_inv (new_level d (used_levels d))" "raw (levels (new_level d (used_levels d))) = raw (levels d)"
    "total_items (new_level d (used_levels d)) = total_items d"
proof -
  let ?u = "used_levels d" and ?d = "new_level d (used_levels d)"
  have ok: "config_ok d" "levels_ok d" "pgms_ok d" "min_level d < min_index_level d" using assms by (auto simp: dyn_inv_def config_ok_def)
  have "levels_ok ?d" using ok(2) unfolding levels_ok_def new_level_def by (auto simp: nth_append nth_Cons')
  moreover have "pgms_ok ?d"
  proof -
    have n: "length (pgms d) = ?u - min_index_level d" using ok(3) by (simp add: pgms_ok_def)
    have "i - min_level d < length (levels d)" if "min_index_level d \<le> i" "i < ?u" for i
      using level_in_range(1) [OF ok(2) _ that(2)] that(1) ok(4) by simp
    then show ?thesis using ok(3) n new_level_lookup(2) [OF ok(2), of ?u] unfolding pgms_ok_def
      by (auto simp: new_level_def nth_append less_Suc_eq)
  qed
  ultimately show "dyn_inv ?d" using ok(1) by (simp add: dyn_inv_def new_level_def)
qed (simp_all add: new_level_def raw_append total_items_def)

lemma used_levels_filled:
  assumes "config_ok d" "levels_ok d" "length (levels d ! 0) = buffer_max_size d" "min_level d < used_levels d"
    "min_level d + 1 < used_levels d \<longrightarrow>
      max_size d (used_levels d - 1) < buffer_max_size d + 1 + items_between d (min_level d + 1) (used_levels d)"
  shows "max_size d (used_levels d - 1) \<le> Suc (total_items d)"
proof -
  let ?t = "used_levels d - 1" and ?n = "used_levels d - min_level d"
  have n: "?n = Suc (?t - min_level d)" "?n \<le> length (levels d)" "Suc ?t = used_levels d" using assms(2,4) by (auto simp: levels_ok_def)
  have "(\<Sum>j < ?n. length (levels d ! j)) = buffer_max_size d + items_between d (min_level d + 1) (used_levels d)"
    using sum_levels_before [of d ?t] assms(3,4) n(1,3) by simp
  moreover have "sum_list (map length (take ?n (levels d))) \<le> total_items d"
    unfolding total_items_def by (subst (2) append_take_drop_id [of ?n, symmetric]) (simp only: map_append sum_list_append le_add1)
  moreover have "max_size d ?t \<le> buffer_max_size d" if "\<not> min_level d + 1 < used_levels d"
  proof -
    have "?t = min_level d" using that assms(4) by simp
    then show ?thesis using assms(1) by (simp add: config_ok_def)
  qed
  ultimately show ?thesis using sum_take [OF n(2)] assms(5) by (cases "min_level d + 1 < used_levels d") auto
qed

lemma insert_merge_ok:
  assumes inv: "dyn_inv d" and full: "length (levels d ! 0) = buffer_max_size d" and p: "p \<le> length (levels d ! 0)"
    and tmp: "ksorted (take p (levels d ! 0) @ x # drop p (levels d ! 0))"
      "map_of (take p (levels d ! 0) @ x # drop p (levels d ! 0)) = (map_of (levels d ! 0))(fst x \<mapsto> snd x)"
  shows "\<exists>i s d'. find_target d (min_level d + 1) (buffer_max_size d + 1) = Some (i, s) \<and>
    pairwise_merge (if i = used_levels d then new_level d i else d) x i s p = Some d' \<and> dyn_inv d' \<and>
    dyn_map d' = live ((raw (levels d))(fst x \<mapsto> snd x)) \<and> total_items d' \<le> Suc (total_items d) \<and>
    d' = d\<lparr>levels := levels d', pgms := pgms d', used_levels := used_levels d'\<rparr> \<and>
    (used_levels d' = used_levels d \<or> used_levels d' = Suc (used_levels d) \<and> max_size d (used_levels d - 1) \<le> Suc (total_items d))"
proof -
  have ok: "config_ok d" "levels_ok d" using inv by (auto simp: dyn_inv_def)
  have "0 < buffer_max_size d" using ok(1) by (simp add: config_ok_def max_size_def)
  then have u: "min_level d < used_levels d" using ok(2) full unfolding levels_ok_def
    by (metis diff_self_eq_0 le_neq_implies_less length_greater_0_conv list.size(3) nat_less_le zero_le)
  let ?s = "\<lambda>i. buffer_max_size d + 1 + items_between d (min_level d + 1) i"
  have u1: "min_level d < min_level d + 1" "min_level d + 1 \<le> used_levels d" using u by auto
  from find_target_ok [OF ok(2) u1, of "buffer_max_size d + 1"] obtain i where
    i: "find_target d (min_level d + 1) (buffer_max_size d + 1) = Some (i, ?s i)" "min_level d < i" "i \<le> used_levels d"
    "i < used_levels d \<longrightarrow> ?s i + length (levels d ! (i - min_level d)) \<le> max_size d i"
    "min_level d + 1 < i \<longrightarrow> max_size d (i - 1) < ?s i" by (metis Suc_eq_plus1 Suc_le_eq)
  show ?thesis
  proof (cases "i = used_levels d")
    case False
    then have "i < used_levels d" using i(3) by simp
    with pairwise_merge_ok [OF inv i(2) _ p tmp, of "?s i"] i(4) obtain d' where
      "pairwise_merge d x i (?s i) p = Some d'" "dyn_inv d'" "d' = d\<lparr>levels := levels d', pgms := pgms d'\<rparr>"
      "dyn_map d' = live ((raw (levels d))(fst x \<mapsto> snd x))" "total_items d' \<le> Suc (total_items d)" by (auto simp: full)
    moreover from this(3) have "used_levels d' = used_levels d" by (metis dyn_pgm.select_convs(5) dyn_pgm.surjective dyn_pgm.update_convs(6,7))
    ultimately show ?thesis using i(1) False by auto
  next
    case True
    let ?e = "new_level d i"
    have e: "min_level ?e = min_level d" "used_levels ?e = Suc i" "levels ?e = levels d @ [[]]" "max_size ?e = max_size d"
      by (simp_all add: new_level_def True max_size_def fun_eq_iff)
    have l: "levels ?e ! 0 = levels d ! 0" "levels ?e ! (i - min_level d) = []"
      "items_between ?e (min_level d + 1) i = items_between d (min_level d + 1) i"
      using new_level_lookup [OF ok(2), of i] by (simp_all add: True new_level_items_between [OF ok(2)])
    have pre: "dyn_inv ?e" "min_level ?e < i" "i < used_levels ?e" "p \<le> length (levels ?e ! 0)"
      using new_level_ok(1) [OF inv u] True i(2) p l(1) e(1,2) by simp_all
    have s: "?s i = Suc (length (levels ?e ! 0)) + items_between ?e (min_level ?e + 1) i"
      "?s i + length (levels ?e ! (i - min_level ?e)) \<le> max_size ?e i"
      using room_in_new_level [OF ok i(2,3)] full l by (simp_all add: e(1,4))
    from pairwise_merge_ok [OF pre tmp [folded l(1)] s] obtain d' where d': "pairwise_merge ?e x i (?s i) p = Some d'" "dyn_inv d'" "d' = ?e\<lparr>levels := levels d', pgms := pgms d'\<rparr>"
      "dyn_map d' = live ((raw (levels ?e))(fst x \<mapsto> snd x))" "total_items d' \<le> Suc (total_items ?e)" by blast
    have u': "used_levels d' = Suc (used_levels d)" by (subst d'(3)) (simp add: new_level_def)
    have "d' = d\<lparr>levels := levels d', pgms := pgms d', used_levels := used_levels d'\<rparr>"
      using d'(3) u' by (cases d; cases d') (simp add: new_level_def)
    moreover have "max_size d (used_levels d - 1) \<le> Suc (total_items d)"
      using used_levels_filled [OF ok full u] i(5) True by auto
    ultimately show ?thesis using i(1) True d' u' new_level_ok(2,3) [OF inv u] by auto
  qed
qed

text \<open>What an insertion changes besides the represented map.\<close>

definition grows :: "dyn_pgm \<Rightarrow> dyn_pgm \<Rightarrow> bool" where
  "grows d d' \<longleftrightarrow> d' = d\<lparr>levels := levels d', pgms := pgms d', used_levels := used_levels d'\<rparr> \<and>
     total_items d' \<le> Suc (total_items d) \<and>
     (used_levels d' = used_levels d \<or> used_levels d' = min_level d + 1 \<or>
      used_levels d' = Suc (used_levels d) \<and> max_size d (used_levels d - 1) \<le> Suc (total_items d))"

lemma buffer_store_ok:
  assumes "dyn_inv d" "ksorted l" "length l \<le> buffer_max_size d" "used_levels d \<le> u" "u = used_levels d \<and> min_level d < u \<or> u = min_level d + 1"
  shows "dyn_inv (d\<lparr>levels := (levels d)[0 := l], used_levels := u\<rparr>)"
    "raw ((levels d)[0 := l]) = raw (drop 1 (levels d)) ++ map_of l"
    "sum_list (map length ((levels d)[0 := l])) + length (levels d ! 0) = total_items d + length l"
proof -
  have ok: "config_ok d" "levels_ok d" "pgms_ok d" "min_level d < min_index_level d" using assms(1) by (auto simp: dyn_inv_def config_ok_def)
  then obtain l0 ls where ls: "levels d = l0 # ls" by (cases "levels d") (auto simp: levels_ok_def)
  have "levels_ok (d\<lparr>levels := (levels d)[0 := l], used_levels := u\<rparr>)"
    using ok(2) assms(2-5) unfolding levels_ok_def by (auto simp: ls capacity_def nth_Cons')
  moreover have "pgms_ok (d\<lparr>levels := (levels d)[0 := l], used_levels := u\<rparr>)"
    using ok(3,4) assms(4,5) unfolding pgms_ok_def by (auto simp: ls)
  ultimately show "dyn_inv (d\<lparr>levels := (levels d)[0 := l], used_levels := u\<rparr>)" using ok(1) by (simp add: dyn_inv_def)
qed (use assms(1) in \<open>cases "levels d"; auto simp: dyn_inv_def levels_ok_def total_items_def\<close>)+

theorem insert_item_ok:
  assumes "dyn_inv d"
  shows "\<exists>d'. insert_item d x = Some d' \<and> dyn_inv d' \<and> grows d d' \<and>
    dyn_map d' = (dyn_map d)(fst x := if deleted x then None else Some (snd x))"
proof -
  let ?l0 = "levels d ! 0" and ?k = "fst x" and ?ml = "min_level d"
  have ok: "config_ok d" "levels_ok d" "levels d \<noteq> []" using assms by (auto simp: dyn_inv_def levels_ok_def)
  have l0: "level_at d ?ml = Some ?l0" "ksorted ?l0" "length ?l0 \<le> buffer_max_size d" "?ml - ?ml < length (levels d)"
    using ok(2,3) level_at_Some [of d ?ml] by (auto simp: levels_ok_def capacity_def)
  from lower_bound_bl_ok [OF l0(2), of 0 "length ?l0" ?k] obtain p where
    p: "lower_bound_bl ?l0 0 (length ?l0) ?k = Some p" "first_ge (keys_of ?l0) ?k p" by auto
  have pl: "p \<le> length ?l0" using p(2) by (simp add: first_ge_def)
  let ?upd = "upd_kv ?k (snd x) ?l0"
  have l: "ksorted ?upd" "map_of ?upd = (map_of ?l0)(?k \<mapsto> snd x)" by (rule ksorted_upd_kv [OF l0(2)]) (rule map_of_upd_kv)
  note at = upd_kv_at [OF l0(2) p(2), of "snd x", unfolded prod.collapse]
  have raw: "raw (levels d) = raw (drop 1 (levels d)) ++ map_of ?l0" using ok(3) by (cases "levels d") auto
  have upd: "live ((raw (levels d))(?k \<mapsto> snd x)) = (dyn_map d)(?k := if deleted x then None else Some (snd x))"
    by (simp add: live_upd dyn_map_def deleted_def)
  note def = insert_item_def [of d x] l0(1) p(1)
  let ?d = "\<lambda>u. d\<lparr>levels := (levels d)[0 := ?upd], used_levels := u\<rparr>"
  have store: ?thesis if u: "insert_item d x = Some (?d u)" "length ?upd \<le> buffer_max_size d" "length ?upd \<le> Suc (length ?l0)"
    "used_levels d \<le> u" "u = used_levels d \<and> min_level d < u \<or> u = min_level d + 1" for u
  proof -
    note bs = buffer_store_ok [OF assms l(1) u(2,4,5)]
    have "grows d (?d u)" using bs(3) u(3,5) by (auto simp: grows_def total_items_def)
    moreover have "dyn_map (?d u) = (dyn_map d)(?k := if deleted x then None else Some (snd x))"
    proof -
      have "raw (levels (?d u)) = (raw (levels d))(?k \<mapsto> snd x)" using raw l(2) bs(2) by simp
      then show ?thesis unfolding dyn_map_def [of "?d u"] upd [symmetric] by (rule arg_cong)
    qed
    ultimately show ?thesis using u(1) bs(1) by blast
  qed
  have used: "min_level d < used_levels d" if "?l0 \<noteq> []"
    using that ok(2,3) unfolding levels_ok_def by (metis diff_self_eq_0 le_neq_implies_less length_greater_0_conv order_refl)
  consider (hit) "p < length ?l0" "fst (?l0 ! p) = ?k" | (buffer) "\<not> (p < length ?l0 \<and> fst (?l0 ! p) = ?k)" "length ?l0 < buffer_max_size d"
    | (full) "\<not> (p < length ?l0 \<and> fst (?l0 ! p) = ?k)" "length ?l0 = buffer_max_size d" using l0(3) by linarith
  then show ?thesis
  proof cases
    case hit
    then have "?upd = ?l0[p := x]" "?l0 \<noteq> []" using at by auto
    moreover from this have "insert_item d x = Some (?d (used_levels d))"
      using hit def set_level_Some [of d ?ml] ok(3) by simp
    ultimately show ?thesis using store [of "used_levels d"] used l0(3) by simp
  next
    case buffer
    let ?u = "if used_levels d = ?ml then ?ml + 1 else used_levels d"
    have ll: "?upd = take p ?l0 @ x # drop p ?l0" using at buffer(1) by (simp only: if_False)
    have "?ml \<le> used_levels d" using ok(2) by (simp add: levels_ok_def)
    moreover have "insert_item d x = Some (?d ?u)"
      using buffer def set_level_Some [of d ?ml] ok(3) by (auto simp: ll [symmetric])
    ultimately show ?thesis using store [of ?u] buffer(2) pl by (simp add: ll)
  next
    case full
    have ll: "?upd = take p ?l0 @ x # drop p ?l0" using at full(1) by (simp only: if_False)
    from insert_merge_ok [OF assms full(2) pl, of x] l obtain i s d' where
      i: "find_target d (?ml + 1) (buffer_max_size d + 1) = Some (i, s)"
      "pairwise_merge (if i = used_levels d then new_level d i else d) x i s p = Some d'" "dyn_inv d'"
      "dyn_map d' = live ((raw (levels d))(?k \<mapsto> snd x))" "grows d d'" unfolding ll grows_def by auto
    have "insert_item d x = Some d'" using full def i(1,2) by auto
    then show ?thesis using i upd by auto
  qed
qed

section \<open>Constructors\<close>

lemma construct_ok:
  assumes "power_of_two b" "buffer_level \<le> 30"
  shows "\<exists>d. construct b buffer_level index_level = Some (Inr d) \<and> dyn_inv d \<and> dyn_map d = Map.empty \<and>
    base d = b \<and> min_level d = used_levels d \<and> levels d = replicate (32 - min_level d) [] \<and> min_level d \<le> 30 \<and> pgms d = [] \<and>
    min_level d * ceil_log2 b \<le> (if buffer_level = 0 then 6 + ceil_log2 b else buffer_level * ceil_log2 b)"
proof -
  have g: "0 < ceil_log2 b" using assms(1) ceil_log2_pos by (simp add: power_of_two_def)
  define ml where "ml = (if buffer_level \<noteq> 0 then buffer_level
    else (ceil_log2 128 + ceil_log2 b - 1) div ceil_log2 b - (if b = 2 then 1 else 0))"
  define mi where "mi = (if index_level \<noteq> 0 then index_level else (ceil_log2 (2 ^ 24) + ceil_log2 b - 1) div ceil_log2 b)"
  have seven: "ceil_log2 128 \<le> 7" using ceil_log2_le [of 128 7] by simp
  then have "(ceil_log2 128 + ceil_log2 b - 1) div ceil_log2 b \<le> (ceil_log2 b * 7) div ceil_log2 b"
    using g by (intro div_le_mono) (cases "ceil_log2 b"; simp)
  then have "(ceil_log2 128 + ceil_log2 b - 1) div ceil_log2 b \<le> 7" using g by simp
  then have ml: "ml \<le> 30" using assms(2) unfolding ml_def by (auto simp del: One_nat_def)
  define d where "d = \<lparr>base = b, min_level = ml, min_index_level = max (ml + 1) mi,
    buffer_max_size = sum_list (map (\<lambda>j. 2 ^ (j * ceil_log2 b)) [0..<Suc ml]), used_levels = ml, levels = replicate (32 - ml) [], pgms = []\<rparr>"
  have "(if buffer_level \<noteq> 0 then Some buffer_level
      else do { c \<leftarrow> ceil_log_base b 128; Some (c - (if b = 2 then 1 else 0)) }) = Some ml"
    "(if index_level \<noteq> 0 then Some index_level else ceil_log_base b (2 ^ 24)) = Some mi"
    using g by (simp_all add: ml_def mi_def ceil_log_base_def)
  then have "construct b buffer_level index_level = Some (Inr d)"
    using assms(1) ml by (simp only: construct_def d_def bind.bind_lunit) simp
  moreover have "dyn_inv d" using g ml
    unfolding dyn_inv_def config_ok_def levels_ok_def pgms_ok_def
    by (auto simp: d_def max_size_def sum_list_distinct_conv_sum_set lessThan_atLeast0 simp del: upt_Suc)
  moreover have "dyn_map d = Map.empty" using raw_empty_levels [of "levels d"] by (simp add: d_def dyn_map_def live_def fun_eq_iff)
  moreover have "ml * ceil_log2 b \<le> (if buffer_level = 0 then 6 + ceil_log2 b else buffer_level * ceil_log2 b)"
  proof (cases "buffer_level = 0")
    case True
    have "ml \<le> (ceil_log2 128 + ceil_log2 b - 1) div ceil_log2 b" using True by (simp add: ml_def)
    then have "ml * ceil_log2 b \<le> (ceil_log2 128 + ceil_log2 b - 1) div ceil_log2 b * ceil_log2 b" by simp
    also have "\<dots> \<le> ceil_log2 128 + ceil_log2 b - 1" by simp
    finally show ?thesis using True seven by simp
  qed (simp add: ml_def)
  ultimately show ?thesis using ml by (intro exI [of _ d]) (simp add: d_def)
qed

text \<open>The copying loop keeps the first of several pairs with one key.\<close>

lemma copy_first_ok:
  assumes "sorted (keys_of (out @ xs))" "\<forall>x \<in> set xs. \<not> deleted x" "ksorted out" "out \<noteq> []"
  shows "\<exists>ys. copy_first out xs = Inr ys \<and> ksorted ys \<and> map_of ys = map_of (out @ xs) \<and> ys \<noteq> [] \<and> length ys \<le> length out + length xs"
  using assms
proof (induction out xs rule: copy_first.induct)
  case (2 out k v xs)
  let ?l = "fst (last out)"
  have le: "?l \<le> k" using 2(3,6) by (auto simp: sorted_append)
  show ?case
  proof (cases "k = ?l")
    case True
    then have "map_of out k \<noteq> None" using last_in_set [OF 2(6)] by (simp add: map_of_eq_None_iff)
    then have "map_of (out @ (k, v) # xs) = map_of (out @ xs)" by (auto simp: fun_eq_iff map_add_def split: option.split)
    moreover have "sorted (keys_of (out @ xs))" "\<forall>x \<in> set xs. \<not> deleted x" using 2(3,4) by (auto simp: sorted_append)
    ultimately show ?thesis using 2(2) [OF _ _ _ _ 2(5,6)] True le by auto
  next
    case False
    then have lt: "?l < k" using le by simp
    have "ksorted (butlast out @ [last out])" using 2(5,6) by simp
    then have "\<forall>x \<in> set (butlast out @ [last out]). fst x \<le> ?l" by (auto simp: sorted_wrt_append less_imp_le)
    then have "\<forall>x \<in> set out. fst x \<le> ?l" by (simp only: append_butlast_last_id [OF 2(6)])
    then have "\<forall>x \<in> set out. fst x < k" using lt by (auto dest: le_less_trans)
    then have "ksorted (out @ [(k, v)])" using 2(5) by (simp add: sorted_wrt_append)
    moreover have "sorted (keys_of ((out @ [(k, v)]) @ xs))" "\<forall>x \<in> set xs. \<not> deleted x" "ItemA k v = Inr (k, v)"
      using 2(3,4) by (auto simp: ItemA_def deleted_def)
    ultimately show ?thesis using 2(1) [of "(k, v)"] False lt by auto
  qed
qed auto

lemma le_pow_ceil_log_base:
  assumes "0 < ceil_log2 b" "ceil_log_base b n = Some c" shows "n \<le> 2 ^ (c * ceil_log2 b)"
proof -
  let ?g = "ceil_log2 b" and ?n = "ceil_log2 n"
  have c: "c = (?n + ?g - 1) div ?g" using assms by (simp add: ceil_log_base_def)
  have "(?n + ?g - 1) div ?g * ?g + (?n + ?g - 1) mod ?g = ?n + ?g - 1" by simp
  moreover have "(?n + ?g - 1) mod ?g < ?g" using assms(1) by simp
  ultimately have "?n \<le> c * ?g" unfolding c by linarith
  then show ?thesis using le_pow_ceil_log2 [of n] by (meson one_le_numeral order.trans power_increasing)
qed

text \<open>A container whose only items are in the last used level.\<close>

lemma single_level_ok:
  assumes "config_ok d" "min_level d \<le> u" "u - min_level d < n" "ksorted l" "length l \<le> max_size d u"
    "levels d = (replicate n [])[u - min_level d := l]" "used_levels d = Suc u"
    "pgms d = (if has_pgm d u then (replicate (Suc u - min_index_level d) [])[u - min_index_level d := keys_of l] else [])"
  shows "dyn_inv d \<and> dyn_map d = live (map_of l) \<and> total_items d = length l"
proof -
  have cap: "length l \<le> capacity d (u - min_level d)"
  proof (cases "u = min_level d")
    case True
    then show ?thesis using assms(1,5) by (simp add: capacity_def config_ok_def)
  qed (use assms in \<open>simp add: capacity_def\<close>)
  have "levels_ok d" using assms(2-4,6,7) cap unfolding levels_ok_def by (auto simp: nth_list_update)
  moreover have "pgms_ok d" using assms(1-3,6-8) unfolding pgms_ok_def config_ok_def
    by (auto simp: nth_list_update has_pgm_def)
  moreover have ls: "levels d = replicate (u - min_level d) [] @ l # replicate (n - Suc (u - min_level d)) []"
    using assms(3,6) by (simp add: upd_conv_take_nth_drop)
  moreover have "raw (levels d) = map_of l" using raw_empty_levels [of "replicate _ []"] by (simp add: ls raw_append)
  ultimately show ?thesis using assms(1) by (simp add: dyn_inv_def dyn_map_def total_items_def sum_list_replicate)
qed

lemma live_map_of: "\<forall>x \<in> set xs. \<not> deleted x \<Longrightarrow> live (map_of xs) = map_of xs"
  by (auto simp: live_def fun_eq_iff deleted_def split: option.split dest!: map_of_SomeD)

lemma construct_range_ok:
  assumes "power_of_two b" "buffer_level \<le> 30" "sorted (keys_of xs)" "\<forall>x \<in> set xs. \<not> deleted x"
  shows "\<exists>d. construct_range xs b buffer_level index_level = Some (Inr d) \<and> dyn_inv d \<and> dyn_map d = map_of xs \<and> base d = b \<and>
    min_level d * ceil_log2 b \<le> (if buffer_level = 0 then 6 + ceil_log2 b else buffer_level * ceil_log2 b) \<and> total_items d \<le> length xs \<and>
    (used_levels d \<le> min_level d + 1 \<or> ceil_log_base b (length xs) = Some (used_levels d - 1))"
proof -
  have g: "0 < ceil_log2 b" using assms(1) ceil_log2_pos by (simp add: power_of_two_def)
  from construct_ok [OF assms(1,2), of index_level] obtain d where
    d: "construct b buffer_level index_level = Some (Inr d)" "dyn_inv d" "dyn_map d = Map.empty" "base d = b"
    "min_level d = used_levels d" "levels d = replicate (32 - min_level d) []" "pgms d = []"
    and ml: "min_level d * ceil_log2 b \<le> (if buffer_level = 0 then 6 + ceil_log2 b else buffer_level * ceil_log2 b)" by blast
  obtain c where c: "ceil_log_base b (length xs) = Some c" using g by (simp add: ceil_log_base_def)
  define u where "u = max c (min_level d)"
  define n where "n = max (u + 1) 32 - min_level d + 1"
  define d1 where "d1 = d\<lparr>used_levels := u + 1, levels := replicate n []\<rparr>"
  show ?thesis
  proof (cases xs)
    case Nil
    let ?d = "d\<lparr>used_levels := min_level d, levels := replicate n []\<rparr>"
    have "construct_range xs b buffer_level index_level = Some (Inr ?d)"
      using d(1) c by (simp add: construct_range_def Nil n_def u_def Let_def)
    moreover have "0 < n" by (simp add: n_def)
    then have "dyn_inv ?d" using d(2,5,7) unfolding dyn_inv_def levels_ok_def pgms_ok_def config_ok_def by auto
    moreover have "dyn_map ?d = map_of xs" using raw_empty_levels [of "replicate n []"] by (simp add: dyn_map_def Nil live_def fun_eq_iff)
    ultimately show ?thesis using d(4) ml by (intro exI [of _ ?d]) (simp add: total_items_def sum_list_replicate)
  next
    case (Cons x rest)
    obtain k v where x: "x = (k, v)" by (cases x)
    have "sorted (keys_of ([(k, v)] @ rest))" "ItemA k v = Inr (k, v)" "\<forall>x \<in> set rest. \<not> deleted x"
      using assms(3,4) by (auto simp: Cons x ItemA_def deleted_def)
    with copy_first_ok [of "[(k, v)]" rest] obtain l where
      l: "(case ItemA k v of Inl e \<Rightarrow> Inl e | Inr x \<Rightarrow> copy_first [x] rest) = Inr l" "ksorted l" "map_of l = map_of xs" "length l \<le> length xs"
      by (auto simp: Cons x)
    let ?d2 = "d1\<lparr>levels := (replicate n [])[u - min_level d := l]\<rparr>"
    let ?d3 = "?d2\<lparr>pgms := (if has_pgm ?d2 u then (replicate (Suc u - min_index_level d) [])[u - min_index_level d := keys_of l] else [])\<rparr>"
    have u: "min_level d \<le> u" "u - min_level d < n" by (auto simp: u_def n_def)
    have "set_level d1 u l = Some ?d2" using set_level_Some [of d1 u l] u by (simp add: d1_def)
    moreover have "set_pgm (if has_pgm ?d2 u then ?d2\<lparr>pgms := replicate (Suc u - min_index_level d) []\<rparr> else ?d2) u (keys_of l) = Some ?d3"
      using d(7) by (auto simp: set_pgm_def has_pgm_def wr_def d1_def)
    ultimately have "construct_range xs b buffer_level index_level = Some (Inr ?d3)"
      by (simp only: construct_range_def d(1) c [unfolded Cons x] Cons x list.case prod.case sum.case bind.bind_lunit Let_def l(1)
          u_def [symmetric] n_def [symmetric] d1_def [symmetric]) (auto split: if_splits)
    moreover have "dyn_inv ?d3 \<and> dyn_map ?d3 = live (map_of l) \<and> total_items ?d3 = length l"
    proof (rule single_level_ok [of _ u n l])
      show "config_ok ?d3" using d(2) by (simp add: d1_def dyn_inv_def)
      have "length xs \<le> 2 ^ (c * ceil_log2 b)" using le_pow_ceil_log_base [OF g c] .
      also have "\<dots> \<le> 2 ^ (u * ceil_log2 b)" by (intro power_increasing mult_right_mono) (auto simp: u_def)
      finally show "length l \<le> max_size ?d3 u" using l(4) d(4) by (simp add: max_size_def d1_def)
    qed (use u l(2) in \<open>simp_all add: d1_def has_pgm_def\<close>)
    moreover have "live (map_of l) = map_of xs" using l(3) live_map_of [OF assms(4)] by simp
    ultimately show ?thesis using d(4) ml l(4) c by (intro exI [of _ ?d3]) (auto simp: d1_def u_def)
  qed
qed

section \<open>Sequences of updates\<close>

datatype pgm_op = Assign u64 u64 | Erase u64

text \<open>A rejected value throws before the container changes.\<close>

fun pgm_step :: "pgm_op \<Rightarrow> dyn_pgm \<Rightarrow> dyn_pgm option" where
  "pgm_step (Assign k v) d = do { r \<leftarrow> insert_or_assign d k v; Some (case r of Inl e \<Rightarrow> d | Inr d' \<Rightarrow> d') }"
| "pgm_step (Erase k) d = erase_key d k"

fun pgm_run :: "pgm_op list \<Rightarrow> dyn_pgm \<Rightarrow> dyn_pgm option" where
  "pgm_run [] d = Some d"
| "pgm_run (x # xs) d = do { d' \<leftarrow> pgm_step x d; pgm_run xs d' }"

fun map_step :: "pgm_op \<Rightarrow> (u64 \<rightharpoonup> u64) \<Rightarrow> u64 \<rightharpoonup> u64" where
  "map_step (Assign k v) m = (if v = tombstone then m else m(k \<mapsto> v))"
| "map_step (Erase k) m = m(k := None)"

text \<open>At most \<open>N\<close> items, and no more levels than they justify.\<close>

definition width_ok :: "nat \<Rightarrow> dyn_pgm \<Rightarrow> bool" where
  "width_ok N d \<longleftrightarrow> total_items d \<le> N \<and> (used_levels d \<le> min_level d + 1 \<or> max_size d (used_levels d - 2) \<le> N)"

lemma width_ok_grows:
  assumes "width_ok N d" "grows d d'"
  shows "width_ok (Suc N) d'" "base d' = base d" "min_level d' = min_level d"
proof -
  have d': "d' = d\<lparr>levels := levels d', pgms := pgms d', used_levels := used_levels d'\<rparr>" using assms(2) by (simp add: grows_def)
  show f: "base d' = base d" "min_level d' = min_level d" by (subst d', simp)+
  then have "max_size d' = max_size d" by (simp add: max_size_def fun_eq_iff)
  then show "width_ok (Suc N) d'" using assms by (auto simp: width_ok_def grows_def f)
qed

lemma width_ok_mono: "width_ok N d \<Longrightarrow> N \<le> M \<Longrightarrow> width_ok M d"
  by (auto simp: width_ok_def)

lemma pgm_step_ok:
  assumes "dyn_inv d" "width_ok N d"
  shows "\<exists>d'. pgm_step x d = Some d' \<and> dyn_inv d' \<and> width_ok (Suc N) d' \<and> dyn_map d' = map_step x (dyn_map d) \<and>
    base d' = base d \<and> min_level d' = min_level d"
proof -
  have ins: "\<exists>d'. insert_item d y = Some d' \<and> dyn_inv d' \<and> width_ok (Suc N) d' \<and> base d' = base d \<and> min_level d' = min_level d \<and>
    dyn_map d' = (dyn_map d)(fst y := if deleted y then None else Some (snd y))" for y
    using insert_item_ok [OF assms(1), of y] width_ok_grows [OF assms(2)] by blast
  show ?thesis
  proof (cases x)
    case (Assign k v)
    then show ?thesis using ins [of "(k, v)"] assms width_ok_mono [OF assms(2), of "Suc N"]
      by (cases "v = tombstone") (auto simp: insert_or_assign_def ItemA_def deleted_def)
  next
    case (Erase k)
    then show ?thesis using ins [of "(k, tombstone)"] by (auto simp: erase_key_def ItemA_deleted_def deleted_def)
  qed
qed

lemma pgm_run_ok:
  assumes "dyn_inv d" "width_ok N d"
  shows "\<exists>d'. pgm_run ops d = Some d' \<and> dyn_inv d' \<and> width_ok (N + length ops) d' \<and> dyn_map d' = fold map_step ops (dyn_map d) \<and>
    base d' = base d \<and> min_level d' = min_level d"
  using assms
proof (induction ops arbitrary: d N)
  case (Cons x ops)
  from pgm_step_ok [OF Cons.prems, of x] obtain d1 where
    "pgm_step x d = Some d1" "dyn_inv d1" "width_ok (Suc N) d1" "dyn_map d1 = map_step x (dyn_map d)"
    "base d1 = base d" "min_level d1 = min_level d" by blast
  with Cons.IH [of d1 "Suc N"] show ?case by auto
qed simp

lemma bit_count_ge: "0 < m \<Longrightarrow> 2 ^ (bit_count m - 1) \<le> m"
proof (induction m rule: bit_count.induct)
  case (1 m)
  show ?case
  proof (cases "m div 2 = 0")
    case True
    then show ?thesis using 1(2) by (subst bit_count.simps) (simp add: bit_count.simps)
  next
    case False
    then have "2 ^ (bit_count (m div 2) - 1) \<le> m div 2" "0 < bit_count (m div 2)"
      using 1 by (auto simp: bit_count.simps [of "m div 2"])
    then have "2 ^ bit_count (m div 2) \<le> m" by (cases "bit_count (m div 2)") auto
    then show ?thesis using 1(2) by (subst bit_count.simps) simp
  qed
qed

lemma ceil_log_base_tight:
  assumes "0 < ceil_log2 b" "ceil_log_base b n = Some c" "0 < c" shows "2 ^ ((c - 1) * ceil_log2 b) \<le> n"
proof -
  let ?g = "ceil_log2 b" and ?n = "ceil_log2 n"
  have c: "c = (?n + ?g - 1) div ?g" using assms by (simp add: ceil_log_base_def)
  have "c * ?g \<le> ?n + ?g - 1" unfolding c by simp
  then have "(c - 1) * ?g \<le> ?n - 1" using assms(1) by (simp add: diff_mult_distrib)
  moreover have "0 < ?n" using assms(3) c assms(1) by (cases "?n = 0") auto
  then have "2 ^ (?n - 1) \<le> n" using bit_count_ge [of "n - 1"] by (auto simp: ceil_log2_def split: if_splits)
  ultimately show ?thesis by (meson one_le_numeral order.trans power_increasing)
qed

lemma construct_range_width:
  assumes "0 < ceil_log2 b" "base d = b" "total_items d \<le> n" "used_levels d \<le> min_level d + 1 \<or> ceil_log_base b n = Some (used_levels d - 1)"
  shows "width_ok n d"
proof -
  have "max_size d (used_levels d - 2) \<le> n" if "\<not> used_levels d \<le> min_level d + 1"
    using that assms(2,4) ceil_log_base_tight [OF assms(1), of n "used_levels d - 1"]
    by (simp add: max_size_def numeral_2_eq_2)
  then show ?thesis using assms(3) by (auto simp: width_ok_def)
qed

section \<open>Main theorems\<close>





text \<open>
  The member initialisers divide by the logarithm of the base before the base is checked: for
  the bases 0 and 1 with a default buffer or index level the constructor divides by zero and the
  exception for an invalid base is never thrown.
\<close>

theorem base_check_too_late:
  assumes "b < 2" "buffer_level = 0 \<or> index_level = 0"
  shows "construct b buffer_level index_level = None"
  using assms by (auto simp: construct_def ceil_log_base_def ceil_log2_def [of b])

theorem base_check_too_late_witness: "construct 1 0 0 = None \<and> construct 6 0 0 = Some (Inl Base_not_power_of_two)"
  using base_check_too_late [of 1 0 0] ceil_log2_pos [of 6]
  by (simp add: construct_def ceil_log_base_def power_of_two_def)

end
