(* ===== verification/PgmQuery.thy ===== *)
theory PgmQuery
  imports PgmInsert
begin

text \<open>
  The queries of the dynamic PGM index: \<open>find\<close>, \<open>count\<close>, \<open>range\<close> and \<open>lower_bound\<close>. All of them
  visit the levels from the newest to the oldest.

  The function \<open>search\<close> of the static index on a level is a parameter: it gets the keys that the
  index was built on and the key to look for, and returns the two ends of a window of positions.
  What is relied on is that the key, or the place where it belongs, is inside the window.
\<close>

type_synonym pgm_search = "u64 list \<Rightarrow> u64 \<Rightarrow> nat \<times> nat"

definition search_ok :: "pgm_search \<Rightarrow> bool" where
  "search_ok search \<longleftrightarrow> (\<forall>ks x. sorted_wrt (<) ks \<longrightarrow>
     fst (search ks x) \<le> snd (search ks x) \<and> snd (search ks x) \<le> length ks \<and>
     (\<forall>i < fst (search ks x). ks ! i < x) \<and> (\<forall>i < length ks. snd (search ks x) \<le> i \<longrightarrow> x < ks ! i))"

text \<open>
  An iterator before its first increment: the end, or a level number and a position. The end is
  never equal to an iterator to an item, since it is the end of another array or behind the item.
\<close>

datatype pgm_pos = End | At nat nat

section \<open>Operations\<close>

definition window :: "pgm_search \<Rightarrow> dyn_pgm \<Rightarrow> nat \<Rightarrow> item list \<Rightarrow> u64 \<Rightarrow> (nat \<times> nat) option" where
  "window search d i l key = (if has_pgm d i then do { ks \<leftarrow> pgm_at d i; Some (search ks key) } else Some (0, length l))"

text \<open>\<open>std::upper_bound\<close> on a sorted range: the first position with a greater key.\<close>

definition std_upper_bound :: "item list \<Rightarrow> nat \<Rightarrow> nat \<Rightarrow> u64 \<Rightarrow> nat option" where
  "std_upper_bound l first end_pos x =
     (if first \<le> end_pos \<and> end_pos \<le> length l
      then Some (first + length (takeWhile (\<lambda>y. \<not> x < fst y) (drop first (take end_pos l)))) else None)"

function find_loop :: "pgm_search \<Rightarrow> dyn_pgm \<Rightarrow> u64 \<Rightarrow> nat \<Rightarrow> pgm_pos option" where
  "find_loop search d key i =
     (if i < used_levels d then
        do { l \<leftarrow> level_at d i;
             if l = [] then find_loop search d key (i + 1)
             else do { (lo, hi) \<leftarrow> window search d i l key;
                       p \<leftarrow> lower_bound_bl l lo hi key;
                       hit \<leftarrow> (if p = length l then Some False else do { x \<leftarrow> rd l p; Some (fst x = key) });
                       if hit then do { x \<leftarrow> rd l p; Some (if deleted x then End else At i p) }
                       else find_loop search d key (i + 1) } }
      else Some End)"
  by pat_completeness auto
termination
  by (relation "measure (\<lambda>(s, d, k, i). used_levels d - i)") auto

declare find_loop.simps [simp del]

definition find_dyn :: "pgm_search \<Rightarrow> dyn_pgm \<Rightarrow> u64 \<Rightarrow> pgm_pos option" where
  "find_dyn search d key = find_loop search d key (min_level d)"

definition count_dyn :: "pgm_search \<Rightarrow> dyn_pgm \<Rightarrow> u64 \<Rightarrow> nat option" where
  "count_dyn search d key = do { it \<leftarrow> find_dyn search d key; Some (if it = End then 0 else 1) }"

text \<open>The item that an iterator refers to.\<close>

fun deref :: "dyn_pgm \<Rightarrow> pgm_pos \<Rightarrow> item option" where
  "deref d End = None"
| "deref d (At i p) = do { l \<leftarrow> level_at d i; rd l p }"

function range_loop :: "pgm_search \<Rightarrow> dyn_pgm \<Rightarrow> u64 \<Rightarrow> u64 \<Rightarrow> nat \<Rightarrow> item list \<Rightarrow> item list option" where
  "range_loop search d lo hi i tmp =
     (if i < used_levels d then
        do { l \<leftarrow> level_at d i;
             if l = [] then range_loop search d lo hi (i + 1) tmp
             else do { (lo_first, lo_last) \<leftarrow> window search d i l lo;
                       (hi_first, hi_last) \<leftarrow> window search d i l hi;
                       it_lo \<leftarrow> lower_bound_bl l lo_first lo_last lo;
                       it_hi \<leftarrow> std_upper_bound l (max it_lo hi_first) hi_last hi;
                       if it_hi - it_lo = 0 then range_loop search d lo hi (i + 1) tmp
                       else range_loop search d lo hi (i + 1) (merge_items False tmp (take (it_hi - it_lo) (drop it_lo l))) } }
      else Some tmp)"
  by pat_completeness auto
termination
  by (relation "measure (\<lambda>(s, d, lo, hi, i, t). used_levels d - i)") auto

declare range_loop.simps [simp del]

definition pgm_range :: "pgm_search \<Rightarrow> dyn_pgm \<Rightarrow> u64 \<Rightarrow> u64 \<Rightarrow> (invalid_argument + item list) option" where
  "pgm_range search d lo hi =
     (if hi < lo then Some (Inl Lo_above_hi)
      else do { tmp \<leftarrow> range_loop search d lo hi (min_level d) [];
                Some (Inr (filter (\<lambda>x. \<not> deleted x) tmp)) })"

text \<open>
  The inner loop of \<open>lower_bound\<close> on the rest of a level from position \<open>p\<close> on: it collects
  tombstones until it finds an item that is not deleted, if one is below \<open>lb\<close>.
\<close>

fun lb_scan :: "u64 option \<Rightarrow> u64 set \<Rightarrow> nat \<Rightarrow> item list \<Rightarrow> u64 set \<times> nat option" where
  "lb_scan lb dels p [] = (dels, None)"
| "lb_scan lb dels p (x # xs) =
     (if (case lb of None \<Rightarrow> True | Some b \<Rightarrow> fst x < b) then
        (if deleted x then lb_scan lb (insert (fst x) dels) (p + 1) xs
         else if fst x \<notin> dels then (dels, Some p)
         else lb_scan lb dels (p + 1) xs)
      else (dels, None))"

text \<open>\<open>lb\<close> is the level, the position and the key of the best item so far.\<close>

function lb_loop :: "pgm_search \<Rightarrow> dyn_pgm \<Rightarrow> u64 \<Rightarrow> nat \<Rightarrow> (nat \<times> nat \<times> u64) option \<Rightarrow> u64 set \<Rightarrow> pgm_pos option" where
  "lb_loop search d key i lb dels =
     (if i < used_levels d then
        do { l \<leftarrow> level_at d i;
             if l = [] then lb_loop search d key (i + 1) lb dels
             else do { (lo, hi) \<leftarrow> window search d i l key;
                       p \<leftarrow> lower_bound_bl l lo hi key;
                       let (dels', r) = lb_scan (map_option (snd \<circ> snd) lb) dels p (drop p l);
                       case r of
                         None \<Rightarrow> lb_loop search d key (i + 1) lb dels'
                       | Some q \<Rightarrow> do { x \<leftarrow> rd l q;
                                        if fst x = key then Some (At i q)
                                        else lb_loop search d key (i + 1) (Some (i, q, fst x)) dels' } } }
      else Some (case lb of None \<Rightarrow> End | Some (j, q, b) \<Rightarrow> At j q))"
  by pat_completeness auto
termination
  by (relation "measure (\<lambda>(s, d, k, i, lb, dels). used_levels d - i)") auto

declare lb_loop.simps [simp del]

definition lower_bound_dyn :: "pgm_search \<Rightarrow> dyn_pgm \<Rightarrow> u64 \<Rightarrow> pgm_pos option" where
  "lower_bound_dyn search d key = lb_loop search d key (min_level d) None {}"

definition begin_dyn :: "pgm_search \<Rightarrow> dyn_pgm \<Rightarrow> pgm_pos option" where
  "begin_dyn search d = lower_bound_dyn search d 0"

definition empty_dyn :: "pgm_search \<Rightarrow> dyn_pgm \<Rightarrow> bool option" where
  "empty_dyn search d = do { it \<leftarrow> begin_dyn search d; Some (it = End) }"

section \<open>Searching one level\<close>

lemma search_level:
  assumes "dyn_inv d" "search_ok search" "min_level d \<le> i" "i < used_levels d" "l = levels d ! (i - min_level d)"
  obtains lo hi p where "level_at d i = Some l" "window search d i l key = Some (lo, hi)" "lower_bound_bl l lo hi key = Some p"
    "first_ge (keys_of l) key p" "lo \<le> hi" "hi \<le> length l" "\<forall>j < lo. fst (l ! j) < key" "\<forall>j < length l. hi \<le> j \<longrightarrow> key < fst (l ! j)" "ksorted l"
proof -
  have ok: "levels_ok d" "pgms_ok d" "min_level d < min_index_level d" using assms(1) by (auto simp: dyn_inv_def config_ok_def)
  note l = level_in_range [OF ok(1) assms(3,4), folded assms(5)]
  obtain lo hi where w: "window search d i l key = Some (lo, hi)" "lo \<le> hi" "hi \<le> length l"
    "\<forall>j < lo. fst (l ! j) < key" "\<forall>j < length l. hi \<le> j \<longrightarrow> key < fst (l ! j)"
  proof (cases "has_pgm d i")
    case False
    then show thesis using that [of 0 "length l"] by (simp add: window_def)
  next
    case True
    then have "pgm_at d i = Some (keys_of l)" using ok(2) assms(4,5) by (auto simp: pgm_at_def has_pgm_def rd_def pgms_ok_def)
    moreover obtain lo hi where s: "search (keys_of l) key = (lo, hi)" by (cases "search (keys_of l) key")
    ultimately have "window search d i l key = Some (lo, hi)" using True by (simp add: window_def)
    moreover have "lo \<le> hi \<and> hi \<le> length (keys_of l) \<and> (\<forall>j < lo. keys_of l ! j < key) \<and> (\<forall>j < length (keys_of l). hi \<le> j \<longrightarrow> key < keys_of l ! j)"
      using assms(2) l(3) s unfolding search_ok_def by (metis fst_conv snd_conv)
    ultimately show thesis using that [of lo hi] by (auto simp: less_le_trans)
  qed
  with lower_bound_bl_ok [OF l(3) w(2-4)] that l(2,3) show thesis by (metis less_imp_le)
qed

text \<open>The levels that have been visited, and all of them.\<close>

lemma raw_take_Suc: "j < length ls \<Longrightarrow> raw (take (Suc j) ls) k = (case raw (take j ls) k of None \<Rightarrow> map_of (ls ! j) k | Some v \<Rightarrow> Some v)"
  by (simp add: take_Suc_conv_app_nth raw_append map_add_def split: option.split)

lemma raw_take_used:
  assumes "levels_ok d" shows "raw (take (used_levels d - min_level d) (levels d)) = raw (levels d)"
proof -
  let ?n = "used_levels d - min_level d"
  have "l = []" if "l \<in> set (drop ?n (levels d))" for l
    using assms that unfolding levels_ok_def by (auto simp: in_set_conv_nth)
  then have "raw (drop ?n (levels d)) = Map.empty" by (intro raw_empty_levels) blast
  then show ?thesis using raw_append [of "take ?n (levels d)" "drop ?n (levels d)"] by simp
qed

lemma raw_take_found: "raw (take n ls) k = Some v \<Longrightarrow> raw ls k = Some v"
  using raw_append [of "take n ls" "drop n ls"] by (simp add: map_add_def)

section \<open>Correctness of find\<close>

lemma find_loop_ok:
  assumes "dyn_inv d" "search_ok search" "min_level d \<le> i" "i \<le> used_levels d" "raw (take (i - min_level d) (levels d)) key = None"
  shows "\<exists>it. find_loop search d key i = Some it \<and>
    (case dyn_map d key of None \<Rightarrow> it = End | Some v \<Rightarrow> it \<noteq> End \<and> deref d it = Some (key, v))"
  using assms(3-5)
proof (induction "used_levels d - i" arbitrary: i rule: less_induct)
  case less
  have lv: "levels_ok d" using assms(1) by (simp add: dyn_inv_def)
  show ?case
  proof (cases "i < used_levels d")
    case False
    then have "raw (levels d) key = None" using less.prems raw_take_used [OF lv] by auto
    then show ?thesis using False by (simp add: find_loop.simps dyn_map_def live_def)
  next
    case True
    let ?j = "i - min_level d"
    define l where "l = levels d ! ?j"
    from search_level [OF assms(1,2) less.prems(1) True l_def, of key] obtain lo hi p where
      s: "level_at d i = Some l" "window search d i l key = Some (lo, hi)" "lower_bound_bl l lo hi key = Some p"
      "first_ge (keys_of l) key p" "ksorted l" by metis
    have r: "raw (take (Suc ?j) (levels d)) key = map_of l key"
      using raw_take_Suc [OF level_in_range(1) [OF lv less.prems(1) True], of key] less.prems(3) by (simp add: l_def)
    have p: "p \<le> length l" using s(4) by (simp add: first_ge_def)
    show ?thesis
    proof (cases "p < length l \<and> fst (l ! p) = key")
      case hit: True
      then have "map_of l key = Some (snd (l ! p))" using map_of_at [OF s(5,4)] by presburger
      then have "raw (levels d) key = Some (snd (l ! p))" using raw_take_found r by metis
      moreover have "find_loop search d key i = Some (if deleted (l ! p) then End else At i p)"
      proof -
        have "l \<noteq> []" "p \<noteq> length l" "rd l p = Some (l ! p)" using hit by (auto simp: rd_def)
        then show ?thesis using True hit s(1-3) by (subst find_loop.simps) simp
      qed
      ultimately show ?thesis using hit s(1) by (auto simp: dyn_map_def live_def deleted_def rd_def)
    next
      case miss: False
      then have "raw (take (Suc ?j) (levels d)) key = None" using map_of_at [OF s(5,4)] r by presburger
      moreover have "find_loop search d key i = find_loop search d key (i + 1)"
      proof (cases "l = []")
        case False
        then show ?thesis using True miss s(1-3) p by (cases "p = length l"; subst find_loop.simps) (simp_all add: rd_def)
      qed (use True s(1) in \<open>simp add: find_loop.simps [of _ _ _ i]\<close>)
      ultimately show ?thesis using less.hyps [of "i + 1"] True less.prems(1) by (simp add: Suc_diff_le)
    qed
  qed
qed

lemma find_ok:
  assumes "dyn_inv d" "search_ok search"
  shows "\<exists>it. find_dyn search d key = Some it \<and>
    (case dyn_map d key of None \<Rightarrow> it = End | Some v \<Rightarrow> it \<noteq> End \<and> deref d it = Some (key, v))"
  unfolding find_dyn_def using assms by (intro find_loop_ok) (auto simp: dyn_inv_def levels_ok_def)

section \<open>Correctness of range\<close>

lemma ksorted_filter: "ksorted xs \<Longrightarrow> ksorted (filter P xs)"
  by (induction xs) auto

lemma filter_le_takeWhile: "sorted (keys_of xs) \<Longrightarrow> filter (\<lambda>x. fst x \<le> k) xs = takeWhile (\<lambda>x. fst x \<le> k) xs"
proof (induction xs)
  case (Cons x xs)
  show ?case
  proof (cases "fst x \<le> k")
    case False
    then have "\<forall>y \<in> set xs. \<not> fst y \<le> k" using Cons.prems by (auto dest: order.trans)
    with False show ?thesis by simp
  qed (use Cons in auto)
qed simp

lemma std_upper_bound_ok:
  assumes "ksorted l" "a \<le> b" "b \<le> length l" "\<forall>i < a. fst (l ! i) \<le> k" "\<forall>i < length l. b \<le> i \<longrightarrow> k < fst (l ! i)"
  shows "std_upper_bound l a b k = Some (length (takeWhile (\<lambda>y. fst y \<le> k) l))"
proof -
  have l: "l = take a l @ drop a (take b l) @ drop b l"
  proof -
    have "take a l @ drop a (take b l) = take b l" using append_take_drop_id [of a "take b l"] assms(2) by (simp add: min_def)
    then have "(take a l @ drop a (take b l)) @ drop b l = l" by simp
    then show ?thesis by simp
  qed
  have 1: "takeWhile (\<lambda>y. fst y \<le> k) (take a l @ ys) = take a l @ takeWhile (\<lambda>y. fst y \<le> k) ys" for ys
    using assms(2-4) by (intro takeWhile_append2) (auto simp: in_set_conv_nth)
  have 2: "takeWhile (\<lambda>y. fst y \<le> k) (xs @ drop b l) = takeWhile (\<lambda>y. fst y \<le> k) xs" for xs
  proof -
    have "\<not> fst y \<le> k" if "y \<in> set (drop b l)" for y
    proof -
      from that obtain i where "i < length (drop b l)" "y = drop b l ! i" by (metis in_set_conv_nth)
      then have "b + i < length l" "y = l ! (b + i)" by auto
      then show ?thesis using assms(5) by (metis le_add1 not_le)
    qed
    then have "takeWhile (\<lambda>y. fst y \<le> k) (drop b l) = []" by (cases "drop b l") auto
    then show ?thesis by (induction xs) auto
  qed
  have "takeWhile (\<lambda>y. fst y \<le> k) l = take a l @ takeWhile (\<lambda>y. fst y \<le> k) (drop a (take b l))"
    by (subst l, subst 1, subst 2) (rule refl)
  then show ?thesis using assms(2,3) by (simp add: std_upper_bound_def not_less)
qed

text \<open>What the two searches cut out of a level.\<close>

lemma cut_range:
  assumes "ksorted l" "first_ge (keys_of l) lo p" "q = length (takeWhile (\<lambda>y. fst y \<le> hi) l)" "lo \<le> hi"
  shows "p \<le> q" "take (q - p) (drop p l) = filter (\<lambda>y. lo \<le> fst y \<and> fst y \<le> hi) l"
proof -
  note sp = first_ge_split [OF assms(1,2)]
  have 1: "takeWhile (\<lambda>y. fst y \<le> hi) (take p l @ ys) = take p l @ takeWhile (\<lambda>y. fst y \<le> hi) ys" for ys
    using sp(1) assms(4) by (intro takeWhile_append2) (auto dest: less_imp_le)
  have tw: "takeWhile (\<lambda>y. fst y \<le> hi) l = take p l @ takeWhile (\<lambda>y. fst y \<le> hi) (drop p l)" using 1 [of "drop p l"] by simp
  then have q: "q - p = length (takeWhile (\<lambda>y. fst y \<le> hi) (drop p l))" and "p \<le> q" using sp(3) assms(3) by auto
  then show "p \<le> q" by simp
  have so: "sorted (keys_of (drop p l))" using assms(1) by (metis drop_map sorted_wrt_drop strict_sorted_imp_sorted)
  have "take (q - p) (drop p l) = takeWhile (\<lambda>y. fst y \<le> hi) (drop p l)" unfolding q by (simp add: takeWhile_eq_take [symmetric])
  also have "\<dots> = filter (\<lambda>y. fst y \<le> hi) (drop p l)" using filter_le_takeWhile [OF so] by simp
  also have "\<dots> = filter (\<lambda>y. lo \<le> fst y \<and> fst y \<le> hi) (drop p l)" using sp(2) by (intro filter_cong) auto
  also have "\<dots> = filter (\<lambda>y. lo \<le> fst y \<and> fst y \<le> hi) (take p l @ drop p l)"
    using sp(1) by (auto simp: filter_empty_conv simp del: append_take_drop_id)
  finally show "take (q - p) (drop p l) = filter (\<lambda>y. lo \<le> fst y \<and> fst y \<le> hi) l" by simp
qed

definition restrict :: "u64 \<Rightarrow> u64 \<Rightarrow> item list \<Rightarrow> item list" where
  "restrict lo hi l = filter (\<lambda>y. lo \<le> fst y \<and> fst y \<le> hi) l"

lemma map_of_restrict: "map_of (restrict lo hi l) = map_of l |` {lo..hi}"
  unfolding restrict_def by (induction l) (auto simp: restrict_map_def fun_eq_iff)

lemma range_loop_ok:
  assumes "dyn_inv d" "search_ok search" "lo \<le> hi" "min_level d \<le> i" "i \<le> used_levels d" "ksorted tmp"
    "map_of tmp = raw (take (i - min_level d) (levels d)) |` {lo..hi}"
  shows "\<exists>out. range_loop search d lo hi i tmp = Some out \<and> ksorted out \<and> map_of out = raw (levels d) |` {lo..hi}"
  using assms(4-7)
proof (induction "used_levels d - i" arbitrary: i tmp rule: less_induct)
  case less
  have lv: "levels_ok d" using assms(1) by (simp add: dyn_inv_def)
  show ?case
  proof (cases "i < used_levels d")
    case False
    then show ?thesis using less.prems raw_take_used [OF lv] by (simp add: range_loop.simps)
  next
    case True
    let ?j = "i - min_level d"
    define l where "l = levels d ! ?j"
    from search_level [OF assms(1,2) less.prems(1) True l_def, of lo] obtain la lb p where
      p: "level_at d i = Some l" "window search d i l lo = Some (la, lb)" "lower_bound_bl l la lb lo = Some p"
      "first_ge (keys_of l) lo p" "ksorted l" by metis
    from search_level [OF assms(1,2) less.prems(1) True l_def, of hi] obtain ha hb where
      h: "window search d i l hi = Some (ha, hb)" "ha \<le> hb" "hb \<le> length l" "\<forall>j < ha. fst (l ! j) < hi" "\<forall>j < length l. hb \<le> j \<longrightarrow> hi < fst (l ! j)"
      by metis
    define q where "q = length (takeWhile (\<lambda>y. fst y \<le> hi) l)"
    have sp: "p \<le> length l" "\<forall>j < p. fst (l ! j) < lo" using p(4) by (auto simp: first_ge_def)
    have "p \<le> hb"
    proof (rule ccontr)
      assume "\<not> p \<le> hb"
      then have "hb < p" "hi < fst (l ! hb)" using h(5) sp(1) by auto
      then show False using sp(2) assms(3) by (meson less_asym less_le_trans)
    qed
    moreover have "\<forall>j < max p ha. fst (l ! j) \<le> hi"
      using sp(2) h(4) assms(3) by (auto simp: less_max_iff_disj intro: less_imp_le less_le_trans)
    ultimately have ub: "std_upper_bound l (max p ha) hb hi = Some q" unfolding q_def
      using std_upper_bound_ok [OF p(5) _ h(3) _ h(5), of "max p ha"] h(2) by simp
    note cut = cut_range [OF p(5,4) q_def assms(3), folded restrict_def]
    let ?tmp = "merge_items False tmp (restrict lo hi l)"
    have "range_loop search d lo hi i tmp = range_loop search d lo hi (i + 1) ?tmp"
    proof (cases "l = []")
      case nil: True
      then show ?thesis using True p(1) by (subst range_loop.simps) (cases tmp; simp add: restrict_def)
    next
      case False
      have "restrict lo hi l = []" if "q - p = 0" using cut(2) that by simp
      then show ?thesis using False True p(1-3) h(1) ub cut(2) by (subst range_loop.simps) (cases tmp; simp)
    qed
    moreover have so: "ksorted (restrict lo hi l)" unfolding restrict_def by (rule ksorted_filter [OF p(5)])
    then have "ksorted ?tmp" by (rule ksorted_merge [OF less.prems(3)])
    moreover have "map_of ?tmp = raw (take (Suc ?j) (levels d)) |` {lo..hi}"
    proof
      fix k
      have "map_of ?tmp k = (map_of l |` {lo..hi} ++ raw (take ?j (levels d)) |` {lo..hi}) k"
        using merge_keep [OF less.prems(3) so] by (simp only: less.prems(4) map_of_restrict)
      also have "\<dots> = (raw (take (Suc ?j) (levels d)) |` {lo..hi}) k"
        using raw_take_Suc [OF level_in_range(1) [OF lv less.prems(1) True], of k]
        by (simp only: l_def restrict_map_def map_add_def) (auto split: option.split)
      finally show "map_of ?tmp k = (raw (take (Suc ?j) (levels d)) |` {lo..hi}) k" .
    qed
    ultimately show ?thesis using less.hyps [of "i + 1" ?tmp] True less.prems(1) by (simp add: Suc_diff_le)
  qed
qed

lemma live_filter: "ksorted xs \<Longrightarrow> map_of (filter (\<lambda>x. \<not> deleted x) xs) k = live (map_of xs) k"
proof (induction xs arbitrary: k)
  case (Cons x xs)
  have "map_of xs (fst x) = None" using Cons.prems by (auto simp: map_of_eq_None_iff)
  then have "map_of (filter (\<lambda>x. \<not> deleted x) xs) (fst x) = None" using Cons by (simp add: live_def)
  with Cons show ?case by (auto simp: live_def deleted_def)
qed (simp add: live_def)

lemma pgm_range_ok:
  assumes "dyn_inv d" "search_ok search" "lo \<le> hi"
  shows "\<exists>out. pgm_range search d lo hi = Some (Inr out) \<and> ksorted out \<and> map_of out = dyn_map d |` {lo..hi}"
proof -
  have "min_level d \<le> used_levels d" using assms(1) by (simp add: dyn_inv_def levels_ok_def)
  with range_loop_ok [OF assms, of "min_level d" "[]"] obtain tmp where
    t: "range_loop search d lo hi (min_level d) [] = Some tmp" "ksorted tmp" "map_of tmp = raw (levels d) |` {lo..hi}" by auto
  have "ksorted (filter (\<lambda>x. \<not> deleted x) tmp)" by (rule ksorted_filter [OF t(2)])
  moreover have "map_of (filter (\<lambda>x. \<not> deleted x) tmp) = dyn_map d |` {lo..hi}"
    using live_filter [OF t(2)] by (auto simp: fun_eq_iff t(3) dyn_map_def live_def restrict_map_def)
  ultimately show ?thesis using t(1) assms(3) by (auto simp: pgm_range_def)
qed

section \<open>Correctness of lower_bound\<close>

definition below :: "u64 option \<Rightarrow> u64 \<Rightarrow> bool" where
  "below lb k \<longleftrightarrow> (case lb of None \<Rightarrow> True | Some b \<Rightarrow> k < b)"

text \<open>What the inner loop has passed over when it stops, and where it stops.\<close>

lemma lb_scan_ok:
  assumes "ksorted xs" "lb_scan lb D p xs = (D', r)"
  shows "case r of
      None \<Rightarrow> D' = D \<union> fst ` {x \<in> set xs. deleted x \<and> below lb (fst x)} \<and>
        (\<forall>x \<in> set xs. below lb (fst x) \<and> \<not> deleted x \<longrightarrow> fst x \<in> D)
    | Some q \<Rightarrow> \<exists>as x bs. xs = as @ x # bs \<and> q = p + length as \<and> \<not> deleted x \<and> fst x \<notin> D \<and> below lb (fst x) \<and>
        D' = D \<union> fst ` {y \<in> set as. deleted y} \<and> (\<forall>y \<in> set as. \<not> deleted y \<longrightarrow> fst y \<in> D)"
  using assms
proof (induction xs arbitrary: D p)
  case (Cons x xs)
  have lt: "\<forall>y \<in> set xs. fst x < fst y" "ksorted xs" using Cons.prems(1) by auto
  consider (stop) "\<not> below lb (fst x)" | (del) "below lb (fst x)" "deleted x"
    | (hit) "below lb (fst x)" "\<not> deleted x" "fst x \<notin> D" | (pass) "below lb (fst x)" "\<not> deleted x" "fst x \<in> D" by blast
  then show ?case
  proof cases
    case stop
    then have "\<not> below lb (fst y)" if "y \<in> set xs" for y using lt(1) that by (auto simp: below_def split: option.splits)
    moreover have "D' = D" "r = None" using stop Cons.prems(2) by (auto simp: below_def split: option.splits)
    ultimately show ?thesis using stop by auto
  next
    case del
    then have s: "lb_scan lb (insert (fst x) D) (p + 1) xs = (D', r)" using Cons.prems(2) by (simp add: below_def)
    have n: "fst y \<in> insert (fst x) D \<longleftrightarrow> fst y \<in> D" if "y \<in> set xs" for y using lt(1) that by auto
    show ?thesis
    proof (cases r)
      case None
      then show ?thesis using Cons.IH [OF lt(2) s] del n by auto
    next
      case (Some q)
      then obtain as y bs where y: "xs = as @ y # bs" "q = p + 1 + length as" "\<not> deleted y" "fst y \<notin> insert (fst x) D" "below lb (fst y)"
        "D' = insert (fst x) D \<union> fst ` {y \<in> set as. deleted y}" "\<forall>y \<in> set as. \<not> deleted y \<longrightarrow> fst y \<in> insert (fst x) D"
        using Cons.IH [OF lt(2) s] by auto
      have "\<forall>z \<in> set as. \<not> deleted z \<longrightarrow> fst z \<in> D" using y(1,7) n by auto
      moreover have "{z \<in> set (x # as). deleted z} = insert x {z \<in> set as. deleted z}" using del by auto
      ultimately show ?thesis using y del Some by (simp del: split_paired_Ex) (intro exI [of _ "x # as"] exI [of _ y] exI [of _ bs], simp)
    qed
  next
    case hit
    then have "D' = D" "r = Some p" using Cons.prems(2) by (auto simp: below_def)
    then show ?thesis using hit by (simp del: split_paired_Ex)
  next
    case pass
    then have s: "lb_scan lb D (p + 1) xs = (D', r)" using Cons.prems(2) by (simp add: below_def)
    show ?thesis
    proof (cases r)
      case None
      then show ?thesis using Cons.IH [OF lt(2) s] pass by auto
    next
      case (Some q)
      then obtain as y bs where y: "xs = as @ y # bs" "q = p + 1 + length as" "\<not> deleted y" "fst y \<notin> D" "below lb (fst y)"
        "D' = D \<union> fst ` {y \<in> set as. deleted y}" "\<forall>y \<in> set as. \<not> deleted y \<longrightarrow> fst y \<in> D"
        using Cons.IH [OF lt(2) s] by auto
      moreover have "{z \<in> set (x # as). deleted z} = {z \<in> set as. deleted z}" using pass by auto
      ultimately show ?thesis using pass Some by (simp del: split_paired_Ex) (intro exI [of _ "x # as"] exI [of _ y] exI [of _ bs], simp)
    qed
  qed
qed simp

text \<open>\<open>R\<close> is what the levels visited so far hold.\<close>

definition lb_inv :: "dyn_pgm \<Rightarrow> u64 \<Rightarrow> (u64 \<rightharpoonup> u64) \<Rightarrow> (nat \<times> nat \<times> u64) option \<Rightarrow> u64 set \<Rightarrow> bool" where
  "lb_inv d key R lb D \<longleftrightarrow>
     (\<forall>k \<in> D. key \<le> k \<and> R k = Some tombstone) \<and>
     (\<forall>k v. key \<le> k \<and> below (map_option (snd \<circ> snd) lb) k \<and> R k = Some v \<longrightarrow> v = tombstone \<and> k \<in> D) \<and>
     (\<forall>i q b. lb = Some (i, q, b) \<longrightarrow> key \<le> b \<and> (\<exists>v. R b = Some v \<and> v \<noteq> tombstone \<and> deref d (At i q) = Some (b, v)))"

definition lower_result :: "dyn_pgm \<Rightarrow> u64 \<Rightarrow> pgm_pos \<Rightarrow> bool" where
  "lower_result d key it \<longleftrightarrow>
     (case it of
        End \<Rightarrow> \<forall>k. key \<le> k \<longrightarrow> dyn_map d k = None
      | At i q \<Rightarrow> \<exists>k v. deref d it = Some (k, v) \<and> key \<le> k \<and> dyn_map d k = Some v \<and>
          (\<forall>k'. key \<le> k' \<and> k' < k \<longrightarrow> dyn_map d k' = None))"

lemma lb_invD:
  assumes "lb_inv d key R lb D"
  shows "k \<in> D \<Longrightarrow> R k = Some tombstone" "k \<in> D \<Longrightarrow> key \<le> k"
    "key \<le> k \<Longrightarrow> below (map_option (snd \<circ> snd) lb) k \<Longrightarrow> R k \<noteq> None \<Longrightarrow> k \<in> D"
  using assms unfolding lb_inv_def by blast+

lemma lb_inv_live: "lb_inv d key R lb D \<Longrightarrow> key \<le> k \<Longrightarrow> below (map_option (snd \<circ> snd) lb) k \<Longrightarrow> live R k = None"
  using lb_invD(1,3) [of d key R lb D k] by (cases "R k") (auto simp: live_def)

lemma lb_inv_result:
  assumes "lb_inv d key (raw (levels d)) lb D"
  shows "lower_result d key (case lb of None \<Rightarrow> End | Some (j, q, b) \<Rightarrow> At j q)"
proof (cases lb)
  case None
  then have "dyn_map d k = None" if "key \<le> k" for k
    using lb_inv_live [OF assms that] by (simp add: below_def dyn_map_def)
  then show ?thesis by (simp add: None lower_result_def)
next
  case (Some x)
  obtain j q b where x: "x = (j, q, b)" by (cases x) auto
  from assms obtain v where v: "key \<le> b" "raw (levels d) b = Some v" "v \<noteq> tombstone" "deref d (At j q) = Some (b, v)"
    unfolding lb_inv_def Some x by blast
  have "dyn_map d k = None" if "key \<le> k" "k < b" for k
    using lb_inv_live [OF assms that(1)] that(2) by (simp add: Some x below_def dyn_map_def)
  moreover have "dyn_map d b = Some v" using v by (simp add: dyn_map_def live_def)
  ultimately show ?thesis unfolding Some x lower_result_def using v(1,4) by auto
qed

text \<open>One level: \<open>xs\<close> is the part of the level from the lower bound on.\<close>

lemma lb_inv_none:
  assumes inv: "lb_inv d key R lb D" and so: "ksorted xs" and ge: "\<forall>x \<in> set xs. key \<le> fst x"
    and R': "\<forall>k. key \<le> k \<longrightarrow> R' k = (case R k of None \<Rightarrow> map_of xs k | Some v \<Rightarrow> Some v)"
    and scan: "lb_scan (map_option (snd \<circ> snd) lb) D p xs = (D', None)"
  shows "lb_inv d key R' lb D'"
proof -
  let ?lb = "map_option (snd \<circ> snd) lb"
  have D': "D' = D \<union> fst ` {x \<in> set xs. deleted x \<and> below ?lb (fst x)}"
    and pass: "\<And>x. x \<in> set xs \<Longrightarrow> below ?lb (fst x) \<Longrightarrow> \<not> deleted x \<Longrightarrow> fst x \<in> D"
    using lb_scan_ok [OF so scan] by auto
  note D = lb_invD [OF inv]
  have 1: "key \<le> k \<and> R' k = Some tombstone" if k: "k \<in> D'" for k
  proof (cases "k \<in> D")
    case True
    then show ?thesis using D(1,2) R' by simp
  next
    case False
    then obtain x where x: "x \<in> set xs" "deleted x" "below ?lb (fst x)" "k = fst x" using k D' by auto
    have "R k = None" using D(3) [of k] False x ge by blast
    then show ?thesis using R' x ge map_of_is_SomeI [OF ksorted_distinct [OF so], of k tombstone]
      by (simp add: deleted_def) (metis prod.collapse)
  qed
  have 2: "v = tombstone \<and> k \<in> D'" if k: "key \<le> k" "below ?lb k" "R' k = Some v" for k v
  proof (cases "R k")
    case None
    then have m: "(k, v) \<in> set xs" using k(1,3) R' by (auto dest: map_of_SomeD)
    show ?thesis
    proof (cases "deleted (k, v)")
      case True
      then show ?thesis using m k(2) D' by (force simp: deleted_def)
    next
      case False
      then show ?thesis using pass [OF m] k(2) D(1) [of k] None by simp
    qed
  next
    case (Some w)
    then show ?thesis using D(1,3) [of k] k R' D' by auto
  qed
  have 3: "key \<le> b \<and> (\<exists>v. R' b = Some v \<and> v \<noteq> tombstone \<and> deref d (At i q) = Some (b, v))" if lb: "lb = Some (i, q, b)" for i q b
  proof -
    from inv obtain v where v: "key \<le> b" "R b = Some v" "v \<noteq> tombstone" "deref d (At i q) = Some (b, v)" unfolding lb_inv_def lb by blast
    then have "R' b = Some v" using R' by simp
    with v show ?thesis by blast
  qed
  show ?thesis unfolding lb_inv_def using 1 2 3 by blast
qed

lemma lb_inv_some:
  assumes inv: "lb_inv d key R lb D" and so: "ksorted xs" and ge: "\<forall>x \<in> set xs. key \<le> fst x"
    and R': "\<forall>k. key \<le> k \<longrightarrow> R' k = (case R k of None \<Rightarrow> map_of xs k | Some v \<Rightarrow> Some v)"
    and scan: "lb_scan (map_option (snd \<circ> snd) lb) D p xs = (D', Some q)"
  shows "p \<le> q \<and> q - p < length xs \<and> (deref d (At i q) = Some (xs ! (q - p)) \<longrightarrow> lb_inv d key R' (Some (i, q, fst (xs ! (q - p)))) D')"
proof -
  let ?lb = "map_option (snd \<circ> snd) lb"
  obtain as x bs where xs: "xs = as @ x # bs" "q = p + length as" and x: "\<not> deleted x" "fst x \<notin> D" "below ?lb (fst x)"
    and D': "D' = D \<union> fst ` {y \<in> set as. deleted y}" and pass: "\<forall>y \<in> set as. \<not> deleted y \<longrightarrow> fst y \<in> D"
    using lb_scan_ok [OF so scan, simplified option.case] by blast
  note D = lb_invD [OF inv]
  have as: "\<forall>y \<in> set as. fst y < fst x" "\<forall>y \<in> set bs. fst x < fst y" using so by (auto simp: xs(1) sorted_wrt_append)
  have lt: "below ?lb k" if "k < fst x" for k using x(3) that by (auto simp: below_def split: option.splits)
  have kx: "key \<le> fst x" using ge by (simp add: xs(1))
  have mem: "map_of xs (fst y) = Some (snd y)" if "y \<in> set xs" for y
    using that map_of_is_SomeI [OF ksorted_distinct [OF so], of "fst y" "snd y"] by simp
  have Rx: "R (fst x) = None" using D(3) [OF kx x(3)] x(2) by blast
  have 1: "key \<le> k \<and> R' k = Some tombstone" if k: "k \<in> D'" for k
  proof (cases "k \<in> D")
    case True
    then show ?thesis using D(1,2) R' by simp
  next
    case False
    then obtain y where y: "y \<in> set as" "deleted y" "k = fst y" using k D' by auto
    have ky: "key \<le> k" using ge y by (simp add: xs(1))
    moreover have "R k = None" using D(3) [OF ky] lt as(1) y False by blast
    ultimately show ?thesis using R' y mem [of y] by (simp add: deleted_def xs(1))
  qed
  have 2: "v = tombstone \<and> k \<in> D'" if k: "key \<le> k" "k < fst x" "R' k = Some v" for k v
  proof (cases "R k")
    case None
    then have "(k, v) \<in> set xs" using k(1,3) R' by (auto dest: map_of_SomeD)
    then have m: "(k, v) \<in> set as" using k(2) as(2) by (auto simp: xs(1))
    show ?thesis
    proof (cases "deleted (k, v)")
      case True
      then show ?thesis using m D' by (force simp: deleted_def)
    next
      case False
      then show ?thesis using bspec [OF pass m] D(1) [of k] None by simp
    qed
  next
    case (Some w)
    then show ?thesis using D(1,3) [of k] k R' D' lt by auto
  qed
  have 3: "R' (fst x) = Some (snd x)" "snd x \<noteq> tombstone" using R' kx Rx mem [of x] x(1) by (auto simp: xs(1) deleted_def)
  have "lb_inv d key R' (Some (i, q, fst x)) D'" if "deref d (At i q) = Some x"
    unfolding lb_inv_def using 1 2 3 kx that by (auto simp: below_def simp del: deref.simps)
  then show ?thesis using xs by (simp del: deref.simps)
qed

lemma lb_loop_ok:
  assumes "dyn_inv d" "search_ok search" "min_level d \<le> i" "i \<le> used_levels d" "lb_inv d key (raw (take (i - min_level d) (levels d))) lb D"
  shows "\<exists>it. lb_loop search d key i lb D = Some it \<and> lower_result d key it"
  using assms(3-5)
proof (induction "used_levels d - i" arbitrary: i lb D rule: less_induct)
  case less
  have lv: "levels_ok d" using assms(1) by (simp add: dyn_inv_def)
  show ?case
  proof (cases "i < used_levels d")
    case False
    then show ?thesis using less.prems raw_take_used [OF lv] lb_inv_result [of d key lb D] by (simp add: lb_loop.simps)
  next
    case True
    let ?j = "i - min_level d"
    define l where "l = levels d ! ?j"
    from search_level [OF assms(1,2) less.prems(1) True l_def, of key] obtain lo hi p where
      s: "level_at d i = Some l" "window search d i l key = Some (lo, hi)" "lower_bound_bl l lo hi key = Some p"
      "first_ge (keys_of l) key p" "ksorted l" by metis
    note sp = first_ge_split [OF s(5,4)]
    let ?R = "raw (take ?j (levels d))" and ?R' = "raw (take (Suc ?j) (levels d))" and ?xs = "drop p l"
    have so: "ksorted ?xs" using s(5) by (metis drop_map sorted_wrt_drop)
    have R': "\<forall>k. key \<le> k \<longrightarrow> ?R' k = (case ?R k of None \<Rightarrow> map_of ?xs k | Some v \<Rightarrow> Some v)"
    proof (intro allI impI)
      fix k assume "key \<le> k"
      then have "map_of (take p l) k = None" using sp(1) by (auto simp: map_of_eq_None_iff)
      then have "map_of (take p l @ ?xs) k = map_of ?xs k" by (simp only: map_of_append) (simp add: map_add_def split: option.split)
      then show "?R' k = (case ?R k of None \<Rightarrow> map_of ?xs k | Some v \<Rightarrow> Some v)"
        using raw_take_Suc [OF level_in_range(1) [OF lv less.prems(1) True], of k, folded l_def] by (simp split: option.split)
    qed
    obtain D' r where scan: "lb_scan (map_option (snd \<circ> snd) lb) D p ?xs = (D', r)" by (cases "lb_scan (map_option (snd \<circ> snd) lb) D p ?xs")
    have IH: "\<exists>it. lb_loop search d key (i + 1) lb' D' = Some it \<and> lower_result d key it" if "lb_inv d key ?R' lb' D'" for lb'
      using less.hyps [of "i + 1" lb' D'] that True less.prems(1) by (simp add: Suc_diff_le)
    have step: "lb_loop search d key i lb D = (case r of None \<Rightarrow> lb_loop search d key (i + 1) lb D'
      | Some q \<Rightarrow> do { x \<leftarrow> rd l q; if fst x = key then Some (At i q) else lb_loop search d key (i + 1) (Some (i, q, fst x)) D' })"
    proof (cases "l = []")
      case nil: True
      then have "D' = D" "r = None" using scan by auto
      then show ?thesis using True nil s(1) by (simp add: lb_loop.simps [of _ _ _ i])
    next
      case False
      then show ?thesis using True s(1-3) scan by (simp add: lb_loop.simps [of _ _ _ i] split: option.split)
    qed
    show ?thesis
    proof (cases r)
      case None
      then show ?thesis using step IH [OF lb_inv_none [OF less.prems(3) so sp(2) R' scan [unfolded None]]] by simp
    next
      case (Some q)
      from lb_inv_some [OF less.prems(3) so sp(2) R' scan [unfolded Some], of i] have
        q: "p \<le> q" "q - p < length ?xs" "deref d (At i q) = Some (?xs ! (q - p)) \<longrightarrow> lb_inv d key ?R' (Some (i, q, fst (?xs ! (q - p)))) D'" by auto
      have x: "rd l q = Some (l ! q)" "?xs ! (q - p) = l ! q" using q(1,2) sp(3) by (auto simp: rd_def)
      then have inv: "lb_inv d key ?R' (Some (i, q, fst (l ! q))) D'" using q(3) s(1) by simp
      show ?thesis
      proof (cases "fst (l ! q) = key")
        case hit: True
        have "lb_loop search d key i lb D = Some (At i q)" using step Some x hit by simp
        moreover from inv obtain v where v: "?R' key = Some v" "v \<noteq> tombstone" "deref d (At i q) = Some (key, v)"
          unfolding lb_inv_def hit by blast
        have "dyn_map d key = Some v" using raw_take_found [OF v(1)] v(2) by (simp add: dyn_map_def live_def)
        then have "lower_result d key (At i q)" unfolding lower_result_def using v(3) by (auto simp del: deref.simps)
        ultimately show ?thesis by blast
      next
        case False
        then have "lb_loop search d key i lb D = lb_loop search d key (i + 1) (Some (i, q, fst (l ! q))) D'" using step Some x by simp
        then show ?thesis using IH [OF inv] by simp
      qed
    qed
  qed
qed

lemma lower_bound_dyn_ok:
  assumes "dyn_inv d" "search_ok search"
  shows "\<exists>it. lower_bound_dyn search d key = Some it \<and> lower_result d key it"
  unfolding lower_bound_dyn_def using assms
  by (intro lb_loop_ok) (auto simp: dyn_inv_def levels_ok_def lb_inv_def)

section \<open>Main theorems\<close>





end
