(* ===== verification/LoserTree.thy ===== *)
theory LoserTree
  imports PgmLevels "HOL-Library.Product_Lexorder"
begin

text \<open>
  The tournament tree that merges the levels during an iteration, \<open>internal::LoserTree\<close> of
  \<open>pgm_index_dynamic.hpp\<close>. The array has the overall winner at position 0, the losers of the
  matches at the inner nodes \<open>1, ..., k - 1\<close> of a binary tree, and the entries of the sources at its
  leaves \<open>k, ..., 2 k - 1\<close>. An entry is a key and the number of its source; entries are compared
  lexicographically, so that of equal keys the one of the first source wins.

  The correctness statement says what every place of the array holds in terms of the current
  entries of the sources.
\<close>

section \<open>Operations\<close>

type_synonym entry = "u64 \<times> nat"

record loser_tree =
  tree_k :: nat
  losers :: "entry list"

text \<open>
  For \<open>x = 0\<close> the code shifts by 64, which C++ leaves undefined; \<open>shl64\<close> is the value that the
  machine delivers for \<open>uint64_t(1) << 64\<close>, if any.
\<close>

definition next_pow2 :: "nat option \<Rightarrow> nat \<Rightarrow> nat option" where
  "next_pow2 shl64 x = (if x = 1 then Some 1 else if x = 0 then shl64 else Some (2 ^ bit_count (x - 1)))"

definition sentinel :: entry where
  "sentinel = (- 1, 255)"

text \<open>
  The number of leaves is stored in a byte. With \<open>ik = 0\<close> the loop counter starts at \<open>2 ^ 32 - 1\<close>
  and nothing is written.
\<close>

definition LoserTree :: "nat option \<Rightarrow> nat \<Rightarrow> loser_tree option" where
  "LoserTree shl64 ik =
     do { kk \<leftarrow> next_pow2 shl64 ik;
          let k = kk mod 256;
          Some \<lparr>tree_k = k, losers = (if ik = 0 then replicate (2 * k) (0, 0)
            else replicate (min (k + (ik - 1)) (2 * k)) (0, 0) @ replicate (k - (ik - 1)) sentinel)\<rparr> }"

definition min_source :: "loser_tree \<Rightarrow> nat option" where
  "min_source t = do { x \<leftarrow> rd (losers t) 0; if snd x = 255 then None else Some (snd x) }"

definition tree_insert_start :: "loser_tree \<Rightarrow> u64 \<Rightarrow> nat \<Rightarrow> loser_tree option" where
  "tree_insert_start t key source = do { ls \<leftarrow> wr (losers t) ((tree_k t + source) mod 256) (key, source); Some (t\<lparr>losers := ls\<rparr>) }"

text \<open>The recursion of \<open>init_winner\<close> does not end for node 0.\<close>

function init_winner :: "nat \<Rightarrow> entry list \<Rightarrow> nat \<Rightarrow> (nat \<times> entry list) option" where
  "init_winner k ls root =
     (if k \<le> root then Some (root, ls)
      else if root = 0 then None
      else do { (left, ls1) \<leftarrow> init_winner k ls (2 * root);
                (right, ls2) \<leftarrow> init_winner k ls1 (2 * root + 1);
                x \<leftarrow> rd ls2 right;
                y \<leftarrow> rd ls2 left;
                if fst x \<ge> fst y then do { ls3 \<leftarrow> wr ls2 root x; Some (left, ls3) }
                else do { ls3 \<leftarrow> wr ls2 root y; Some (right, ls3) } })"
  by pat_completeness auto
termination
  by (relation "measure (\<lambda>(k, ls, root). k - root)") auto

declare init_winner.simps [simp del]

definition init_tree :: "loser_tree \<Rightarrow> loser_tree option" where
  "init_tree t =
     do { (w, ls) \<leftarrow> init_winner (tree_k t) (losers t) 1;
          x \<leftarrow> rd ls w; ls' \<leftarrow> wr ls 0 x; Some (t\<lparr>losers := ls'\<rparr>) }"

text \<open>The loop of \<open>delete_min_insert\<close> from the parent of a leaf to the root.\<close>

function sift :: "entry list \<Rightarrow> nat \<Rightarrow> u64 \<Rightarrow> nat \<Rightarrow> (entry list \<times> u64 \<times> nat) option" where
  "sift ls pos key source =
     (if pos > 0 then
        do { x \<leftarrow> rd ls pos;
             if fst x < key \<or> (key \<ge> fst x \<and> snd x < source)
             then do { ls' \<leftarrow> wr ls pos (key, source); sift ls' (pos div 2) (fst x) (snd x) }
             else sift ls (pos div 2) key source }
      else Some (ls, key, source))"
  by pat_completeness auto
termination
  by (relation "measure (\<lambda>(ls, pos, key, source). pos)") auto

declare sift.simps [simp del]

definition delete_min_insert :: "loser_tree \<Rightarrow> u64 option \<Rightarrow> loser_tree option" where
  "delete_min_insert t key_ptr =
     do { x \<leftarrow> rd (losers t) 0;
          (ls, key, source) \<leftarrow> sift (losers t) ((tree_k t + snd x) div 2) (case key_ptr of Some k \<Rightarrow> k | None \<Rightarrow> - 1) (snd x);
          ls' \<leftarrow> wr ls 0 (key, source);
          Some (t\<lparr>losers := ls'\<rparr>) }"

section \<open>Winners\<close>

text \<open>
  The winner among the leaves below the node \<open>r\<close> of height \<open>h\<close>, which are the numbers \<open>j\<close> with
  \<open>j div 2 ^ h = r\<close>.
\<close>

fun win :: "(nat \<Rightarrow> 'a::linorder) \<Rightarrow> nat \<Rightarrow> nat \<Rightarrow> 'a" where
  "win E 0 r = E r"
| "win E (Suc h) r = min (win E h (2 * r)) (win E h (2 * r + 1))"

lemma child_of: "(j::nat) div 2 ^ Suc h = r \<longleftrightarrow> j div 2 ^ h = 2 * r \<or> j div 2 ^ h = 2 * r + 1"
proof -
  have "j div 2 ^ Suc h = (j div 2 ^ h) div 2" using div_mult2_eq [of j "2 ^ h" 2] by (simp only: power_Suc2)
  then show ?thesis by auto
qed

lemma win_le: "j div 2 ^ h = r \<Longrightarrow> win E h r \<le> E j"
proof (induction h arbitrary: r)
  case (Suc h)
  then have "j div 2 ^ h = 2 * r \<or> j div 2 ^ h = 2 * r + 1" by (simp only: child_of)
  then show ?case using Suc.IH [of "2 * r"] Suc.IH [of "2 * r + 1"] by (auto intro: min.coboundedI1 min.coboundedI2)
qed simp

lemma win_leaf: "\<exists>j. j div 2 ^ h = r \<and> win E h r = E j"
proof (induction h arbitrary: r)
  case (Suc h)
  then show ?case unfolding win.simps min_def child_of by meson
qed simp

lemma win_cong: "(\<And>j. j div 2 ^ h = r \<Longrightarrow> E j = E' j) \<Longrightarrow> win E h r = win E' h r"
proof (induction h arbitrary: r)
  case (Suc h)
  have "win E h (2 * r) = win E' h (2 * r)" "win E h (2 * r + 1) = win E' h (2 * r + 1)"
    using Suc.prems child_of [of _ h r] by (auto intro!: Suc.IH)
  then show ?case by simp
qed simp

lemma win_min: "(\<And>j. j div 2 ^ h = r \<Longrightarrow> E i \<le> E j) \<Longrightarrow> i div 2 ^ h = r \<Longrightarrow> win E h r = E i"
  using win_leaf [of h r E] win_le [of i h r E] by (metis antisym)

text \<open>Depth and height of a node.\<close>

definition height :: "nat \<Rightarrow> nat \<Rightarrow> nat" where
  "height H i = H - (bit_count i - 1)"

definition loser :: "(nat \<Rightarrow> 'a::linorder) \<Rightarrow> nat \<Rightarrow> nat \<Rightarrow> 'a" where
  "loser E H i = max (win E (height H i - 1) (2 * i)) (win E (height H i - 1) (2 * i + 1))"

definition tree_ok :: "(nat \<Rightarrow> entry) \<Rightarrow> nat \<Rightarrow> loser_tree \<Rightarrow> bool" where
  "tree_ok E H t \<longleftrightarrow> tree_k t = 2 ^ H \<and> length (losers t) = 2 * 2 ^ H \<and> losers t ! 0 = win E H 1 \<and>
     (\<forall>i. 0 < i \<and> i < 2 ^ H \<longrightarrow> losers t ! i = loser E H i)"

lemma bit_count_double: "0 < i \<Longrightarrow> bit_count (2 * i) = Suc (bit_count i)" "bit_count (2 * i + 1) = Suc (bit_count i)"
  by (subst bit_count.simps, simp)+

lemma bit_count_pos: "0 < i \<Longrightarrow> 0 < bit_count i"
  by (subst bit_count.simps) simp

lemma bit_count_leaf: "2 ^ H \<le> i \<Longrightarrow> i < 2 * 2 ^ H \<Longrightarrow> bit_count i = Suc H"
proof (induction H arbitrary: i)
  case 0
  then have "i = 1" by simp
  then show ?case by (simp add: bit_count.simps)
next
  case (Suc H)
  then have "bit_count (i div 2) = Suc H" "0 < i" by (auto intro: Suc.IH simp: less_mult_imp_div_less mult.commute)
  then show ?case by (subst bit_count.simps) simp
qed

lemma bit_count_inner: "i < 2 ^ H \<Longrightarrow> bit_count i \<le> H"
proof (induction H arbitrary: i)
  case (Suc H)
  then have "bit_count (i div 2) \<le> H" by (intro Suc.IH) (simp add: less_mult_imp_div_less mult.commute)
  then show ?case by (subst bit_count.simps) simp
qed (simp add: bit_count.simps)

lemma height_inner:
  assumes "0 < i" "i < 2 ^ H" shows "0 < height H i" "height H (2 * i) = height H i - 1" "height H (2 * i + 1) = height H i - 1"
  using bit_count_inner [OF assms(2)] bit_count_pos [OF assms(1)] bit_count_double [of i] assms(1) by (simp_all add: height_def)

section \<open>Building the tree\<close>

definition anc :: "nat \<Rightarrow> nat \<Rightarrow> bool" where
  "anc r i \<longleftrightarrow> (\<exists>g. i div 2 ^ g = r)"

lemma anc_step: "anc r i \<longleftrightarrow> i = r \<or> anc (2 * r) i \<or> anc (2 * r + 1) i"
proof
  assume "anc r i"
  then obtain g where g: "i div 2 ^ g = r" by (auto simp: anc_def)
  show "i = r \<or> anc (2 * r) i \<or> anc (2 * r + 1) i"
  proof (cases g)
    case (Suc g')
    then show ?thesis using g child_of [of i g' r] by (auto simp: anc_def)
  qed (use g in simp)
next
  assume "i = r \<or> anc (2 * r) i \<or> anc (2 * r + 1) i"
  then show "anc r i" unfolding anc_def using child_of [of i _ r] by (metis div_by_1 power_0)
qed

lemma anc_root: "0 < i \<Longrightarrow> anc 1 i"
proof (induction i rule: bit_count.induct)
  case (1 i)
  show ?case
  proof (cases "i div 2 = 0")
    case True
    then have "i = 1" using 1(2) by simp
    then show ?thesis unfolding anc_def by (intro exI [of _ 0]) simp
  next
    case False
    then obtain g where "i div 2 div 2 ^ g = 1" using 1 by (auto simp: anc_def)
    then have "i div 2 ^ Suc g = 1" by (simp add: div_mult2_eq)
    then show ?thesis unfolding anc_def by blast
  qed
qed

text \<open>
  Sources are numbered from left to right, so that a winner by key alone, the left one among equal
  keys, is a winner in the lexicographic order.
\<close>

lemma init_winner_ok:
  assumes "0 < r" "r < 2 * 2 ^ H" "length ls = 2 * 2 ^ H" "\<And>j. 2 ^ H \<le> j \<Longrightarrow> j < 2 * 2 ^ H \<Longrightarrow> ls ! j = E j"
    "\<And>i j. 2 ^ H \<le> i \<Longrightarrow> i \<le> j \<Longrightarrow> j < 2 * 2 ^ H \<Longrightarrow> snd (E i) \<le> snd (E j)"
  shows "\<exists>w ls'. init_winner (2 ^ H) ls r = Some (w, ls') \<and> 2 ^ H \<le> w \<and> w < 2 * 2 ^ H \<and> w div 2 ^ height H r = r \<and>
    E w = win E (height H r) r \<and> length ls' = length ls \<and>
    (\<forall>i < 2 * 2 ^ H. ls' ! i = (if i < 2 ^ H \<and> anc r i then loser E H i else ls ! i))"
  using assms(1-4)
proof (induction "2 ^ H - r" arbitrary: r ls rule: less_induct)
  case less
  show ?case
  proof (cases "2 ^ H \<le> r")
    case True
    then have "height H r = 0" using bit_count_leaf [of H r] less.prems(2) by (simp add: height_def)
    moreover have "init_winner (2 ^ H) ls r = Some (r, ls)" using True by (simp add: init_winner.simps)
    moreover have "\<not> anc r i" if "i < 2 ^ H" for i
      using True that unfolding anc_def by (meson div_le_dividend le_less_trans linorder_not_le)
    ultimately show ?thesis using True less.prems by auto
  next
    case False
    then have r: "r < 2 ^ H" by simp
    note ht = height_inner [OF less.prems(1) r]
    define h where "h = height H (2 * r)"
    have h: "height H r = Suc h" "height H (2 * r) = h" "height H (2 * r + 1) = h" using ht by (simp_all add: h_def)
    have dec: "2 ^ H - 2 * r < 2 ^ H - r" "2 ^ H - (2 * r + 1) < 2 ^ H - r"
      using r less.prems(1) by (simp_all add: diff_less_mono2)
    from less.hyps [OF dec(1), of ls] r less.prems obtain a ls1 where
      a: "init_winner (2 ^ H) ls (2 * r) = Some (a, ls1)" "2 ^ H \<le> a" "a < 2 * 2 ^ H" "a div 2 ^ h = 2 * r" "E a = win E h (2 * r)"
      "length ls1 = length ls" "\<forall>i < 2 * 2 ^ H. ls1 ! i = (if i < 2 ^ H \<and> anc (2 * r) i then loser E H i else ls ! i)"
      unfolding h by auto
    from less.hyps [OF dec(2), of ls1] r less.prems a(6,7) obtain b ls2 where
      b: "init_winner (2 ^ H) ls1 (2 * r + 1) = Some (b, ls2)" "2 ^ H \<le> b" "b < 2 * 2 ^ H" "b div 2 ^ h = 2 * r + 1" "E b = win E h (2 * r + 1)"
      "length ls2 = length ls1" "\<forall>i < 2 * 2 ^ H. ls2 ! i = (if i < 2 ^ H \<and> anc (2 * r + 1) i then loser E H i else ls1 ! i)"
      unfolding h by auto
    have ab: "ls2 ! a = E a" "ls2 ! b = E b" "rd ls2 a = Some (E a)" "rd ls2 b = Some (E b)"
      using a(2,3,6,7) b(2,3,6,7) less.prems(3,4) by (auto simp: rd_def)
    have "a < b" using a(4) b(4) by (metis Suc_eq_plus1 div_le_mono lessI linorder_not_less)
    then have src: "snd (E a) \<le> snd (E b)" using assms(5) a(2) b(3) by simp
    define w where "w = (if fst (E b) \<ge> fst (E a) then a else b)"
    define l where "l = (if fst (E b) \<ge> fst (E a) then E b else E a)"
    have win: "E w = win E (Suc h) r" and los: "l = loser E H r"
      using src a(5) b(5) unfolding w_def l_def loser_def h by (auto simp: min_def max_def less_eq_prod_def not_le)
    have "init_winner (2 ^ H) ls r = Some (w, ls2[r := l])"
      using False less.prems a(1,6) b(1,6) ab(3,4) r by (subst init_winner.simps) (simp add: w_def l_def wr_def)
    moreover have "w div 2 ^ Suc h = r" using a(4) b(4) child_of [of w h r] by (simp add: w_def)
    moreover have "ls2[r := l] ! i = (if i < 2 ^ H \<and> anc r i then loser E H i else ls ! i)" if "i < 2 * 2 ^ H" for i
      using that a(6,7) b(6,7) r less.prems(3) los anc_step [of r i] by (auto simp: nth_list_update)
    moreover have "2 ^ H \<le> w" "w < 2 * 2 ^ H" using a(2,3) b(2,3) by (auto simp: w_def)
    ultimately show ?thesis using win a(6) b(6) unfolding h by (intro exI [of _ w] exI [of _ "ls2[r := l]"]) simp
  qed
qed

lemma init_tree_ok:
  assumes "tree_k t = 2 ^ H" "length (losers t) = 2 * 2 ^ H" "\<And>j. 2 ^ H \<le> j \<Longrightarrow> j < 2 * 2 ^ H \<Longrightarrow> losers t ! j = E j"
    "\<And>i j. 2 ^ H \<le> i \<Longrightarrow> i \<le> j \<Longrightarrow> j < 2 * 2 ^ H \<Longrightarrow> snd (E i) \<le> snd (E j)"
  shows "\<exists>t'. init_tree t = Some t' \<and> tree_ok E H t'"
proof -
  have h1: "height H 1 = H" by (simp add: height_def bit_count.simps)
  have one: "(1::nat) < 2 * 2 ^ H" using one_le_power [of "2::nat" H] by linarith
  from init_winner_ok [of 1 H "losers t" E] one assms obtain w ls where
    w: "init_winner (2 ^ H) (losers t) 1 = Some (w, ls)" "2 ^ H \<le> w" "w < 2 * 2 ^ H" "E w = win E H 1" "length ls = 2 * 2 ^ H"
    "\<forall>i < 2 * 2 ^ H. ls ! i = (if i < 2 ^ H \<and> anc 1 i then loser E H i else losers t ! i)" unfolding h1 by auto
  have "rd ls w = Some (E w)" using w(2,3,5,6) assms(3) by (simp add: rd_def)
  then have "init_tree t = Some (t\<lparr>losers := ls[0 := E w]\<rparr>)" using w(1,5) assms(1) by (auto simp: init_tree_def wr_def)
  moreover have "tree_ok E H (t\<lparr>losers := ls[0 := E w]\<rparr>)" unfolding tree_ok_def using assms(1) w(4-6) anc_root by (auto simp: nth_list_update)
  ultimately show ?thesis by blast
qed

section \<open>Replacing the winner\<close>

text \<open>
  \<open>j\<close> is the leaf of the winner and \<open>y\<close> its new entry. The loop has reached height \<open>g\<close> on the path
  from \<open>j\<close> to the root.
\<close>

lemma bit_count_div: "bit_count (j div 2 ^ g) = bit_count j - g"
proof (induction g)
  case (Suc g)
  have e: "j div 2 ^ Suc g = (j div 2 ^ g) div 2" using div_mult2_eq [of j "2 ^ g" 2] by (simp only: power_Suc2)
  show ?case using Suc bit_count.simps [of "j div 2 ^ g"] unfolding e by (cases "j div 2 ^ g = 0") (auto simp: bit_count.simps [of 0])
qed simp

lemma leaf_below:
  assumes "g \<le> H" "2 ^ H \<le> (j::nat)" "j < 2 * 2 ^ H" "i div 2 ^ g = j div 2 ^ g"
  shows "2 ^ H \<le> i" "i < 2 * 2 ^ H"
proof -
  have "i div 2 ^ H = j div 2 ^ H" using assms(1,4) div_mult2_eq [of _ "2 ^ g" "2 ^ (H - g)"] by (metis le_add_diff_inverse power_add)
  moreover have "j div 2 ^ H = 1" using assms(2,3) by (simp add: div_nat_eqI)
  ultimately have "i div 2 ^ H = 1" by simp
  then show "2 ^ H \<le> i" "i < 2 * 2 ^ H" using div_less [of i "2 ^ H"] dividend_less_div_times [of "2 ^ H" i] by (fastforce simp: not_less [symmetric])+
qed

lemma win_off:
  assumes "\<And>i. i \<noteq> j \<Longrightarrow> E' i = E i" "j div 2 ^ h \<noteq> r" shows "win E' h r = win E h r"
  using assms by (intro win_cong) metis

lemma loser_off_path:
  assumes "\<And>i. i \<noteq> j \<Longrightarrow> E' i = E i" "0 < i" "i < 2 ^ H" "i \<noteq> j div 2 ^ height H i"
  shows "loser E' H i = loser E H i"
proof -
  have "j div 2 ^ Suc (height H i - 1) \<noteq> i" using assms(4) height_inner(1) [OF assms(2,3)] by simp
  then have "j div 2 ^ (height H i - 1) \<noteq> 2 * i" "j div 2 ^ (height H i - 1) \<noteq> 2 * i + 1" unfolding child_of by blast+
  then show ?thesis unfolding loser_def using win_off [OF assms(1)] by simp
qed

lemma sift_ok:
  assumes "2 ^ H \<le> j" "j < 2 * 2 ^ H" and E': "\<And>i. i \<noteq> j \<Longrightarrow> E' i = E i"
    and low: "\<And>i. 2 ^ H \<le> i \<Longrightarrow> i < 2 * 2 ^ H \<Longrightarrow> E j \<le> E i"
    and "g \<le> H" "length ls = 2 * 2 ^ H" "(key, source) = win E' g (j div 2 ^ g)"
    "\<And>i. 0 < i \<Longrightarrow> i < 2 ^ H \<Longrightarrow> ls ! i = (if g < height H i then loser E H i else loser E' H i)"
  shows "\<exists>ls' x. sift ls (j div 2 ^ Suc g) key source = Some (ls', x) \<and> x = win E' H 1 \<and> length ls' = 2 * 2 ^ H \<and>
    (\<forall>i. 0 < i \<and> i < 2 ^ H \<longrightarrow> ls' ! i = loser E' H i)"
  using assms(5-8)
proof (induction "H - g" arbitrary: g ls key source)
  case 0
  then have g: "g = H" by simp
  have "j div 2 ^ H = 1" "j div 2 ^ Suc H = 0" using assms(1,2) by (simp_all add: div_nat_eqI)
  moreover have "\<not> H < height H i" for i by (simp add: height_def)
  ultimately show ?case using 0 by (subst sift.simps) (simp add: g)
next
  case (Suc n)
  then have g: "g < H" "n = H - Suc g" by auto
  let ?pos = "j div 2 ^ Suc g" and ?c = "j div 2 ^ g"
  have c: "?c = 2 * ?pos \<or> ?c = 2 * ?pos + 1" using child_of [of j g ?pos] by blast
  have bc: "bit_count ?pos = H - g" using bit_count_div [of j "Suc g"] bit_count_leaf [OF assms(1,2)] by simp
  have pos: "0 < ?pos" "?pos < 2 ^ H" "?pos div 2 = j div 2 ^ Suc (Suc g)"
  proof -
    show "0 < ?pos" using bc g(1) by (cases "?pos = 0") (auto simp: bit_count.simps [of 0])
    have "?pos = j div 2 div 2 ^ g" by (simp add: div_mult2_eq)
    then have "?pos \<le> j div 2" by (simp only: div_le_dividend)
    then show "?pos < 2 ^ H" using assms(2) by simp
    show "?pos div 2 = j div 2 ^ Suc (Suc g)" using div_mult2_eq [of j "2 ^ Suc g" 2] by (simp only: power_Suc2 [of 2 "Suc g"])
  qed
  have hp: "height H ?pos = Suc g" using bc g(1) by (simp add: height_def)
  define sb where "sb = (if ?c = 2 * ?pos then 2 * ?pos + 1 else 2 * ?pos)"
  have wc: "win E g ?c = E j" using low leaf_below [of g H j] assms(1,2) g(1) by (intro win_min) auto
  have sE: "win E' g sb = win E g sb" using c by (intro win_off [OF E']) (auto simp: sb_def)
  have "E j \<le> win E g sb"
  proof -
    obtain i where i: "i div 2 ^ g = sb" "win E g sb = E i" using win_leaf by blast
    then have "i div 2 ^ Suc g = ?pos" using child_of [of i g ?pos] by (auto simp: sb_def)
    then show ?thesis using i(2) low leaf_below [OF _ assms(1,2), of "Suc g" i] g(1) by auto
  qed
  then have x: "ls ! ?pos = win E' g sb" using Suc.prems(4) [OF pos(1,2)] hp wc c sE by (auto simp: loser_def sb_def max_def)
  have new: "loser E' H ?pos = max (win E' g ?c) (win E' g sb)" "win E' (Suc g) ?pos = min (win E' g ?c) (win E' g sb)"
    using c hp by (auto simp: loser_def sb_def max.commute min.commute)
  define ls1 where "ls1 = ls[?pos := loser E' H ?pos]"
  obtain k1 s1 where ks: "win E' (Suc g) ?pos = (k1, s1)" by (cases "win E' (Suc g) ?pos")
  have swap: "fst (ls ! ?pos) < key \<or> key \<ge> fst (ls ! ?pos) \<and> snd (ls ! ?pos) < source \<longleftrightarrow> ls ! ?pos < (key, source)"
    by (cases "ls ! ?pos") (auto simp: less_prod_def')
  have "sift ls ?pos key source = sift ls1 (?pos div 2) k1 s1"
  proof -
    have rd: "rd ls ?pos = Some (ls ! ?pos)" "wr ls ?pos z = Some (ls[?pos := z])" for z
      using pos(2) Suc.prems(2) by (auto simp: rd_def wr_def)
    have ks': "(k1, s1) = min (key, source) (ls ! ?pos)" using new(2) ks by (simp only: Suc.prems(3) x)
    have ls1: "ls1 = ls[?pos := max (key, source) (ls ! ?pos)]" unfolding ls1_def new(1) by (simp only: Suc.prems(3) x)
    show ?thesis
    proof (cases "ls ! ?pos < (key, source)")
      case True
      then have "ls1 = ls[?pos := (key, source)]" "(k1, s1) = ls ! ?pos"
        using ks' ls1 by (simp_all only: max.absorb1 min.absorb2 less_imp_le)
      then show ?thesis using True swap pos(1) rd by (subst sift.simps) (simp add: prod_eq_iff)
    next
      case False
      then have "ls1 = ls" "(k1, s1) = (key, source)" using ks' ls1 by (simp_all add: max.absorb2 min.absorb1 not_less)
      then show ?thesis using False swap pos(1) rd by (subst sift.simps) auto
    qed
  qed
  then have "sift ls ?pos key source = sift ls1 (j div 2 ^ Suc (Suc g)) k1 s1" by (simp only: pos(3))
  moreover have "ls1 ! i = (if Suc g < height H i then loser E H i else loser E' H i)" if i: "0 < i" "i < 2 ^ H" for i
  proof (cases "i = ?pos")
    case True
    then show ?thesis using hp pos(2) Suc.prems(2) by (simp add: ls1_def)
  next
    case False
    then have "ls1 ! i = (if g < height H i then loser E H i else loser E' H i)" using Suc.prems(4) [OF i] by (simp add: ls1_def)
    moreover have "loser E' H i = loser E H i" if "height H i = Suc g" using loser_off_path [OF E' i] that False by simp
    ultimately show ?thesis by auto
  qed
  ultimately show ?case using Suc.hyps(1) [OF g(2), of ls1 k1 s1] g(1) Suc.prems(2) ks by (simp add: ls1_def)
qed

text \<open>The entry of the winner is replaced and every place of the array follows.\<close>

lemma delete_min_insert_ok:
  assumes "tree_ok E H t" "snd (win E H 1) = s" "s < 2 ^ H" "E (2 ^ H + s) = win E H 1"
    "\<And>i. i \<noteq> 2 ^ H + s \<Longrightarrow> E' i = E i" "E' (2 ^ H + s) = (case key_ptr of Some k \<Rightarrow> k | None \<Rightarrow> - 1, s)"
  shows "\<exists>t'. delete_min_insert t key_ptr = Some t' \<and> tree_ok E' H t'"
proof -
  let ?j = "2 ^ H + s"
  have t: "tree_k t = 2 ^ H" "length (losers t) = 2 * 2 ^ H" "losers t ! 0 = win E H 1"
    "\<And>i. 0 < i \<Longrightarrow> i < 2 ^ H \<Longrightarrow> losers t ! i = loser E H i" using assms(1) by (auto simp: tree_ok_def)
  have low: "E ?j \<le> E i" if "2 ^ H \<le> i" "i < 2 * 2 ^ H" for i
    using win_le [of i H 1 E] that assms(4) by (simp add: div_nat_eqI)
  have "\<exists>ls' x. sift (losers t) (?j div 2 ^ Suc 0) (fst (E' ?j)) (snd (E' ?j)) = Some (ls', x) \<and> x = win E' H 1 \<and>
    length ls' = 2 * 2 ^ H \<and> (\<forall>i. 0 < i \<and> i < 2 ^ H \<longrightarrow> ls' ! i = loser E' H i)"
    using assms(3) t(2,4) height_inner(1) by (intro sift_ok [of H ?j E' E 0]) (auto intro: assms(5) low)
  then obtain ls where ls: "sift (losers t) (?j div 2) (fst (E' ?j)) s = Some (ls, win E' H 1)" "length ls = 2 * 2 ^ H"
    "\<forall>i. 0 < i \<and> i < 2 ^ H \<longrightarrow> ls ! i = loser E' H i" using assms(6) by auto
  have "delete_min_insert t key_ptr = Some (t\<lparr>losers := ls[0 := win E' H 1]\<rparr>)"
    using ls(1,2) t(1-3) assms(2,6) by (cases "win E' H 1") (auto simp: delete_min_insert_def rd_def wr_def)
  moreover have "tree_ok E' H (t\<lparr>losers := ls[0 := win E' H 1]\<rparr>)" using ls(2,3) t(1) by (auto simp: tree_ok_def)
  ultimately show ?thesis by blast
qed

end
