(* ===== verification/PgmIter.thy ===== *)
theory PgmIter
  imports PgmQuery LoserTree
begin

text \<open>
  The iterator of the dynamic PGM index: its first increment positions a cursor behind the current
  key in every level and builds a tournament tree over them (\<open>lazy_initialize\<close>); every increment
  takes items from the tree until one is not deleted (\<open>advance\<close>).

  The loops of \<open>advance\<close> are partial functions; that they end is part of their correctness. The
  largest key value is reserved by the tournament tree for exhausted sources, so that the theorems
  exclude it as a key.
\<close>

declare deref.simps(2) [simp del]

section \<open>Operations\<close>

record dyn_iter =
  cur :: pgm_pos
  initialized :: bool
  unconsumed_count :: nat
  tree :: loser_tree
  iterators :: "(nat \<times> nat) list"

definition new_iter :: "pgm_pos \<Rightarrow> dyn_iter" where
  "new_iter p = \<lparr>cur = p, initialized = False, unconsumed_count = 0, tree = \<lparr>tree_k = 0, losers = []\<rparr>, iterators = []\<rparr>"

function init_cursors :: "pgm_search \<Rightarrow> dyn_pgm \<Rightarrow> u64 \<Rightarrow> nat \<Rightarrow> (nat \<times> nat) list option" where
  "init_cursors search d key i =
     (if i < used_levels d then
        do { l \<leftarrow> level_at d i;
             if l = [] then init_cursors search d key (i + 1)
             else do { (lo, hi) \<leftarrow> window search d i l key;
                       pos \<leftarrow> std_upper_bound l lo hi key;
                       cs \<leftarrow> init_cursors search d key (i + 1);
                       Some (if pos \<noteq> length l then (i, pos) # cs else cs) } }
      else Some [])"
  by pat_completeness auto
termination
  by (relation "measure (\<lambda>(s, d, k, i). used_levels d - i)") auto

declare init_cursors.simps [simp del]

fun fill_tree :: "dyn_pgm \<Rightarrow> loser_tree \<Rightarrow> nat \<Rightarrow> (nat \<times> nat) list \<Rightarrow> loser_tree option" where
  "fill_tree d t i [] = Some t"
| "fill_tree d t i ((l, p) # cs) = do { x \<leftarrow> deref d (At l p); t' \<leftarrow> tree_insert_start t (fst x) i; fill_tree d t' (Suc i) cs }"

definition lazy_initialize :: "nat option \<Rightarrow> pgm_search \<Rightarrow> dyn_pgm \<Rightarrow> dyn_iter \<Rightarrow> dyn_iter option" where
  "lazy_initialize shl64 search d it =
     (if initialized it then Some it
      else do { x \<leftarrow> deref d (cur it);
                cs \<leftarrow> init_cursors search d (fst x) (min_level d);
                t0 \<leftarrow> LoserTree shl64 (length cs);
                t1 \<leftarrow> fill_tree d t0 0 cs;
                t2 \<leftarrow> init_tree t1;
                Some (it\<lparr>iterators := cs, tree := t2, initialized := True, unconsumed_count := length cs\<rparr>) })"

text \<open>The closure \<open>step\<close>: the cursor before its increment is the result.\<close>

definition iter_step :: "dyn_pgm \<Rightarrow> dyn_iter \<Rightarrow> (dyn_iter \<times> nat \<times> nat) option" where
  "iter_step d it =
     do { s \<leftarrow> min_source (tree it);
          (l, p) \<leftarrow> rd (iterators it) s;
          lv \<leftarrow> level_at d l;
          if p < length lv then
            (if p + 1 = length lv then
               do { t \<leftarrow> delete_min_insert (tree it) None;
                    Some (it\<lparr>iterators := (iterators it)[s := (l, p + 1)], tree := t, unconsumed_count := unconsumed_count it - 1\<rparr>, l, p) }
             else
               do { x \<leftarrow> rd lv (p + 1);
                    t \<leftarrow> delete_min_insert (tree it) (Some (fst x));
                    Some (it\<lparr>iterators := (iterators it)[s := (l, p + 1)], tree := t\<rparr>, l, p) })
          else None }"

text \<open>The item at the cursor with the least key.\<close>

definition min_item :: "dyn_pgm \<Rightarrow> dyn_iter \<Rightarrow> item option" where
  "min_item d it = do { s \<leftarrow> min_source (tree it); (l, p) \<leftarrow> rd (iterators it) s; deref d (At l p) }"

partial_function (option) skip_equal :: "dyn_pgm \<Rightarrow> u64 \<Rightarrow> dyn_iter \<Rightarrow> dyn_iter option" where
  "skip_equal d key it =
     (if unconsumed_count it > 0 then
        do { x \<leftarrow> min_item d it;
             if fst x = key then do { (it', c) \<leftarrow> iter_step d it; skip_equal d key it' } else Some it }
      else Some it)"

partial_function (option) advance_loop :: "dyn_pgm \<Rightarrow> dyn_iter \<Rightarrow> (dyn_iter \<times> nat \<times> nat) option" where
  "advance_loop d it =
     do { (it1, l, p) \<leftarrow> iter_step d it;
          x \<leftarrow> deref d (At l p);
          it2 \<leftarrow> skip_equal d (fst x) it1;
          if unconsumed_count it2 > 0 \<and> deleted x then advance_loop d it2 else Some (it2, l, p) }"

definition advance :: "dyn_pgm \<Rightarrow> dyn_iter \<Rightarrow> dyn_iter option" where
  "advance d it =
     (if unconsumed_count it = 0 then Some (new_iter End)
      else do { (it', l, p) \<leftarrow> advance_loop d it;
                x \<leftarrow> deref d (At l p);
                Some (if deleted x then new_iter End else it'\<lparr>cur := At l p\<rparr>) })"

definition iter_incr :: "nat option \<Rightarrow> pgm_search \<Rightarrow> dyn_pgm \<Rightarrow> dyn_iter \<Rightarrow> dyn_iter option" where
  "iter_incr shl64 search d it = do { it' \<leftarrow> lazy_initialize shl64 search d it; advance d it' }"

text \<open>\<open>std::distance(begin(), end())\<close>.\<close>

partial_function (option) distance_end :: "nat option \<Rightarrow> pgm_search \<Rightarrow> dyn_pgm \<Rightarrow> dyn_iter \<Rightarrow> nat \<Rightarrow> nat option" where
  "distance_end shl64 search d it n =
     (if cur it = End then Some n
      else do { it' \<leftarrow> iter_incr shl64 search d it; distance_end shl64 search d it' (n + 1) })"

definition size_dyn :: "nat option \<Rightarrow> pgm_search \<Rightarrow> dyn_pgm \<Rightarrow> nat option" where
  "size_dyn shl64 search d = do { b \<leftarrow> begin_dyn search d; distance_end shl64 search d (new_iter b) 0 }"

declare skip_equal.simps [code] advance_loop.simps [code] distance_end.simps [code]

section \<open>The state of an iteration\<close>

abbreviation lev :: "dyn_pgm \<Rightarrow> nat \<Rightarrow> item list" where
  "lev d i \<equiv> levels d ! (i - min_level d)"

definition cursor_key :: "dyn_pgm \<Rightarrow> nat \<times> nat \<Rightarrow> u64" where
  "cursor_key d c = (if snd c < length (lev d (fst c)) then fst (lev d (fst c) ! snd c) else - 1)"

text \<open>The entries of the tournament tree with \<open>2 ^ H\<close> leaves over the cursors \<open>cs\<close>.\<close>

definition tree_entries :: "dyn_pgm \<Rightarrow> (nat \<times> nat) list \<Rightarrow> nat \<Rightarrow> nat \<Rightarrow> entry" where
  "tree_entries d cs H j = (if 2 ^ H \<le> j \<and> j < 2 ^ H + length cs then (cursor_key d (cs ! (j - 2 ^ H)), j - 2 ^ H) else sentinel)"

definition cursors_ok :: "dyn_pgm \<Rightarrow> (nat \<times> nat) list \<Rightarrow> bool" where
  "cursors_ok d cs \<longleftrightarrow> sorted_wrt (<) (map fst cs) \<and> length cs \<le> 128 \<and>
     (\<forall>(l, p) \<in> set cs. min_level d \<le> l \<and> l < used_levels d \<and> p \<le> length (lev d l))"

definition keys_ok :: "dyn_pgm \<Rightarrow> bool" where
  "keys_ok d \<longleftrightarrow> (\<forall>l \<in> set (levels d). \<forall>x \<in> set l. fst x \<noteq> - 1)"

definition active :: "dyn_pgm \<Rightarrow> (nat \<times> nat) list \<Rightarrow> nat set" where
  "active d cs = {s. s < length cs \<and> snd (cs ! s) < length (lev d (fst (cs ! s)))}"

definition iter_ok :: "dyn_pgm \<Rightarrow> nat \<Rightarrow> dyn_iter \<Rightarrow> bool" where
  "iter_ok d H it \<longleftrightarrow> cursors_ok d (iterators it) \<and> length (iterators it) \<le> 2 ^ H \<and>
     (iterators it \<noteq> [] \<longrightarrow> tree_ok (tree_entries d (iterators it) H) H (tree it)) \<and> unconsumed_count it = card (active d (iterators it))"

text \<open>What is left of a level.\<close>

definition rest :: "dyn_pgm \<Rightarrow> (nat \<times> nat) list \<Rightarrow> nat \<Rightarrow> item list" where
  "rest d cs i = (case map_of cs i of None \<Rightarrow> [] | Some p \<Rightarrow> drop p (lev d i))"

lemma word_max: "(k::u64) \<le> - 1" "k \<noteq> - 1 \<Longrightarrow> k < - 1"
  by (auto simp: order.not_eq_order_implies_strict)

lemma cursor_key_eq: "keys_ok d \<Longrightarrow> levels_ok d \<Longrightarrow> min_level d \<le> fst c \<Longrightarrow> fst c < used_levels d \<Longrightarrow>
  cursor_key d c = - 1 \<longleftrightarrow> \<not> snd c < length (lev d (fst c))"
  using level_in_range(1) [of d "fst c"] unfolding cursor_key_def keys_ok_def by (auto dest: nth_mem)

lemma cursors_okD:
  assumes "cursors_ok d cs" "s < length cs" "cs ! s = (l, p)"
  shows "min_level d \<le> l" "l < used_levels d" "p \<le> length (lev d l)"
  using assms nth_mem [OF assms(2)] by (auto simp: cursors_ok_def)

lemma tree_entries_at: "s < length cs \<Longrightarrow> tree_entries d cs H (2 ^ H + s) = (cursor_key d (cs ! s), s)"
  by (simp add: tree_entries_def)

lemma active_key:
  assumes "dyn_inv d" "keys_ok d" "cursors_ok d cs" "s < length cs"
  shows "s \<in> active d cs \<longleftrightarrow> cursor_key d (cs ! s) < - 1"
proof -
  obtain l p where c: "cs ! s = (l, p)" by (cases "cs ! s")
  have "cursor_key d (cs ! s) = - 1 \<longleftrightarrow> \<not> p < length (lev d l)"
    using cursor_key_eq [OF assms(2), of "(l, p)"] assms(1) cursors_okD [OF assms(3,4) c] by (simp add: c dyn_inv_def)
  then show ?thesis using assms(4) word_max [of "cursor_key d (cs ! s)"] by (auto simp: active_def c)
qed

lemma min_source_ok:
  assumes "dyn_inv d" "keys_ok d" "iter_ok d H it" "active d (iterators it) \<noteq> {}"
  obtains s where "min_source (tree it) = Some s" "s \<in> active d (iterators it)" "s < length (iterators it)"
    "win (tree_entries d (iterators it) H) H 1 = (cursor_key d (iterators it ! s), s)"
    "\<And>s'. s' \<in> active d (iterators it) \<Longrightarrow> (cursor_key d (iterators it ! s), s) \<le> (cursor_key d (iterators it ! s'), s')"
proof -
  let ?cs = "iterators it" and ?E = "tree_entries d (iterators it) H"
  have ok: "cursors_ok d ?cs" "length ?cs \<le> 2 ^ H" "tree_ok ?E H (tree it)" "length ?cs \<le> 128"
    using assms(3,4) by (auto simp: iter_ok_def cursors_ok_def active_def)
  have low: "win ?E H 1 \<le> (cursor_key d (?cs ! s'), s')" if "s' \<in> active d ?cs" for s'
  proof -
    have s': "s' < length ?cs" using that by (simp add: active_def)
    then have "(2 ^ H + s') div 2 ^ H = 1" using ok(2) by (simp add: div_nat_eqI)
    from win_le [OF this, of ?E] show ?thesis using tree_entries_at [OF s'] by simp
  qed
  obtain j where j: "j div 2 ^ H = 1" "win ?E H 1 = ?E j" using win_leaf by blast
  obtain s0 where s0: "s0 \<in> active d ?cs" using assms(4) by blast
  then have "s0 < length ?cs" by (simp add: active_def)
  then have "cursor_key d (?cs ! s0) < - 1" using active_key [OF assms(1,2) ok(1)] s0 by blast
  then have "fst (?E j) < - 1" using low [OF s0] j(2) by (auto simp: less_eq_prod_def)
  then have r: "2 ^ H \<le> j" "j < 2 ^ H + length ?cs" by (auto simp: tree_entries_def sentinel_def split: if_splits)
  define s where "s = j - 2 ^ H"
  have s: "s < length ?cs" "j = 2 ^ H + s" using r by (auto simp: s_def)
  have w: "win ?E H 1 = (cursor_key d (?cs ! s), s)" using j(2) s tree_entries_at [OF s(1)] by simp
  have "min_source (tree it) = Some s" using ok(3,4) w s(1) by (auto simp: min_source_def rd_def tree_ok_def)
  moreover have "s \<in> active d ?cs" using active_key [OF assms(1,2) ok(1) s(1)] \<open>fst (?E j) < - 1\<close> j(2) w by simp
  ultimately show thesis using that s(1) w low by metis
qed

lemma min_item_ok:
  assumes "levels_ok d" "cursors_ok d (iterators it)" "min_source (tree it) = Some s" "s < length (iterators it)" "iterators it ! s = (l, p)"
    "p < length (lev d l)"
  shows "min_item d it = Some (lev d l ! p)" "deref d (At l p) = Some (lev d l ! p)" "level_at d l = Some (lev d l)"
  using assms cursors_okD [OF assms(2,4,5)] level_in_range(2) [OF assms(1), of l] by (auto simp: min_item_def rd_def deref.simps)

text \<open>One step takes the least item, of the newest level among equal keys.\<close>

lemma iter_step_ok:
  assumes "dyn_inv d" "keys_ok d" "iter_ok d H it" "min_source (tree it) = Some s" "s \<in> active d (iterators it)"
    "win (tree_entries d (iterators it) H) H 1 = (cursor_key d (iterators it ! s), s)" "iterators it ! s = (l, p)"
  shows "\<exists>it'. iter_step d it = Some (it', l, p) \<and> iter_ok d H it' \<and> iterators it' = (iterators it)[s := (l, p + 1)] \<and>
    cur it' = cur it \<and> initialized it' = initialized it"
proof -
  let ?cs = "iterators it" and ?cs' = "(iterators it)[s := (l, p + 1)]" and ?E = "tree_entries d (iterators it) H"
  have ok: "cursors_ok d ?cs" "length ?cs \<le> 2 ^ H" "tree_ok ?E H (tree it)" "unconsumed_count it = card (active d ?cs)"
    using assms(3,5) by (auto simp: iter_ok_def active_def)
  have s: "s < length ?cs" "p < length (lev d l)" using assms(5,7) by (auto simp: active_def)
  have lv: "levels_ok d" using assms(1) by (simp add: dyn_inv_def)
  note it = min_item_ok [OF lv ok(1) assms(4) s(1) assms(7) s(2)]
  have "map fst ?cs' = map fst ?cs" using s(1) assms(7) by (simp add: map_update list_update_same_conv)
  then have cs': "cursors_ok d ?cs'" using ok(1) s cursors_okD [OF ok(1) s(1) assms(7)] set_update_subset_insert [of ?cs s "(l, p + 1)"]
    unfolding cursors_ok_def by auto
  have act: "active d ?cs' = (if p + 1 = length (lev d l) then active d ?cs - {s} else active d ?cs)"
    using s assms(5,7) by (auto simp: active_def nth_list_update)
  let ?kp = "if p + 1 = length (lev d l) then None else Some (fst (lev d l ! (p + 1)))"
  have "\<exists>t'. delete_min_insert (tree it) ?kp = Some t' \<and> tree_ok (tree_entries d ?cs' H) H t'"
  proof (rule delete_min_insert_ok [OF ok(3), of s])
    show "snd (win ?E H 1) = s" "?E (2 ^ H + s) = win ?E H 1" using assms(6) tree_entries_at [OF s(1)] by simp_all
    show "tree_entries d ?cs' H i = ?E i" if "i \<noteq> 2 ^ H + s" for i using that by (auto simp: tree_entries_def nth_list_update)
    show "tree_entries d ?cs' H (2 ^ H + s) = (case ?kp of Some k \<Rightarrow> k | None \<Rightarrow> - 1, s)"
      using tree_entries_at [of s ?cs'] s by (auto simp: cursor_key_def)
  qed (use s(1) ok(2) in simp)
  then obtain t' where t': "delete_min_insert (tree it) ?kp = Some t'" "tree_ok (tree_entries d ?cs' H) H t'" by blast
  have fin: "finite (active d ?cs)" by (simp add: active_def)
  show ?thesis
  proof (cases "p + 1 = length (lev d l)")
    case True
    let ?it = "it\<lparr>iterators := ?cs', tree := t', unconsumed_count := unconsumed_count it - 1\<rparr>"
    have "iter_step d it = Some (?it, l, p)"
      using True t'(1) assms(4,7) s it(3) by (simp add: iter_step_def rd_def)
    moreover have "iter_ok d H ?it" using cs' ok(2,4) t'(2) act True assms(5) fin by (simp add: iter_ok_def)
    ultimately show ?thesis by (intro exI [of _ ?it]) simp
  next
    case False
    let ?it = "it\<lparr>iterators := ?cs', tree := t'\<rparr>"
    have "iter_step d it = Some (?it, l, p)"
      using False t'(1) assms(4,7) s it(3) by (simp add: iter_step_def rd_def)
    moreover have "iter_ok d H ?it" using cs' ok(2,4) t'(2) act False by (simp add: iter_ok_def)
    ultimately show ?thesis by (intro exI [of _ ?it]) simp
  qed
qed

section \<open>What is left to read\<close>

lemma map_of_cursors:
  assumes "cursors_ok d cs" "s < length cs" "cs ! s = (l, p)" shows "map_of cs l = Some p"
proof -
  have "distinct (map fst cs)" using assms(1) strict_sorted_iff by (auto simp: cursors_ok_def)
  then show ?thesis using map_of_is_SomeI [of cs l p] assms(2,3) by (metis nth_mem)
qed

lemma rest_active:
  assumes "cursors_ok d cs" "s \<in> active d cs" "cs ! s = (l, p)"
  shows "rest d cs l = lev d l ! p # drop (p + 1) (lev d l)" "p < length (lev d l)"
  using assms map_of_cursors [OF assms(1) _ assms(3)] by (auto simp: active_def rest_def Cons_nth_drop_Suc)

lemma cursor_key_active: "s \<in> active d cs \<Longrightarrow> cs ! s = (l, p) \<Longrightarrow> cursor_key d (cs ! s) = fst (lev d l ! p)"
  by (simp add: active_def cursor_key_def)

lemma active_rest:
  assumes "cursors_ok d cs" "rest d cs i \<noteq> []"
  obtains s p where "s \<in> active d cs" "cs ! s = (i, p)" "rest d cs i = lev d i ! p # drop (p + 1) (lev d i)"
proof -
  from assms(2) obtain p where p: "map_of cs i = Some p" "drop p (lev d i) \<noteq> []" by (auto simp: rest_def split: option.splits)
  then obtain s where s: "s < length cs" "cs ! s = (i, p)" by (metis in_set_conv_nth map_of_SomeD)
  then have "s \<in> active d cs" using p(2) by (simp add: active_def)
  then show thesis using that rest_active(1) [OF assms(1) _ s(2)] s(2) by blast
qed

lemma split_at: "s < length cs \<Longrightarrow> cs ! s = x \<Longrightarrow> \<exists>A B. cs = A @ x # B \<and> length A = s"
  by (metis id_take_nth_drop length_take less_imp_le min.absorb2)

lemma rest_step:
  assumes "cursors_ok d cs" "s < length cs" "cs ! s = (l, p)" "cursors_ok d (cs[s := (l, p + 1)])"
  shows "rest d (cs[s := (l, p + 1)]) i = (if i = l then drop (p + 1) (lev d l) else rest d cs i)"
proof (cases "i = l")
  case True
  then show ?thesis using map_of_cursors [OF assms(4), of s l "p + 1"] assms(2) by (simp add: rest_def)
next
  case False
  from split_at [OF assms(2,3)] obtain A B where "cs = A @ (l, p) # B" "length A = s" by blast
  then have "map_of (cs[s := (l, p + 1)]) i = map_of cs i" using False by (auto simp: map_add_def split: option.split)
  then show ?thesis using False by (simp add: rest_def)
qed

definition upto_key :: "dyn_pgm \<Rightarrow> (nat \<times> nat) list \<Rightarrow> u64 \<Rightarrow> bool" where
  "upto_key d cs k \<longleftrightarrow> (\<forall>i. min_level d \<le> i \<and> i < used_levels d \<longrightarrow> rest d cs i = filter (\<lambda>x. k < fst x) (lev d i))"

definition at_key :: "dyn_pgm \<Rightarrow> (nat \<times> nat) list \<Rightarrow> u64 \<Rightarrow> bool" where
  "at_key d cs k \<longleftrightarrow> (\<forall>i. min_level d \<le> i \<and> i < used_levels d \<longrightarrow>
     rest d cs i = filter (\<lambda>x. k < fst x) (lev d i) \<or> rest d cs i = filter (\<lambda>x. k \<le> fst x) (lev d i))"

definition left_over :: "dyn_pgm \<Rightarrow> (nat \<times> nat) list \<Rightarrow> nat" where
  "left_over d cs = sum_list (map (\<lambda>(l, p). length (lev d l) - p) cs)"

lemma left_over_step:
  assumes "s < length cs" "cs ! s = (l, p)" "p < length (lev d l)"
  shows "left_over d (cs[s := (l, p + 1)]) < left_over d cs"
proof -
  from split_at [OF assms(1,2)] obtain A B where "cs = A @ (l, p) # B" "length A = s" by blast
  then show ?thesis using assms(3) by (auto simp: left_over_def)
qed

lemma active_empty_rest: "cursors_ok d cs \<Longrightarrow> active d cs = {} \<Longrightarrow> rest d cs i = []"
  using active_rest by (metis empty_iff)

lemma filter_gt_nil: "filter (\<lambda>x. k \<le> fst x) l = [] \<Longrightarrow> filter (\<lambda>x. (k::u64) < fst x) l = []"
  by (auto simp: filter_empty_conv dest: less_imp_le)

lemma filter_gt_ge:
  assumes "ksorted l" "filter (\<lambda>x. k \<le> fst x) l = y # ys"
  shows "if fst y = k then filter (\<lambda>x. k < fst x) l = ys else filter (\<lambda>x. k < fst x) l = y # ys"
  using assms
proof (induction l)
  case (Cons x l)
  show ?case
  proof (cases "k \<le> fst x")
    case True
    then have e: "y = x" "ys = filter (\<lambda>x. k \<le> fst x) l" using Cons.prems(2) by auto
    have "\<forall>z \<in> set l. k < fst z" using Cons.prems(1) True by auto
    then have "filter (\<lambda>x. k \<le> fst x) l = l" "filter (\<lambda>x. k < fst x) l = l" by (auto simp: filter_id_conv)
    then show ?thesis using e True by auto
  qed (use Cons in auto)
qed simp

text \<open>All sources that are at the key \<open>k\<close> are moved behind it.\<close>

lemma skip_equal_ok:
  assumes "dyn_inv d" "keys_ok d" "iter_ok d H it" "at_key d (iterators it) k"
  shows "\<exists>it'. skip_equal d k it = Some it' \<and> iter_ok d H it' \<and> upto_key d (iterators it') k \<and>
    left_over d (iterators it') \<le> left_over d (iterators it) \<and> cur it' = cur it \<and> initialized it' = initialized it"
  using assms(3,4)
proof (induction "left_over d (iterators it)" arbitrary: it rule: less_induct)
  case less
  let ?cs = "iterators it"
  have ok: "cursors_ok d ?cs" "unconsumed_count it = card (active d ?cs)" using less.prems(1) by (auto simp: iter_ok_def)
  have lv: "levels_ok d" using assms(1) by (simp add: dyn_inv_def)
  have fin: "finite (active d ?cs)" by (simp add: active_def)
  have so: "ksorted (lev d i)" if "min_level d \<le> i" "i < used_levels d" for i using level_in_range(3) [OF lv that] .
  show ?case
  proof (cases "active d ?cs = {}")
    case True
    then have "upto_key d ?cs k" using less.prems(2) active_empty_rest [OF ok(1)] filter_gt_nil unfolding at_key_def upto_key_def by metis
    moreover have "skip_equal d k it = Some it" using ok(2) True by (subst skip_equal.simps) simp
    ultimately show ?thesis using less.prems(1) by blast
  next
    case False
    from min_source_ok [OF assms(1,2) less.prems(1) False] obtain s where
      s: "min_source (tree it) = Some s" "s \<in> active d ?cs" "s < length ?cs" "win (tree_entries d ?cs H) H 1 = (cursor_key d (?cs ! s), s)"
      "\<And>s'. s' \<in> active d ?cs \<Longrightarrow> (cursor_key d (?cs ! s), s) \<le> (cursor_key d (?cs ! s'), s')" by blast
    obtain l p where c: "?cs ! s = (l, p)" by (cases "?cs ! s")
    note r = rest_active [OF ok(1) s(2) c] and rng = cursors_okD [OF ok(1) s(3) c]
    note mi = min_item_ok [OF lv ok(1) s(1,3) c r(2)]
    have pos: "0 < unconsumed_count it" using ok(2) False fin by (simp add: card_gt_0_iff)
    have at: "rest d ?cs i = filter (\<lambda>x. k < fst x) (lev d i) \<or> rest d ?cs i = filter (\<lambda>x. k \<le> fst x) (lev d i)"
      if "min_level d \<le> i" "i < used_levels d" for i using less.prems(2) that by (simp add: at_key_def)
    have key: "cursor_key d (?cs ! s) = fst (lev d l ! p)" by (rule cursor_key_active [OF s(2) c])
    have "lev d l ! p \<in> set (rest d ?cs l)" using r(1) by simp
    then have ge: "k \<le> fst (lev d l ! p)" using at [OF rng(1,2)] by auto
    show ?thesis
    proof (cases "fst (lev d l ! p) = k")
      case True
      from iter_step_ok [OF assms(1,2) less.prems(1) s(1,2,4) c] obtain it' where
        it': "iter_step d it = Some (it', l, p)" "iter_ok d H it'" "iterators it' = ?cs[s := (l, p + 1)]" "cur it' = cur it" "initialized it' = initialized it"
        by blast
      have "lev d l ! p \<notin> set (filter (\<lambda>x. k < fst x) (lev d l))" using True by simp
      then have "rest d ?cs l = filter (\<lambda>x. k \<le> fst x) (lev d l)" using at [OF rng(1,2)] r(1) by (metis list.set_intros(1))
      then have "filter (\<lambda>x. k < fst x) (lev d l) = drop (p + 1) (lev d l)"
        using filter_gt_ge [OF so [OF rng(1,2)], of k "lev d l ! p" "drop (p + 1) (lev d l)"] r(1) True by simp
      moreover have "cursors_ok d (?cs[s := (l, p + 1)])" using it'(2,3) by (simp add: iter_ok_def)
      ultimately have at: "at_key d (iterators it') k"
        using rest_step [OF ok(1) s(3) c] at unfolding at_key_def it'(3) by auto
      have lt: "left_over d (iterators it') < left_over d ?cs" using left_over_step [OF s(3) c r(2)] it'(3) by simp
      have "skip_equal d k it = skip_equal d k it'" using pos mi(1) True it'(1) by (subst skip_equal.simps) simp
      then show ?thesis using less.hyps [OF lt it'(2) at] it'(4,5) lt by auto
    next
      case gt: False
      have "rest d ?cs i = filter (\<lambda>x. k < fst x) (lev d i)" if i: "min_level d \<le> i" "i < used_levels d" for i
      proof (cases "rest d ?cs i")
        case Nil
        then show ?thesis using at [OF i] filter_gt_nil by metis
      next
        case (Cons y ys)
        then obtain s' q where s': "s' \<in> active d ?cs" "?cs ! s' = (i, q)" "rest d ?cs i = lev d i ! q # drop (q + 1) (lev d i)"
          using active_rest [OF ok(1), of i] by auto
        then have "fst (lev d l ! p) \<le> fst y"
          using s(5) [OF s'(1)] cursor_key_active [OF s'(1,2)] Cons by (auto simp: key less_eq_prod_def)
        then have "fst y \<noteq> k" using ge gt by auto
        then show ?thesis using at [OF i] filter_gt_ge [OF so [OF i], of k y ys] Cons by auto
      qed
      then have "upto_key d ?cs k" by (simp add: upto_key_def)
      moreover have "skip_equal d k it = Some it" using pos mi(1) gt by (subst skip_equal.simps) simp
      ultimately show ?thesis using less.prems(1) by blast
    qed
  qed
qed

section \<open>Increment\<close>

lemma raw_first:
  assumes "i < length ls" "map_of (ls ! i) k = Some v" "\<And>j. j < i \<Longrightarrow> map_of (ls ! j) k = None" shows "raw ls k = Some v"
proof -
  have "raw (take i ls) k = None" if "i \<le> length ls" using that assms(3)
  proof (induction i)
    case (Suc i)
    then show ?case using raw_take_Suc [of i ls k] by simp
  qed simp
  then have "raw (take (Suc i) ls) k = Some v" using raw_take_Suc [OF assms(1), of k] assms(1,2) by simp
  then show ?thesis by (rule raw_take_found)
qed

lemma raw_no_level:
  assumes "levels_ok d" "\<And>i. min_level d \<le> i \<Longrightarrow> i < used_levels d \<Longrightarrow> map_of (lev d i) k = None" shows "raw (levels d) k = None"
proof -
  have "raw (take n (levels d)) k = None" if "n \<le> used_levels d - min_level d" for n using that
  proof (induction n)
    case (Suc n)
    then have "n < length (levels d)" "map_of (levels d ! n) k = None"
      using assms(1) assms(2) [of "n + min_level d"] by (auto simp: levels_ok_def)
    then show ?case using raw_take_Suc [of n "levels d" k] Suc by simp
  qed simp
  then show ?thesis using raw_take_used [OF assms(1)] by (metis order_refl)
qed

text \<open>The first item that is taken after everything up to \<open>c\<close> has been read.\<close>

lemma next_raw:
  assumes "dyn_inv d" "keys_ok d" "iter_ok d H it" "upto_key d (iterators it) c" "active d (iterators it) \<noteq> {}"
  shows "\<exists>it1 l p k v. iter_step d it = Some (it1, l, p) \<and> deref d (At l p) = Some (k, v) \<and> c < k \<and> raw (levels d) k = Some v \<and>
    (\<forall>k'. c < k' \<and> k' < k \<longrightarrow> raw (levels d) k' = None) \<and> iter_ok d H it1 \<and> at_key d (iterators it1) k \<and>
    left_over d (iterators it1) < left_over d (iterators it) \<and> cur it1 = cur it \<and> initialized it1 = initialized it"
proof -
  let ?cs = "iterators it"
  have ok: "cursors_ok d ?cs" using assms(3) by (simp add: iter_ok_def)
  have lv: "levels_ok d" using assms(1) by (simp add: dyn_inv_def)
  from min_source_ok [OF assms(1-3,5)] obtain s where
    s: "min_source (tree it) = Some s" "s \<in> active d ?cs" "s < length ?cs" "win (tree_entries d ?cs H) H 1 = (cursor_key d (?cs ! s), s)"
    "\<And>s'. s' \<in> active d ?cs \<Longrightarrow> (cursor_key d (?cs ! s), s) \<le> (cursor_key d (?cs ! s'), s')" by blast
  obtain l p where c: "?cs ! s = (l, p)" by (cases "?cs ! s")
  note r = rest_active [OF ok s(2) c] and rng = cursors_okD [OF ok s(3) c]
  obtain k v where x: "lev d l ! p = (k, v)" by (cases "lev d l ! p")
  have up: "rest d ?cs i = filter (\<lambda>x. c < fst x) (lev d i)" "ksorted (lev d i)" if "min_level d \<le> i" "i < used_levels d" for i
    using assms(4) that level_in_range(3) [OF lv that] by (auto simp: upto_key_def)
  have key: "cursor_key d (?cs ! s) = k" using cursor_key_active [OF s(2) c] x by simp
  have head: "\<exists>s' \<in> active d ?cs. fst (?cs ! s') = i \<and> cursor_key d (?cs ! s') \<le> fst y \<and> k \<le> fst y"
    if i: "min_level d \<le> i" "i < used_levels d" and y: "y \<in> set (lev d i)" "c < fst y" for i y
  proof -
    have yr: "y \<in> set (rest d ?cs i)" using up(1) [OF i] y by simp
    then obtain s' q where s': "s' \<in> active d ?cs" "?cs ! s' = (i, q)" "rest d ?cs i = lev d i ! q # drop (q + 1) (lev d i)"
      using active_rest [OF ok, of i] by (metis empty_iff empty_set)
    have "ksorted (rest d ?cs i)" using up [OF i] ksorted_filter by simp
    then have "fst (lev d i ! q) \<le> fst y" using yr unfolding s'(3) by auto
    moreover have "cursor_key d (?cs ! s') = fst (lev d i ! q)" by (rule cursor_key_active [OF s'(1,2)])
    moreover have "k \<le> cursor_key d (?cs ! s')" using s(5) [OF s'(1)] key by (auto simp: less_eq_prod_def)
    ultimately show ?thesis using s'(1,2) by (intro bexI [of _ s']) auto
  qed
  have "lev d l ! p \<in> set (filter (\<lambda>x. c < fst x) (lev d l))" using r(1) up(1) [OF rng(1,2)] by (metis list.set_intros(1))
  then have ck: "c < k" using x by simp
  have in_l: "(k, v) \<in> set (lev d l)" using r(2) x nth_mem by metis
  have "raw (levels d) k = Some v"
  proof (rule raw_first [of "l - min_level d"])
    show "l - min_level d < length (levels d)" by (rule level_in_range(1) [OF lv rng(1,2)])
    show "map_of (lev d l) k = Some v" using in_l ksorted_distinct [OF up(2) [OF rng(1,2)]] by (rule map_of_is_SomeI [rotated])
    show "map_of (levels d ! j) k = None" if j: "j < l - min_level d" for j
    proof (rule ccontr)
      assume "map_of (levels d ! j) k \<noteq> None"
      then obtain w where "(k, w) \<in> set (lev d (j + min_level d))" by (auto dest: map_of_SomeD)
      moreover have "min_level d \<le> j + min_level d" "j + min_level d < used_levels d" using j rng(2) by auto
      ultimately obtain s' where s': "s' \<in> active d ?cs" "fst (?cs ! s') = j + min_level d" "cursor_key d (?cs ! s') \<le> k"
        using head [of "j + min_level d" "(k, w)"] ck by auto
      then have "s \<le> s'" "s' < length ?cs" using s(5) [OF s'(1)] key by (auto simp: less_eq_prod_def active_def)
      then have "fst (?cs ! s) \<le> fst (?cs ! s')" using ok sorted_nth_mono [of "map fst ?cs" s s']
        by (auto simp: cursors_ok_def strict_sorted_imp_sorted)
      then show False using c s'(2) j by simp
    qed
  qed
  moreover have "raw (levels d) k' = None" if "c < k'" "k' < k" for k'
  proof (rule raw_no_level [OF lv])
    fix i assume i: "min_level d \<le> i" "i < used_levels d"
    show "map_of (lev d i) k' = None" using head [OF i, of "(k', _)"] that by (metis fst_conv leD map_of_SomeD not_None_eq)
  qed
  moreover from iter_step_ok [OF assms(1-3) s(1,2,4) c] obtain it1 where
    it1: "iter_step d it = Some (it1, l, p)" "iter_ok d H it1" "iterators it1 = ?cs[s := (l, p + 1)]" "cur it1 = cur it" "initialized it1 = initialized it"
    by blast
  moreover have "at_key d (iterators it1) k" unfolding at_key_def
  proof (intro allI impI)
    fix i assume i: "min_level d \<le> i \<and> i < used_levels d"
    have "filter (\<lambda>x. c < fst x) (lev d i) = filter (\<lambda>x. k \<le> fst x) (lev d i)"
      using head i ck by (intro filter_cong) auto
    moreover have "cursors_ok d (?cs[s := (l, p + 1)])" using it1(2,3) by (simp add: iter_ok_def)
    ultimately show "rest d (iterators it1) i = filter (\<lambda>x. k < fst x) (lev d i) \<or> rest d (iterators it1) i = filter (\<lambda>x. k \<le> fst x) (lev d i)"
      using rest_step [OF ok s(3) c, of i] up [of i] i it1(3) r(1) filter_gt_ge [of "lev d l" k "(k, v)" "drop (p + 1) (lev d l)"] x by auto
  qed
  moreover have "left_over d (iterators it1) < left_over d ?cs" using left_over_step [OF s(3) c r(2)] it1(3) by simp
  moreover have "deref d (At l p) = Some (k, v)" using min_item_ok(2) [OF lv ok s(1,3) c r(2)] x by simp
  ultimately show ?thesis using ck by blast
qed

text \<open>
  The do-while loop of \<open>advance\<close> ends at the first key that is not deleted, or at the last key at
  all.
\<close>

lemma advance_loop_ok:
  assumes "dyn_inv d" "keys_ok d" "iter_ok d H it" "upto_key d (iterators it) c" "active d (iterators it) \<noteq> {}"
  shows "\<exists>it' l p k v. advance_loop d it = Some (it', l, p) \<and> deref d (At l p) = Some (k, v) \<and> c < k \<and> raw (levels d) k = Some v \<and>
    (\<forall>k'. c < k' \<and> k' < k \<longrightarrow> dyn_map d k' = None) \<and> iter_ok d H it' \<and> upto_key d (iterators it') k \<and>
    (v = tombstone \<longrightarrow> active d (iterators it') = {}) \<and> initialized it' = initialized it"
  using assms(3-5)
proof (induction "left_over d (iterators it)" arbitrary: it c rule: less_induct)
  case less
  from next_raw [OF assms(1,2) less.prems] obtain it1 l p k v where
    n: "iter_step d it = Some (it1, l, p)" "deref d (At l p) = Some (k, v)" "c < k" "raw (levels d) k = Some v"
    "\<forall>k'. c < k' \<and> k' < k \<longrightarrow> raw (levels d) k' = None" "iter_ok d H it1" "at_key d (iterators it1) k"
    "left_over d (iterators it1) < left_over d (iterators it)" "initialized it1 = initialized it" by blast
  from skip_equal_ok [OF assms(1,2) n(6,7)] obtain it2 where
    s: "skip_equal d k it1 = Some it2" "iter_ok d H it2" "upto_key d (iterators it2) k"
    "left_over d (iterators it2) \<le> left_over d (iterators it1)" "initialized it2 = initialized it1" by blast
  have un: "unconsumed_count it2 > 0 \<longleftrightarrow> active d (iterators it2) \<noteq> {}"
    using s(2) by (auto simp: iter_ok_def card_gt_0_iff active_def)
  have none: "\<forall>k'. c < k' \<and> k' < k \<longrightarrow> dyn_map d k' = None" using n(5) by (simp add: dyn_map_def live_def)
  show ?case
  proof (cases "active d (iterators it2) \<noteq> {} \<and> v = tombstone")
    case True
    then have step: "advance_loop d it = advance_loop d it2" using n(1,2) s(1) un by (subst advance_loop.simps) (simp add: deleted_def)
    have lt: "left_over d (iterators it2) < left_over d (iterators it)" using s(4) n(8) by simp
    from less.hyps [OF lt s(2,3)] True obtain it' l' p' k'' v' where
      r: "advance_loop d it2 = Some (it', l', p')" "deref d (At l' p') = Some (k'', v')" "k < k''" "raw (levels d) k'' = Some v'"
      "\<forall>k'. k < k' \<and> k' < k'' \<longrightarrow> dyn_map d k' = None" "iter_ok d H it'" "upto_key d (iterators it') k''"
      "v' = tombstone \<longrightarrow> active d (iterators it') = {}" "initialized it' = initialized it2" by blast
    have "dyn_map d k = None" using n(4) True by (simp add: dyn_map_def live_def)
    then have "\<forall>k'. c < k' \<and> k' < k'' \<longrightarrow> dyn_map d k' = None" using none r(5) by (metis linorder_neqE)
    moreover have "c < k''" using n(3) r(3) by (rule less_trans)
    ultimately show ?thesis using step r s(5) n(9) by (metis (no_types, lifting))
  next
    case False
    then have "advance_loop d it = Some (it2, l, p)" using n(1,2) s(1) un by (subst advance_loop.simps) (auto simp: deleted_def)
    then show ?thesis using n(2-4) none s(2,3,5) n(9) False by metis
  qed
qed

definition next_result :: "dyn_pgm \<Rightarrow> u64 \<Rightarrow> pgm_pos \<Rightarrow> bool" where
  "next_result d c it \<longleftrightarrow>
     (case it of
        End \<Rightarrow> \<forall>k. c < k \<longrightarrow> dyn_map d k = None
      | At i q \<Rightarrow> \<exists>k v. deref d it = Some (k, v) \<and> c < k \<and> dyn_map d k = Some v \<and> (\<forall>k'. c < k' \<and> k' < k \<longrightarrow> dyn_map d k' = None))"

lemma nothing_left:
  assumes "dyn_inv d" "iter_ok d H it" "upto_key d (iterators it) c" "active d (iterators it) = {}" "c < k"
  shows "dyn_map d k = None"
proof -
  have ok: "levels_ok d" "cursors_ok d (iterators it)" using assms(1,2) by (auto simp: dyn_inv_def iter_ok_def)
  have "map_of (lev d i) k = None" if "min_level d \<le> i" "i < used_levels d" for i
  proof -
    have "filter (\<lambda>x. c < fst x) (lev d i) = []" using assms(3) that active_empty_rest [OF ok(2) assms(4), of i] by (simp add: upto_key_def)
    then show ?thesis using assms(5) by (auto simp: filter_empty_conv map_of_eq_None_iff)
  qed
  then have "raw (levels d) k = None" by (rule raw_no_level [OF ok(1)])
  then show ?thesis by (simp add: dyn_map_def live_def)
qed

text \<open>An iterator at the key \<open>c\<close>, before or after its first increment.\<close>

definition iter_at :: "dyn_pgm \<Rightarrow> dyn_iter \<Rightarrow> u64 \<Rightarrow> bool" where
  "iter_at d it c \<longleftrightarrow> (\<exists>v. deref d (cur it) = Some (c, v)) \<and>
     (initialized it \<longrightarrow> (\<exists>H. iter_ok d H it \<and> upto_key d (iterators it) c))"

lemma advance_ok:
  assumes "dyn_inv d" "keys_ok d" "iter_ok d H it" "upto_key d (iterators it) c" "initialized it"
  shows "\<exists>it'. advance d it = Some it' \<and> next_result d c (cur it') \<and> (\<forall>k v. deref d (cur it') = Some (k, v) \<longrightarrow> iter_at d it' k)"
proof (cases "active d (iterators it) = {}")
  case True
  then have "unconsumed_count it = 0" using assms(3) by (simp add: iter_ok_def)
  then show ?thesis using nothing_left [OF assms(1,3,4) True] by (simp add: advance_def new_iter_def next_result_def)
next
  case False
  then have un: "unconsumed_count it \<noteq> 0" using assms(3) by (auto simp: iter_ok_def active_def)
  from advance_loop_ok [OF assms(1-4) False] obtain it' l p k v where
    r: "advance_loop d it = Some (it', l, p)" "deref d (At l p) = Some (k, v)" "c < k" "raw (levels d) k = Some v"
    "\<forall>k'. c < k' \<and> k' < k \<longrightarrow> dyn_map d k' = None" "iter_ok d H it'" "upto_key d (iterators it') k"
    "v = tombstone \<longrightarrow> active d (iterators it') = {}" "initialized it' = initialized it" by blast
  show ?thesis
  proof (cases "v = tombstone")
    case True
    have "dyn_map d k' = None" if "c < k'" for k'
    proof (cases k' k rule: linorder_cases)
      case greater
      then show ?thesis using nothing_left [OF assms(1) r(6,7)] r(8) True by simp
    qed (use r(4,5) that True in \<open>auto simp: dyn_map_def live_def\<close>)
    moreover have "advance d it = Some (new_iter End)" using un r(1,2) True by (simp add: advance_def deleted_def)
    ultimately show ?thesis by (simp add: new_iter_def next_result_def)
  next
    case False
    let ?it = "it'\<lparr>cur := At l p\<rparr>"
    have "advance d it = Some ?it" using un r(1,2) False by (simp add: advance_def deleted_def)
    moreover have "dyn_map d k = Some v" using r(4) False by (simp add: dyn_map_def live_def)
    then have "next_result d c (cur ?it)" using r(2,3,5) by (auto simp: next_result_def)
    moreover have "iter_ok d H ?it" using r(6) by (simp add: iter_ok_def)
    then have "iter_at d ?it k" using r(2,7) by (auto simp: iter_at_def)
    ultimately show ?thesis using r(2) by (intro exI [of _ ?it]) simp
  qed
qed

section \<open>The first increment\<close>

lemma filter_gt_drop: "ksorted l \<Longrightarrow> filter (\<lambda>x. c < fst x) l = drop (length (takeWhile (\<lambda>y. fst y \<le> c) l)) l"
proof (induction l)
  case (Cons x l)
  show ?case
  proof (cases "fst x \<le> c")
    case False
    then have "\<forall>z \<in> set l. c < fst z" using Cons.prems by auto
    with False show ?thesis by (auto simp: filter_id_conv)
  qed (use Cons in \<open>auto simp: not_less\<close>)
qed simp

lemma init_cursors_ok:
  assumes "dyn_inv d" "search_ok search" "min_level d \<le> i" "i \<le> used_levels d"
  shows "\<exists>cs. init_cursors search d c i = Some cs \<and> sorted_wrt (<) (map fst cs) \<and> length cs \<le> used_levels d - i \<and>
    (\<forall>(l, p) \<in> set cs. i \<le> l \<and> l < used_levels d \<and> p < length (lev d l)) \<and>
    (\<forall>j. i \<le> j \<and> j < used_levels d \<longrightarrow> rest d cs j = filter (\<lambda>x. c < fst x) (lev d j))"
  using assms(3,4)
proof (induction "used_levels d - i" arbitrary: i rule: less_induct)
  case less
  show ?case
  proof (cases "i < used_levels d")
    case False
    then show ?thesis using less.prems by (auto simp: init_cursors.simps)
  next
    case True
    define l where "l = lev d i"
    from search_level [OF assms(1,2) less.prems(1) True l_def, of c] obtain lo hi p where
      s: "level_at d i = Some l" "window search d i l c = Some (lo, hi)" "lo \<le> hi" "hi \<le> length l"
      "\<forall>j < lo. fst (l ! j) < c" "\<forall>j < length l. hi \<le> j \<longrightarrow> c < fst (l ! j)" "ksorted l" by metis
    define q where "q = length (takeWhile (\<lambda>y. fst y \<le> c) l)"
    have ub: "std_upper_bound l lo hi c = Some q" unfolding q_def using std_upper_bound_ok [OF s(7,3,4) _ s(6)] s(5) by (simp add: less_imp_le)
    have dr: "drop q l = filter (\<lambda>x. c < fst x) l"
      using filter_gt_drop [OF s(7), of c] by (simp add: q_def)
    have dec: "used_levels d - (i + 1) < used_levels d - i" "min_level d \<le> i + 1" "i + 1 \<le> used_levels d" using True less.prems(1) by simp_all
    from less.hyps [OF dec] obtain cs where
      cs: "init_cursors search d c (i + 1) = Some cs" "sorted_wrt (<) (map fst cs)" "length cs \<le> used_levels d - (i + 1)"
      "\<forall>(l, p) \<in> set cs. i + 1 \<le> l \<and> l < used_levels d \<and> p < length (lev d l)"
      "\<forall>j. i + 1 \<le> j \<and> j < used_levels d \<longrightarrow> rest d cs j = filter (\<lambda>x. c < fst x) (lev d j)" by blast
    have ql: "q \<le> length l" unfolding q_def by (rule length_takeWhile_le)
    define cs' where "cs' = (if q \<noteq> length l then (i, q) # cs else cs)"
    have "init_cursors search d c i = Some cs'"
    proof (cases "l = []")
      case True
      then show ?thesis using \<open>i < used_levels d\<close> s(1) cs(1) by (subst init_cursors.simps) (simp add: cs'_def q_def)
    next
      case False
      then show ?thesis using True s(1,2) ub cs(1) by (subst init_cursors.simps) (simp add: cs'_def)
    qed
    moreover have "i \<notin> fst ` set cs" using cs(4) by auto
    then have "map_of cs i = None" by (simp add: map_of_eq_None_iff)
    then have "rest d cs' j = filter (\<lambda>x. c < fst x) (lev d j)" if "i \<le> j" "j < used_levels d" for j
      using that cs(5) dr by (cases "j = i") (auto simp: cs'_def rest_def l_def)
    moreover have "sorted_wrt (<) (map fst cs')" using cs(2,4) by (auto simp: cs'_def)
    moreover have "\<forall>(l, p) \<in> set cs'. i \<le> l \<and> l < used_levels d \<and> p < length (lev d l)" using cs(4) True ql by (auto simp: cs'_def l_def)
    moreover have "length cs' \<le> used_levels d - i" using cs(3) True by (auto simp: cs'_def)
    ultimately show ?thesis by blast
  qed
qed

lemma fill_tree_ok:
  assumes "\<forall>(l, p) \<in> set cs. min_level d \<le> l \<and> l < used_levels d \<and> p < length (lev d l)" "levels_ok d" "tree_k t + i + length cs \<le> length (losers t)"
    "length (losers t) \<le> 256"
  shows "\<exists>t'. fill_tree d t i cs = Some t' \<and> tree_k t' = tree_k t \<and> length (losers t') = length (losers t) \<and>
    (\<forall>j < length (losers t). losers t' ! j =
      (if tree_k t + i \<le> j \<and> j < tree_k t + i + length cs then (cursor_key d (cs ! (j - (tree_k t + i))), j - tree_k t) else losers t ! j))"
  using assms
proof (induction cs arbitrary: t i)
  case (Cons c cs)
  obtain l p where c: "c = (l, p)" by (cases c)
  have r: "min_level d \<le> l" "l < used_levels d" "p < length (lev d l)" using Cons.prems(1) by (auto simp: c)
  have x: "deref d (At l p) = Some (lev d l ! p)" using level_in_range(2) [OF Cons.prems(2) r(1,2)] r(3) by (simp add: deref.simps rd_def)
  let ?t = "t\<lparr>losers := (losers t)[tree_k t + i := (fst (lev d l ! p), i)]\<rparr>"
  have "tree_insert_start t (fst (lev d l ! p)) i = Some ?t" using Cons.prems(3,4) by (simp add: tree_insert_start_def wr_def)
  moreover from Cons.IH [of ?t "Suc i"] Cons.prems obtain t' where
    t': "fill_tree d ?t (Suc i) cs = Some t'" "tree_k t' = tree_k t" "length (losers t') = length (losers t)"
    "\<forall>j < length (losers t). losers t' ! j = (if tree_k t + Suc i \<le> j \<and> j < tree_k t + Suc i + length cs
      then (cursor_key d (cs ! (j - (tree_k t + Suc i))), j - tree_k t) else losers ?t ! j)" by auto
  moreover have "cursor_key d c = fst (lev d l ! p)" using r(3) by (simp add: c cursor_key_def)
  ultimately show ?case using x Cons.prems(3) by (auto simp: c nth_list_update nth_Cons')
qed auto

lemma build_tree_ok:
  assumes "cs \<noteq> []" "length cs \<le> 128" "levels_ok d"
    "\<forall>(l, p) \<in> set cs. min_level d \<le> l \<and> l < used_levels d \<and> p < length (lev d l)"
  shows "\<exists>H t0 t1 t2. LoserTree shl64 (length cs) = Some t0 \<and> fill_tree d t0 0 cs = Some t1 \<and> init_tree t1 = Some t2 \<and>
    tree_ok (tree_entries d cs H) H t2 \<and> length cs \<le> 2 ^ H"
proof -
  define n where "n = length cs"
  have n: "0 < n" "n \<le> 128" using assms(1,2) by (auto simp: n_def)
  obtain H where H: "next_pow2 shl64 n = Some (2 ^ H)" "n \<le> 2 ^ H" "H \<le> 7"
  proof (cases "n = 1")
    case True
    then show thesis using that [of 0] by (simp add: next_pow2_def)
  next
    case False
    then show thesis using that [of "bit_count (n - 1)"] bit_count_le [of "n - 1"] bit_count_mono_less [of "n - 1" 7] n by (simp add: next_pow2_def)
  qed
  have "(2::nat) ^ H \<le> 2 ^ 7" using H(3) by (intro power_increasing) simp_all
  then have k: "(2::nat) ^ H \<le> 128" by simp
  define t0 where "t0 = \<lparr>tree_k = 2 ^ H, losers = replicate (2 ^ H + (n - 1)) (0, 0) @ replicate (2 ^ H - (n - 1)) sentinel\<rparr>"
  have t0: "LoserTree shl64 n = Some t0" "length (losers t0) = 2 * 2 ^ H" "tree_k t0 = 2 ^ H"
    using n(1) H k by (simp_all add: LoserTree_def t0_def Let_def)
  have s0: "losers t0 ! j = sentinel" if "2 ^ H + n \<le> j" "j < 2 * 2 ^ H" for j
  proof -
    have "\<not> j < 2 ^ H + (n - 1)" using that n(1) by linarith
    then show ?thesis using that H(2) by (simp add: t0_def nth_append)
  qed
  from fill_tree_ok [OF assms(4,3), of t0 0] obtain t1 where
    t1: "fill_tree d t0 0 cs = Some t1" "tree_k t1 = 2 ^ H" "length (losers t1) = 2 * 2 ^ H"
    "\<forall>j < 2 * 2 ^ H. losers t1 ! j = (if 2 ^ H \<le> j \<and> j < 2 ^ H + n then (cursor_key d (cs ! (j - 2 ^ H)), j - 2 ^ H) else losers t0 ! j)"
    using t0(2,3) H(2) k by (auto simp: n_def)
  have "\<exists>t2. init_tree t1 = Some t2 \<and> tree_ok (tree_entries d cs H) H t2"
  proof (rule init_tree_ok [OF t1(2,3)])
    show "losers t1 ! j = tree_entries d cs H j" if "2 ^ H \<le> j" "j < 2 * 2 ^ H" for j
      using t1(4) s0 that by (auto simp: tree_entries_def n_def)
    show "snd (tree_entries d cs H i) \<le> snd (tree_entries d cs H j)" if "2 ^ H \<le> i" "i \<le> j" "j < 2 * 2 ^ H" for i j
      using that n(2) by (auto simp: tree_entries_def sentinel_def n_def)
  qed
  then show ?thesis using t0(1) t1(1) H(2) unfolding n_def by blast
qed

text \<open>
  When no level has a greater key, the code computes \<open>next_pow2(0)\<close>; with the shift of a machine
  that reduces shift counts modulo 64 the tree has one leaf and is not used.
\<close>

lemma lazy_initialize_ok:
  assumes "dyn_inv d" "search_ok search" "used_levels d - min_level d \<le> 128" "iter_at d it c" "shl64 = Some 1"
  shows "\<exists>H it'. lazy_initialize shl64 search d it = Some it' \<and> iter_ok d H it' \<and> upto_key d (iterators it') c \<and> initialized it'"
proof (cases "initialized it")
  case True
  then show ?thesis using assms(4) by (auto simp: lazy_initialize_def iter_at_def)
next
  case False
  have lv: "levels_ok d" "min_level d \<le> used_levels d" using assms(1) by (auto simp: dyn_inv_def levels_ok_def)
  obtain v where x: "deref d (cur it) = Some (c, v)" using assms(4) by (auto simp: iter_at_def)
  from init_cursors_ok [OF assms(1,2) order_refl lv(2), of c] obtain cs where
    cs: "init_cursors search d c (min_level d) = Some cs" "sorted_wrt (<) (map fst cs)" "length cs \<le> used_levels d - min_level d"
    "\<forall>(l, p) \<in> set cs. min_level d \<le> l \<and> l < used_levels d \<and> p < length (lev d l)"
    "\<forall>j. min_level d \<le> j \<and> j < used_levels d \<longrightarrow> rest d cs j = filter (\<lambda>x. c < fst x) (lev d j)" by blast
  have ok: "cursors_ok d cs" using cs(2-4) assms(3) by (auto simp: cursors_ok_def less_imp_le)
  have act: "active d cs = {..<length cs}" using cs(4) nth_mem by (fastforce simp: active_def)
  have up: "upto_key d cs c" using cs(5) by (simp add: upto_key_def)
  show ?thesis
  proof (cases "cs = []")
    case nil: True
    let ?t = "\<lparr>tree_k = 1, losers = replicate 2 (0, 0)\<rparr>"
    have "LoserTree shl64 0 = Some ?t" "init_tree ?t = Some ?t"
      using assms(5) by (simp_all add: LoserTree_def next_pow2_def Let_def init_tree_def init_winner.simps rd_def wr_def numeral_2_eq_2)
    then have "lazy_initialize shl64 search d it = Some (it\<lparr>iterators := [], tree := ?t, initialized := True, unconsumed_count := 0\<rparr>)"
      using False x cs(1) nil by (simp add: lazy_initialize_def)
    then show ?thesis using ok up act nil by (intro exI [of _ 0]) (simp add: iter_ok_def)
  next
    case ne: False
    have "length cs \<le> 128" using cs(3) assms(3) by simp
    from build_tree_ok [OF ne this lv(1) cs(4), of shl64] obtain H t0 t1 t2 where
      t: "LoserTree shl64 (length cs) = Some t0" "fill_tree d t0 0 cs = Some t1" "init_tree t1 = Some t2" "tree_ok (tree_entries d cs H) H t2" "length cs \<le> 2 ^ H"
      by blast
    then have "lazy_initialize shl64 search d it = Some (it\<lparr>iterators := cs, tree := t2, initialized := True, unconsumed_count := length cs\<rparr>)"
      using False x cs(1) by (simp add: lazy_initialize_def)
    then show ?thesis using ok up act t(4,5) by (intro exI [of _ H]) (simp add: iter_ok_def)
  qed
qed

lemma iter_incr_ok:
  assumes "dyn_inv d" "keys_ok d" "search_ok search" "used_levels d - min_level d \<le> 128" "iter_at d it c" "shl64 = Some 1"
  shows "\<exists>it'. iter_incr shl64 search d it = Some it' \<and> next_result d c (cur it') \<and> (\<forall>k v. deref d (cur it') = Some (k, v) \<longrightarrow> iter_at d it' k)"
proof -
  from lazy_initialize_ok [OF assms(1,3-6)] obtain H it1 where
    l: "lazy_initialize shl64 search d it = Some it1" "iter_ok d H it1" "upto_key d (iterators it1) c" "initialized it1" by blast
  from advance_ok [OF assms(1,2) l(2-4)] show ?thesis using l(1) by (auto simp: iter_incr_def)
qed

section \<open>What an iteration reads\<close>

text \<open>The pairs of the represented map in key order.\<close>

definition live_items :: "dyn_pgm \<Rightarrow> item list" where
  "live_items d = filter (\<lambda>x. \<not> deleted x) (fold (\<lambda>l acc. merge_items False acc l) (levels d) [])"

lemma merge_levels_ok:
  assumes "ksorted acc" "\<forall>l \<in> set ls. ksorted l"
  shows "ksorted (fold (\<lambda>l acc. merge_items False acc l) ls acc) \<and>
    map_of (fold (\<lambda>l acc. merge_items False acc l) ls acc) = raw ls ++ map_of acc"
  using assms by (induction ls arbitrary: acc) (simp_all add: ksorted_merge merge_keep)

lemma live_items_ok:
  assumes "dyn_inv d" shows "ksorted (live_items d)" "map_of (live_items d) = dyn_map d"
proof -
  have "\<forall>l \<in> set (levels d). ksorted l" using assms by (auto simp: dyn_inv_def levels_ok_def in_set_conv_nth)
  then have m: "ksorted (fold (\<lambda>l acc. merge_items False acc l) (levels d) [])"
    "map_of (fold (\<lambda>l acc. merge_items False acc l) (levels d) []) = raw (levels d)"
    using merge_levels_ok [of "[]" "levels d"] by simp_all
  show "ksorted (live_items d)" unfolding live_items_def by (rule ksorted_filter [OF m(1)])
  show "map_of (live_items d) = dyn_map d" unfolding live_items_def dyn_map_def m(2) [symmetric] by (rule ext) (rule live_filter [OF m(1)])
qed

lemma filter_least:
  assumes "ksorted L" "map_of L k = Some v" "\<forall>k'. Q k' \<and> k' < k \<longrightarrow> map_of L k' = None" "\<forall>k'. k \<le> k' \<longrightarrow> Q k'"
  shows "filter (\<lambda>x. Q (fst x)) L = (k, v) # filter (\<lambda>x. k < fst x) L"
proof (rule ksorted_set_unique)
  have d: "distinct (keys_of L)" using assms(1) by (rule ksorted_distinct)
  have none: "k' \<notin> fst ` set L" if "Q k'" "k' < k" for k' using assms(3) that by (simp add: map_of_eq_None_iff)
  show "set (filter (\<lambda>x. Q (fst x)) L) = set ((k, v) # filter (\<lambda>x. k < fst x) L)"
  proof (intro set_eqI)
    fix x :: "'a \<times> 'b"
    obtain a b where x: "x = (a, b)" by (cases x)
    show "x \<in> set (filter (\<lambda>x. Q (fst x)) L) \<longleftrightarrow> x \<in> set ((k, v) # filter (\<lambda>x. k < fst x) L)"
    proof (cases a k rule: linorder_cases)
      case less
      then show ?thesis using none [of a] by (force simp: x)
    next
      case equal
      have "(k, b) \<in> set L \<longleftrightarrow> b = v" unfolding map_of_eq_Some_iff [OF d, symmetric] assms(2) by auto
      with equal show ?thesis using assms(4) by (auto simp: x)
    next
      case greater
      then show ?thesis using assms(4) by (auto simp: x)
    qed
  qed
qed (use assms(1) in \<open>auto simp: ksorted_filter\<close>)

text \<open>The iterator has still to read the pairs \<open>L\<close>.\<close>

definition reads :: "dyn_pgm \<Rightarrow> dyn_iter \<Rightarrow> item list \<Rightarrow> bool" where
  "reads d it L \<longleftrightarrow>
     (if cur it = End then L = []
      else \<exists>k v. deref d (cur it) = Some (k, v) \<and> iter_at d it k \<and> L = (k, v) # filter (\<lambda>x. k < fst x) (live_items d))"

definition iterable :: "dyn_pgm \<Rightarrow> bool" where
  "iterable d \<longleftrightarrow> dyn_inv d \<and> keys_ok d \<and> used_levels d - min_level d \<le> 128"

lemma reads_lower_bound:
  assumes "dyn_inv d" "search_ok search"
  shows "\<exists>p. lower_bound_dyn search d key = Some p \<and> reads d (new_iter p) (filter (\<lambda>x. key \<le> fst x) (live_items d))"
proof -
  obtain p where p: "lower_bound_dyn search d key = Some p" "lower_result d key p" using lower_bound_dyn_ok [OF assms] by blast
  note L = live_items_ok [OF assms(1)]
  have "reads d (new_iter p) (filter (\<lambda>x. key \<le> fst x) (live_items d))"
  proof (cases p)
    case End
    then have "\<forall>x \<in> set (live_items d). \<not> key \<le> fst x" using p(2) by (auto simp: lower_result_def L(2) [symmetric] map_of_eq_None_iff)
    then show ?thesis by (simp add: reads_def new_iter_def End)
  next
    case (At i q)
    then obtain k v where k: "deref d p = Some (k, v)" "key \<le> k" "dyn_map d k = Some v" "\<forall>k'. key \<le> k' \<and> k' < k \<longrightarrow> dyn_map d k' = None"
      using p(2) by (auto simp: lower_result_def)
    have "\<forall>k'. k \<le> k' \<longrightarrow> key \<le> k'" using k(2) by (auto intro: order_trans)
    then have "filter (\<lambda>x. key \<le> fst x) (live_items d) = (k, v) # filter (\<lambda>x. k < fst x) (live_items d)"
      using filter_least [OF L(1), of k v "\<lambda>y. key \<le> y"] k(2-4) by (auto simp: L(2))
    then show ?thesis using k(1) At by (auto simp: reads_def new_iter_def iter_at_def)
  qed
  with p(1) show ?thesis by blast
qed

lemma reads_incr:
  assumes "iterable d" "search_ok search" "shl64 = Some 1" "reads d it L" "cur it \<noteq> End"
  shows "\<exists>x L' it'. L = x # L' \<and> deref d (cur it) = Some x \<and> iter_incr shl64 search d it = Some it' \<and> reads d it' L'"
proof -
  from assms(4,5) obtain k v where k: "deref d (cur it) = Some (k, v)" "iter_at d it k" "L = (k, v) # filter (\<lambda>x. k < fst x) (live_items d)"
    by (auto simp: reads_def)
  have ok: "dyn_inv d" "keys_ok d" "used_levels d - min_level d \<le> 128" using assms(1) by (simp_all add: iterable_def)
  note L = live_items_ok [OF ok(1)]
  from iter_incr_ok [OF ok(1,2) assms(2) ok(3) k(2) assms(3)] obtain it' where
    it': "iter_incr shl64 search d it = Some it'" "next_result d k (cur it')" "\<forall>k v. deref d (cur it') = Some (k, v) \<longrightarrow> iter_at d it' k" by blast
  have "reads d it' (filter (\<lambda>x. k < fst x) (live_items d))"
  proof (cases "cur it'")
    case End
    then have "\<forall>x \<in> set (live_items d). \<not> k < fst x" using it'(2) by (auto simp: next_result_def L(2) [symmetric] map_of_eq_None_iff)
    then show ?thesis by (simp add: reads_def End)
  next
    case (At i q)
    then obtain k1 v1 where k1: "deref d (cur it') = Some (k1, v1)" "k < k1" "dyn_map d k1 = Some v1" "\<forall>k'. k < k' \<and> k' < k1 \<longrightarrow> dyn_map d k' = None"
      using it'(2) by (auto simp: next_result_def)
    have "\<forall>k'. k1 \<le> k' \<longrightarrow> k < k'" using k1(2) by (auto intro: less_le_trans)
    then have "filter (\<lambda>x. k < fst x) (live_items d) = (k1, v1) # filter (\<lambda>x. k1 < fst x) (live_items d)"
      using filter_least [OF L(1), of k1 v1 "\<lambda>y. k < y"] k1(2-4) by (auto simp: L(2))
    then show ?thesis using k1(1) it'(3) At by (auto simp: reads_def)
  qed
  with k it'(1) show ?thesis by blast
qed

lemma distance_end_ok:
  assumes "iterable d" "search_ok search" "shl64 = Some 1" "reads d it L"
  shows "distance_end shl64 search d it n = Some (n + length L)"
  using assms(4)
proof (induction L arbitrary: it n)
  case Nil
  then have "cur it = End" by (auto simp: reads_def split: if_splits)
  then show ?case by (subst distance_end.simps) simp
next
  case (Cons x L)
  then have "cur it \<noteq> End" by (auto simp: reads_def)
  with reads_incr [OF assms(1-3) Cons.prems] obtain it' where "iter_incr shl64 search d it = Some it'" "reads d it' L" by auto
  with Cons.IH [of it' "n + 1"] \<open>cur it \<noteq> End\<close> show ?case by (subst distance_end.simps) simp
qed

lemma size_dyn_ok:
  assumes "iterable d" "search_ok search" "shl64 = Some 1"
  shows "size_dyn shl64 search d = Some (length (live_items d))"
proof -
  have "dyn_inv d" using assms(1) by (simp add: iterable_def)
  from reads_lower_bound [OF this assms(2), of 0] obtain p where
    "begin_dyn search d = Some p" "reads d (new_iter p) (live_items d)" by (auto simp: begin_dyn_def)
  then show ?thesis using distance_end_ok [OF assms, of "new_iter p" "live_items d" 0] by (simp add: size_dyn_def)
qed

end
