(* ===== verification/PgmIndex.thy ===== *)
theory PgmIndex
  imports IndexApi PgmIter
begin

text \<open>
  The adapter of the dynamic PGM index, \<open>competitor/pgm/pgm.h\<close>, for 64-bit keys and payloads. The
  pointer \<open>index\<close> is not initialised before \<open>bulk_load\<close>; an exception that leaves a call is \<open>None\<close>, as
  undefined behaviour is.

  The index is one with limits: the largest key is the sentinel of the tournament tree, the largest
  payload marks deleted items, and the counter of \<open>scan\<close> is an \<open>int\<close>. Within these limits it
  satisfies \<open>bounded_scan\<close>.
\<close>

section \<open>Definitions\<close>

type_synonym pgm_index_state = "dyn_pgm option"

definition pgm_bulk_load :: "pgm_index_state \<Rightarrow> item list \<Rightarrow> pgm_index_state option" where
  "pgm_bulk_load s key_value =
     do { r \<leftarrow> construct_range key_value 8 0 0; case r of Inl e \<Rightarrow> None | Inr d \<Rightarrow> Some (Some d) }"

definition pgm_get :: "pgm_search \<Rightarrow> pgm_index_state \<Rightarrow> u64 \<Rightarrow> u64 option option" where
  "pgm_get search s key =
     do { d \<leftarrow> s; it \<leftarrow> find_dyn search d key;
          if it \<noteq> End then do { x \<leftarrow> deref d it; Some (Some (snd x)) } else Some None }"

definition pgm_put :: "pgm_index_state \<Rightarrow> u64 \<Rightarrow> u64 \<Rightarrow> (pgm_index_state \<times> bool) option" where
  "pgm_put s key v =
     do { d \<leftarrow> s; r \<leftarrow> insert_or_assign d key v; case r of Inl e \<Rightarrow> None | Inr d' \<Rightarrow> Some (Some d', True) }"

definition pgm_update :: "pgm_index_state \<Rightarrow> u64 \<Rightarrow> u64 \<Rightarrow> (pgm_index_state \<times> bool) option" where
  "pgm_update s key v =
     do { d \<leftarrow> s; r \<leftarrow> insert_or_assign d key v; case r of Inl e \<Rightarrow> None | Inr d' \<Rightarrow> Some (Some d', True) }"

definition pgm_remove :: "pgm_index_state \<Rightarrow> u64 \<Rightarrow> (pgm_index_state \<times> bool) option" where
  "pgm_remove s key = do { d \<leftarrow> s; d' \<leftarrow> erase_key d key; Some (Some d', True) }"

text \<open>The counter \<open>scan_size\<close> is an \<open>int\<close>.\<close>

function pgm_scan_loop :: "nat option \<Rightarrow> pgm_search \<Rightarrow> dyn_pgm \<Rightarrow> nat \<Rightarrow> dyn_iter \<Rightarrow> nat \<Rightarrow> item list \<Rightarrow> (nat \<times> item list) option" where
  "pgm_scan_loop shl64 search d key_num it scan_size result =
     (if scan_size < key_num \<and> cur it \<noteq> End then
        do { x \<leftarrow> deref d (cur it);
             it' \<leftarrow> iter_incr shl64 search d it;
             if scan_size + 1 < 2 ^ 31 then pgm_scan_loop shl64 search d key_num it' (scan_size + 1) (result @ [x]) else None }
      else Some (scan_size, result))"
  by pat_completeness auto
termination
  by (relation "measure (\<lambda>(s, f, d, n, it, c, r). n - c)") auto

declare pgm_scan_loop.simps [simp del]

definition pgm_scan :: "nat option \<Rightarrow> pgm_search \<Rightarrow> pgm_index_state \<Rightarrow> u64 \<Rightarrow> nat \<Rightarrow> (nat \<times> item list) option" where
  "pgm_scan shl64 search s key_low_bound key_num =
     do { d \<leftarrow> s; p \<leftarrow> lower_bound_dyn search d key_low_bound; pgm_scan_loop shl64 search d key_num (new_iter p) 0 [] }"

definition pgm_index :: "nat option \<Rightarrow> pgm_search \<Rightarrow> (pgm_index_state, u64, u64) indexInterface" where
  "pgm_index shl64 search =
     \<lparr>bulk_load_op = pgm_bulk_load, get_op = pgm_get search, put_op = pgm_put, update_op = pgm_update,
      remove_op = pgm_remove, scan_op = pgm_scan shl64 search\<rparr>"

text \<open>
  The size of the container: \<open>pgm_bytes\<close> is the size of a static index on an array of keys; a level is
  a vector of 24 bytes, an item has 16 bytes.
\<close>

definition index_size_in_bytes :: "(u64 list \<Rightarrow> nat) \<Rightarrow> dyn_pgm \<Rightarrow> nat" where
  "index_size_in_bytes pgm_bytes d = sum_list (map pgm_bytes (pgms d))"

definition size_in_bytes :: "(u64 list \<Rightarrow> nat) \<Rightarrow> dyn_pgm \<Rightarrow> nat" where
  "size_in_bytes pgm_bytes d = index_size_in_bytes pgm_bytes d + (length (levels d) * 24 + sum_list (map (\<lambda>l. length l * 16) (levels d)))"

definition pgm_memory_consumption :: "(u64 list \<Rightarrow> nat) \<Rightarrow> pgm_index_state \<Rightarrow> nat option" where
  "pgm_memory_consumption pgm_bytes s = do { d \<leftarrow> s; Some (size_in_bytes pgm_bytes d) }"

section \<open>The stored items\<close>

definition stored :: "dyn_pgm \<Rightarrow> item set" where
  "stored d = \<Union> (set ` set (levels d))"

lemma stored_level: "level_at d i = Some l \<Longrightarrow> set l \<subseteq> stored d"
  using nth_mem by (fastforce simp: level_at_def rd_def stored_def split: if_splits)

lemma stored_set_level: "set_level d i l = Some d' \<Longrightarrow> stored d' \<subseteq> stored d \<union> set l"
  using set_update_subset_insert [of "levels d" "i - min_level d" l]
  by (auto simp: set_level_def wr_def stored_def split: if_splits)

lemma stored_set_pgm: "set_pgm d i ks = Some d' \<Longrightarrow> stored d' = stored d"
  by (auto simp: set_pgm_def wr_def stored_def split: if_splits)

lemma stored_merge_loop:
  "merge_loop d cap tmp i m = Some (d', out) \<Longrightarrow> stored d' \<union> set out \<subseteq> stored d \<union> set tmp"
proof (induction d cap tmp i m arbitrary: d' out rule: merge_loop.induct)
  case (1 d cap tmp i m)
  show ?case
  proof (cases "i \<le> m")
    case True
    from 1(2) True obtain l d1 d2 where
      l: "level_at d i = Some l" "set_level d i [] = Some d1" "set_pgm d1 i [] = Some d2"
      "merge_loop d2 cap (merge_items (i + 1 = used_levels d) tmp l) (i + 1) m = Some (d', out)"
      "length (merge_items (i + 1 = used_levels d) tmp l) \<le> cap"
      by (subst (asm) merge_loop.simps) (auto simp: Let_def split: bind_splits if_splits)
    have "stored d' \<union> set out \<subseteq> stored d2 \<union> set (merge_items (i + 1 = used_levels d) tmp l)"
      using 1(1) [OF True l(1) refl l(5,2,3,4)] .
    then show ?thesis
      using stored_level [OF l(1)] stored_set_level [OF l(2)] stored_set_pgm [OF l(3)] set_merge [of "i + 1 = used_levels d" tmp l] by auto blast+
  next
    case False
    then show ?thesis using 1(2) by (subst (asm) merge_loop.simps) auto
  qed
qed

lemma stored_pairwise_merge: "pairwise_merge d x i n p = Some d' \<Longrightarrow> stored d' \<subseteq> insert x (stored d)"
proof -
  assume "pairwise_merge d x i n p = Some d'"
  then obtain lt l0 tmp d1 tmp' d2 d3 where
    l: "level_at d i = Some lt" "level_at d (min_level d) = Some l0" "ins_at (n + length lt) l0 p x = Some tmp"
    "merge_loop d (n + length lt) tmp (1 + min_level d) (if lt = [] then i - 1 else i) = Some (d1, tmp')"
    "set_level d1 (min_level d) [] = Some d2" "set_level d2 i tmp' = Some d3" "set_pgm d3 i (keys_of tmp') = Some d'"
    by (auto simp: pairwise_merge_def Let_def split: bind_splits)
  have "set tmp \<subseteq> insert x (set l0)" using l(3) by (auto simp: ins_at_def split: if_splits dest: in_set_takeD in_set_dropD)
  then show ?thesis
    using stored_level [OF l(2)] stored_merge_loop [OF l(4)] stored_set_level [OF l(5)] stored_set_level [OF l(6)] stored_set_pgm [OF l(7)] by auto blast
qed

lemma stored_insert_item:
  assumes "insert_item d x = Some d'" shows "stored d' \<subseteq> insert x (stored d)"
proof -
  from assms obtain l0 p where l0: "level_at d (min_level d) = Some l0" "lower_bound_bl l0 0 (length l0) (fst x) = Some p"
    by (auto simp: insert_item_def split: bind_splits)
  note s0 = stored_level [OF l0(1)]
  show ?thesis
  proof (cases "p < length l0 \<and> fst (l0 ! p) = fst x")
    case True
    then have "set_level d (min_level d) (l0[p := x]) = Some d'" using assms l0 by (simp add: insert_item_def)
    from stored_set_level [OF this] show ?thesis using s0 set_update_subset_insert [of l0 p x] by blast
  next
    case no: False
    show ?thesis
    proof (cases "length l0 < buffer_max_size d")
      case True
      with no assms l0 obtain d1 where d1: "set_level d (min_level d) (take p l0 @ x # drop p l0) = Some d1" "stored d' = stored d1"
        by (auto simp: insert_item_def stored_def split: bind_splits)
      have "set (take p l0 @ x # drop p l0) \<subseteq> insert x (set l0)" by (auto dest: in_set_takeD in_set_dropD)
      then show ?thesis using stored_set_level [OF d1(1)] d1(2) s0 by blast
    next
      case False
      with no assms l0 obtain i n where "pairwise_merge (if i = used_levels d then new_level d i else d) x i n p = Some d'"
        by (auto simp: insert_item_def split: bind_splits)
      from stored_pairwise_merge [OF this] show ?thesis by (auto simp: new_level_def stored_def split: if_splits)
    qed
  qed
qed

lemma set_copy_first: "copy_first out xs = Inr ys \<Longrightarrow> set ys \<subseteq> set out \<union> set xs"
proof (induction out xs arbitrary: ys rule: copy_first.induct)
  case (2 out k v xs)
  then show ?case by (fastforce simp: ItemA_def split: if_splits)
qed simp

lemma stored_construct_range:
  assumes "construct_range xs b bl il = Some (Inr d)" shows "stored d \<subseteq> set xs"
proof (cases xs)
  case Nil
  then show ?thesis using assms by (auto simp: construct_range_def Let_def stored_def split: bind_splits sum.splits)
next
  case (Cons x rest)
  obtain k v where x: "x = (k, v)" by (cases x)
  from assms obtain d0 c where c: "construct b bl il = Some (Inr d0)" "ceil_log_base b (length xs) = Some c"
    by (auto simp: construct_range_def split: bind_splits sum.splits)
  define i where "i = max c (min_level d0)"
  define d1 where "d1 = d0\<lparr>used_levels := i + 1, levels := replicate (max (i + 1) 32 - min_level d0 + 1) []\<rparr>"
  have d1: "stored d1 = {}" by (simp add: stored_def d1_def)
  from assms obtain target d2 ps where
    t: "(case ItemA k v of Inl e \<Rightarrow> Inl e | Inr x \<Rightarrow> copy_first [x] rest) = Inr target" "set_level d1 i target = Some d2"
    "set_pgm (if has_pgm d2 i then d2\<lparr>pgms := ps\<rparr> else d2) i (keys_of target) = Some d"
    unfolding construct_range_def c(1) Cons x list.case prod.case bind.bind_lunit sum.case Let_def
      c(2) [unfolded Cons x] add_diff_cancel_right' i_def [symmetric] d1_def [symmetric]
    by (cases "case ItemA k v of Inl e \<Rightarrow> Inl e | Inr x \<Rightarrow> copy_first [x] rest"; cases "set_level d1 i (projr (case ItemA k v of Inl e \<Rightarrow> Inl e | Inr x \<Rightarrow> copy_first [x] rest))")
      (auto split: bind_splits)
  have "stored (if has_pgm d2 i then d2\<lparr>pgms := ps\<rparr> else d2) = stored d2" by (simp add: stored_def)
  moreover have "set target \<subseteq> set xs" using t(1) set_copy_first by (fastforce simp: ItemA_def Cons x split: if_splits)
  ultimately show ?thesis using stored_set_level [OF t(2)] stored_set_pgm [OF t(3)] d1 by auto
qed

section \<open>The contract\<close>

definition pgm_ok :: "u64 \<Rightarrow> u64 \<Rightarrow> bool" where
  "pgm_ok k v \<longleftrightarrow> k \<noteq> - 1 \<and> v \<noteq> tombstone"

definition pgm_room :: "nat \<Rightarrow> bool" where
  "pgm_room n \<longleftrightarrow> n < 2 ^ 31"

definition pgm_inv :: "nat \<Rightarrow> pgm_index_state \<Rightarrow> bool" where
  "pgm_inv n s \<longleftrightarrow> (\<exists>d N. s = Some d \<and> dyn_inv d \<and> keys_ok d \<and> base d = 8 \<and> min_level d \<le> 3 \<and> width_ok N d \<and> pgm_room (N + n))"

definition pgm_items :: "pgm_index_state \<Rightarrow> item list" where
  "pgm_items s = (case s of None \<Rightarrow> [] | Some d \<Rightarrow> live_items d)"

lemma keys_ok_iff: "keys_ok d \<longleftrightarrow> (\<forall>x \<in> stored d. fst x \<noteq> - 1)"
  by (auto simp: keys_ok_def stored_def)

lemma ceil_log2_8: "ceil_log2 8 = 3"
  using ceil_log2_pow [of 3] by simp

lemma pgm_inv_iterable:
  assumes "dyn_inv d" "keys_ok d" "base d = 8" "min_level d \<le> 3" "width_ok N d" "pgm_room N"
  shows "iterable d"
proof -
  have "used_levels d \<le> 128"
  proof (cases "used_levels d \<le> min_level d + 1")
    case False
    then have "(2::nat) ^ ((used_levels d - 2) * 3) < 2 ^ 31"
      using assms(3,5,6) by (simp add: width_ok_def max_size_def ceil_log2_8 pgm_room_def)
    then have "(used_levels d - 2) * 3 < 31" by (rule power_less_imp_less_exp [rotated]) simp
    then show ?thesis by simp
  qed (use assms(4) in simp)
  then show ?thesis using assms(1,2) by (simp add: iterable_def)
qed

lemma live_items_width:
  assumes "width_ok N d" shows "length (live_items d) \<le> N"
proof -
  have "length (fold (\<lambda>l acc. merge_items False acc l) ls acc) \<le> length acc + sum_list (map length ls)" for ls acc
  proof (induction ls arbitrary: acc)
    case (Cons l ls)
    from Cons [of "merge_items False acc l"] show ?case using length_merge_items [of False acc l] by simp
  qed simp
  from this [of "levels d" "[]"] have "length (fold (\<lambda>l acc. merge_items False acc l) (levels d) []) \<le> total_items d"
    by (simp add: total_items_def)
  then have "length (live_items d) \<le> total_items d" unfolding live_items_def by (rule order_trans [OF length_filter_le])
  then show ?thesis using assms by (simp add: width_ok_def)
qed

lemma live_items_upd:
  assumes "dyn_inv d" "dyn_inv d'" "dyn_map d' = (dyn_map d)(k := r)"
  shows "live_items d' = (case r of None \<Rightarrow> del_kv k (live_items d) | Some v \<Rightarrow> upd_kv k v (live_items d))"
proof -
  note L = live_items_ok [OF assms(1)] and L' = live_items_ok [OF assms(2)]
  have "ksorted (case r of None \<Rightarrow> del_kv k (live_items d) | Some v \<Rightarrow> upd_kv k v (live_items d))" (is "ksorted ?R")
    using L(1) by (simp add: ksorted_del_kv ksorted_upd_kv split: option.split)
  moreover have "map_of ?R = map_of (live_items d')"
    using L(1) by (simp add: L(2) L'(2) assms(3) map_of_del_kv map_of_upd_kv split: option.split)
  ultimately show ?thesis by (metis L'(1) ksorted_map_unique)
qed

lemma insert_item_inv:
  assumes "pgm_inv (Suc n) (Some d)" "fst x \<noteq> - 1"
  shows "\<exists>d'. insert_item d x = Some d' \<and> pgm_inv n (Some d') \<and>
    live_items d' = (if deleted x then del_kv (fst x) (live_items d) else upd_kv (fst x) (snd x) (live_items d))"
proof -
  from assms(1) obtain N where d: "dyn_inv d" "keys_ok d" "base d = 8" "min_level d \<le> 3" "width_ok N d" "pgm_room (N + Suc n)"
    by (auto simp: pgm_inv_def)
  from insert_item_ok [OF d(1), of x] obtain d' where
    d': "insert_item d x = Some d'" "dyn_inv d'" "grows d d'" "dyn_map d' = (dyn_map d)(fst x := if deleted x then None else Some (snd x))" by blast
  note w = width_ok_grows [OF d(5) d'(3)]
  have "keys_ok d'" using stored_insert_item [OF d'(1)] d(2) assms(2) by (auto simp: keys_ok_iff)
  then have "pgm_inv n (Some d')" using d d'(2) w by (auto simp: pgm_inv_def intro: exI [of _ "Suc N"])
  then show ?thesis using d'(1) live_items_upd [OF d(1) d'(2,4)] by auto
qed

lemma pgm_bulk_load_ok:
  assumes "ksorted xs" "\<forall>(k, v) \<in> set xs. pgm_ok k v" "pgm_room (length xs + n)"
  shows "\<exists>s'. pgm_bulk_load s xs = Some s' \<and> pgm_inv n s' \<and> pgm_items s' = xs"
proof -
  have p: "power_of_two 8" "0 < ceil_log2 8" by (simp_all add: power_of_two_def ceil_log2_8)
  have "sorted (keys_of xs)" "\<forall>x \<in> set xs. \<not> deleted x" using assms(1,2) by (auto simp: strict_sorted_iff pgm_ok_def deleted_def)
  with construct_range_ok [OF p(1), of 0 xs 0] obtain d where
    d: "construct_range xs 8 0 0 = Some (Inr d)" "dyn_inv d" "dyn_map d = map_of xs" "base d = 8" "min_level d * 3 \<le> 6 + 3" "total_items d \<le> length xs"
    "used_levels d \<le> min_level d + 1 \<or> ceil_log_base 8 (length xs) = Some (used_levels d - 1)" by (auto simp: ceil_log2_8)
  have "width_ok (length xs) d" using construct_range_width [OF p(2) d(4,6,7)] .
  moreover have "keys_ok d" using stored_construct_range [OF d(1)] assms(2) by (auto simp: keys_ok_iff pgm_ok_def)
  ultimately have "pgm_inv n (Some d)" using d(2,4,5) assms(3) by (auto simp: pgm_inv_def)
  moreover have "live_items d = xs" using live_items_ok [OF d(2)] assms(1) d(3) by (metis ksorted_map_unique)
  ultimately show ?thesis using d(1) by (simp add: pgm_bulk_load_def pgm_items_def)
qed

lemma pgm_get_ok:
  assumes "search_ok search" "dyn_inv d" shows "pgm_get search (Some d) k = Some (map_of (live_items d) k)"
  using find_ok [OF assms(2,1), of k] live_items_ok(2) [OF assms(2)]
  by (auto simp: pgm_get_def split: option.splits)

lemma pgm_scan_loop_ok:
  assumes "iterable d" "search_ok search" "shl64 = Some 1" "reads d it L" "c + length L < 2 ^ 31"
  shows "pgm_scan_loop shl64 search d n it c result = Some (c + min (n - c) (length L), result @ take (n - c) L)"
  using assms(4,5)
proof (induction L arbitrary: it c result)
  case Nil
  then have "cur it = End" by (auto simp: reads_def split: if_splits)
  then show ?case by (subst pgm_scan_loop.simps) simp
next
  case (Cons x L)
  show ?case
  proof (cases "c < n")
    case True
    have "cur it \<noteq> End" using Cons.prems(1) by (auto simp: reads_def)
    with reads_incr [OF assms(1-3) Cons.prems(1)] obtain it' where
      "deref d (cur it) = Some x" "iter_incr shl64 search d it = Some it'" "reads d it' L" by auto
    moreover have "n - c = Suc (n - (c + 1))" using True by simp
    ultimately show ?thesis using Cons.IH [of it' "c + 1" "result @ [x]"] Cons.prems(2) True \<open>cur it \<noteq> End\<close>
      by (subst pgm_scan_loop.simps) simp
  next
    case False
    then show ?thesis by (subst pgm_scan_loop.simps) simp
  qed
qed

lemma pgm_scan_ok:
  assumes "search_ok search" "shl64 = Some 1" "pgm_inv n s"
  shows "pgm_scan shl64 search s k m = Some (min m (length (dropWhile (\<lambda>x. fst x < k) (pgm_items s))), take m (dropWhile (\<lambda>x. fst x < k) (pgm_items s)))"
proof -
  from assms(3) obtain d N where d: "s = Some d" "dyn_inv d" "keys_ok d" "base d = 8" "min_level d \<le> 3" "width_ok N d" "pgm_room (N + n)"
    by (auto simp: pgm_inv_def)
  have "pgm_room N" using d(7) by (simp add: pgm_room_def)
  then have it: "iterable d" by (rule pgm_inv_iterable [OF d(2-6)])
  let ?L = "dropWhile (\<lambda>x. fst x < k) (live_items d)"
  from reads_lower_bound [OF d(2) assms(1), of k] obtain p where
    p: "lower_bound_dyn search d k = Some p" "reads d (new_iter p) ?L"
    using filter_ge_dropWhile [OF live_items_ok(1) [OF d(2)]] by auto
  have "length ?L < 2 ^ 31" using length_dropWhile_le [of "\<lambda>x. fst x < k" "live_items d"] live_items_width [OF d(6)] \<open>pgm_room N\<close>
    by (simp add: pgm_room_def)
  then have "pgm_scan_loop shl64 search d m (new_iter p) 0 [] = Some (min m (length ?L), take m ?L)"
    using pgm_scan_loop_ok [OF it assms(1,2) p(2), of 0 m "[]"] by simp
  then show ?thesis using p(1) d(1) by (simp add: pgm_scan_def pgm_items_def)
qed

lemma pgm_put_ok:
  assumes "pgm_inv (Suc n) s" "pgm_ok k v"
  shows "\<exists>s'. pgm_put s k v = Some (s', True) \<and> pgm_inv n s' \<and> pgm_items s' = upd_kv k v (pgm_items s)"
proof -
  from assms(1) obtain d where d: "s = Some d" by (auto simp: pgm_inv_def)
  from insert_item_inv [of n d "(k, v)"] assms obtain d' where
    "insert_item d (k, v) = Some d'" "pgm_inv n (Some d')" "live_items d' = upd_kv k v (live_items d)"
    by (auto simp: d pgm_ok_def deleted_def)
  then show ?thesis using assms(2) by (simp add: d pgm_put_def pgm_items_def insert_or_assign_def ItemA_def pgm_ok_def)
qed

lemma pgm_remove_ok:
  assumes "pgm_inv (Suc n) s" "k \<noteq> - 1"
  shows "\<exists>s'. pgm_remove s k = Some (s', True) \<and> pgm_inv n s' \<and> pgm_items s' = del_kv k (pgm_items s)"
proof -
  from assms(1) obtain d where d: "s = Some d" by (auto simp: pgm_inv_def)
  from insert_item_inv [of n d "ItemA_deleted k"] assms obtain d' where
    "erase_key d k = Some d'" "pgm_inv n (Some d')" "live_items d' = del_kv k (live_items d)"
    by (auto simp: d ItemA_deleted_def deleted_def erase_key_def)
  then show ?thesis by (simp add: d pgm_remove_def pgm_items_def)
qed

lemma pgm_items_keys: 
  assumes "pgm_inv n s" "k \<in> set (keys_of (pgm_items s))" shows "k \<noteq> - 1"
proof -
  from assms(1) obtain d where d: "s = Some d" "keys_ok d" by (auto simp: pgm_inv_def)
  have "set (fold (\<lambda>l acc. merge_items False acc l) ls acc) \<subseteq> set acc \<union> \<Union> (set ` set ls)" for ls acc
  proof (induction ls arbitrary: acc)
    case (Cons l ls)
    from Cons [of "merge_items False acc l"] show ?case using set_merge [of False acc l] by (fastforce simp: subset_iff)
  qed simp
  from this [of "levels d" "[]"] have "set (live_items d) \<subseteq> stored d" by (auto simp: live_items_def stored_def)
  then show ?thesis using assms(2) d by (auto simp: pgm_items_def keys_ok_iff)
qed

text \<open>The contract of the interface holds for every static index that satisfies its own.\<close>

lemma pgm_bounded_scan:
  assumes "search_ok search" "shl64 = Some 1"
  shows "bounded_scan (pgm_index shl64 search) pgm_inv (\<lambda>_. True) pgm_items pgm_ok pgm_room"
proof unfold_locales
  fix n s assume s: "pgm_inv n s"
  then obtain d where d: "s = Some d" "dyn_inv d" by (auto simp: pgm_inv_def)
  show "ksorted (pgm_items s)" using live_items_ok(1) [OF d(2)] by (simp add: d(1) pgm_items_def)
  show "get_op (pgm_index shl64 search) s k = Some (map_of (pgm_items s) k)" for k
    using pgm_get_ok [OF assms(1) d(2)] by (simp add: d(1) pgm_items_def pgm_index_def)
  show "scan_op (pgm_index shl64 search) s k m =
      Some (min m (length (dropWhile (\<lambda>x. fst x < k) (pgm_items s))), take m (dropWhile (\<lambda>x. fst x < k) (pgm_items s)))" for k m
    using pgm_scan_ok [OF assms s] by (simp add: pgm_index_def)
  then show "\<exists>r. scan_op (pgm_index shl64 search) s k m = Some r" for k m by blast
next
  fix n s k v assume s: "pgm_inv (Suc n) s"
  note put = pgm_put_ok [OF s, of k v]
  obtain d where d: "s = Some d" "dyn_inv d" using s by (auto simp: pgm_inv_def)
  have so: "ksorted (pgm_items s)" using live_items_ok(1) [OF d(2)] by (simp add: d(1) pgm_items_def)
  show "\<exists>s'. put_op (pgm_index shl64 search) s k v = Some (s', True) \<and> pgm_inv n s' \<and> pgm_items s' = ins_kv k v (pgm_items s)"
    if "k \<notin> set (keys_of (pgm_items s))" "pgm_ok k v" using put that upd_kv_absent [OF that(1)] by (simp add: pgm_index_def)
  show "\<exists>s' u. update_op (pgm_index shl64 search) s k v = Some (s', u) \<and> pgm_inv n s' \<and> keys_of (pgm_items s') = keys_of (pgm_items s)"
    if "k \<in> set (keys_of (pgm_items s))" "pgm_ok k v"
    using put that(2) upd_kv_keys [OF so that(1), of v] by (auto simp: pgm_index_def pgm_put_def pgm_update_def simp del: set_map)
  show "\<exists>s'. remove_op (pgm_index shl64 search) s k = Some (s', True) \<and> pgm_inv n s' \<and> pgm_items s' = del_kv k (pgm_items s)"
    if "k \<in> set (keys_of (pgm_items s))" using pgm_remove_ok [OF s pgm_items_keys [OF s that]] by (simp add: pgm_index_def)
qed (simp add: pgm_index_def pgm_bulk_load_ok)

section \<open>Main theorems\<close>





text \<open>
  C40: incrementing a fresh iterator at the greatest stored key shifts by 64 bits. Where that has
  no value, the adapter's scan from the greatest stored key is undefined, although the pair exists
  and only one pair is asked for.
\<close>

theorem scan_from_last_key_undefined:
  assumes "search_ok search" "dyn_inv d" "dyn_map d k = Some v" "\<forall>l \<in> set (levels d). \<forall>y \<in> set l. fst y \<le> k" "0 < m"
  shows "pgm_scan None search (Some d) k m = None"
proof -
  obtain p where p: "lower_bound_dyn search d k = Some p" "lower_result d k p" using lower_bound_dyn_ok [OF assms(2,1)] by blast
  from p(2) assms(3) obtain i q where At: "p = At i q" by (cases p) (auto simp: lower_result_def)
  with p(2) obtain k1 v1 where k1: "deref d p = Some (k1, v1)" "k \<le> k1" "\<forall>k'. k \<le> k' \<and> k' < k1 \<longrightarrow> dyn_map d k' = None"
    by (auto simp: lower_result_def)
  then have "k1 = k" using assms(3) by (metis order.not_eq_order_implies_strict option.distinct(1) order_refl)
  have lv: "levels_ok d" "min_level d \<le> used_levels d" using assms(2) by (auto simp: dyn_inv_def levels_ok_def)
  from init_cursors_ok [OF assms(2,1) order_refl lv(2), of k] obtain cs where
    cs: "init_cursors search d k (min_level d) = Some cs" "sorted_wrt (<) (map fst cs)"
    "\<forall>(l, p) \<in> set cs. min_level d \<le> l \<and> l < used_levels d \<and> p < length (lev d l)"
    "\<forall>j. min_level d \<le> j \<and> j < used_levels d \<longrightarrow> rest d cs j = filter (\<lambda>x. k < fst x) (lev d j)" by blast
  have "cs = []"
  proof (cases cs)
    case (Cons c cs')
    obtain l r where c: "c = (l, r)" by (cases c)
    have l: "min_level d \<le> l" "l < used_levels d" "r < length (lev d l)" using cs(3) by (auto simp: Cons c)
    have "lev d l \<in> set (levels d)" using level_in_range(1) [OF lv(1) l(1,2)] by simp
    then have "filter (\<lambda>x. k < fst x) (lev d l) = []" using assms(4) by (fastforce simp: filter_empty_conv not_less)
    moreover have "rest d cs l = drop r (lev d l)" by (simp add: Cons c rest_def)
    ultimately show ?thesis using cs(4) l by auto
  qed
  then have "iter_incr None search d (new_iter p) = None"
    using k1(1) cs(1) \<open>k1 = k\<close> by (simp add: iter_incr_def lazy_initialize_def new_iter_def LoserTree_def next_pow2_def)
  then show ?thesis using p(1) k1(1) assms(5) At by (subst pgm_scan_def) (simp add: pgm_scan_loop.simps new_iter_def)
qed

theorem scan_from_last_key_undefined_witness:
  "\<exists>d. construct_range [(3, 4)] 8 0 0 = Some (Inr d) \<and> pgm_scan None (\<lambda>ks x. (0, length ks)) (Some d) 3 1 = None"
proof -
  have p: "power_of_two 8" "\<forall>x \<in> set [(3, 4)]. \<not> deleted x" by (simp_all add: power_of_two_def deleted_def tombstone_def)
  with construct_range_ok [of 8 0 "[(3, 4)]" 0] obtain d where
    d: "construct_range [(3, 4)] 8 0 0 = Some (Inr d)" "dyn_inv d" "dyn_map d = map_of [(3, 4)]" by auto
  have "\<forall>l \<in> set (levels d). \<forall>y \<in> set l. fst y \<le> 3" using stored_construct_range [OF d(1)] by (fastforce simp: stored_def)
  with scan_from_last_key_undefined [of "\<lambda>ks x. (0, length ks)" d 3 4 1] d(1-3) show ?thesis by (simp add: search_ok_def)
qed

text \<open>A container with a pair of the largest key.\<close>

definition sentinel_example :: dyn_pgm where
  "sentinel_example = \<lparr>base = 8, min_level = 3, min_index_level = 8, buffer_max_size = 585, used_levels = 5,
     levels = [[(5, 5)], [(0, 0), (- 1, 7)]], pgms = []\<rparr>"


end
