(* ===== verification/PgmSegments.thy ===== *)
theory PgmSegments
  imports PgmMetric
begin

text \<open>
  The segmentation of the static PGM index, \<open>piecewise_linear_model.hpp\<close>: the class
  \<open>OptimalPiecewiseLinearModel\<close> of that file (the metric has a copy of it that also records its points),
  the canonical segments it emits and the two functions \<open>make_segmentation\<close> and \<open>make_segmentation_par\<close>. The
  function argument \<open>in\<close> is the list of its values.
\<close>

section \<open>Operations\<close>

definition new_opt :: "int \<Rightarrow> opt" where
  "new_opt eps = \<lparr>epsilon = eps, lower = [], upper = [], first_x = 0, last_x = 0, lower_start = 0, upper_start = 0,
     points_in_hull = 0, rect0 = (0, 0), rect1 = (0, 0), rect2 = (0, 0), rect3 = (0, 0)\<rparr>"

definition opt_add_point :: "opt \<Rightarrow> int \<Rightarrow> int \<Rightarrow> (logic_error + opt \<times> bool) option" where
  "opt_add_point S x y =
     (if points_in_hull S > 0 \<and> x \<le> last_x S then Some (Inl Points_must_be_increasing)
      else
        let S1 = S\<lparr>last_x := x\<rparr>; p1 = upper_pt (epsilon S) x y; p2 = lower_pt (epsilon S) x y in
        if points_in_hull S = 0 then
          Some (Inr (S1\<lparr>first_x := x, rect0 := p1, rect1 := p2, upper := [p1], lower := [p2], upper_start := 0, lower_start := 0,
                        points_in_hull := 1\<rparr>, True))
        else if points_in_hull S = 1 then
          Some (Inr (S1\<lparr>rect2 := p2, rect3 := p1, upper := upper S @ [p1], lower := lower S @ [p2], points_in_hull := 2\<rparr>, True))
        else
          let slope1 = diff_pt (rect2 S) (rect0 S); slope2 = diff_pt (rect3 S) (rect1 S);
              outside_line1 = slope_lt (diff_pt p1 (rect2 S)) slope1; outside_line2 = slope_gt (diff_pt p2 (rect3 S)) slope2 in
          if outside_line1 \<or> outside_line2 then Some (Inr (S1\<lparr>points_in_hull := 0\<rparr>, False))
          else
            do { S2 \<leftarrow> (if slope_lt (diff_pt p1 (rect1 S)) slope2 then lower_line S1 p1 else Some S1);
                 S3 \<leftarrow> (if slope_gt (diff_pt p2 (rect0 S)) slope1 then upper_line S2 p2 else Some S2);
                 Some (Inr (S3\<lparr>points_in_hull := points_in_hull S + 1\<rparr>, True)) })"

record CanonicalSegment =
  rectangle0 :: point
  rectangle1 :: point
  rectangle2 :: point
  rectangle3 :: point
  seg_first :: int

definition get_segment :: "opt \<Rightarrow> CanonicalSegment" where
  "get_segment S =
     (if points_in_hull S = 1
      then \<lparr>rectangle0 = rect0 S, rectangle1 = rect1 S, rectangle2 = rect0 S, rectangle3 = rect1 S, seg_first = first_x S\<rparr>
      else \<lparr>rectangle0 = rect0 S, rectangle1 = rect1 S, rectangle2 = rect2 S, rectangle3 = rect3 S, seg_first = first_x S\<rparr>)"

text \<open>
  The loop of \<open>make_segmentation\<close>; \<open>x\<close> is the key of the point that was added last. The segments are
  returned in the order in which they are passed to \<open>out\<close>, with their number.
\<close>

fun seg_loop :: "point list \<Rightarrow> int \<Rightarrow> opt \<Rightarrow> nat \<Rightarrow> (logic_error + CanonicalSegment list \<times> nat) option" where
  "seg_loop [] x S c = Some (Inr ([get_segment S], c + 1))"
| "seg_loop (p # ps) x S c =
     (if fst p = x then seg_loop ps x S c
      else do { r \<leftarrow> opt_add_point S (fst p) (snd p);
                case r of
                  Inl e \<Rightarrow> Some (Inl e)
                | Inr (S', True) \<Rightarrow> seg_loop ps (fst p) S' c
                | Inr (S', False) \<Rightarrow>
                    do { r' \<leftarrow> opt_add_point S' (fst p) (snd p);
                         case r' of
                           Inl e \<Rightarrow> Some (Inl e)
                         | Inr (S'', _) \<Rightarrow>
                             do { r'' \<leftarrow> seg_loop ps (fst p) S'' (c + 1);
                                  case r'' of Inl e \<Rightarrow> Some (Inl e) | Inr (cs, n) \<Rightarrow> Some (Inr (get_segment S' # cs, n)) } } })"

definition make_segmentation :: "int \<Rightarrow> point list \<Rightarrow> (logic_error + CanonicalSegment list \<times> nat) option" where
  "make_segmentation eps ps =
     (case ps of
        [] \<Rightarrow> Some (Inr ([], 0))
      | p # ps' \<Rightarrow>
          do { r \<leftarrow> opt_add_point (new_opt eps) (fst p) (snd p);
               case r of Inl e \<Rightarrow> Some (Inl e) | Inr (S, _) \<Rightarrow> seg_loop ps' (fst p) S 0 })"

text \<open>
  The parallel variant: the points are cut into \<open>parallelism\<close> chunks, a chunk does not begin inside a run
  of equal keys, and the results are put together in order. An exception of one thread ends the
  program; \<open>skip_run\<close> is the loop that moves the beginning of a chunk.
\<close>

fun skip_run :: "int \<Rightarrow> point list \<Rightarrow> point list" where
  "skip_run x [] = []"
| "skip_run x (p # ps) = (if fst p = x then skip_run (fst p) ps else p # ps)"

definition chunk :: "nat \<Rightarrow> point list \<Rightarrow> nat \<Rightarrow> point list" where
  "chunk parallelism ps i =
     (let chunk_size = length ps div parallelism; first = i * chunk_size;
          last = (if i = parallelism - 1 then length ps else first + chunk_size); c = take (last - first) (drop first ps) in
      if first > 0 then skip_run (fst (ps ! (first - 1))) c else c)"

fun run_chunks :: "int \<Rightarrow> point list list \<Rightarrow> (logic_error + CanonicalSegment list \<times> nat) option" where
  "run_chunks eps [] = Some (Inr ([], 0))"
| "run_chunks eps (c # cs) =
     do { r \<leftarrow> make_segmentation eps c;
          r' \<leftarrow> run_chunks eps cs;
          case (r, r') of
            (Inr (out, n), Inr (out', n')) \<Rightarrow> Some (Inr (out @ out', n + n'))
          | _ \<Rightarrow> Some (Inl Points_must_be_increasing) }"

definition make_segmentation_par :: "nat \<Rightarrow> int \<Rightarrow> point list \<Rightarrow> (logic_error + CanonicalSegment list \<times> nat) option" where
  "make_segmentation_par parallelism eps ps =
     (if parallelism = 1 \<or> length ps < 2 ^ 15 then make_segmentation eps ps
      else run_chunks eps (map (chunk parallelism ps) [0..<parallelism]))"

section \<open>The model of the index is that of the metric\<close>

lemma truncate_fields [simp]:
  "epsilon (opt.truncate S) = epsilon S" "lower (opt.truncate S) = lower S" "upper (opt.truncate S) = upper S"
  "first_x (opt.truncate S) = first_x S" "last_x (opt.truncate S) = last_x S" "lower_start (opt.truncate S) = lower_start S"
  "upper_start (opt.truncate S) = upper_start S" "points_in_hull (opt.truncate S) = points_in_hull S" "rect0 (opt.truncate S) = rect0 S"
  "rect1 (opt.truncate S) = rect1 S" "rect2 (opt.truncate S) = rect2 S" "rect3 (opt.truncate S) = rect3 S"
  by (simp_all add: opt.defs)

lemma truncate_updates [simp]:
  "opt.truncate (S\<lparr>last_x := a\<rparr>) = (opt.truncate S)\<lparr>last_x := a\<rparr>" "opt.truncate (S\<lparr>first_x := a\<rparr>) = (opt.truncate S)\<lparr>first_x := a\<rparr>"
  "opt.truncate (S\<lparr>rect0 := p\<rparr>) = (opt.truncate S)\<lparr>rect0 := p\<rparr>" "opt.truncate (S\<lparr>rect1 := p\<rparr>) = (opt.truncate S)\<lparr>rect1 := p\<rparr>"
  "opt.truncate (S\<lparr>rect2 := p\<rparr>) = (opt.truncate S)\<lparr>rect2 := p\<rparr>" "opt.truncate (S\<lparr>rect3 := p\<rparr>) = (opt.truncate S)\<lparr>rect3 := p\<rparr>"
  "opt.truncate (S\<lparr>upper := h\<rparr>) = (opt.truncate S)\<lparr>upper := h\<rparr>" "opt.truncate (S\<lparr>lower := h\<rparr>) = (opt.truncate S)\<lparr>lower := h\<rparr>"
  "opt.truncate (S\<lparr>upper_start := n\<rparr>) = (opt.truncate S)\<lparr>upper_start := n\<rparr>" "opt.truncate (S\<lparr>lower_start := n\<rparr>) = (opt.truncate S)\<lparr>lower_start := n\<rparr>"
  "opt.truncate (S\<lparr>points_in_hull := n\<rparr>) = (opt.truncate S)\<lparr>points_in_hull := n\<rparr>"
  "opt.truncate (T\<lparr>last_rank := a\<rparr>) = opt.truncate T" "opt.truncate (T\<lparr>points := h\<rparr>) = opt.truncate T"
  by (simp_all add: opt.defs)

lemma line_truncate:
  "lower_line (opt.truncate S) p = map_option opt.truncate (lower_line S p)"
  "upper_line (opt.truncate S) p = map_option opt.truncate (upper_line S p)"
  by (auto simp: lower_line_def upper_line_def Let_def opt.defs split: Option.bind_split)

lemma hulls_ok_truncate [simp]: "hulls_ok (opt.truncate S) U L = hulls_ok S U L"
  by (simp add: hulls_ok_def)

lemma opt_inv_truncate [simp]: "opt_inv (opt.truncate S) pts = opt_inv S pts"
  by (simp add: opt_inv_def split: list.split)

lemma opt_add_point_truncate:
  "opt_add_point (opt.truncate S) x y = map_option (map_sum id (map_prod opt.truncate id)) (add_point S x y)"
proof -
  define T where "T = S\<lparr>last_x := x, last_rank := y\<rparr>"
  have t: "(opt.truncate S)\<lparr>last_x := x\<rparr> = opt.truncate T" by (simp add: T_def)
  show ?thesis
    unfolding opt_add_point_def add_point_def truncate_fields t Let_def T_def [symmetric] line_truncate
    by (cases "lower_line T (upper_pt (epsilon S) x y)") (auto simp: line_truncate split: Option.bind_splits)
qed

text \<open>Hence \<open>add_point\<close> of the index decides in the same way whether a line is left.\<close>

lemma opt_add_point_step:
  assumes "opt_inv S pts" "pts \<noteq> [] \<Longrightarrow> fst (last pts) < x" "0 < epsilon S" "epsilon S \<le> max_y" "\<forall>z \<in> set (pts @ [(x, y)]). in_rank z"
  shows "\<exists>S'. opt_add_point S x y = Some (Inr (S', fits (epsilon S) (pts @ [(x, y)]))) \<and> epsilon S' = epsilon S \<and>
    (if fits (epsilon S) (pts @ [(x, y)]) then opt_inv S' (pts @ [(x, y)]) else 2 \<le> length pts \<and> S' = S\<lparr>last_x := x, points_in_hull := 0\<rparr>)"
proof -
  define T where "T = opt.extend S (plm.fields 0 pts)"
  have T: "opt.truncate T = S" "points T = pts" by (simp_all add: T_def opt.defs plm.defs)
  have i: "plm_inv T pts" "epsilon T = epsilon S"
    using assms(1) T(2) unfolding plm_inv_def T(1) [symmetric] opt_inv_truncate by (simp_all only: truncate_fields)
  from add_point_step [OF i(1), of x y] assms(2-5) obtain T' where
    T': "add_point T x y = Some (Inr (T', fits (epsilon S) (pts @ [(x, y)])))" "epsilon T' = epsilon S"
    "fits (epsilon S) (pts @ [(x, y)]) \<longrightarrow> plm_inv T' (pts @ [(x, y)])" unfolding i(2) in_rank_def by blast
  have a: "opt_add_point S x y = Some (Inr (opt.truncate T', fits (epsilon S) (pts @ [(x, y)])))"
    using opt_add_point_truncate [of T x y] T'(1) by (simp add: T(1))
  moreover have "2 \<le> length pts \<and> opt.truncate T' = S\<lparr>last_x := x, points_in_hull := 0\<rparr>" if "\<not> fits (epsilon S) (pts @ [(x, y)])"
    using a that assms(1) unfolding opt_add_point_def
    by (cases pts rule: remdups_adj.cases) (auto simp: Let_def opt_inv_def split: if_splits Option.bind_splits)
  ultimately show ?thesis using T'(2,3) by (auto simp: plm_inv_def)
qed

section \<open>What a canonical segment stands for\<close>

text \<open>
  Its key is the key of its first point. If it has several points, its extreme lines pass all of them; otherwise
  its corners are the upper and the lower point.
\<close>

definition seg_of :: "int \<Rightarrow> CanonicalSegment \<Rightarrow> point list \<Rightarrow> bool" where
  "seg_of eps cs q \<longleftrightarrow> q \<noteq> [] \<and> sorted_wrt (<) (map fst q) \<and> seg_first cs = fst (hd q) \<and>
     (if length q = 1
      then rectangle0 cs = upper_pt eps (fst (hd q)) (snd (hd q)) \<and> rectangle1 cs = lower_pt eps (fst (hd q)) (snd (hd q)) \<and>
        rectangle2 cs = rectangle0 cs \<and> rectangle3 cs = rectangle1 cs
      else {rectangle0 cs, rectangle3 cs} \<subseteq> uppers eps q \<and> {rectangle1 cs, rectangle2 cs} \<subseteq> lowers eps q \<and>
        fst (rectangle0 cs) < fst (rectangle2 cs) \<and> fst (rectangle1 cs) < fst (rectangle3 cs) \<and>
        (\<forall>l \<in> {through (rectangle0 cs) (rectangle2 cs), through (rectangle1 cs) (rectangle3 cs)}.
           (\<forall>u \<in> uppers eps q. beneath l u) \<and> (\<forall>z \<in> lowers eps q. over l z)))"

lemma get_segment_ok:
  assumes "opt_inv S q" "q \<noteq> []" shows "seg_of (epsilon S) (get_segment S) q"
proof (cases "length q = 1")
  case True
  then obtain x y where "q = [(x, y)]" by (cases q) auto
  then show ?thesis using assms by (auto simp: opt_inv_def seg_of_def get_segment_def)
next
  case False
  then obtain a b r where q: "q = a # b # r" using assms(2) by (cases q; cases "tl q") auto
  then have h: "hulls_ok S (uppers (epsilon S) q) (lowers (epsilon S) q)" using assms(1) by (cases a) (simp add: opt_inv_def)
  show ?thesis using hulls_okD [OF h] assms q by (auto simp: opt_inv_def seg_of_def get_segment_def)
qed

lemma get_segment_reset: "points_in_hull S \<noteq> 1 \<Longrightarrow> get_segment (S\<lparr>last_x := x, points_in_hull := 0\<rparr>) = get_segment S"
  by (simp add: get_segment_def)

section \<open>The sequential segmentation\<close>

text \<open>The points whose key differs from the one before.\<close>

fun new_keys :: "int \<Rightarrow> point list \<Rightarrow> point list" where
  "new_keys x [] = []"
| "new_keys x (p # ps) = (if fst p = x then new_keys x ps else p # new_keys (fst p) ps)"

definition firsts :: "point list \<Rightarrow> point list" where
  "firsts ps = (case ps of [] \<Rightarrow> [] | p # ps' \<Rightarrow> p # new_keys (fst p) ps')"

lemma opt_inv_reset: "opt_inv (S\<lparr>last_x := x, points_in_hull := 0\<rparr>) []"
  by (simp add: opt_inv_def)

lemma seg_loop_ok:
  assumes "opt_inv S cur" "cur \<noteq> []" "sorted (fst (last cur) # map fst ps)" "0 < epsilon S" "epsilon S \<le> max_y" "\<forall>z \<in> set (cur @ ps). in_rank z"
  shows "\<exists>cs. seg_loop ps (fst (last cur)) S c = Some (Inr (cs, c + length cs)) \<and>
    list_all2 (seg_of (epsilon S)) cs (greedy_pieces (fits (epsilon S)) cur (new_keys (fst (last cur)) ps))"
  using assms
proof (induction ps arbitrary: S cur c)
  case Nil
  then show ?case using get_segment_ok by simp
next
  case (Cons p ps)
  show ?case
  proof (cases "fst p = fst (last cur)")
    case True
    then show ?thesis using Cons by simp
  next
    case False
    obtain x y where p: "p = (x, y)" by (cases p)
    have lt: "fst (last cur) < x" using Cons.prems(3) False p by auto
    let ?f = "fits (epsilon S) (cur @ [(x, y)])"
    from opt_add_point_step [OF Cons.prems(1), of x y] Cons.prems(4-6) lt p obtain S' where
      S': "opt_add_point S x y = Some (Inr (S', ?f))" "epsilon S' = epsilon S"
      "if ?f then opt_inv S' (cur @ [(x, y)]) else 2 \<le> length cur \<and> S' = S\<lparr>last_x := x, points_in_hull := 0\<rparr>" by auto
    show ?thesis
    proof (cases ?f)
      case True
      then show ?thesis using Cons.IH [of S' "cur @ [(x, y)]" c] Cons.prems S' False p by auto
    next
      case nf: False
      then have c2: "2 \<le> length cur" "S' = S\<lparr>last_x := x, points_in_hull := 0\<rparr>" using S'(3) by auto
      have f: "fits (epsilon S) [(x, y)]" using Cons.prems(4-6) p by (simp add: fits_single in_rank_def)
      have "opt_inv S' []" using c2(2) opt_inv_reset by simp
      from opt_add_point_step [OF this, of x y] f Cons.prems(4-6) p S'(2) obtain S'' where
        S'': "opt_add_point S' x y = Some (Inr (S'', True))" "epsilon S'' = epsilon S" "opt_inv S'' [(x, y)]" by auto
      from Cons.IH [OF S''(3), of "c + 1"] Cons.prems(3-6) S''(2) p obtain cs where
        cs: "seg_loop ps x S'' (c + 1) = Some (Inr (cs, c + 1 + length cs))"
        "list_all2 (seg_of (epsilon S)) cs (greedy_pieces (fits (epsilon S)) [(x, y)] (new_keys x ps))" by auto
      have "points_in_hull S \<noteq> 1" using c2(1) Cons.prems(1) by (auto simp: opt_inv_def)
      then have "seg_of (epsilon S) (get_segment S') cur"
        using get_segment_ok [OF Cons.prems(1,2)] c2(2) get_segment_reset by simp
      then show ?thesis using S'(1) S''(1) cs nf False p by auto
    qed
  qed
qed

definition cuts :: "int \<Rightarrow> point list \<Rightarrow> point list list" where
  "cuts eps ps = (case ps of [] \<Rightarrow> [] | p # ps' \<Rightarrow> greedy_pieces (fits eps) [p] (new_keys (fst p) ps'))"

lemma set_new_keys: "set (new_keys x ps) \<subseteq> set ps"
  by (induction ps arbitrary: x) auto

lemma set_firsts: "set (firsts ps) \<subseteq> set ps"
  using set_new_keys by (fastforce simp: firsts_def split: list.split)

lemma make_segmentation_ok:
  assumes "sorted (map fst ps)" "0 < eps" "eps \<le> max_y" "\<forall>z \<in> set ps. in_rank z"
  shows "\<exists>cs. make_segmentation eps ps = Some (Inr (cs, length cs)) \<and> list_all2 (seg_of eps) cs (cuts eps ps)"
proof (cases ps)
  case Nil
  then show ?thesis by (simp add: make_segmentation_def cuts_def)
next
  case (Cons p ps')
  obtain x y where p: "p = (x, y)" by (cases p)
  have i: "opt_inv (new_opt eps) []" "epsilon (new_opt eps) = eps" by (simp_all add: opt_inv_def new_opt_def)
  have "fits eps [(x, y)]" using assms(2-4) Cons p by (simp add: fits_single in_rank_def)
  with opt_add_point_step [OF i(1), of x y] i(2) assms(2-4) Cons p obtain S where
    S: "opt_add_point (new_opt eps) x y = Some (Inr (S, True))" "epsilon S = eps" "opt_inv S [(x, y)]" by auto
  from seg_loop_ok [OF S(3), of ps' 0] assms Cons p S(2) show ?thesis using S(1) by (auto simp: make_segmentation_def cuts_def)
qed

lemma cuts_segmentation:
  assumes "0 < eps" "eps \<le> max_y" "\<forall>z \<in> set ps. in_rank z"
  shows "segmentation (fits eps) (firsts ps) (cuts eps ps)" "least_segments (fits eps) (firsts ps) (length (cuts eps ps))"
proof -
  have f: "fits eps [z]" if "z \<in> set ps" for z
    using bspec [OF assms(3) that] assms(1,2) fits_single [of eps "snd z" "fst z"] by (simp add: in_rank_def)
  have "segmentation (fits eps) (firsts ps) (cuts eps ps) \<and> least_segments (fits eps) (firsts ps) (length (cuts eps ps))"
  proof (cases ps)
    case Nil
    then show ?thesis by (auto simp: cuts_def firsts_def segmentation_def least_segments_def)
  next
    case (Cons p ps')
    then have "fits eps [p]" "\<forall>z \<in> set (new_keys (fst p) ps'). fits eps [z]" using f set_new_keys [of "fst p" ps'] by auto
    then show ?thesis using fit.greedy_pieces_ok [of eps "[p]"] fit.greedy_optimal [of eps p] Cons
      by (simp add: cuts_def firsts_def length_greedy_pieces)
  qed
  then show "segmentation (fits eps) (firsts ps) (cuts eps ps)" "least_segments (fits eps) (firsts ps) (length (cuts eps ps))" by auto
qed

section \<open>The parallel segmentation\<close>

lemma new_keys_append: "xs \<noteq> [] \<Longrightarrow> new_keys x (xs @ ys) = new_keys x xs @ new_keys (fst (last xs)) ys"
proof (induction xs arbitrary: x)
  case (Cons a xs)
  then show ?case by (cases "xs = []") auto
qed simp

lemma new_keys_skip: "new_keys x ys = firsts (skip_run x ys)"
  by (induction ys) (auto simp: firsts_def)

lemma firsts_append: "xs \<noteq> [] \<Longrightarrow> firsts (xs @ ys) = firsts xs @ firsts (skip_run (fst (last xs)) ys)"
proof -
  assume "xs \<noteq> []"
  then obtain a as where xs: "xs = a # as" by (cases xs) auto
  show ?thesis
  proof (cases "as = []")
    case True
    then show ?thesis using new_keys_skip [of "fst a" ys] by (simp add: xs firsts_def)
  next
    case False
    then show ?thesis using new_keys_append [OF False, of "fst a" ys] new_keys_skip [of "fst (last as)" ys] by (simp add: xs firsts_def)
  qed
qed

lemma set_skip_run: "set (skip_run x ps) \<subseteq> set ps"
  by (induction ps arbitrary: x) auto

lemma sorted_skip_run: "sorted (map fst ps) \<Longrightarrow> sorted (map fst (skip_run x ps))"
  by (induction ps arbitrary: x) auto

lemma chunk_cases: "\<exists>a b x. chunk q ps i \<in> {take a (drop b ps), skip_run x (take a (drop b ps))}"
  unfolding chunk_def Let_def by (metis insert_iff)

lemma set_chunk: "set (chunk q ps i) \<subseteq> set ps"
proof -
  obtain a b x where "chunk q ps i \<in> {take a (drop b ps), skip_run x (take a (drop b ps))}" using chunk_cases by blast
  then have "set (chunk q ps i) \<subseteq> set (take a (drop b ps))" using set_skip_run [of x "take a (drop b ps)"] by auto
  then show ?thesis by (meson in_set_dropD in_set_takeD subset_iff)
qed

lemma sorted_chunk: "sorted (map fst ps) \<Longrightarrow> sorted (map fst (chunk q ps i))"
proof -
  assume s: "sorted (map fst ps)"
  obtain a b x where c: "chunk q ps i \<in> {take a (drop b ps), skip_run x (take a (drop b ps))}" using chunk_cases by blast
  have "sorted (map fst (take a (drop b ps)))" 
    using sorted_wrt_take [OF sorted_wrt_drop [OF s]] by (simp only: take_map drop_map)
  then show ?thesis using c sorted_skip_run [of "take a (drop b ps)" x] by auto
qed

lemma chunk_firsts:
  assumes "0 < length ps div q" "i < q" "e = (if i = q - 1 then length ps else (i + 1) * (length ps div q))"
  shows "firsts (take (i * (length ps div q)) ps) @ firsts (chunk q ps i) = firsts (take e ps)"
proof -
  let ?s = "length ps div q"
  have "(i + 1) * ?s \<le> q * ?s" using assms(2) by (intro mult_right_mono) simp_all
  also have "\<dots> \<le> length ps" by (rule times_div_less_eq_dividend)
  finally have e: "i * ?s \<le> e" "e \<le> length ps" using assms(2,3) by (auto split: if_splits)
  have t: "take e ps = take (i * ?s) ps @ take (e - i * ?s) (drop (i * ?s) ps)" using e by (simp add: take_add [symmetric])
  have c: "chunk q ps i = (if i * ?s > 0 then skip_run (fst (ps ! (i * ?s - 1))) (take (e - i * ?s) (drop (i * ?s) ps)) else take (e - i * ?s) (drop (i * ?s) ps))"
    using assms(3) by (simp add: chunk_def Let_def)
  show ?thesis
  proof (cases "i = 0")
    case True
    then show ?thesis using c by (simp add: firsts_def)
  next
    case False
    then have pos: "0 < i * ?s" "i * ?s \<le> length ps" using assms(1) e by simp_all
    then have "last (take (i * ?s) ps) = ps ! (i * ?s - 1)" using last_take [of "i * ?s" ps] by simp
    moreover have "take (i * ?s) ps \<noteq> []" using pos by auto
    ultimately show ?thesis using pos(1) c firsts_append unfolding t by auto
  qed
qed

lemma chunks_firsts:
  assumes "0 < q" "0 < length ps div q" shows "concat (map (firsts \<circ> chunk q ps) [0..<q]) = firsts ps"
proof -
  have "concat (map (firsts \<circ> chunk q ps) [0..<i]) = firsts (take (i * (length ps div q)) ps)" if "i < q" for i
    using that
  proof (induction i)
    case (Suc i)
    then have "i \<noteq> q - 1" by simp
    then show ?case using chunk_firsts [OF assms(2), of i "(i + 1) * (length ps div q)"] Suc by simp
  qed (simp add: firsts_def)
  from this [of "q - 1"] have "concat (map (firsts \<circ> chunk q ps) [0..<q - 1]) @ firsts (chunk q ps (q - 1)) = firsts ps"
    using chunk_firsts [OF assms(2), of "q - 1"] assms(1) by simp
  moreover have "[0..<q] = [0..<q - 1] @ [q - 1]" using assms(1) by (metis Suc_diff_1 le0 upt_Suc_append)
  ultimately show ?thesis by simp
qed

lemma run_chunks_ok:
  assumes "\<forall>c \<in> set cks. sorted (map fst c) \<and> (\<forall>z \<in> set c. in_rank z)" "0 < eps" "eps \<le> max_y"
  shows "\<exists>cs. run_chunks eps cks = Some (Inr (cs, length cs)) \<and> list_all2 (seg_of eps) cs (concat (map (cuts eps) cks))"
  using assms(1)
proof (induction cks)
  case (Cons c cks)
  from make_segmentation_ok [of c eps] Cons.prems assms(2,3) obtain cs1 where
    "make_segmentation eps c = Some (Inr (cs1, length cs1))" "list_all2 (seg_of eps) cs1 (cuts eps c)" by auto
  with Cons show ?case by (auto simp: list_all2_appendI)
qed simp

text \<open>
  Either way the points with new keys are cut into pieces, and every piece has its segment. Only the
  last pieces of the chunks can be short.
\<close>

definition cuts_par :: "nat \<Rightarrow> int \<Rightarrow> point list \<Rightarrow> point list list" where
  "cuts_par q eps ps = (if q = 1 \<or> length ps < 2 ^ 15 then cuts eps ps else concat (map (cuts eps) (map (chunk q ps) [0..<q])))"

lemma segmentation_concat:
  "\<forall>c \<in> set cks. segmentation P (f c) (g c) \<Longrightarrow> segmentation P (concat (map f cks)) (concat (map g cks))"
  by (induction cks) (auto simp: segmentation_def)

lemma make_segmentation_par_ok:
  assumes "sorted (map fst ps)" "0 < eps" "eps \<le> max_y" "\<forall>z \<in> set ps. in_rank z" "0 < q" "q \<le> 2 ^ 15"
  shows "\<exists>cs. make_segmentation_par q eps ps = Some (Inr (cs, length cs)) \<and> list_all2 (seg_of eps) cs (cuts_par q eps ps)"
    "segmentation (fits eps) (firsts ps) (cuts_par q eps ps)"
proof -
  have r: "\<forall>z \<in> set (chunk q ps i). in_rank z" for i using assms(4) set_chunk by blast
  show "\<exists>cs. make_segmentation_par q eps ps = Some (Inr (cs, length cs)) \<and> list_all2 (seg_of eps) cs (cuts_par q eps ps)"
    using make_segmentation_ok [OF assms(1-4)] run_chunks_ok [of "map (chunk q ps) [0..<q]" eps] sorted_chunk [OF assms(1)] r assms(2,3)
    by (simp add: make_segmentation_par_def cuts_par_def)
  show "segmentation (fits eps) (firsts ps) (cuts_par q eps ps)"
  proof (cases "q = 1 \<or> length ps < 2 ^ 15")
    case True
    then show ?thesis using cuts_segmentation(1) [OF assms(2-4)] by (auto simp: cuts_par_def)
  next
    case False
    then have "0 < length ps div q" using assms(5,6) by (simp add: div_greater_zero_iff)
    then have "concat (map firsts (map (chunk q ps) [0..<q])) = firsts ps" using chunks_firsts [OF assms(5)] by simp
    moreover have "segmentation (fits eps) (concat (map firsts (map (chunk q ps) [0..<q]))) (concat (map (cuts eps) (map (chunk q ps) [0..<q])))"
      using cuts_segmentation(1) [OF assms(2,3) r] by (intro segmentation_concat) auto
    ultimately show ?thesis using False by (simp add: cuts_par_def)
  qed
qed

section \<open>The number of segments\<close>

text \<open>A piece ends only after \<open>2 * eps + 1\<close> ranks: until then a horizontal line fits.\<close>

lemma const_fits:
  assumes "\<forall>z \<in> set q. a \<le> snd z \<and> snd z \<le> a + 2 * eps" "0 < eps" "0 \<le> a" "a + eps \<le> max_y" shows "fits eps q"
proof -
  have "over (0, real_of_int (a + eps)) (lower_pt eps x y)" "beneath (0, real_of_int (a + eps)) (upper_pt eps x y)" if "(x, y) \<in> set q" for x y
    using that assms by (fastforce simp: over_def beneath_def at_x_def lower_pt_def upper_pt_def)+
  then show ?thesis unfolding fits_def uppers_def lowers_def by (intro exI [of _ "(0, real_of_int (a + eps))"]) auto
qed

lemma pieces_gap:
  assumes "cur \<noteq> []" "sorted_wrt (<) (map snd (cur @ xs))" "0 < eps" "\<forall>z \<in> set (cur @ xs). 0 \<le> snd z \<and> snd z + eps \<le> max_y"
  shows "(int (length (greedy_pieces (fits eps) cur xs)) - 1) * (2 * eps + 1) \<le> snd (last (cur @ xs)) - snd (hd cur)"
  using assms
proof (induction xs arbitrary: cur)
  case Nil
  then show ?case by (cases cur) (auto simp: less_imp_le)
next
  case (Cons x xs)
  show ?case
  proof (cases "fits eps (cur @ [x])")
    case True
    then show ?thesis using Cons.IH [of "cur @ [x]"] Cons.prems by simp
  next
    case False
    have "2 * eps + 1 \<le> snd x - snd (hd cur)"
    proof (rule ccontr)
      assume "\<not> 2 * eps + 1 \<le> snd x - snd (hd cur)"
      then have "snd z \<le> snd (hd cur) + 2 * eps" if "z \<in> set (cur @ [x])" for z
        using that Cons.prems(2) by (fastforce simp: sorted_wrt_append)
      moreover have "snd (hd cur) \<le> snd z" if "z \<in> set (cur @ [x])" for z
        using that Cons.prems(1,2) by (cases cur) (auto simp: less_imp_le)
      ultimately have "fits eps (cur @ [x])" using Cons.prems(1,3,4) by (intro const_fits [of _ "snd (hd cur)"]) auto
      with False show False by simp
    qed
    moreover have "(int (length (greedy_pieces (fits eps) [x] xs)) - 1) * (2 * eps + 1) \<le> snd (last (x # xs)) - snd x"
      using Cons.IH [of "[x]"] Cons.prems by (simp add: sorted_wrt_append)
    ultimately show ?thesis using False Cons.prems(3) by (simp add: algebra_simps)
  qed
qed

lemma sorted_new_keys: "sorted_wrt (<) (map snd ps) \<Longrightarrow> sorted_wrt (<) (map snd (new_keys x ps))"
  using set_new_keys by (induction ps arbitrary: x) fastforce+

lemma cuts_count:
  assumes "ps \<noteq> []" "sorted_wrt (<) (map snd ps)" "0 < eps" "\<forall>z \<in> set ps. a \<le> snd z \<and> snd z < b" "0 \<le> a" "b + eps \<le> max_y"
  shows "(int (length (cuts eps ps)) - 1) * (2 * eps + 1) < b - a"
proof -
  obtain p ps' where ps: "ps = p # ps'" using assms(1) by (cases ps) auto
  let ?n = "new_keys (fst p) ps'"
  have n: "set ?n \<subseteq> set ps" using set_new_keys ps by fastforce
  have "sorted_wrt (<) (map snd ([p] @ ?n))" using assms(2) sorted_new_keys [of ps' "fst p"] set_new_keys [of "fst p" ps'] ps by auto
  moreover have "\<forall>z \<in> set ([p] @ ?n). 0 \<le> snd z \<and> snd z + eps \<le> max_y" using assms(4-6) n ps by force
  ultimately have "(int (length (cuts eps ps)) - 1) * (2 * eps + 1) \<le> snd (last ([p] @ ?n)) - snd p"
    using pieces_gap [of "[p]" ?n eps] assms(3) by (simp add: cuts_def ps)
  moreover have "last ([p] @ ?n) \<in> set ps" using n ps last_in_set [of ?n] by (cases ?n) auto
  ultimately show ?thesis using assms(4) ps by fastforce
qed

text \<open>Points with their positions as ranks.\<close>

lemma nth_ranked: "j < length xs \<Longrightarrow> ranked xs i ! j = (xs ! j, i + int j)"
  by (simp add: ranked_def)

lemma length_ranked [simp]: "length (ranked xs i) = length xs"
  by (simp add: ranked_def)

lemma sorted_ranked: "sorted_wrt (<) (map snd (ranked xs i))"
  by (simp add: ranked_def sorted_wrt_map map_snd_zip)

lemma chunk_count:
  assumes "0 < length xs div q" "i < q" "e = (if i = q - 1 then length xs else (i + 1) * (length xs div q))" "0 < eps" "int (length xs) + eps \<le> max_y"
  shows "int (length (cuts eps (chunk q (ranked xs 0) i))) * (2 * eps + 1) \<le> 2 * eps + 1 + int e - int (i * (length xs div q))"
proof -
  let ?s = "length xs div q" and ?c = "chunk q (ranked xs 0) i"
  have "(i + 1) * ?s \<le> q * ?s" using assms(2) by (intro mult_right_mono) simp_all
  also have "\<dots> \<le> length xs" by (rule times_div_less_eq_dividend)
  finally have e: "i * ?s \<le> e" "e \<le> length xs" using assms(2,3) by (auto split: if_splits)
  define c where "c = take (e - i * ?s) (drop (i * ?s) (ranked xs 0))"
  have c: "?c = c \<or> (\<exists>x. ?c = skip_run x c)" using assms(3) by (auto simp: chunk_def c_def Let_def)
  then have "set ?c \<subseteq> set c" using set_skip_run by fastforce
  moreover have "int (i * ?s) \<le> snd z \<and> snd z < int e" if "z \<in> set c" for z
  proof -
    from that obtain t where t: "t < e - i * ?s" "z = ranked xs 0 ! (i * ?s + t)" using e by (auto simp: c_def in_set_conv_nth)
    then have "i * ?s + t < e" by simp
    then have "int (i * ?s) + int t < int e" by (simp only: of_nat_add [symmetric] of_nat_less_iff)
    then show ?thesis using t e nth_ranked [of "i * ?s + t" xs 0] by simp
  qed
  ultimately have r: "\<forall>z \<in> set ?c. int (i * ?s) \<le> snd z \<and> snd z < int e" by blast
  have "sorted_wrt (<) (map snd c)" using sorted_wrt_take [OF sorted_wrt_drop [OF sorted_ranked]] unfolding c_def by (simp only: take_map drop_map)
  moreover have "sorted_wrt (<) (map snd (skip_run x c))" if "sorted_wrt (<) (map snd c)" for x
    using that by (induction c arbitrary: x) auto
  ultimately have "sorted_wrt (<) (map snd ?c)" using c by auto
  moreover have "int i * int ?s \<le> int e" using e(1) by (metis of_nat_le_iff of_nat_mult)
  ultimately show ?thesis
    using cuts_count [of ?c eps "int (i * ?s)" "int e"] r assms(4,5) e(2) by (cases "?c = []") (auto simp: cuts_def algebra_simps)
qed

lemma cuts_par_count:
  assumes "xs \<noteq> []" "0 < eps" "int (length xs) + eps \<le> max_y" "0 < q" "q \<le> 2 ^ 15"
  shows "int (length (cuts_par q eps (ranked xs 0))) * (2 * eps + 1) \<le>
    (if length xs < 2 ^ 15 then 1 else int q) * (2 * eps + 1) + int (length xs)"
proof -
  have r: "\<forall>z \<in> set (ranked xs 0). 0 \<le> snd z \<and> snd z < int (length xs)" using ranked_bounds by fastforce
  have "ranked xs 0 \<noteq> []" using assms(1) by (metis length_0_conv length_ranked)
  then have seq: "int (length (cuts eps (ranked xs 0))) * (2 * eps + 1) \<le> 2 * eps + 1 + int (length xs)"
    using cuts_count [OF _ sorted_ranked assms(2) r] assms(1,3) by (simp add: algebra_simps)
  show ?thesis
  proof (cases "q = 1 \<or> length xs < 2 ^ 15")
    case True
    then show ?thesis using seq by (auto simp: cuts_par_def)
  next
    case False
    let ?s = "length xs div q" and ?f = "\<lambda>i. length (cuts eps (chunk q (ranked xs 0) i))"
    have s: "0 < ?s" using False assms(4,5) by (simp add: div_greater_zero_iff)
    have part: "int (sum_list (map ?f [0..<i])) * (2 * eps + 1) \<le> int i * (2 * eps + 1) + int (i * ?s)" if "i < q" for i
      using that
    proof (induction i)
      case (Suc i)
      then have "i \<noteq> q - 1" by simp
      then show ?case using chunk_count [OF s, of i "(i + 1) * ?s" eps] Suc assms(2,3) by (simp add: algebra_simps)
    qed simp
    have "int (sum_list (map ?f [0..<q - 1])) * (2 * eps + 1) + int (?f (q - 1)) * (2 * eps + 1) \<le> int q * (2 * eps + 1) + int (length xs)"
      using part [of "q - 1"] chunk_count [OF s, of "q - 1" "length xs" eps] assms(2-4) by (simp add: algebra_simps of_nat_diff)
    moreover have "[0..<q] = [0..<q - 1] @ [q - 1]" using assms(4) by (metis Suc_diff_1 le0 upt_Suc_append)
    ultimately show ?thesis using False by (simp add: cuts_par_def length_concat o_def algebra_simps)
  qed
qed

section \<open>Main theorem\<close>



end
