(* ===== verification/PgmStatic.thy ===== *)
theory PgmStatic
  imports PgmSegments "HOL-Library.Signed_Division"
begin

text \<open>
  The static PGM index, \<open>pgm_index.hpp\<close>: the construction of its levels of segments and the search
  for the window in which a key must be. The positions that a segment predicts are products of a
  floating-point slope; here a slope is the pair of its numerator and denominator, and the product with
  a distance, cut to an integer, is the parameter \<open>mul\<close>. Conversions to integers that do
  not fit, and accesses outside of a vector, are \<open>None\<close>. The search in a level is the linear one, which
  the template arguments of the dynamic index select.
\<close>

section \<open>Operations\<close>

datatype pgm_error = Model_error logic_error | Overflow_error

record Segment =
  seg_key :: int
  seg_slope :: slope
  seg_intercept :: int

definition max_key :: int where
  "max_key = 2 ^ 64 - 1"

definition one_point :: "CanonicalSegment \<Rightarrow> bool" where
  "one_point cs \<longleftrightarrow> rectangle0 cs = rectangle2 cs \<and> rectangle1 cs = rectangle3 cs"

definition get_floating_point_segment :: "CanonicalSegment \<Rightarrow> int \<Rightarrow> slope \<times> int" where
  "get_floating_point_segment cs origin =
     (if one_point cs then ((1, 0), ((snd (rectangle0 cs) + snd (rectangle1 cs)) mod 2 ^ 64) div 2)
      else let slope = diff_pt (rectangle3 cs) (rectangle1 cs);
               intercept_n = snd slope * (origin - fst (rectangle1 cs));
               intercept_d = fst slope;
               rounding_term = ((if (intercept_n < 0) \<noteq> (intercept_d < 0) then - 1 else 1) * intercept_d) sdiv 2;
               intercept = (intercept_n + rounding_term) sdiv intercept_d + snd (rectangle1 cs)
           in (slope, intercept))"

definition Segment_of :: "CanonicalSegment \<Rightarrow> pgm_error + Segment" where
  "Segment_of cs =
     (let (cs_slope, cs_intercept) = get_floating_point_segment cs (seg_first cs) in
      if cs_intercept > 2 ^ 31 - 1 then Inl Overflow_error
      else Inr \<lparr>seg_key = seg_first cs, seg_slope = cs_slope, seg_intercept = cs_intercept\<rparr>)"

definition sentinel_segment :: "nat \<Rightarrow> Segment" where
  "sentinel_segment n = \<lparr>seg_key = max_key, seg_slope = (1, 0), seg_intercept = signed_take_bit 31 (int n)\<rparr>"

text \<open>\<open>Segment::operator()\<close>: the distance is unsigned, the product must fit into 64 bits.\<close>

definition seg_apply :: "(slope \<Rightarrow> int \<Rightarrow> int) \<Rightarrow> Segment \<Rightarrow> int \<Rightarrow> int option" where
  "seg_apply mul s k =
     (let prod = mul (seg_slope s) ((k - seg_key s) mod 2 ^ 64); pos = prod + seg_intercept s in
      if prod < - (2 ^ 63) \<or> 2 ^ 63 \<le> prod \<or> 2 ^ 63 \<le> pos then None else Some (if pos > 0 then pos else 0))"

fun segments_of :: "CanonicalSegment list \<Rightarrow> pgm_error + Segment list" where
  "segments_of [] = Inr []"
| "segments_of (c # cs) =
     (case Segment_of c of Inl e \<Rightarrow> Inl e
      | Inr s \<Rightarrow> (case segments_of cs of Inl e \<Rightarrow> Inl e | Inr ss \<Rightarrow> Inr (s # ss)))"

text \<open>\<open>build_level\<close>: \<open>last_key\<close> is the last key of the data, for every level.\<close>

definition build_level :: "nat \<Rightarrow> int \<Rightarrow> int \<Rightarrow> nat \<Rightarrow> point list \<Rightarrow> Segment list \<Rightarrow> (pgm_error + Segment list \<times> nat) option" where
  "build_level q eps last_key last_n ps segments =
     do { r \<leftarrow> make_segmentation_par q eps ps;
          case r of
            Inl e \<Rightarrow> Some (Inl (Model_error e))
          | Inr (cs, n_segments) \<Rightarrow>
              (case segments_of cs of
                 Inl e \<Rightarrow> Some (Inl e)
               | Inr ss \<Rightarrow>
                   let segs = segments @ ss in
                   if segs = [] then None
                   else if snd (seg_slope (last segs)) = 0 \<and> last_n > 1
                   then Some (Inr (segs @ [\<lparr>seg_key = (last_key + 1) mod 2 ^ 64, seg_slope = (1, 0), seg_intercept = signed_take_bit 31 (int last_n)\<rparr>,
                                           sentinel_segment last_n], n_segments + 1))
                   else Some (Inr (segs @ [sentinel_segment last_n], n_segments))) }"

text \<open>The loop that builds the upper levels.\<close>

partial_function (option) build_up ::
  "nat \<Rightarrow> int \<Rightarrow> int \<Rightarrow> Segment list \<Rightarrow> nat list \<Rightarrow> nat \<Rightarrow> (pgm_error + Segment list \<times> nat list) option" where
  "build_up q epsr last_key segments offsets last_n =
     (if epsr \<noteq> 0 \<and> last_n > 1 then
        do { offset \<leftarrow> rd offsets (length offsets - 2);
             _ \<leftarrow> (if offset + last_n \<le> length segments then Some () else None);
             r \<leftarrow> build_level q epsr last_key last_n (ranked (map seg_key (take last_n (drop offset segments))) 0) segments;
             case r of
               Inl e \<Rightarrow> Some (Inl e)
             | Inr (segments', n') \<Rightarrow> build_up q epsr last_key segments' (offsets @ [last offsets + n' + 1]) n' }
      else Some (Inr (segments, offsets)))"

declare build_up.simps [code]

record PGMIndex =
  pgm_n :: nat
  first_key :: int
  segments :: "Segment list"
  levels_offsets :: "nat list"

text \<open>The values of \<open>in_fun\<close>: behind a run of equal keys the last of them is moved by one.\<close>

definition in_fun :: "int list \<Rightarrow> nat \<Rightarrow> point" where
  "in_fun ks i =
     (let x = ks ! i;
          flag = (i > 0 \<and> i + 1 < length ks \<and> x = ks ! (i - 1) \<and> x \<noteq> ks ! (i + 1) \<and> (x + 1) mod 2 ^ 64 \<noteq> ks ! (i + 1))
      in ((x + (if flag then 1 else 0)) mod 2 ^ 64, int i))"

definition pgm_build :: "nat \<Rightarrow> int \<Rightarrow> int \<Rightarrow> int list \<Rightarrow> (pgm_error + PGMIndex) option" where
  "pgm_build q eps epsr ks =
     (if ks = [] then Some (Inr \<lparr>pgm_n = 0, first_key = 0, segments = [], levels_offsets = []\<rparr>)
      else
        let last_n = (if last ks = max_key then length ks - 1 else length ks) in
        if last_n = 0 then None
        else
          do { r \<leftarrow> build_level q eps (ks ! (last_n - 1)) last_n (map (in_fun ks) [0..<last_n]) [];
               case r of
                 Inl e \<Rightarrow> Some (Inl e)
               | Inr (segs, n') \<Rightarrow>
                   do { r' \<leftarrow> build_up q epsr (ks ! (last_n - 1)) segs [0, n' + 1] n';
                        case r' of
                          Inl e \<Rightarrow> Some (Inl e)
                        | Inr (segs', offs) \<Rightarrow> Some (Inr \<lparr>pgm_n = length ks, first_key = hd ks, segments = segs', levels_offsets = offs\<rparr>) } })"

text \<open>The two macros and the position a segment predicts, limited by the segment behind it.\<close>

definition PGM_SUB_EPS :: "int \<Rightarrow> int \<Rightarrow> int" where
  "PGM_SUB_EPS x eps = (if x \<le> eps then 0 else x - eps)"

definition PGM_ADD_EPS :: "int \<Rightarrow> int \<Rightarrow> int \<Rightarrow> int" where
  "PGM_ADD_EPS x eps n = (if x + eps + 2 \<ge> n then n else x + eps + 2)"

definition predict :: "(slope \<Rightarrow> int \<Rightarrow> int) \<Rightarrow> Segment list \<Rightarrow> nat \<Rightarrow> int \<Rightarrow> int option" where
  "predict mul segs it k =
     do { s \<leftarrow> rd segs it; s' \<leftarrow> rd segs (it + 1); p \<leftarrow> seg_apply mul s k; Some (min p (seg_intercept s' mod 2 ^ 64)) }"

function scan_forward :: "Segment list \<Rightarrow> nat \<Rightarrow> int \<Rightarrow> nat option" where
  "scan_forward segs lo k =
     (if lo + 1 < length segs then if seg_key (segs ! (lo + 1)) \<le> k then scan_forward segs (lo + 1) k else Some lo else None)"
  by auto
termination by (relation "measure (\<lambda>(segs, lo, k). length segs - lo)") auto

declare scan_forward.simps [simp del]

fun descend_levels :: "(slope \<Rightarrow> int \<Rightarrow> int) \<Rightarrow> int \<Rightarrow> Segment list \<Rightarrow> nat list \<Rightarrow> nat \<Rightarrow> nat \<Rightarrow> int \<Rightarrow> nat option" where
  "descend_levels mul epsr segs offs 0 it k = Some it"
| "descend_levels mul epsr segs offs (Suc l) it k =
     do { level_begin \<leftarrow> rd offs l;
          pos \<leftarrow> predict mul segs it k;
          it' \<leftarrow> scan_forward segs (level_begin + nat (PGM_SUB_EPS pos (epsr + 1))) k;
          descend_levels mul epsr segs offs l it' k }"

definition segment_for_key :: "(slope \<Rightarrow> int \<Rightarrow> int) \<Rightarrow> int \<Rightarrow> PGMIndex \<Rightarrow> int \<Rightarrow> nat option" where
  "segment_for_key mul epsr ix k =
     do { it \<leftarrow> (if 2 \<le> length (levels_offsets ix) then rd (levels_offsets ix) (length (levels_offsets ix) - 2) else None);
          descend_levels mul epsr (segments ix) (levels_offsets ix) (length (levels_offsets ix) - 2) it k }"

definition pgm_search_ix :: "(slope \<Rightarrow> int \<Rightarrow> int) \<Rightarrow> int \<Rightarrow> int \<Rightarrow> PGMIndex \<Rightarrow> int \<Rightarrow> (int \<times> int) option" where
  "pgm_search_ix mul eps epsr ix key =
     (let k = max (first_key ix) key in
      do { it \<leftarrow> segment_for_key mul epsr ix k;
           pos \<leftarrow> predict mul (segments ix) it k;
           Some (PGM_SUB_EPS pos eps, PGM_ADD_EPS pos eps (int (pgm_n ix))) })"

text \<open>What the search relies on: the product is not rounded beyond the integer below it.\<close>

definition mul_exact :: "(slope \<Rightarrow> int \<Rightarrow> int) \<Rightarrow> bool" where
  "mul_exact mul \<longleftrightarrow> (\<forall>dx dy d. 0 < dx \<longrightarrow> 0 \<le> dy \<longrightarrow> 0 \<le> d \<longrightarrow> mul (dx, dy) d = dy * d div dx)"

section \<open>The positions that a segment predicts\<close>

text \<open>The value of a segment without limits of machine integers.\<close>

definition seg_val :: "Segment \<Rightarrow> int \<Rightarrow> int" where
  "seg_val s k = snd (seg_slope s) * (k - seg_key s) div fst (seg_slope s) + seg_intercept s"

lemma seg_val_key [simp]: "seg_val s (seg_key s) = seg_intercept s"
  by (simp add: seg_val_def)

lemma seg_val_mono: "0 < fst (seg_slope s) \<Longrightarrow> 0 \<le> snd (seg_slope s) \<Longrightarrow> k \<le> k' \<Longrightarrow> seg_val s k \<le> seg_val s k'"
  by (simp add: seg_val_def zdiv_mono1 mult_left_mono)

text \<open>The rounded intercept: \<open>N / d\<close> is how far the line is lower at the key than at the corner.\<close>

lemma rounded_intercept:
  assumes "0 \<le> (N::int)" "0 < d"
  shows "(- N + ((if (- N < 0) \<noteq> (d < 0) then - 1 else 1) * d) sdiv 2) sdiv d = - ((N + d div 2) div d)"
proof (cases "N = 0")
  case True
  then show ?thesis using assms(2) by (simp add: signed_divide_int_def sgn_if)
next
  case False
  then have "0 < N" "0 \<le> N + d div 2" using assms by simp_all
  then show ?thesis using assms(2) by (simp add: signed_divide_int_def sgn_if add.commute)
qed

lemma rounded_div: "0 < (d::int) \<Longrightarrow> N div d \<le> (N + d div 2) div d \<and> (N + d div 2) div d \<le> N div d + 1"
proof
  assume d: "0 < d"
  then show "N div d \<le> (N + d div 2) div d" by (simp add: zdiv_mono1)
  have "(N + d div 2) div d \<le> (N + 1 * d) div d" using d by (intro zdiv_mono1) simp_all
  then show "(N + d div 2) div d \<le> N div d + 1" using d by simp
qed

text \<open>The line through the corners in integers.\<close>

lemma corner_line:
  assumes "fst p < fst q"
  shows "over (through p q) z \<longleftrightarrow> (snd z - snd p) * (fst q - fst p) \<le> (snd q - snd p) * (fst z - fst p)"
    "beneath (through p q) z \<longleftrightarrow> (snd q - snd p) * (fst z - fst p) \<le> (snd z - snd p) * (fst q - fst p)"
  unfolding over_def beneath_def not_less [symmetric] line_less [OF assms] of_int_rel of_int_mult of_int_diff by simp_all

lemma line_value:
  fixes A N T d :: int assumes "0 < d"
  shows "A - N \<le> T * d \<Longrightarrow> A div d - (N + d div 2) div d \<le> T" "T * d \<le> A - N \<Longrightarrow> T - 1 \<le> A div d - (N + d div 2) div d"
proof -
  show "A div d - (N + d div 2) div d \<le> T" if "A - N \<le> T * d"
  proof -
    have "A div d \<le> (N + T * d) div d" using that assms by (intro zdiv_mono1) simp_all
    then show ?thesis using rounded_div [OF assms, of N] assms by simp
  qed
  show "T - 1 \<le> A div d - (N + d div 2) div d" if "T * d \<le> A - N"
  proof -
    have "(N + T * d) div d \<le> A div d" using that assms by (intro zdiv_mono1) simp_all
    then show ?thesis using rounded_div [OF assms, of N] assms by simp
  qed
qed

text \<open>A segment predicts the rank of its points with an error of at most \<open>eps\<close>, or \<open>eps + 1\<close> from below.\<close>

definition seg_near :: "int \<Rightarrow> Segment \<Rightarrow> point list \<Rightarrow> bool" where
  "seg_near eps s q \<longleftrightarrow> q \<noteq> [] \<and> seg_key s = fst (hd q) \<and> 0 < fst (seg_slope s) \<and> 0 \<le> snd (seg_slope s) \<and>
     (snd (seg_slope s) = 0 \<longrightarrow> length q = 1) \<and> (\<exists>z \<in> set q. snd (seg_slope s) \<le> snd z + eps) \<and> 0 \<le> seg_intercept s \<and>
     (\<forall>z \<in> set q. snd z - eps - 1 \<le> seg_val s (fst z) \<and> seg_val s (fst z) \<le> snd z + eps)"

lemma mem_bounds: "z \<in> set q \<Longrightarrow> upper_pt eps (fst z) (snd z) \<in> uppers eps q" "z \<in> set q \<Longrightarrow> lower_pt eps (fst z) (snd z) \<in> lowers eps q"
  by (auto simp: uppers_def lowers_def intro!: image_eqI [of _ _ z] split: prod.split)

lemma one_point_segment:
  assumes "seg_of eps cs [(x, y)]" "0 < eps" "0 \<le> y" "y + eps < 2 ^ 31"
  shows "\<exists>s. Segment_of cs = Inr s \<and> seg_near eps s [(x, y)] \<and> snd (seg_slope s) = 0"
proof -
  have c: "rectangle0 cs = upper_pt eps x y" "rectangle1 cs = lower_pt eps x y" "one_point cs" "seg_first cs = x"
    using assms(1) by (auto simp: seg_of_def one_point_def)
  have u: "snd (upper_pt eps x y) = y + eps" "snd (lower_pt eps x y) = (if y \<le> eps then 0 else y - eps)"
    using assms(4) by (auto simp: upper_pt_def lower_pt_def max_y_def)
  have "(y + eps + snd (lower_pt eps x y)) mod 2 ^ 64 = y + eps + snd (lower_pt eps x y)" using assms(2-4) u(2) by auto
  then show ?thesis using c u assms(2-4)
    by (auto simp: Segment_of_def get_floating_point_segment_def Let_def seg_near_def seg_val_def)
qed

lemma many_point_segment:
  assumes "seg_of eps cs q" "length q \<noteq> 1" "0 < eps" "\<forall>z \<in> set q. 0 \<le> snd z \<and> snd z + eps < 2 ^ 31" "sorted_wrt (<) (map snd q)"
  shows "\<exists>s. Segment_of cs = Inr s \<and> seg_near eps s q"
proof -
  define p r where "p = rectangle1 cs" and "r = rectangle3 cs"
  have h: "q \<noteq> []" "seg_first cs = fst (hd q)" "p \<in> lowers eps q" "r \<in> uppers eps q" "fst p < fst r" "sorted_wrt (<) (map fst q)"
    "\<forall>u \<in> uppers eps q. beneath (through p r) u" "\<forall>z \<in> lowers eps q. over (through p r) z" "\<not> one_point cs"
    using assms(1,2) by (auto simp: seg_of_def one_point_def p_def r_def)
  obtain zp zr where z: "zp \<in> set q" "p = lower_pt eps (fst zp) (snd zp)" "zr \<in> set q" "r = upper_pt eps (fst zr) (snd zr)"
    using h(3,4) by (auto simp: uppers_def lowers_def)
  have pts: "upper_pt eps (fst z) (snd z) = (fst z, snd z + eps)" "snd (lower_pt eps (fst z) (snd z)) = max 0 (snd z - eps)" if "z \<in> set q" for z
    using bspec [OF assms(4) that] assms(3) by (auto simp: upper_pt_def lower_pt_def max_y_def)
  have "snd zp < snd zr"
  proof -
    obtain a b where ab: "a < length q" "b < length q" "zp = q ! a" "zr = q ! b" using z(1,3) by (metis in_set_conv_nth)
    have "fst (q ! a) < fst (q ! b)" using h(5) z(2,4) ab by simp
    then have "a < b" using h(6) ab(1,2) by (metis length_map linorder_neqE_nat nth_map order.asym sorted_wrt_nth_less)
    then show ?thesis using assms(5) ab by (metis length_map nth_map sorted_wrt_nth_less)
  qed
  define d D N where "d = fst r - fst p" and "D = snd r - snd p" and "N = D * (fst p - fst (hd q))"
  have key: "fst (hd q) \<le> fst z" if "z \<in> set q" for z using that h(1,6) by (cases q) auto
  have d: "0 < d" "0 < D" using h(5) \<open>snd zp < snd zr\<close> z pts [OF z(1)] pts [OF z(3)] assms(3,4) by (auto simp: d_def D_def)
  have N: "0 \<le> N" using d(2) key [OF z(1)] z(2) by (simp add: N_def)
  define s where "s = \<lparr>seg_key = fst (hd q), seg_slope = (d, D), seg_intercept = snd p - (N + d div 2) div d\<rparr>"
  have f: "get_floating_point_segment cs (seg_first cs) = ((d, D), snd p - (N + d div 2) div d)"
  proof -
    have "D * (fst (hd q) - fst p) = - N" by (simp add: N_def algebra_simps)
    then show ?thesis using rounded_intercept [OF N d(1)] h(2,9)
      by (simp add: get_floating_point_segment_def Let_def diff_pt_def p_def [symmetric] r_def [symmetric] d_def [symmetric] D_def [symmetric])
  qed
  have val: "seg_val s (fst z) = snd p + (D * (fst z - fst (hd q)) div d - (N + d div 2) div d)" for z
    by (simp add: seg_val_def s_def)
  have A: "D * (fst z - fst (hd q)) - N = D * (fst z - fst p)" for z by (simp add: N_def algebra_simps)
  have up: "seg_val s (fst z) \<le> snd z + eps" if "z \<in> set q" for z
  proof -
    have "(fst z, snd z + eps) \<in> uppers eps q" using mem_bounds(1) [OF that, of eps] pts(1) [OF that] by simp
    then have "D * (fst z - fst p) \<le> (snd z + eps - snd p) * d" using h(7) corner_line(2) [OF h(5)] by (fastforce simp: d_def D_def)
    then show ?thesis using line_value(1) [OF d(1), of "D * (fst z - fst (hd q))" N "snd z + eps - snd p"] A [of z] val [of z] by simp
  qed
  have line: "(max 0 (snd z - eps) - snd p) * d \<le> D * (fst z - fst p)" if "z \<in> set q" for z
  proof -
    have "lower_pt eps (fst z) (snd z) \<in> lowers eps q" using mem_bounds(2) [OF that] .
    then show ?thesis using h(8) corner_line(1) [OF h(5)] pts(2) [OF that] by (fastforce simp: d_def D_def)
  qed
  have low: "snd z - eps - 1 \<le> seg_val s (fst z)" if "z \<in> set q" for z
    using line_value(2) [OF d(1), of "max 0 (snd z - eps) - snd p" "D * (fst z - fst (hd q))" N] line [OF that] A [of z] val [of z] by simp
  have hd: "hd q \<in> set q" using h(1) by simp
  have "- (snd p * d) \<le> (max 0 (snd (hd q) - eps) - snd p) * d" using d(1) by (simp add: algebra_simps)
  also have "\<dots> \<le> - N" using line [OF hd] A [of "hd q"] by simp
  finally have "(N + d div 2) div d \<le> (d div 2 + snd p * d) div d" using d(1) by (intro zdiv_mono1) simp_all
  then have i: "0 \<le> seg_intercept s" using d(1) by (simp add: s_def div_pos_pos_trivial)
  have "seg_val s (fst (hd q)) = seg_intercept s" by (simp add: seg_val_def s_def)
  then have "seg_intercept s < 2 ^ 31" using up [OF hd] bspec [OF assms(4) hd] by simp
  then have "Segment_of cs = Inr s" using f h(2) by (simp add: Segment_of_def s_def)
  moreover have "D \<le> snd zr + eps" using pts(1) [OF z(3)] pts(2) [OF z(1)] z(2,4) by (simp add: D_def)
  ultimately show ?thesis using h(1) d i low up z(3) by (auto simp: seg_near_def s_def)
qed

lemma segment_ok:
  assumes "seg_of eps cs q" "0 < eps" "\<forall>z \<in> set q. 0 \<le> snd z \<and> snd z + eps < 2 ^ 31" "sorted_wrt (<) (map snd q)"
  shows "\<exists>s. Segment_of cs = Inr s \<and> seg_near eps s q"
proof (cases "length q = 1")
  case True
  then obtain x y where "q = [(x, y)]" by (cases q) auto
  then show ?thesis using one_point_segment [of eps cs x y] assms(1-3) by auto
qed (use many_point_segment assms in blast)

lemma segments_of_ok:
  assumes "list_all2 (seg_of eps) cs qs" "0 < eps" "\<forall>q \<in> set qs. (\<forall>z \<in> set q. 0 \<le> snd z \<and> snd z + eps < 2 ^ 31) \<and> sorted_wrt (<) (map snd q)"
  shows "\<exists>ss. segments_of cs = Inr ss \<and> list_all2 (seg_near eps) ss qs"
  using assms(1,3)
proof (induction rule: list_all2_induct)
  case (Cons c cs q qs)
  from segment_ok [OF Cons.hyps(1) assms(2)] Cons.prems obtain s where "Segment_of c = Inr s" "seg_near eps s q" by auto
  then show ?case using Cons by auto
qed simp

section \<open>Levels\<close>

text \<open>The points behind a level: those whose key is new, at their positions.\<close>

lemma new_keys_mem:
  "t < length xs \<Longrightarrow> (t = 0 \<Longrightarrow> xs ! 0 \<noteq> x) \<Longrightarrow> (0 < t \<Longrightarrow> xs ! (t - 1) \<noteq> xs ! t) \<Longrightarrow> (xs ! t, i + int t) \<in> set (new_keys x (ranked xs i))"
proof (induction xs arbitrary: x i t)
  case (Cons y ys)
  show ?case
  proof (cases t)
    case (Suc t')
    have "t' = 0 \<Longrightarrow> ys ! 0 \<noteq> y" using Cons.prems(3) Suc by simp
    moreover have "0 < t' \<Longrightarrow> ys ! (t' - 1) \<noteq> ys ! t'" using Cons.prems(3) Suc by (cases t') auto
    ultimately show ?thesis using Cons.IH [of t' y "i + 1"] Cons.prems(1) Suc by (auto simp: algebra_simps)
  qed (use Cons.prems in auto)
qed simp

lemma firsts_mem: "t < length xs \<Longrightarrow> (0 < t \<Longrightarrow> xs ! (t - 1) \<noteq> xs ! t) \<Longrightarrow> (xs ! t, int t) \<in> set (firsts (ranked xs 0))"
proof (cases xs)
  case (Cons y ys)
  assume a: "t < length xs" "0 < t \<Longrightarrow> xs ! (t - 1) \<noteq> xs ! t"
  show ?thesis
  proof (cases t)
    case (Suc t')
    have "t' = 0 \<Longrightarrow> ys ! 0 \<noteq> y" using a(2) Suc Cons by simp
    moreover have "0 < t' \<Longrightarrow> ys ! (t' - 1) \<noteq> ys ! t'" using a(2) Suc Cons by (cases t') auto
    ultimately show ?thesis using new_keys_mem [of t' ys y 1] a(1) Suc Cons by (auto simp: firsts_def algebra_simps)
  qed (simp add: Cons firsts_def)
qed simp

lemma firsts_ranked: "z \<in> set (firsts (ranked xs 0)) \<Longrightarrow> \<exists>t < length xs. z = (xs ! t, int t)"
  using set_firsts [of "ranked xs 0"] nth_ranked [of _ xs 0] by (metis add_0 in_set_conv_nth length_ranked subsetD)

lemma sorted_firsts: "sorted_wrt (<) (map snd ps) \<Longrightarrow> sorted_wrt (<) (map snd (firsts ps))"
  using sorted_new_keys set_new_keys by (cases ps) (fastforce simp: firsts_def)+

lemma concat_order:
  "sorted_wrt R (concat qs) \<Longrightarrow> a < b \<Longrightarrow> b < length qs \<Longrightarrow> y \<in> set (qs ! a) \<Longrightarrow> z \<in> set (qs ! b) \<Longrightarrow> R y z"
proof (induction qs arbitrary: a b)
  case (Cons q qs)
  then show ?case by (cases a; cases b) (auto simp: sorted_wrt_append dest: nth_mem)
qed simp

lemma concat_piece:
  assumes "sorted_wrt (\<lambda>y z. f y < (f z :: int)) (concat qs)" "z \<in> set (concat qs)" "i < length qs" "\<forall>q \<in> set qs. q \<noteq> []" "f (hd (qs ! i)) \<le> f z"
    "i + 1 < length qs \<Longrightarrow> f z < f (hd (qs ! (i + 1)))"
  shows "z \<in> set (qs ! i)"
proof -
  obtain a where a: "a < length qs" "z \<in> set (qs ! a)" using assms(2) by (metis UN_iff in_set_conv_nth set_concat)
  have hd: "hd (qs ! b) \<in> set (qs ! b)" if "b < length qs" for b using that assms(4) by simp
  have "\<not> a < i" using concat_order [OF assms(1) _ assms(3) a(2) hd [OF assms(3)]] assms(5) by force
  moreover have "\<not> i < a"
  proof
    assume ia: "i < a"
    then have n: "i + 1 < length qs" using a(1) by simp
    show False
    proof (cases "i + 1 = a")
      case True
      have "f (hd (qs ! a)) \<le> f z"
      proof (cases "z = hd (qs ! a)")
        case False
        have "sorted_wrt (\<lambda>y z. f y < f z) (qs ! a)" using assms(1) a(1) by (induction qs arbitrary: a) (auto simp: sorted_wrt_append nth_Cons split: nat.split)
        then show ?thesis using False a(2) by (cases "qs ! a") auto
      qed simp
      then show False using assms(6) [OF n] True by simp
    next
      case False
      then have "f (hd (qs ! (i + 1))) < f z" using concat_order [OF assms(1) _ a(1) hd [OF n] a(2)] ia by simp
      then show False using assms(6) [OF n] by simp
    qed
  qed
  ultimately show ?thesis using a by (metis linorder_neqE_nat)
qed

text \<open>
  A level on the keys \<open>xs\<close>: the segments of the pieces, the segment for the keys behind the last one, which is
  there only if the last piece is a single point, and the sentinel.
\<close>

definition extra_segment :: "int \<Rightarrow> nat \<Rightarrow> Segment" where
  "extra_segment last_key n = \<lparr>seg_key = last_key + 1, seg_slope = (1, 0), seg_intercept = int n\<rparr>"

definition level_ok :: "int \<Rightarrow> int \<Rightarrow> int list \<Rightarrow> Segment list \<Rightarrow> bool" where
  "level_ok eps last_key xs l \<longleftrightarrow>
     (\<exists>ss qs ex. l = ss @ ex @ [sentinel_segment (length xs)] \<and> ss \<noteq> [] \<and> list_all2 (seg_near eps) ss qs \<and>
        concat qs = firsts (ranked xs 0) \<and> (ex = [] \<or> ex = [extra_segment last_key (length xs)] \<and> length (last qs) = 1 \<and> 1 < length xs))"

definition responsible :: "Segment list \<Rightarrow> nat \<Rightarrow> int \<Rightarrow> bool" where
  "responsible l i k \<longleftrightarrow> i + 1 < length l \<and> seg_key (l ! i) \<le> k \<and> k < seg_key (l ! (i + 1))"

definition prediction :: "Segment list \<Rightarrow> nat \<Rightarrow> int \<Rightarrow> int" where
  "prediction l i k = min (max 0 (seg_val (l ! i) k)) (seg_intercept (l ! (i + 1)))"

definition is_pred :: "int list \<Rightarrow> nat \<Rightarrow> int \<Rightarrow> bool" where
  "is_pred xs j k \<longleftrightarrow> j < length xs \<and> xs ! j \<le> k \<and> (\<forall>t. j < t \<and> t < length xs \<longrightarrow> k < xs ! t)"

lemma sentinel_simps [simp]:
  "seg_key (sentinel_segment n) = max_key" "seg_slope (sentinel_segment n) = (1, 0)"
  "int n < 2 ^ 31 \<Longrightarrow> seg_intercept (sentinel_segment n) = int n"
  by (simp_all add: sentinel_segment_def signed_take_bit_int_eq_self)

text \<open>
  What a level says around a real segment: its key is the key at position \<open>a\<close>, the segment behind it, or
  the end, stands for position \<open>b\<close>, and in between it predicts the positions of new keys.
\<close>

definition piece_at :: "int \<Rightarrow> int list \<Rightarrow> Segment \<Rightarrow> int \<Rightarrow> int \<Rightarrow> nat \<Rightarrow> nat \<Rightarrow> bool" where
  "piece_at eps xs s nkey nint a b \<longleftrightarrow>
     a < length xs \<and> seg_key s = xs ! a \<and> b \<le> length xs \<and> (b < length xs \<longrightarrow> nkey = xs ! b) \<and>
     int b - eps - 1 \<le> nint \<and> nint \<le> int b + eps \<and> 0 < fst (seg_slope s) \<and> 0 \<le> snd (seg_slope s) \<and>
     (\<forall>t. a \<le> t \<and> t < b \<and> (0 < t \<longrightarrow> xs ! (t - 1) \<noteq> xs ! t) \<longrightarrow>
        int t - eps - 1 \<le> seg_val s (xs ! t) \<and> seg_val s (xs ! t) \<le> int t + eps)"

lemma level_piece:
  assumes "list_all2 (seg_near eps) ss qs" "concat qs = firsts (ranked xs 0)" "i < length ss" "0 < eps"
    "i + 1 < length ss \<Longrightarrow> s' = ss ! (i + 1)" "i + 1 = length ss \<Longrightarrow> seg_intercept s' = int (length xs)"
  shows "\<exists>a b. piece_at eps xs (ss ! i) (seg_key s') (seg_intercept s') a b"
proof -
  let ?m = "length xs"
  have near: "seg_near eps (ss ! t) (qs ! t)" if "t < length ss" for t using that assms(1) by (simp add: list_all2_nthD)
  have len: "length qs = length ss" using assms(1) by (simp add: list_all2_lengthD)
  have start: "\<exists>a < ?m. hd (qs ! t) = (xs ! a, int a) \<and> seg_key (ss ! t) = xs ! a" if "t < length ss" for t
  proof -
    have "hd (qs ! t) \<in> set (concat qs)" using near [OF that] that len by (auto simp: seg_near_def intro!: bexI [of _ "qs ! t"])
    then show ?thesis using firsts_ranked near [OF that] unfolding assms(2) by (fastforce simp: seg_near_def)
  qed
  obtain a where a: "a < ?m" "hd (qs ! i) = (xs ! a, int a)" "seg_key (ss ! i) = xs ! a" using start [OF assms(3)] by blast
  have "\<exists>b \<le> ?m. (b < ?m \<longrightarrow> seg_key s' = xs ! b) \<and> int b - eps - 1 \<le> seg_intercept s' \<and> seg_intercept s' \<le> int b + eps \<and>
    (i + 1 < length qs \<longrightarrow> snd (hd (qs ! (i + 1))) = int b)"
  proof (cases "i + 1 < length ss")
    case True
    then obtain b where b: "b < ?m" "hd (qs ! (i + 1)) = (xs ! b, int b)" "seg_key (ss ! (i + 1)) = xs ! b" using start by blast
    have "hd (qs ! (i + 1)) \<in> set (qs ! (i + 1))" using near [OF True] by (simp add: seg_near_def)
    then have "int b - eps - 1 \<le> seg_val (ss ! (i + 1)) (xs ! b)" "seg_val (ss ! (i + 1)) (xs ! b) \<le> int b + eps"
      using near [OF True] b(2) unfolding seg_near_def by force+
    then show ?thesis using b assms(5) [OF True] by (intro exI [of _ b]) (metis less_imp_le seg_val_key snd_conv)
  next
    case False
    then show ?thesis using assms(3,4,6) len by (intro exI [of _ ?m]) simp
  qed
  then obtain b where b: "b \<le> ?m" "b < ?m \<Longrightarrow> seg_key s' = xs ! b" "int b - eps - 1 \<le> seg_intercept s'" "seg_intercept s' \<le> int b + eps"
    "i + 1 < length qs \<Longrightarrow> snd (hd (qs ! (i + 1))) = int b" by blast
  have "int t - eps - 1 \<le> seg_val (ss ! i) (xs ! t) \<and> seg_val (ss ! i) (xs ! t) \<le> int t + eps"
    if "a \<le> t" "t < b" "0 < t \<Longrightarrow> xs ! (t - 1) \<noteq> xs ! t" for t
  proof -
    have z: "(xs ! t, int t) \<in> set (concat qs)" using firsts_mem [of t xs] that b(1) unfolding assms(2) by simp
    have "sorted_wrt (\<lambda>y z. snd y < snd z) (concat qs)" using sorted_firsts [OF sorted_ranked, of xs 0] unfolding assms(2) sorted_wrt_map .
    moreover have "\<forall>q \<in> set qs. q \<noteq> []" using near len by (metis in_set_conv_nth seg_near_def)
    ultimately have "(xs ! t, int t) \<in> set (qs ! i)"
      using concat_piece [of snd qs "(xs ! t, int t)" i] z assms(3) len a(2) that(1,2) b(5) by simp
    then show ?thesis using near [OF assms(3)] unfolding seg_near_def by force
  qed
  then have "piece_at eps xs (ss ! i) (seg_key s') (seg_intercept s') a b"
    using a(1,3) b near [OF assms(3)] unfolding piece_at_def seg_near_def by blast
  then show ?thesis by blast
qed

lemma piece_query:
  assumes "piece_at eps xs s nkey nint a b" "sorted xs" "0 < eps" "seg_key s \<le> k" "k < nkey" "is_pred xs j k"
    "p = min (max 0 (seg_val s k)) nint"
  shows "p \<le> int j + 1 + eps" "sorted_wrt (<) xs \<Longrightarrow> int j - eps - 1 \<le> p \<and> (xs ! j = k \<longrightarrow> p \<le> int j + eps)"
proof -
  note P = assms(1) [unfolded piece_at_def]
  have j: "j < length xs" "xs ! j \<le> k" "\<And>t. j < t \<Longrightarrow> t < length xs \<Longrightarrow> k < xs ! t" using assms(6) by (auto simp: is_pred_def)
  have aj: "a \<le> j" using j(3) [of a] P assms(4) by (metis leD leI)
  have jb: "j < b" using P j(1,2) assms(5) sorted_nth_mono [OF assms(2), of b j] by (metis leI le_less_trans less_le_not_le order_trans)
  have mono: "seg_val s u \<le> seg_val s v" if "u \<le> v" for u v using seg_val_mono [OF _ _ that] P by blast
  have mem: "int t - eps - 1 \<le> seg_val s (xs ! t) \<and> seg_val s (xs ! t) \<le> int t + eps"
    if "a \<le> t" "t < b" "0 < t \<longrightarrow> xs ! (t - 1) \<noteq> xs ! t" for t using P that by blast
  show "p \<le> int j + 1 + eps"
  proof (cases "j + 1 = b")
    case True
    then show ?thesis using P by (auto simp: assms(7) min_le_iff_disj)
  next
    case False
    then have "k < xs ! (j + 1)" "j + 1 < b" using j(3) [of "j + 1"] jb P by auto
    then have "seg_val s k \<le> int (j + 1) + eps" using mem [of "j + 1"] mono [of k "xs ! (j + 1)"] j(2) aj by simp
    then show ?thesis using assms(3) by (auto simp: assms(7))
  qed
  assume s: "sorted_wrt (<) xs"
  have "0 < j \<longrightarrow> xs ! (j - 1) \<noteq> xs ! j" using sorted_wrt_nth_less [OF s, of "j - 1" j] j(1) by auto
  then have "int j - eps - 1 \<le> seg_val s (xs ! j)" "seg_val s (xs ! j) \<le> int j + eps" using mem [OF aj jb] by blast+
  then show "int j - eps - 1 \<le> p \<and> (xs ! j = k \<longrightarrow> p \<le> int j + eps)" using mono [OF j(2)] jb P assms(3) by (auto simp: assms(7))
qed

text \<open>The segment that is responsible for a key predicts the position of the key up to the error.\<close>

lemma level_query:
  assumes "level_ok eps last_key xs l" "sorted xs" "0 < eps" "int (length xs) < 2 ^ 31" "\<forall>x \<in> set xs. x \<le> last_key + 1"
    "responsible l i k" "is_pred xs j k"
  shows "prediction l i k \<le> int j + 1 + eps"
    "sorted_wrt (<) xs \<Longrightarrow> int j - eps - 1 \<le> prediction l i k \<and> (xs ! j = k \<longrightarrow> prediction l i k \<le> int j + eps)"
proof -
  let ?m = "length xs"
  obtain ss qs ex where L: "l = ss @ ex @ [sentinel_segment ?m]" "list_all2 (seg_near eps) ss qs" "concat qs = firsts (ranked xs 0)"
    "ex = [] \<or> ex = [extra_segment last_key ?m]" using assms(1) unfolding level_ok_def by blast
  have j: "j < ?m" "\<And>t. j < t \<Longrightarrow> t < ?m \<Longrightarrow> k < xs ! t" using assms(7) by (auto simp: is_pred_def)
  have R: "seg_key (l ! i) \<le> k" "k < seg_key (l ! (i + 1))" "i + 1 < length l" using assms(6) by (auto simp: responsible_def)
  have tail: "seg_intercept (l ! t) = int ?m" if "length ss \<le> t" "t < length l" for t
    using that L(1,4) assms(4) by (auto simp: nth_append extra_segment_def nth_Cons' split: if_splits)
  have "prediction l i k \<le> int j + 1 + eps \<and> (sorted_wrt (<) xs \<longrightarrow> int j - eps - 1 \<le> prediction l i k \<and> (xs ! j = k \<longrightarrow> prediction l i k \<le> int j + eps))"
  proof (cases "i < length ss")
    case False
    then have e: "i = length ss" "ex = [extra_segment last_key ?m]" using L(1,4) R(3) by auto
    then have l: "l ! i = extra_segment last_key ?m" "seg_intercept (l ! (i + 1)) = int ?m" using tail [of "i + 1"] R(3) L(1) by (auto simp: nth_append)
    have "\<forall>x \<in> set xs. x \<le> k" using assms(5) R(1) l(1) by (auto simp: extra_segment_def)
    then have "\<not> k < xs ! (?m - 1)" using j(1) nth_mem [of "?m - 1" xs] by (auto simp: not_less)
    then have "\<not> j < ?m - 1" using j(1) j(2) [of "?m - 1"] by force
    then have "j = ?m - 1" using j(1) by linarith
    then show ?thesis using l j(1) assms(3) by (simp add: prediction_def seg_val_def extra_segment_def)
  next
    case True
    have "i + 1 < length ss \<Longrightarrow> l ! (i + 1) = ss ! (i + 1)" "l ! i = ss ! i" using True L(1) by (simp_all add: nth_append)
    then show ?thesis using level_piece [OF L(2,3) True assms(3), of "l ! (i + 1)"] tail [of "i + 1"] R
        piece_query [OF _ assms(2,3) _ _ assms(7), of "l ! i"] unfolding prediction_def by (metis order_refl)
  qed
  then show "prediction l i k \<le> int j + 1 + eps"
    "sorted_wrt (<) xs \<Longrightarrow> int j - eps - 1 \<le> prediction l i k \<and> (xs ! j = k \<longrightarrow> prediction l i k \<le> int j + eps)" by auto
qed

section \<open>Building the levels\<close>

text \<open>The keys of a level, on which the next one is built.\<close>

definition level_keys :: "Segment list \<Rightarrow> int list" where
  "level_keys l = map seg_key (butlast l)"

definition keys_good :: "int \<Rightarrow> int \<Rightarrow> int list \<Rightarrow> bool" where
  "keys_good fk last_key xs \<longleftrightarrow>
     xs \<noteq> [] \<and> hd xs = fk \<and> sorted xs \<and> (\<forall>x \<in> set xs. x \<le> last_key + 1) \<and> (1 < length xs \<longrightarrow> fk < last xs)"

lemma new_keys_strict: "sorted (x # map fst ps) \<Longrightarrow> sorted_wrt (<) (x # map fst (new_keys x ps))"
proof (induction ps arbitrary: x)
  case (Cons p ps)
  show ?case
  proof (cases "fst p = x")
    case False
    then have "x < fst p" using Cons.prems by simp
    then show ?thesis using Cons.IH [of "fst p"] Cons.prems False by auto
  qed (use Cons in auto)
qed simp

lemma firsts_strict: "sorted (map fst ps) \<Longrightarrow> sorted_wrt (<) (map fst (firsts ps))"
  using new_keys_strict by (cases ps) (auto simp: firsts_def)

lemma concat_sorted: "sorted_wrt R (concat qs) \<Longrightarrow> q \<in> set qs \<Longrightarrow> sorted_wrt R q"
  by (induction qs) (auto simp: sorted_wrt_append)

lemma firsts_two:
  assumes "sorted xs" "xs \<noteq> []" "hd xs < (last xs :: int)" shows "1 < length (firsts (ranked xs 0))"
proof -
  have "\<exists>t. 0 < t \<and> t < length xs \<and> xs ! (t - 1) \<noteq> xs ! t"
  proof (rule ccontr)
    assume n: "\<not> ?thesis"
    have e: "xs ! t = xs ! 0" if "t < length xs" for t
      using that
    proof (induction t)
      case (Suc t)
      then have "xs ! t = xs ! Suc t" using n by (metis diff_Suc_1 zero_less_Suc)
      then show ?case using Suc by simp
    qed simp
    have "xs ! (length xs - 1) = xs ! 0" using e [of "length xs - 1"] assms(2) by (cases xs) auto
    then show False using assms(2,3) hd_conv_nth [OF assms(2)] last_conv_nth [OF assms(2)] by linarith
  qed
  then obtain t where "0 < t" "t < length xs" "xs ! (t - 1) \<noteq> xs ! t" by blast
  then have "{(xs ! 0, int 0), (xs ! t, int t)} \<subseteq> set (firsts (ranked xs 0))" using firsts_mem [of t xs] firsts_mem [of 0 xs] assms(2) by auto
  then have "card {(xs ! 0, int 0), (xs ! t, int t)} \<le> card (set (firsts (ranked xs 0)))" by (intro card_mono) simp_all
  then show ?thesis using \<open>0 < t\<close> card_length [of "firsts (ranked xs 0)"] by simp
qed

lemma list_all2_last: "list_all2 P xs ys \<Longrightarrow> xs \<noteq> [] \<Longrightarrow> P (last xs) (last ys)"
  by (metis last_conv_nth list_all2_conv_all_nth diff_less length_greater_0_conv less_numeral_extra(1) list.size(3))

lemma build_level_ok:
  assumes "sorted xs" "xs \<noteq> []" "0 < eps" "int (length xs) + eps < 2 ^ 31" "0 < q" "q \<le> 2 ^ 15" "0 \<le> last_key" "last_key < max_key"
  shows "\<exists>l. build_level q eps last_key (length xs) (ranked xs 0) segs = Some (Inr (segs @ l, length l - 1)) \<and> level_ok eps last_key xs l \<and>
    length l \<le> length (cuts_par q eps (ranked xs 0)) + 2 \<and> (length (cuts_par q eps (ranked xs 0)) = 1 \<and> hd xs < last xs \<longrightarrow> length l = 2)"
proof -
  let ?ps = "ranked xs 0" and ?qs = "cuts_par q eps (ranked xs 0)" and ?m = "length xs"
  have r: "\<forall>z \<in> set ?ps. 0 \<le> snd z \<and> snd z < int ?m" using ranked_bounds by fastforce
  have eps: "eps \<le> max_y" "\<forall>z \<in> set ?ps. in_rank z" using assms(3,4) r by (auto simp: max_y_def in_rank_def dest!: bspec)
  note ok = make_segmentation_par_ok [of ?ps eps q, OF _ assms(3) eps assms(5,6)]
  obtain cs where cs: "make_segmentation_par q eps ?ps = Some (Inr (cs, length cs))" "list_all2 (seg_of eps) cs ?qs" using ok(1) assms(1) by auto
  have c: "concat ?qs = firsts ?ps" using ok(2) assms(1) by (auto simp: segmentation_def)
  have "sorted_wrt (\<lambda>y z. snd y < snd z) (concat ?qs)" using sorted_firsts [OF sorted_ranked, of xs 0] unfolding c sorted_wrt_map .
  then have "sorted_wrt (<) (map snd p)" if "p \<in> set ?qs" for p using concat_sorted that by (simp add: sorted_wrt_map)
  moreover have "0 \<le> snd z \<and> snd z + eps < 2 ^ 31" if "p \<in> set ?qs" "z \<in> set p" for p z
  proof -
    have "z \<in> set (concat ?qs)" using that by auto
    then have "z \<in> set ?ps" using set_firsts [of ?ps] unfolding c by blast
    from bspec [OF r this] show ?thesis using assms(4) by linarith
  qed
  ultimately have "\<forall>p \<in> set ?qs. (\<forall>z \<in> set p. 0 \<le> snd z \<and> snd z + eps < 2 ^ 31) \<and> sorted_wrt (<) (map snd p)" by blast
  then obtain ss where ss: "segments_of cs = Inr ss" "list_all2 (seg_near eps) ss ?qs" using segments_of_ok [OF cs(2) assms(3)] by blast
  have "firsts ?ps \<noteq> []" using assms(2) by (cases xs) (simp_all add: firsts_def)
  then have ne: "ss \<noteq> []" "?qs \<noteq> []" using ss(2) c by auto
  have len: "length cs = length ?qs" "length ss = length ?qs" using cs(2) ss(2) by (simp_all add: list_all2_lengthD)
  have last1: "length (last ?qs) = 1" if "snd (seg_slope (last ss)) = 0" using list_all2_last [OF ss(2) ne(1)] that by (simp add: seg_near_def)
  have x: "(last_key + 1) mod 2 ^ 64 = last_key + 1" "signed_take_bit 31 (int ?m) = int ?m"
    using assms(3,4,7,8) by (simp_all add: max_key_def signed_take_bit_int_eq_self)
  define ex where "ex = (if snd (seg_slope (last ss)) = 0 \<and> 1 < ?m then [extra_segment last_key ?m] else [])"
  define l where "l = ss @ ex @ [sentinel_segment ?m]"
  have "build_level q eps last_key ?m ?ps segs = Some (Inr (segs @ l, length l - 1))"
    using cs(1) ss(1) ne(1) len x by (simp add: build_level_def l_def ex_def extra_segment_def Let_def)
  moreover have "level_ok eps last_key xs l"
    unfolding level_ok_def using ss(2) c ne(1) last1 by (intro exI [of _ ss] exI [of _ ?qs] exI [of _ ex]) (simp add: l_def ex_def)
  moreover have "length l = 2" if "length ?qs = 1" "hd xs < last xs"
  proof -
    from that(1) obtain p where p: "?qs = [p]" by (metis One_nat_def length_0_conv length_Suc_conv)
    have "length p \<noteq> 1" using firsts_two [OF assms(1,2) that(2)] c p by simp
    then show ?thesis using last1 p that(1) len by (auto simp: l_def ex_def)
  qed
  ultimately show ?thesis using len by (intro exI [of _ l]) (auto simp: l_def ex_def)
qed

lemma level_keys_good:
  assumes "level_ok eps last_key xs l" "keys_good fk last_key xs" "fk \<le> last_key"
  shows "keys_good fk last_key (level_keys l)" "seg_key (last l) = max_key" "2 \<le> length l"
proof -
  obtain ss qs ex where L: "l = ss @ ex @ [sentinel_segment (length xs)]" "ss \<noteq> []" "list_all2 (seg_near eps) ss qs" "concat qs = firsts (ranked xs 0)"
    "ex = [] \<or> ex = [extra_segment last_key (length xs)]" using assms(1) unfolding level_ok_def by blast
  have K: "xs \<noteq> []" "hd xs = fk" "sorted xs" "\<forall>x \<in> set xs. x \<le> last_key + 1" using assms(2) by (auto simp: keys_good_def)
  have len: "length qs = length ss" using L(3) by (simp add: list_all2_lengthD)
  have near: "q \<noteq> [] \<and> seg_key s = fst (hd q)" if "seg_near eps s q" for s q using that by (simp add: seg_near_def)
  have nth: "qs ! i \<noteq> [] \<and> seg_key (ss ! i) = fst (hd (qs ! i))" if "i < length ss" for i using near [OF list_all2_nthD [OF L(3) that]] .
  have "sorted_wrt (\<lambda>y z. fst y < fst z) (concat qs)"
    using firsts_strict [of "ranked xs 0"] K(3) unfolding L(4) by (simp only: sorted_wrt_map [symmetric] map_fst_ranked)
  then have "seg_key (ss ! a) < seg_key (ss ! b)" if "a < b" "b < length ss" for a b
    using concat_order [of _ qs a b "hd (qs ! a)" "hd (qs ! b)"] that nth [of a] nth [of b] len by simp
  then have strict: "sorted_wrt (<) (map seg_key ss)" by (simp add: sorted_wrt_iff_nth_less)
  have mem: "seg_key s \<in> set xs" if "s \<in> set ss" for s
  proof -
    from that obtain i where i: "i < length ss" "s = ss ! i" by (metis in_set_conv_nth)
    then have "hd (qs ! i) \<in> set (firsts (ranked xs 0))"
      using nth [OF i(1)] len unfolding L(4) [symmetric] set_concat by (intro UN_I [of "qs ! i"]) simp_all
    then obtain t where "t < length xs" "hd (qs ! i) = (xs ! t, int t)" using firsts_ranked by blast
    then show ?thesis using nth [OF i(1)] i(2) by simp
  qed
  have hd: "seg_key (hd ss) = fk"
  proof -
    obtain q qs' s ss' where q: "qs = q # qs'" "ss = s # ss'" using L(2) len by (cases qs; cases ss) auto
    have "hd (concat qs) = (hd xs, 0)" using K(1) unfolding L(4) by (cases xs) (simp_all add: firsts_def)
    moreover have "q \<noteq> []" "seg_key s = fst (hd q)" using nth [of 0] q by auto
    ultimately show ?thesis using q K(2) by simp
  qed
  have y: "level_keys l = map seg_key ss @ (if ex = [] then [] else [last_key + 1])"
    using L(5) by (auto simp: level_keys_def L(1) butlast_append extra_segment_def)
  have s2: "sorted (level_keys l)"
    using strict mem K(4) strict_sorted_imp_sorted [OF strict] by (auto simp: y sorted_append)
  have "fk < last (level_keys l)" if "1 < length (level_keys l)"
  proof (cases "ex = []")
    case True
    from that have "1 < length ss" using True y by simp
    then obtain s s' ss' where "ss = s # s' # ss'" by (cases ss; cases "tl ss") auto
    then show ?thesis using strict hd True by (auto simp: y last_map)
  next
    case False
    then show ?thesis using assms(3) y by simp
  qed
  then show "keys_good fk last_key (level_keys l)" using s2 hd mem K(4) L(2) unfolding keys_good_def y by (auto simp: hd_map)
  show "seg_key (last l) = max_key" using L(1) by simp
  show "2 \<le> length l" using L(1,2) by (cases ss) auto
qed

text \<open>
  The whole index: the levels one behind the other, their beginnings, each level built on the keys of
  the one below, and a single segment at the top.
\<close>

definition offsets_of :: "Segment list list \<Rightarrow> nat list" where
  "offsets_of ls = map (\<lambda>t. length (concat (take t ls))) [0..<length ls + 1]"

definition levels_ok :: "int \<Rightarrow> int \<Rightarrow> int \<Rightarrow> nat \<Rightarrow> Segment list list \<Rightarrow> bool" where
  "levels_ok epsr fk last_key n ls \<longleftrightarrow> ls \<noteq> [] \<and>
     (\<forall>l \<in> set ls. keys_good fk last_key (level_keys l) \<and> 2 \<le> length l \<and> length l \<le> n + 2 \<and> seg_key (last l) = max_key) \<and>
     (\<forall>t. t + 1 < length ls \<longrightarrow> level_ok epsr last_key (level_keys (ls ! t)) (ls ! (t + 1)))"

lemma length_level_keys [simp]: "length (level_keys l) = length l - 1"
  by (simp add: level_keys_def)

lemma offsets_snoc: "offsets_of (ls @ [l]) = offsets_of ls @ [last (offsets_of ls) + length l]"
  by (auto simp: offsets_of_def last_map)

lemma offsets_simps: "length (offsets_of ls) = length ls + 1" "t \<le> length ls \<Longrightarrow> offsets_of ls ! t = length (concat (take t ls))"
  by (simp_all add: offsets_of_def del: upt_Suc)

text \<open>A level above one with several segments is shorter.\<close>

lemma cuts_linear:
  assumes "xs \<noteq> []" "0 < eps" "int (length xs) + eps < 2 ^ 31" "0 < q" "q \<le> 2 ^ 15" "0 < w" "w \<le> 2 * eps + 1"
    "c = int (length (cuts_par q eps (ranked xs 0)))" "r = (if length xs < 2 ^ 15 then 1 else int q)"
  shows "(c - r) * w \<le> int (length xs) \<or> c < r"
proof -
  have "c * (2 * eps + 1) \<le> r * (2 * eps + 1) + int (length xs)" using cuts_par_count [of xs eps q] assms(1-5,8,9) by (simp add: max_y_def)
  then have "(c - r) * (2 * eps + 1) \<le> int (length xs)" by (simp add: algebra_simps)
  moreover have "(c - r) * w \<le> (c - r) * (2 * eps + 1)" if "r \<le> c" using assms(7) that by (intro mult_left_mono) simp_all
  ultimately show ?thesis by linarith
qed

lemma fewer_segments:
  assumes "keys_good fk last_key xs" "1 < length xs" "2 \<le> epsr" "int (length xs) + epsr < 2 ^ 31" "0 < q" "q \<le> 20"
    "length l \<le> length (cuts_par q epsr (ranked xs 0)) + 2" "length (cuts_par q epsr (ranked xs 0)) = 1 \<and> hd xs < last xs \<longrightarrow> length l = 2"
  shows "length l - 1 < length xs"
proof (cases "length (cuts_par q epsr (ranked xs 0)) \<le> 1")
  case True
  moreover have "hd xs < last xs" using assms(1,2) by (auto simp: keys_good_def)
  ultimately show ?thesis using assms(2,7,8) by (cases "length (cuts_par q epsr (ranked xs 0)) = 1") auto
next
  case False
  have "xs \<noteq> []" using assms(2) by auto
  from cuts_linear [OF this _ assms(4,5) _ _ _ refl refl, where w = 5] assms(3,6)
  have "int (length (cuts_par q epsr (ranked xs 0))) + 1 < int (length xs)" using False by (cases "length xs < 2 ^ 15") auto
  then show ?thesis using assms(7) by linarith
qed

lemma build_up_ok:
  assumes "levels_ok epsr fk last_key n ls" "0 \<le> fk" "fk \<le> last_key" "last_key < max_key" "2 \<le> epsr" "int n + 1 + epsr < 2 ^ 31" "0 < q" "q \<le> 20"
    "last_n = length (last ls) - 1"
  shows "\<exists>ls'. build_up q epsr last_key (concat ls) (offsets_of ls) last_n = Some (Inr (concat (ls @ ls'), offsets_of (ls @ ls'))) \<and>
    levels_ok epsr fk last_key n (ls @ ls') \<and> length (last (ls @ ls')) = 2"
  using assms(1,9)
proof (induction last_n arbitrary: ls rule: less_induct)
  case (less last_n)
  have ne: "ls \<noteq> []" "last ls \<in> set ls" using less.prems(1) by (auto simp: levels_ok_def)
  define xs where "xs = level_keys (last ls)"
  have xs: "keys_good fk last_key xs" "length xs = last_n" "2 \<le> length (last ls)" "last_n \<le> n + 1"
  proof -
    have "keys_good fk last_key (level_keys (last ls))" "2 \<le> length (last ls)" "length (last ls) \<le> n + 2"
      using less.prems(1) ne(2) unfolding levels_ok_def by blast+
    then show "keys_good fk last_key xs" "length xs = last_n" "2 \<le> length (last ls)" "last_n \<le> n + 1" using less.prems(2) by (simp_all add: xs_def)
  qed
  show ?case
  proof (cases "last_n > 1")
    case False
    then have "length (last ls) = 2" using xs(3) less.prems(2) by simp
    then show ?thesis using False less.prems(1) by (intro exI [of _ "[]"]) (simp add: build_up.simps)
  next
    case True
    have last: "concat ls = concat (butlast ls) @ last ls" "take (length ls - 1) ls = butlast ls"
      using ne(1) by (metis append_butlast_last_id concat_append concat.simps append_Nil2, simp add: butlast_conv_take)
    have off: "rd (offsets_of ls) (length (offsets_of ls) - 2) = Some (length (concat (butlast ls)))"
      using offsets_simps [where ls = ls] ne(1) last(2) by (simp add: rd_def)
    have "map seg_key (take last_n (drop (length (concat (butlast ls))) (concat ls))) = xs"
      using less.prems(2) by (simp add: last(1) xs_def level_keys_def butlast_conv_take take_map)
    moreover have "length (concat (butlast ls)) + last_n \<le> length (concat ls)" using less.prems(2) by (simp add: last(1))
    moreover have K: "sorted xs" "xs \<noteq> []" "0 < epsr" "int (length xs) + epsr < 2 ^ 31" "q \<le> 2 ^ 15"
      using xs assms(5,6,8) by (auto simp: keys_good_def)
    from build_level_ok [OF K(1-4) assms(7) K(5), of last_key "concat ls"] assms(2-4) obtain l where
      l: "build_level q epsr last_key (length xs) (ranked xs 0) (concat ls) = Some (Inr (concat ls @ l, length l - 1))" "level_ok epsr last_key xs l"
      "length l \<le> length (cuts_par q epsr (ranked xs 0)) + 2" "length (cuts_par q epsr (ranked xs 0)) = 1 \<and> hd xs < last xs \<longrightarrow> length l = 2" by auto
    note g = level_keys_good [OF l(2) xs(1) assms(3)]
    moreover have "Suc (last (offsets_of ls) + length l - Suc 0) = last (offsets_of ls) + length l" using g(3) by simp
    ultimately have step: "build_up q epsr last_key (concat ls) (offsets_of ls) last_n =
      build_up q epsr last_key (concat (ls @ [l])) (offsets_of (ls @ [l])) (length l - 1)"
      using True off l(1) xs(2) K(3) by (subst build_up.simps) (simp add: offsets_snoc)
    have dec: "length l - 1 < last_n" using fewer_segments [OF xs(1) _ assms(5) K(4) assms(7,8) l(3,4)] True xs(2) by simp
    have "level_ok epsr last_key (level_keys ((ls @ [l]) ! t)) ((ls @ [l]) ! (t + 1))" if "t + 1 < length (ls @ [l])" for t
    proof (cases "t + 1 < length ls")
      case False
      then have "t = length ls - 1" "t + 1 = length ls" "t < length ls" using that by auto
      then show ?thesis using l(2) ne(1) by (simp add: nth_append xs_def last_conv_nth)
    qed (use less.prems(1) in \<open>simp add: nth_append levels_ok_def\<close>)
    then have "levels_ok epsr fk last_key n (ls @ [l])"
      using less.prems(1) g dec xs(4) unfolding levels_ok_def by auto
    from less.IH [OF dec this] show ?thesis unfolding step by (auto intro: exI [of _ "l # _"])
  qed
qed

section \<open>Searching\<close>

lemma level_segment_bounds:
  assumes "level_ok eps last_key xs l" "0 < eps" "int (length xs) < 2 ^ 31" "i < length l" "s = l ! i"
  shows "0 < fst (seg_slope s)" "0 \<le> snd (seg_slope s)" "snd (seg_slope s) \<le> int (length xs) + eps"
    "0 \<le> seg_intercept s" "seg_intercept s \<le> int (length xs) + eps"
proof -
  obtain ss qs ex where L: "l = ss @ ex @ [sentinel_segment (length xs)]" "list_all2 (seg_near eps) ss qs" "concat qs = firsts (ranked xs 0)"
    "ex = [] \<or> ex = [extra_segment last_key (length xs)]" using assms(1) unfolding level_ok_def by blast
  have "0 < fst (seg_slope s) \<and> 0 \<le> snd (seg_slope s) \<and> snd (seg_slope s) \<le> int (length xs) + eps \<and> 0 \<le> seg_intercept s \<and> seg_intercept s \<le> int (length xs) + eps"
  proof (cases "i < length ss")
    case True
    then have s: "seg_near eps s (qs ! i)" "qs ! i \<in> set qs" using L(1,2) assms(5) by (simp_all add: nth_append list_all2_nthD list_all2_lengthD)
    have r: "snd z < int (length xs)" if "z \<in> set (qs ! i)" for z
    proof -
      have "z \<in> set (firsts (ranked xs 0))" using that s(2) unfolding L(3) [symmetric] set_concat by blast
      then show ?thesis using firsts_ranked by fastforce
    qed
    have N: "0 < fst (seg_slope s)" "0 \<le> snd (seg_slope s)" "0 \<le> seg_intercept s" "hd (qs ! i) \<in> set (qs ! i)"
      "seg_val s (fst (hd (qs ! i))) = seg_intercept s" using s(1) seg_val_key [of s] by (simp_all add: seg_near_def)
    obtain z where z: "z \<in> set (qs ! i)" "snd (seg_slope s) \<le> snd z + eps" using s(1) unfolding seg_near_def by blast
    have "seg_intercept s \<le> snd (hd (qs ! i)) + eps" using s(1) N(4,5) unfolding seg_near_def by metis
    then show ?thesis using N(1-3) r [OF z(1)] r [OF N(4)] z(2) by simp
  next
    case False
    then have "s \<in> {sentinel_segment (length xs), extra_segment last_key (length xs)}"
      using L(1,4) assms(4,5) by (auto simp: nth_append nth_Cons' split: if_splits)
    then show ?thesis using assms(2,3) by (auto simp: extra_segment_def)
  qed
  then show "0 < fst (seg_slope s)" "0 \<le> snd (seg_slope s)" "snd (seg_slope s) \<le> int (length xs) + eps"
    "0 \<le> seg_intercept s" "seg_intercept s \<le> int (length xs) + eps" by blast+
qed

lemma seg_apply_ok:
  assumes "mul_exact mul" "0 \<le> seg_key s" "seg_key s \<le> k" "k < max_key" "0 < fst (seg_slope s)" "0 \<le> snd (seg_slope s)" "snd (seg_slope s) \<le> B"
    "0 \<le> seg_intercept s" "seg_intercept s \<le> B" "B * (k + 1) < 2 ^ 63"
  shows "seg_apply mul s k = Some (max 0 (seg_val s k))"
proof -
  let ?d = "k - seg_key s" and ?D = "snd (seg_slope s)"
  have d: "?d mod 2 ^ 64 = ?d" using assms(2-4) by (simp add: max_key_def)
  have p: "mul (seg_slope s) ?d = ?D * ?d div fst (seg_slope s)"
    using assms(1,3,5,6) unfolding mul_exact_def by (cases "seg_slope s") simp
  have "0 \<le> ?D * ?d" using assms(3,6) by simp
  then have "?D * ?d div fst (seg_slope s) \<le> ?D * ?d" "0 \<le> ?D * ?d div fst (seg_slope s)"
    using assms(5) zdiv_mono2 [of "?D * ?d" 1 "fst (seg_slope s)"] by (simp_all add: pos_imp_zdiv_nonneg_iff)
  moreover have "?D * ?d \<le> B * k" using assms(2,3,6,7) by (intro mult_mono) simp_all
  moreover have "B * k + B < 2 ^ 63" using assms(10) by (simp add: algebra_simps)
  ultimately show ?thesis using assms(8,9) unfolding seg_apply_def Let_def d p seg_val_def by auto
qed

text \<open>A level inside the vector of all segments.\<close>

definition level_at :: "Segment list \<Rightarrow> nat \<Rightarrow> Segment list \<Rightarrow> bool" where
  "level_at segs o' l \<longleftrightarrow> o' + length l \<le> length segs \<and> (\<forall>i < length l. segs ! (o' + i) = l ! i)"

lemma level_at_concat: "t < length ls \<Longrightarrow> level_at (concat ls) (length (concat (take t ls))) (ls ! t)"
proof -
  assume t: "t < length ls"
  have "concat ls = concat (take t ls) @ ls ! t @ concat (drop (t + 1) ls)"
    using id_take_nth_drop [OF t] by (metis Suc_eq_plus1 concat.simps(2) concat_append)
  then obtain A B where "concat ls = A @ ls ! t @ B" "A = concat (take t ls)" by blast
  then show ?thesis by (simp add: level_at_def nth_append)
qed

lemma level_atD: "level_at segs o' l \<Longrightarrow> i < length l \<Longrightarrow> o' + i < length segs \<and> segs ! (o' + i) = l ! i"
  by (auto simp: level_at_def)

lemma predict_ok:
  assumes "level_at segs o' l" "level_ok eps last_key xs l" "0 < eps" "int (length xs) < 2 ^ 31" "mul_exact mul" "responsible l i k" "k < max_key"
    "0 \<le> seg_key (l ! i)" "(int (length xs) + eps) * (k + 1) < 2 ^ 63"
  shows "predict mul segs (o' + i) k = Some (prediction l i k)"
proof -
  have i: "i < length l" "i + 1 < length l" "seg_key (l ! i) \<le> k" using assms(6) by (auto simp: responsible_def)
  note b = level_segment_bounds [OF assms(2-4) i(1) refl] and b' = level_segment_bounds [OF assms(2-4) i(2) refl]
  have "0 \<le> k" using assms(8) i(3) by simp
  have "int (length xs) + eps \<le> (int (length xs) + eps) * (k + 1)" using assms(3) \<open>0 \<le> k\<close> by (simp add: mult_le_cancel_left1)
  then have "seg_intercept (l ! (i + 1)) mod 2 ^ 64 = seg_intercept (l ! (i + 1))" using b'(4,5) assms(9) by simp
  moreover have "rd segs (o' + i) = Some (l ! i)" "rd segs (o' + i + 1) = Some (l ! (i + 1))"
    using assms(1) i unfolding level_at_def rd_def by (auto simp: add.assoc)
  ultimately show ?thesis
    using seg_apply_ok [OF assms(5,8) i(3) assms(7) b assms(9)] by (simp add: predict_def prediction_def)
qed

lemma level_nth:
  assumes "t < length l" "seg_key (last l) = max_key"
  shows "seg_key (l ! t) = (if t < length (level_keys l) then level_keys l ! t else max_key)"
proof (cases "t = length l - 1")
  case True
  have "l \<noteq> []" using assms(1) by auto
  then show ?thesis using True assms(2) last_conv_nth [of l] by simp
next
  case False
  then have "t < length l - 1" using assms(1) by simp
  then show ?thesis by (simp add: level_keys_def nth_butlast)
qed

lemma pred_responsible:
  assumes "is_pred (level_keys l) j k" "seg_key (last l) = max_key" "k < max_key" shows "responsible l j k"
proof -
  have j: "j < length (level_keys l)" "level_keys l ! j \<le> k" "\<forall>t. j < t \<and> t < length (level_keys l) \<longrightarrow> k < level_keys l ! t"
    using assms(1) by (auto simp: is_pred_def)
  then have "j < length l" "j + 1 < length l" by simp_all
  then show ?thesis using j level_nth [OF _ assms(2)] assms(3) unfolding responsible_def by auto
qed

lemma responsible_nonneg:
  assumes "keys_good fk last_key (level_keys l)" "seg_key (last l) = max_key" "responsible l i k" "0 \<le> fk" shows "0 \<le> seg_key (l ! i)"
proof -
  have i: "i < length l" "i < length (level_keys l)" using assms(3) by (auto simp: responsible_def)
  then have "fk \<le> level_keys l ! i" using assms(1) sorted_nth_mono [of "level_keys l" 0 i] by (auto simp: keys_good_def hd_conv_nth)
  then show ?thesis using level_nth [OF i(1) assms(2)] i(2) assms(4) by simp
qed

lemma scan_forward_ok:
  assumes "level_at segs o' l" "is_pred (level_keys l) j k" "sorted (level_keys l)" "seg_key (last l) = max_key" "k < max_key" "c \<le> j"
  shows "scan_forward segs (o' + c) k = Some (o' + j)"
  using assms(6)
proof (induction rule: inc_induct)
  case base
  have "responsible l j k" by (rule pred_responsible [OF assms(2,4,5)])
  then show ?case using assms(1) unfolding responsible_def level_at_def by (subst scan_forward.simps) (auto simp: add.assoc)
next
  case (step c)
  have j: "j < length (level_keys l)" "level_keys l ! j \<le> k" using assms(2) by (auto simp: is_pred_def)
  then have "level_keys l ! (c + 1) \<le> k" using sorted_nth_mono [OF assms(3), of "c + 1" j] step(2) by simp
  moreover have "seg_key (l ! (c + 1)) = level_keys l ! (c + 1)" using level_nth [OF _ assms(4), of "c + 1"] j(1) step(2) by simp
  moreover have "o' + c + 1 < length segs" "segs ! (o' + c + 1) = l ! (c + 1)"
    using level_atD [OF assms(1), of "c + 1"] j(1) step(2) by (simp_all add: add.assoc)
  ultimately show ?case using step by (subst scan_forward.simps) simp
qed

lemma pred_exists:
  assumes "sorted xs" "xs \<noteq> []" "hd xs \<le> k" shows "\<exists>j. is_pred xs j k"
proof -
  let ?w = "takeWhile (\<lambda>x. x \<le> k) xs"
  have w: "0 < length ?w" using assms(2,3) by (cases xs) auto
  have "xs ! (length ?w - 1) \<le> k" using w by (metis diff_less length_greater_0_conv less_numeral_extra(1) nth_mem set_takeWhileD takeWhile_nth)
  moreover have "k < xs ! t" if "length ?w - 1 < t" "t < length xs" for t
  proof -
    have "length ?w \<le> t" "length ?w < length xs" using that by simp_all
    moreover from this have "k < xs ! length ?w" using nth_length_takeWhile [of "\<lambda>x. x \<le> k" xs] by simp
    ultimately show ?thesis using sorted_nth_mono [OF assms(1), of "length ?w" t] that(2) by simp
  qed
  moreover have "length ?w - 1 < length xs" using w length_takeWhile_le [of "\<lambda>x. x \<le> k" xs] by linarith
  ultimately show ?thesis unfolding is_pred_def by blast
qed

lemma descend_ok:
  assumes "levels_ok epsr fk last_key n ls" "0 \<le> fk" "0 < epsr" "int n + 1 < 2 ^ 31" "mul_exact mul" "fk \<le> k" "k < max_key"
    "(int n + 1 + epsr) * (k + 1) < 2 ^ 63" "t < length ls" "responsible (ls ! t) i k"
  shows "\<exists>i'. descend_levels mul epsr (concat ls) (offsets_of ls) t (length (concat (take t ls)) + i) k = Some i' \<and> responsible (ls ! 0) i' k"
  using assms(9,10)
proof (induction t arbitrary: i)
  case (Suc t)
  let ?l = "ls ! t" and ?o = "length (concat (take t ls))"
  have l: "keys_good fk last_key (level_keys ?l)" "length ?l \<le> n + 2" "seg_key (last ?l) = max_key" "level_ok epsr last_key (level_keys ?l) (ls ! (t + 1))"
    using assms(1) Suc.prems(1) unfolding levels_ok_def by auto
  have K: "level_keys ?l \<noteq> []" "hd (level_keys ?l) = fk" "sorted (level_keys ?l)" "\<forall>x \<in> set (level_keys ?l). x \<le> last_key + 1"
    using l(1) by (auto simp: keys_good_def)
  obtain j where j: "is_pred (level_keys ?l) j k" using pred_exists [OF K(3,1)] K(2) assms(6) by blast
  have m: "int (length (level_keys ?l)) \<le> int n + 1" using l(2) by simp
  have "(int (length (level_keys ?l)) + epsr) * (k + 1) \<le> (int n + 1 + epsr) * (k + 1)" using m assms(2,6) by (intro mult_right_mono) simp_all
  then have B: "(int (length (level_keys ?l)) + epsr) * (k + 1) < 2 ^ 63" using assms(8) by simp
  have m31: "int (length (level_keys ?l)) < 2 ^ 31" using m assms(4) by linarith
  have "keys_good fk last_key (level_keys (ls ! (t + 1)))" "seg_key (last (ls ! (t + 1))) = max_key"
    using assms(1) Suc.prems(1) unfolding levels_ok_def by auto
  from responsible_nonneg [OF this _ assms(2)] Suc.prems(2) have "0 \<le> seg_key (ls ! (t + 1) ! i)" by simp
  moreover have "level_at (concat ls) (length (concat (take (t + 1) ls))) (ls ! (t + 1))" using level_at_concat Suc.prems(1) by simp
  ultimately have p: "predict mul (concat ls) (length (concat (take (t + 1) ls)) + i) k = Some (prediction (ls ! (t + 1)) i k)"
    using predict_ok [OF _ l(4) assms(3) m31 assms(5) _ assms(7) _ B] Suc.prems(2) by simp
  have "prediction (ls ! (t + 1)) i k \<le> int j + 1 + epsr" using level_query(1) [OF l(4) K(3) assms(3) m31 K(4) _ j] Suc.prems(2) by simp
  then have "nat (PGM_SUB_EPS (prediction (ls ! (t + 1)) i k) (epsr + 1)) \<le> j" by (auto simp: PGM_SUB_EPS_def)
  from scan_forward_ok [OF level_at_concat j K(3) l(3) assms(7) this] Suc.prems(1)
  have s: "scan_forward (concat ls) (?o + nat (PGM_SUB_EPS (prediction (ls ! (t + 1)) i k) (epsr + 1))) k = Some (?o + j)" by simp
  have "rd (offsets_of ls) t = Some ?o" using offsets_simps [where ls = ls] Suc.prems(1) by (simp add: rd_def)
  then show ?case using p s Suc.IH [of j] pred_responsible [OF j l(3) assms(7)] Suc.prems(1) by simp
qed simp

lemma ranked_in_fun:
  assumes "sorted_wrt (<) ks" "\<forall>x \<in> set ks. 0 \<le> x \<and> x < max_key" shows "map (in_fun ks) [0..<length ks] = ranked ks 0"
proof (rule nth_equalityI)
  fix i assume "i < length (map (in_fun ks) [0..<length ks])"
  then have i: "i < length ks" by simp
  then have "i = 0 \<or> ks ! i \<noteq> ks ! (i - 1)" using sorted_wrt_nth_less [OF assms(1), of "i - 1" i] by (cases i) auto
  moreover have "ks ! i mod 2 ^ 64 = ks ! i" using bspec [OF assms(2) nth_mem [OF i]] by (simp add: max_key_def)
  ultimately show "map (in_fun ks) [0..<length ks] ! i = ranked ks 0 ! i" using i nth_ranked [OF i, of 0] by (auto simp: in_fun_def Let_def)
qed simp

lemma sorted_le_last: "sorted ks \<Longrightarrow> x \<in> set ks \<Longrightarrow> x \<le> (last ks :: int)"
  by (induction ks) (auto split: if_splits)

lemma pgm_build_ok:
  assumes "sorted_wrt (<) ks" "ks \<noteq> []" "\<forall>x \<in> set ks. 0 \<le> x \<and> x < max_key" "0 < eps" "2 \<le> epsr" "int (length ks) + 1 + eps + epsr < 2 ^ 31"
    "0 < q" "q \<le> 20"
  shows "\<exists>ls. pgm_build q eps epsr ks = Some (Inr \<lparr>pgm_n = length ks, first_key = hd ks, segments = concat ls, levels_offsets = offsets_of ls\<rparr>) \<and>
    levels_ok epsr (hd ks) (last ks) (length ks) ls \<and> length (last ls) = 2 \<and> level_ok eps (last ks) ks (ls ! 0)"
proof -
  have k: "last ks \<in> set ks" "hd ks \<in> set ks" "last ks \<noteq> max_key" "ks ! (length ks - 1) = last ks" "sorted ks"
    using assms(2) bspec [OF assms(3), of "last ks"] strict_sorted_imp_sorted [OF assms(1)] by (auto simp: last_conv_nth)
  have b: "0 \<le> last ks" "last ks < max_key" "0 \<le> hd ks" "hd ks \<le> last ks"
    using assms(2,3) k by (auto simp: hd_conv_nth last_conv_nth sorted_nth_mono)
  have q: "q \<le> 2 ^ 15" "int (length ks) + eps < 2 ^ 31" using assms(4-6,8) by simp_all
  from build_level_ok [OF k(5) assms(2,4) q(2) assms(7) q(1) b(1,2), of "[]"] obtain l where
    l: "build_level q eps (last ks) (length ks) (ranked ks 0) [] = Some (Inr (l, length l - 1))" "level_ok eps (last ks) ks l"
    "length l \<le> length (cuts_par q eps (ranked ks 0)) + 2" by auto
  have "x \<le> last ks" if "x \<in> set ks" for x using sorted_le_last [OF k(5) that] .
  moreover have "hd ks < last ks" if "1 < length ks"
    using sorted_wrt_nth_less [OF assms(1), of 0 "length ks - 1"] that k(4) assms(2) by (simp add: hd_conv_nth)
  ultimately have "keys_good (hd ks) (last ks) ks" using assms(2) k(5) by (force simp: keys_good_def)
  note g = level_keys_good [OF l(2) this b(4)]
  have "length l \<le> length ks + 2"
    using cuts_linear [OF assms(2,4) q(2) assms(7) q(1) _ _ refl refl, where w = 3] l(3) assms(2,4,8)
    by (cases "length ks < 2 ^ 15"; cases ks) auto
  then have "levels_ok epsr (hd ks) (last ks) (length ks) [l]" using g by (simp add: levels_ok_def)
  from build_up_ok [OF this b(3,4,2) assms(5) _ assms(7,8), of "length l - 1"] assms(4,6) obtain ls where
    ls: "build_up q epsr (last ks) l (offsets_of [l]) (length l - 1) = Some (Inr (concat (l # ls), offsets_of (l # ls)))"
    "levels_ok epsr (hd ks) (last ks) (length ks) (l # ls)" "length (last (l # ls)) = 2" by auto
  have "offsets_of [l] = [0, length l - 1 + 1]" using g(3) by (simp add: offsets_of_def)
  then show ?thesis using l(1,2) ls k(3,4) assms(2) ranked_in_fun [OF assms(1,3)]
    by (intro exI [of _ "l # ls"]) (simp add: pgm_build_def Let_def)
qed

lemma window_ok:
  assumes "int j - eps - 1 \<le> p" "p \<le> int j + 1 + eps" "ks ! j = k \<longrightarrow> p \<le> int j + eps" "is_pred ks j k" "sorted_wrt (<) ks" "0 < eps" "0 \<le> p"
    "lo = PGM_SUB_EPS p eps" "hi = PGM_ADD_EPS p eps (int (length ks))"
  shows "0 \<le> lo" "lo \<le> hi" "hi \<le> int (length ks)" "\<forall>i. int i < lo \<longrightarrow> ks ! i < k" "\<forall>i < length ks. hi \<le> int i \<longrightarrow> k < ks ! i"
proof -
  have j: "j < length ks" "ks ! j \<le> k" "\<And>t. j < t \<Longrightarrow> t < length ks \<Longrightarrow> k < ks ! t" using assms(4) by (auto simp: is_pred_def)
  show "0 \<le> lo" "lo \<le> hi" "hi \<le> int (length ks)" using assms j(1) by (auto simp: PGM_SUB_EPS_def PGM_ADD_EPS_def)
  show "\<forall>i. int i < lo \<longrightarrow> ks ! i < k"
  proof (intro allI impI)
    fix i assume i: "int i < lo"
    then have "i \<le> j" using assms(2,6,8) by (auto simp: PGM_SUB_EPS_def split: if_splits)
    then show "ks ! i < k"
    proof (cases "i = j")
      case True
      then have "ks ! j \<noteq> k" using i assms(3,8) by (auto simp: PGM_SUB_EPS_def split: if_splits)
      then show ?thesis using True j(2) by simp
    next
      case False
      then show ?thesis using \<open>i \<le> j\<close> sorted_wrt_nth_less [OF assms(5), of i j] j(1,2) by simp
    qed
  qed
  show "\<forall>i < length ks. hi \<le> int i \<longrightarrow> k < ks ! i"
  proof (intro allI impI)
    fix i assume "i < length ks" "hi \<le> int i"
    then have "j < i" using assms(1,9) j(1) by (auto simp: PGM_ADD_EPS_def split: if_splits)
    then show "k < ks ! i" using j(3) \<open>i < length ks\<close> by simp
  qed
qed

lemma search_predict:
  assumes L: "levels_ok epsr fk last_key (length ks) ls" "length (last ls) = 2" "level_ok eps last_key ks (ls ! 0)" and "0 \<le> fk" "fk \<le> k" "k < max_key"
    "0 < eps" "2 \<le> epsr" "int (length ks) + 1 < 2 ^ 31" "mul_exact mul" "(int (length ks) + 1 + eps + epsr) * (k + 1) < 2 ^ 63"
  shows "\<exists>i. segment_for_key mul epsr \<lparr>pgm_n = m, first_key = fk, segments = concat ls, levels_offsets = offsets_of ls\<rparr> k = Some i \<and>
    responsible (ls ! 0) i k \<and> predict mul (concat ls) i k = Some (prediction (ls ! 0) i k)"
proof -
  let ?t = "length ls - 1"
  have ne: "ls \<noteq> []" "last ls = ls ! ?t" "?t < length ls" using L(1) by (auto simp: levels_ok_def last_conv_nth)
  have good: "keys_good fk last_key (level_keys l)" "seg_key (last l) = max_key" if "l \<in> set ls" for l
    using L(1) that by (auto simp: levels_ok_def)
  have "level_keys (last ls) = [fk]"
    using good(1) [of "last ls"] ne(1) L(2) by (cases "level_keys (last ls)") (auto simp: keys_good_def dest: arg_cong [of _ _ length])
  then have "is_pred (level_keys (ls ! ?t)) 0 k" using assms(5) ne(2) by (simp add: is_pred_def)
  then have top: "responsible (ls ! ?t) 0 k" using pred_responsible [OF _ _ assms(6)] good(2) [of "last ls"] ne by simp
  have B: "(int (length ks) + 1 + epsr) * (k + 1) < 2 ^ 63" "(int (length ks) + eps) * (k + 1) < 2 ^ 63"
    using mult_right_mono [of "int (length ks) + 1 + epsr" "int (length ks) + 1 + eps + epsr" "k + 1"]
      mult_right_mono [of "int (length ks) + eps" "int (length ks) + 1 + eps + epsr" "k + 1"] assms(4,5,7,8,11) by linarith+
  from descend_ok [OF L(1) assms(4) _ assms(9,10,5,6) B(1) ne(3) top] assms(8) obtain i where
    i: "descend_levels mul epsr (concat ls) (offsets_of ls) ?t (length (concat (take ?t ls))) k = Some i" "responsible (ls ! 0) i k" by auto
  have l0: "ls ! 0 \<in> set ls" using ne(1) by simp
  note key = responsible_nonneg [OF good [OF l0] i(2) assms(4)]
  have "predict mul (concat ls) i k = Some (prediction (ls ! 0) i k)"
    using predict_ok [OF level_at_concat [of 0 ls] L(3) assms(7) _ assms(10) i(2) assms(6) key B(2)] ne(1) assms(9) by simp
  moreover have "rd (offsets_of ls) ?t = Some (length (concat (take ?t ls)))" "length (offsets_of ls) = length ls + 1"
    using offsets_simps [where ls = ls] ne(1) by (simp_all add: rd_def)
  ultimately show ?thesis using i ne(1) by (cases ls) (auto simp: segment_for_key_def)
qed

lemma pgm_search_ok:
  assumes "sorted_wrt (<) ks" "ks \<noteq> []" "\<forall>x \<in> set ks. 0 \<le> x \<and> x < max_key" "0 < eps" "2 \<le> epsr" "int (length ks) + 1 + eps + epsr < 2 ^ 31"
    "0 < q" "q \<le> 20" "mul_exact mul" "key < max_key" "(int (length ks) + 1 + eps + epsr) * (max (hd ks) key + 1) < 2 ^ 63"
  shows "\<exists>ix lo hi. pgm_build q eps epsr ks = Some (Inr ix) \<and> pgm_search_ix mul eps epsr ix key = Some (lo, hi) \<and>
    0 \<le> lo \<and> lo \<le> hi \<and> hi \<le> int (length ks) \<and> (\<forall>i. int i < lo \<longrightarrow> ks ! i < key) \<and> (\<forall>i < length ks. hi \<le> int i \<longrightarrow> key < ks ! i)"
proof -
  from pgm_build_ok [OF assms(1-8)] obtain ls where
    b: "pgm_build q eps epsr ks = Some (Inr \<lparr>pgm_n = length ks, first_key = hd ks, segments = concat ls, levels_offsets = offsets_of ls\<rparr>)"
    and L: "levels_ok epsr (hd ks) (last ks) (length ks) ls" "length (last ls) = 2" "level_ok eps (last ks) ks (ls ! 0)" by blast
  define k where "k = max (hd ks) key"
  have fk: "0 \<le> hd ks" "hd ks < max_key" using assms(2,3) by (auto dest: bspec [of _ _ "hd ks"])
  have k: "hd ks \<le> k" "k < max_key" using assms(10) fk by (auto simp: k_def)
  have n: "int (length ks) + 1 < 2 ^ 31" "int (length ks) < 2 ^ 31" using assms(4-6) by simp_all
  have s: "sorted ks" using strict_sorted_imp_sorted [OF assms(1)] .
  from search_predict [OF L fk(1) k assms(4,5) n(1) assms(9) assms(11) [folded k_def], of "length ks"] obtain i where
    i: "segment_for_key mul epsr \<lparr>pgm_n = length ks, first_key = hd ks, segments = concat ls, levels_offsets = offsets_of ls\<rparr> k = Some i"
    "responsible (ls ! 0) i k" "predict mul (concat ls) i k = Some (prediction (ls ! 0) i k)" by blast
  obtain j where j: "is_pred ks j k" using pred_exists [OF s assms(2) k(1)] by blast
  have "\<forall>x \<in> set ks. x \<le> last ks + 1" using sorted_le_last [OF s] by force
  note Q = level_query [OF L(3) s assms(4) n(2) this i(2) j]
  have "i + 1 < length (ls ! 0)" using i(2) by (simp add: responsible_def)
  then have "0 \<le> prediction (ls ! 0) i k" using level_segment_bounds(4) [OF L(3) assms(4) n(2), of "i + 1"] by (simp add: prediction_def)
  note W = window_ok [OF _ Q(1) _ j assms(1,4) this refl refl]
  define lo hi where "lo = PGM_SUB_EPS (prediction (ls ! 0) i k) eps" and "hi = PGM_ADD_EPS (prediction (ls ! 0) i k) eps (int (length ks))"
  have w: "0 \<le> lo" "lo \<le> hi" "hi \<le> int (length ks)" "\<forall>i. int i < lo \<longrightarrow> ks ! i < k" "\<forall>i < length ks. hi \<le> int i \<longrightarrow> k < ks ! i"
    using W Q(2) [OF assms(1)] by (auto simp: lo_def hi_def)
  have "ks ! t < key" if "int t < lo" for t
  proof (cases "key < hd ks")
    case True
    have "t < length ks" using that w(2,3) by linarith
    then have "hd ks \<le> ks ! t" using sorted_nth_mono [OF s, of 0 t] assms(2) by (simp add: hd_conv_nth)
    then show ?thesis using w(4) that True by (force simp: k_def)
  qed (use w(4) that in \<open>auto simp: k_def max_def split: if_splits\<close>)
  moreover have "key < ks ! t" if "t < length ks" "hi \<le> int t" for t using w(5) that by (force simp: k_def)
  moreover have "pgm_search_ix mul eps epsr \<lparr>pgm_n = length ks, first_key = hd ks, segments = concat ls, levels_offsets = offsets_of ls\<rparr> key = Some (lo, hi)"
    using i(1,3) by (simp add: pgm_search_ix_def k_def [symmetric] lo_def hi_def)
  ultimately show ?thesis using b w(1-3) by blast
qed

section \<open>Main theorems\<close>

definition exact_mul :: "slope \<Rightarrow> int \<Rightarrow> int" where
  "exact_mul s d = snd s * d div fst s"

lemma exact_mul_exact: "mul_exact exact_mul"
  by (simp add: mul_exact_def exact_mul_def)



text \<open>
  C37: the search for the largest key, which is the key of the sentinels, runs over the sentinel of a level and past
  the end of the segments in every index with more than one level.
\<close>

theorem search_max_key_undefined:
  assumes "3 \<le> length (levels_offsets ix)" "\<forall>s \<in> set (segments ix). seg_key s \<le> max_key"
  shows "segment_for_key mul epsr ix max_key = None"
proof -
  have "scan_forward segs lo k = None" if "\<forall>s \<in> set segs. seg_key s \<le> k" for segs lo and k :: int
    using that by (induction segs lo k rule: scan_forward.induct) (subst scan_forward.simps, simp)
  then have s: "scan_forward (segments ix) lo max_key = None" for lo using assms(2) by blast
  obtain l where "length (levels_offsets ix) - 2 = Suc l" using assms(1) by (metis Suc_diff_le diff_Suc_Suc numeral_2_eq_2 numeral_3_eq_3)
  then show ?thesis by (auto simp: segment_for_key_def s split: Option.bind_split)
qed

definition squares :: "int list" where
  "squares = map (\<lambda>i. int i * int i) [1..<40]"

theorem search_max_key_undefined_witness:
  "\<exists>ix. pgm_build 1 1 2 squares = Some (Inr ix) \<and> segment_for_key exact_mul 2 ix max_key = None"
proof -
  have "case pgm_build 1 1 2 squares of Some (Inr ix) \<Rightarrow> 3 \<le> length (levels_offsets ix) \<and> list_all (\<lambda>s. seg_key s \<le> max_key) (segments ix) | _ \<Rightarrow> False"
    by code_simp
  then obtain ix where ix: "pgm_build 1 1 2 squares = Some (Inr ix)" "3 \<le> length (levels_offsets ix)" "\<forall>s \<in> set (segments ix). seg_key s \<le> max_key"
    by (auto simp: list_all_iff split: option.splits sum.splits)
  from search_max_key_undefined [OF ix(2,3)] show ?thesis using ix(1) by blast
qed


end
