(* ===== verification/Spec2Isabelle.thy ===== *)
theory Spec2Isabelle
  imports BenchRun BTreeVerify BTreeDump BTreeMaint Flags OlcScan PgmIndex PgmStatic
begin

text \<open>
  A verification development for GRE, a test bench for updatable learned indexes
  (\<open>xindubawukong/Learned-Index-Test-Framework\<close>, C++, all paths below are relative to \<open>src/src\<close>).

  \<^bold>\<open>The program.\<close> \<open>benchmark/benchmark.h\<close> reads a key file, splits the keys into an initial table
  and keys to insert or delete, generates a list of operations, loads an index with the initial
  table and lets a number of threads run the operations against it; it counts what succeeded and
  prints statistics. The index is an object of the abstract class \<open>competitor/indexInterface.h\<close>;
  each competitor has an adapter \<open>competitor/<name>/<name>.h\<close> to its data structure.
  \<open>ours/test.cpp\<close> is a test driver for the same interface.

  \<^bold>\<open>The theories.\<close> A C++ class is a record, a member function a function on it; a read outside an
  array or of an uninitialised value is \<open>None\<close>, so that a theorem which says that a function
  returns \<open>Some\<close> also says that it stays inside its arrays.

  \<^item> \<open>Prelude\<close>: bounds-checked arrays, key-sorted association lists.
  \<^item> \<open>BTreeNodes\<close>, \<open>BTreeInv\<close>: nodes, traits, statistics and slot searches of the STX B+ tree
    (\<open>competitor/btree/src/include/stx/btree.h\<close>) and its invariant: order and fill of the nodes,
    equal depth, separators, the doubly linked list of leaves, the counters.
  \<^item> \<open>BTreeInsert\<close> (\<open>insert_start\<close>, \<open>insert_descend\<close>, both splits), \<open>BTreeErase\<close>, \<open>BTreeEraseOk\<close>,
    \<open>BTreeEraseCorrect\<close> (\<open>erase_one_descend\<close>, merges and shifts), \<open>BTreeEraseIter\<close>
    (\<open>erase(iterator)\<close>, range insertion), \<open>BTreeBulk\<close> (\<open>bulk_load\<close>), \<open>BTreeMaint\<close> (\<open>clear\<close>, copy,
    \<open>swap\<close>), \<open>BTreeDump\<close> (\<open>dump\<close>, \<open>restore\<close>), \<open>BTreeVerify\<close> (\<open>verify\<close>): each operation keeps the
    invariant and acts on the sorted contents as on a map. \<open>Cursor\<close> and \<open>BTreeIter\<close>: iterators as
    positions of a linked list of blocks, \<open>find\<close>, \<open>lower_bound\<close>, \<open>upper_bound\<close>, comparisons.
  \<^item> \<open>OlcNodes\<close>, \<open>OlcTree\<close>, \<open>OlcInv\<close>, \<open>OlcConc\<close>: the B+ tree with optimistic lock coupling
    (\<open>competitor/btreeolc/src/BTreeOLC/BTreeOLC_child_layout.h\<close>) as a transition system with one
    step for each access of \<open>insert\<close> or \<open>lookup\<close> to shared memory. A rely-guarantee invariant gives
    linearizability and mutual exclusion. \<open>OlcScan\<close>: \<open>scan\<close> without interference.
  \<^item> \<open>PgmLevels\<close>, \<open>PgmInsert\<close>, \<open>PgmQuery\<close>, \<open>LoserTree\<close>, \<open>PgmIter\<close>: the dynamic PGM index
    (\<open>competitor/pgm/src/include/pgm/pgm_index_dynamic.hpp\<close>), a sequence of sorted levels of growing
    size with tombstones: the constructors, \<open>insert\<close> with its merges, the queries, the tournament
    tree and the iterator. The levels represent a map, which updates change and queries and
    iterations read as expected.
  \<^item> \<open>PgmHull\<close>, \<open>PgmMetric\<close>: the metric of a data set (\<open>benchmark/pgm_metric.h\<close>). The two hulls of
    \<open>OptimalPiecewiseLinearModel\<close> keep exactly the information that decides whether one line still fits
    all points of a segment, and the greedy loop of \<open>PGM_metric\<close>, by the locale \<open>hereditary\<close>, returns the least
    number of segments.
  \<^item> \<open>PgmSegments\<close>, \<open>PgmStatic\<close>: the static PGM index (\<open>piecewise_linear_model.hpp\<close>, \<open>pgm_index.hpp\<close>) with the
    same hulls: the segmentation by one or several threads, the levels of segments and the search. The window that the
    search returns contains the place of the key.
  \<^item> \<open>IndexApi\<close>: \<open>indexInterface\<close> as a record of operations, its contract as the locales
    \<open>bounded_index\<close> (with limits) and \<open>index_api\<close> (without, a sublocale), each with an extension for scans,
    and the test driver, proved correct once inside the locale. \<open>NaiveIndex\<close>
    (\<open>ours/naive_index_interface.h\<close>) and \<open>BTreeIndex\<close> (\<open>competitor/btree/btree.h\<close>) and, within its limits, \<open>PgmIndex\<close> (\<open>competitor/pgm/pgm.h\<close>) interpret it.
  \<^item> \<open>Flags\<close> (\<open>benchmark/flags.h\<close>), \<open>Zipf\<close> (\<open>benchmark/zipf.h\<close>, key samplers of \<open>benchmark/utils.h\<close>),
    \<open>Workload\<close> (\<open>load_keys\<close>, \<open>generate_operations\<close>), \<open>BenchRun\<close> (\<open>run\<close>, \<open>Stat\<close>, the latency columns of
    \<open>print_stat\<close>, \<open>run_benchmark\<close>): the locale \<open>bench_index\<close> extends \<open>bounded_index\<close> and shows
    for every index that keeps the contract that the whole program ends and counts correctly.

  This theory composes them: the whole benchmark on the B+ tree and on the dynamic PGM index.

  \<^bold>\<open>Bounds and fuel.\<close> Loops are structural recursions, or have a measure. Fuel is used where the
  C++ loop follows pointers: the walks along the leaves of the STX tree are given the number of
  leaves, the descent and the walk of \<open>OlcScan\<close> the number of pages; the theorems show that this
  is enough. Node capacities are those of the \<open>traits\<close> record (between 8
  and 256 slots, which is what the default traits compute). Version words of the lock-coupling tree
  have their 64 bits, and the theorems hold for runs of fewer than \<open>2 ^ 62\<close> steps, before a version can wrap. The check of
  \<open>verify\<close> counts in 32 bits and is shown to fail beyond them. The loops of the PGM iterator are partial
  functions that are shown to end. The sizes of its levels are natural numbers; that the code's
  shifts and byte-sized level numbers do not overflow below \<open>2 ^ 48\<close> pairs and updates is a theorem. The
  coordinates of the metric are integers; that their products fit into the 128 bits of the code is a lemma.

  \<^bold>\<open>Parameters.\<close> Random engines, shuffles, sorts, the file contents, comparisons of doubles, time
  stamps and the schedule of the threads are arguments. A call of an index operation by a thread
  of the benchmark is one atomic step; that this is right for the tree with optimistic lock
  coupling is what \<open>OlcConc\<close> shows. The search in the
  static PGM index of a level is an argument, with the hypothesis that its window contains the
  place of the key, which the static index is shown to meet in its domain; the product of a
  floating-point slope with a distance is an argument there, taken to be exact up to the integer below. So is the machine's value of a shift by 64 bits.

  \<^bold>\<open>Not modelled.\<close> Output to the console and to CSV files, the conversion of argument strings to
  numbers, time measurement (\<open>tscns.h\<close>), memory barriers and weak memory (the lock-coupling tree
  uses sequentially consistent atomics, plain accesses are taken to be atomic), memory reclamation,
  the mean square error and the data generators of \<open>pgm_metric.h\<close>, the learned indexes whose
  layout is decided by floating-point models (ALEX, LIPP, XIndex, FINEdex, SALI),
  the tries and the third-party structures (ART, HOT, Masstree, Verlib, FAST, BwTree).
\<close>

section \<open>An example input\<close>

definition sample_file :: "u64 list" where
  "sample_file = [5, 1, 9, 1, 3, 7, 2, 8, 6, 4, 9]"

definition sample_ratios :: "nat ratios" where
  "sample_ratios = \<lparr>read_ratio = 5, insert_ratio = 5, update_ratio = 0, scan_ratio = 0\<rparr>"

definition sample_configs :: "(nat \<times> (nat \<Rightarrow> (nat \<times> nat) list)) list" where
  "sample_configs = [(1, \<lambda>m. map (Pair 0) [0..<m]), (2, \<lambda>m. map (\<lambda>i. (i mod 2, i)) [0..<m])]"

lemma sample_input:
  "shuffles (rev :: u64 list \<Rightarrow> u64 list)" "\<forall>n. n div 2 \<le> (n::nat)" "\<forall>n. n div 2 \<le> n - n div (2::nat)" "10 \<le> length sample_file"
  "sampling_ok (Uniform [0, 3, 1]) (card (set sample_file) div 2) (length [1, 7, 8::nat])"
  "insert_xor_delete (+) sample_ratios [1, 7, 8]"
  "\<forall>(n, sched) \<in> set sample_configs. \<forall>m. schedule_ok n m (sched m)" "metric_settings sample_settings (card (set sample_file))"
proof -
  show "\<forall>(n, sched) \<in> set sample_configs. \<forall>m. schedule_ok n m (sched m)"
    by (auto simp: sample_configs_def schedule_ok_def multiset.map_comp o_def simp del: upt_Suc)
qed (auto simp: shuffles_def insert_xor_delete_def sample_ratios_def sample_file_def metric_settings_def sample_settings_def sampling_ok_def card_insert_if; presburger)+

section \<open>The benchmark on the B+ tree, from the key file to the statistics\<close>



section \<open>The static index in the levels of the dynamic one\<close>

text \<open>
  The search that a level of the dynamic index calls: where the static index is defined, the window it
  returns, with its default error bounds of 16 and 4; otherwise the whole level.
\<close>

definition static_domain :: "u64 list \<Rightarrow> u64 \<Rightarrow> bool" where
  "static_domain ks x \<longleftrightarrow> ks \<noteq> [] \<and> - 1 \<notin> set ks \<and> x \<noteq> - 1 \<and> length ks < 2 ^ 30 \<and>
     (int (length ks) + 21) * (max (uint (hd ks)) (uint x) + 1) < 2 ^ 63"

definition static_search :: "nat \<Rightarrow> (slope \<Rightarrow> int \<Rightarrow> int) \<Rightarrow> pgm_search" where
  "static_search q mul ks x =
     (case (if static_domain ks x then pgm_build q 16 4 (map uint ks) else None) of
        Some (Inr ix) \<Rightarrow> (case pgm_search_ix mul 16 4 ix (uint x) of Some (lo, hi) \<Rightarrow> (nat lo, nat hi) | None \<Rightarrow> (0, length ks))
      | _ \<Rightarrow> (0, length ks))"

lemma uint_less_max: "(x :: u64) \<noteq> - 1 \<Longrightarrow> uint x < max_key"
proof -
  assume "x \<noteq> - 1"
  then have "uint x \<noteq> uint (- 1 :: u64)" by (simp only: word_uint_eq_iff not_False_eq_True)
  moreover have "uint (- 1 :: u64) = 2 ^ 64 - 1" by (simp add: unsigned_minus_1_eq_mask mask_eq_exp_minus_1)
  ultimately show ?thesis using uint_lt2p [of x] by (simp add: max_key_def)
qed

lemma static_window:
  assumes "mul_exact mul" "0 < q" "q \<le> 20" "sorted_wrt (<) ks" "static_domain ks x"
  shows "\<exists>ix lo hi. pgm_build q 16 4 (map uint ks) = Some (Inr ix) \<and> pgm_search_ix mul 16 4 ix (uint x) = Some (int lo, int hi) \<and>
    static_search q mul ks x = (lo, hi) \<and> lo \<le> hi \<and> hi \<le> length ks \<and> (\<forall>i < lo. ks ! i < x) \<and> (\<forall>i < length ks. hi \<le> i \<longrightarrow> x < ks ! i)"
proof -
  have d: "ks \<noteq> []" "- 1 \<notin> set ks" "x \<noteq> - 1" "length ks < 2 ^ 30" "(int (length ks) + 21) * (max (uint (hd ks)) (uint x) + 1) < 2 ^ 63"
    using assms(5) by (auto simp: static_domain_def)
  have "sorted_wrt (<) (map uint ks)"
    using assms(4) unfolding sorted_wrt_map by (rule sorted_wrt_mono_rel [rotated]) (simp add: word_less_def)
  moreover have "uint y < max_key" if "y \<in> set ks" for y using that d(2) by (intro uint_less_max) auto
  then have "\<forall>y \<in> set (map uint ks). 0 \<le> y \<and> y < max_key" by auto
  ultimately obtain ix lo hi where
    w: "pgm_build q 16 4 (map uint ks) = Some (Inr ix)" "pgm_search_ix mul 16 4 ix (uint x) = Some (lo, hi)" "0 \<le> lo" "lo \<le> hi" "hi \<le> int (length ks)"
    "\<forall>i. int i < lo \<longrightarrow> map uint ks ! i < uint x" "\<forall>i < length ks. hi \<le> int i \<longrightarrow> uint x < map uint ks ! i"
    using pgm_search_ok [of "map uint ks" 16 4 q mul "uint x"] assms(1-3) d uint_less_max [OF d(3)] by (auto simp: hd_map add.assoc)
  have "ks ! i < x" if "i < nat lo" for i
  proof -
    have "int i < lo" "i < length ks" using that w(3-5) by linarith+
    moreover from this(1) have "map uint ks ! i < uint x" using w(6) by blast
    ultimately show ?thesis by (simp add: word_less_def)
  qed
  moreover have "x < ks ! i" if "i < length ks" "nat hi \<le> i" for i
  proof -
    have "hi \<le> int i" using that(2) by simp
    then have "uint x < map uint ks ! i" using w(7) that(1) by blast
    then show ?thesis using that(1) by (simp add: word_less_def)
  qed
  moreover have "static_search q mul ks x = (nat lo, nat hi)" using w(1,2) assms(5) by (simp add: static_search_def)
  ultimately show ?thesis using w(1-5) by (intro exI [of _ ix] exI [of _ "nat lo"] exI [of _ "nat hi"]) (simp add: nat_le_iff nat_mono)
qed

lemma static_search_ok: "mul_exact mul \<Longrightarrow> 0 < q \<Longrightarrow> q \<le> 20 \<Longrightarrow> search_ok (static_search q mul)"
  unfolding search_ok_def
proof (intro allI impI)
  fix ks :: "u64 list" and x
  assume a: "mul_exact mul" "0 < q" "q \<le> 20" "sorted_wrt (<) ks"
  show "fst (static_search q mul ks x) \<le> snd (static_search q mul ks x) \<and> snd (static_search q mul ks x) \<le> length ks \<and>
    (\<forall>i < fst (static_search q mul ks x). ks ! i < x) \<and> (\<forall>i < length ks. snd (static_search q mul ks x) \<le> i \<longrightarrow> x < ks ! i)"
  proof (cases "static_domain ks x")
    case True
    from static_window [OF a True] show ?thesis by auto
  qed (simp add: static_search_def)
qed



section \<open>The benchmark on the dynamic PGM index\<close>

text \<open>Removing an absent key inserts a tombstone and reports success.\<close>

lemma pgm_bench_index:
  assumes "search_ok search"
  shows "bench_index (pgm_index (Some 1) search) pgm_inv (\<lambda>_. True) pgm_items pgm_ok pgm_room True"
proof -
  have b: "bounded_index (pgm_index (Some 1) search) pgm_inv (\<lambda>_. True) pgm_items pgm_ok pgm_room"
    using pgm_bounded_scan [OF assms refl] by (rule bounded_scan.axioms)
  have "bench_index_axioms (pgm_index (Some 1) search) pgm_inv pgm_items pgm_ok pgm_room True"
  proof
    fix n s k v assume "pgm_inv (Suc n) s" "k \<notin> set (keys_of (pgm_items s))" "pgm_ok k v"
    then show "\<exists>s'. remove_op (pgm_index (Some 1) search) s k = Some (s', True) \<and> pgm_inv n s' \<and> pgm_items s' = pgm_items s"
      using pgm_remove_ok [of n s k] del_kv_absent [OF bounded_index.items_sorted [OF b], of "Suc n" s k]
      by (simp add: pgm_index_def pgm_ok_def)
  next
    show "pgm_inv n s" if "pgm_inv (Suc n) s" for n s using that by (fastforce simp: pgm_inv_def pgm_room_def)
    show "pgm_room m" if "pgm_room n" "m \<le> n" for n m using that by (simp add: pgm_room_def)
  qed
  with b show ?thesis by (rule bench_index.intro)
qed



end
